(* ===== verification/Prelude.thy ===== *)
theory Prelude
  imports Main "HOL-Library.Word"
begin

text \<open>
  Shared vocabulary of the development: the C integer types of the firmware as machine
  words, byte buffers as lists with a checked block copy, and the generic lemmas on words
  and buffers that the component theories share.  A C buffer access outside the array is
  undefined behaviour; every operation that copies into a buffer therefore returns an
  option, where \<^const>\<open>None\<close> stands for a write past the end of the array.
\<close>

unbundle bit_operations_syntax

section \<open>Machine integers\<close>

type_synonym u8 = "8 word"
type_synonym u16 = "16 word"
type_synonym u32 = "32 word"

named_theorems byte_simps \<open>facts on bytes, words and buffers used by the packet proofs\<close>
named_theorems frame_simps \<open>which fields of a state an operation leaves unchanged\<close>

text \<open>The high and the low byte of a 16-bit value, as the packet builders write them.\<close>

definition hi8 :: "u16 \<Rightarrow> u8" where
  "hi8 w = ucast (drop_bit 8 w)"

definition lo8 :: "u16 \<Rightarrow> u8" where
  "lo8 w = ucast (w AND 0xff)"

definition join16 :: "u8 \<Rightarrow> u8 \<Rightarrow> u16" where
  "join16 h l = push_bit 8 (ucast h) OR ucast l"

lemma and_0xff16 [byte_simps]: "(w :: u16) AND 0xff = take_bit 8 w"
  by (simp add: take_bit_eq_mask mask_eq_exp_minus_1)

lemma lo8_ucast: "lo8 w = ucast w"
  by (rule bit_word_eqI) (auto simp: lo8_def byte_simps bit_simps)

lemma join16_hi_lo [simp]: "join16 (hi8 w) (lo8 w) = w"
  by (rule bit_word_eqI) (auto simp: join16_def hi8_def lo8_ucast bit_simps)

lemma hi8_join16 [simp]: "hi8 (join16 h l) = h"
  by (rule bit_word_eqI) (auto simp: join16_def hi8_def bit_simps dest: bit_imp_le_length)

lemma lo8_join16 [simp]: "lo8 (join16 h l) = l"
  by (rule bit_word_eqI) (auto simp: join16_def lo8_ucast bit_simps dest: bit_imp_le_length)

lemma join16_inject [simp]: "join16 a b = join16 c d \<longleftrightarrow> a = c \<and> b = d"
  by (metis hi8_join16 lo8_join16)

lemma unat_of_nat16: "n < 2 ^ 16 \<Longrightarrow> unat (of_nat n :: u16) = n"
  by (simp add: unat_of_nat take_bit_nat_eq_self)

lemma unat_ucast_16_32 [simp]: "unat (ucast (n :: u16) :: u32) = unat n"
proof -
  have "unat n < 2 ^ 16" using unsigned_less [of n] by simp
  then show ?thesis by (simp add: unsigned_ucast_eq take_bit_nat_eq_self)
qed

text \<open>Masking a single bit.\<close>

lemma and_single_bit: "w AND push_bit n 1 = (if bit w n then push_bit n 1 else 0)" for w :: "'a::len word"
  by (rule bit_word_eqI) (auto simp: bit_simps)

section \<open>Byte buffers\<close>

text \<open>
  \<open>poke buf off src\<close> is \<open>memcpy(&buf[off], src, length src)\<close>, and also a run of
  assignments to consecutive elements.  It is \<^const>\<open>None\<close> when the block does not fit.
\<close>

definition poke :: "'a list \<Rightarrow> nat \<Rightarrow> 'a list \<Rightarrow> 'a list option" where
  "poke buf off src =
     (if off + length src \<le> length buf
      then Some (take off buf @ src @ drop (off + length src) buf) else None)"

text \<open>\<open>peek buf off n\<close> reads \<open>n\<close> elements from offset \<open>off\<close>; reads past the end fail.\<close>

definition peek :: "'a list \<Rightarrow> nat \<Rightarrow> nat \<Rightarrow> 'a list option" where
  "peek buf off n = (if off + n \<le> length buf then Some (take n (drop off buf)) else None)"

lemma poke_None_iff [simp]: "poke buf off src = None \<longleftrightarrow> length buf < off + length src"
  by (auto simp: poke_def)

lemma poke_length: "poke buf off src = Some b \<Longrightarrow> length b = length buf"
  by (auto simp: poke_def split: if_splits)

lemma poke_Some: "off + length src \<le> length buf \<Longrightarrow>
    poke buf off src = Some (take off buf @ src @ drop (off + length src) buf)"
  by (simp add: poke_def)

lemma poke_prefix:
  assumes "poke buf off src = Some b"
  shows "take off b = take off buf"
  using assms by (auto simp: poke_def split: if_splits)

lemma poke_block:
  assumes "poke buf off src = Some b"
  shows "take (length src) (drop off b) = src"
  using assms by (auto simp: poke_def split: if_splits)

lemma poke_extend_prefix:
  assumes "poke buf off src = Some b" and "take off buf = p" and "length p = off"
  shows "take (off + length src) b = p @ src"
  using assms by (auto simp: poke_def split: if_splits)

lemma poke_nth:
  assumes "poke buf off src = Some b" and "i < length buf"
  shows "b ! i = (if off \<le> i \<and> i < off + length src then src ! (i - off) else buf ! i)"
  using assms by (auto simp: poke_def nth_append split: if_splits)

lemma peek_poke:
  assumes "poke buf off src = Some b"
  shows "peek b off (length src) = Some src"
  using assms by (auto simp: poke_def peek_def split: if_splits)

end
