(* ===== verification/Crc16.thy ===== *)
theory Crc16
  imports Prelude
begin

text \<open>
  The CRC of the CAN protocol: the bitwise routine \<open>CRC16_XMODEM\<close> of
  HARDWARE/CAN/can.c and the table-driven \<open>crc16_xmodem\<close> of HARDWARE/CAN/crc16.h.
  The lemmas show that the register update is linear and injective over XOR, from which
  the equality of the two routines, the zero residue of a message followed by its CRC and
  the detection of short error bursts follow.
\<close>

section \<open>The bitwise routine\<close>

text \<open>One pass of the inner loop: shift left, and add the polynomial 0x1021 when bit 15 was set.\<close>

definition crc_bit :: "u16 \<Rightarrow> u16" where
  "crc_bit c = (if c AND 0x8000 \<noteq> 0 then push_bit 1 c XOR 0x1021 else push_bit 1 c)"

fun crc_bits :: "nat \<Rightarrow> u16 \<Rightarrow> u16" where
  "crc_bits 0 c = c"
| "crc_bits (Suc n) c = crc_bits n (crc_bit c)"

definition crc_byte :: "u16 \<Rightarrow> u8 \<Rightarrow> u16" where
  "crc_byte c b = crc_bits 8 (c XOR push_bit 8 (ucast b))"

text \<open>The outer loop \<open>while (usDataLen--)\<close>, reading \<open>*(puchMsg++)\<close>.\<close>

fun crc_loop :: "u8 list \<Rightarrow> nat \<Rightarrow> nat \<Rightarrow> u16 \<Rightarrow> u16" where
  "crc_loop msg p 0 crc = crc"
| "crc_loop msg p (Suc n) crc = crc_loop msg (Suc p) n (crc_byte crc (msg ! p))"

definition CRC16_XMODEM :: "u8 list \<Rightarrow> u16 \<Rightarrow> u16" where
  "CRC16_XMODEM puchMsg usDataLen = crc_loop puchMsg 0 (unat usDataLen) 0"

section \<open>The table-driven routine\<close>

definition crc16tab :: "u16 list" where
  "crc16tab = [
    0x0000, 0x1021, 0x2042, 0x3063, 0x4084, 0x50a5, 0x60c6, 0x70e7,
    0x8108, 0x9129, 0xa14a, 0xb16b, 0xc18c, 0xd1ad, 0xe1ce, 0xf1ef,
    0x1231, 0x0210, 0x3273, 0x2252, 0x52b5, 0x4294, 0x72f7, 0x62d6,
    0x9339, 0x8318, 0xb37b, 0xa35a, 0xd3bd, 0xc39c, 0xf3ff, 0xe3de,
    0x2462, 0x3443, 0x0420, 0x1401, 0x64e6, 0x74c7, 0x44a4, 0x5485,
    0xa56a, 0xb54b, 0x8528, 0x9509, 0xe5ee, 0xf5cf, 0xc5ac, 0xd58d,
    0x3653, 0x2672, 0x1611, 0x0630, 0x76d7, 0x66f6, 0x5695, 0x46b4,
    0xb75b, 0xa77a, 0x9719, 0x8738, 0xf7df, 0xe7fe, 0xd79d, 0xc7bc,
    0x48c4, 0x58e5, 0x6886, 0x78a7, 0x0840, 0x1861, 0x2802, 0x3823,
    0xc9cc, 0xd9ed, 0xe98e, 0xf9af, 0x8948, 0x9969, 0xa90a, 0xb92b,
    0x5af5, 0x4ad4, 0x7ab7, 0x6a96, 0x1a71, 0x0a50, 0x3a33, 0x2a12,
    0xdbfd, 0xcbdc, 0xfbbf, 0xeb9e, 0x9b79, 0x8b58, 0xbb3b, 0xab1a,
    0x6ca6, 0x7c87, 0x4ce4, 0x5cc5, 0x2c22, 0x3c03, 0x0c60, 0x1c41,
    0xedae, 0xfd8f, 0xcdec, 0xddcd, 0xad2a, 0xbd0b, 0x8d68, 0x9d49,
    0x7e97, 0x6eb6, 0x5ed5, 0x4ef4, 0x3e13, 0x2e32, 0x1e51, 0x0e70,
    0xff9f, 0xefbe, 0xdfdd, 0xcffc, 0xbf1b, 0xaf3a, 0x9f59, 0x8f78,
    0x9188, 0x81a9, 0xb1ca, 0xa1eb, 0xd10c, 0xc12d, 0xf14e, 0xe16f,
    0x1080, 0x00a1, 0x30c2, 0x20e3, 0x5004, 0x4025, 0x7046, 0x6067,
    0x83b9, 0x9398, 0xa3fb, 0xb3da, 0xc33d, 0xd31c, 0xe37f, 0xf35e,
    0x02b1, 0x1290, 0x22f3, 0x32d2, 0x4235, 0x5214, 0x6277, 0x7256,
    0xb5ea, 0xa5cb, 0x95a8, 0x8589, 0xf56e, 0xe54f, 0xd52c, 0xc50d,
    0x34e2, 0x24c3, 0x14a0, 0x0481, 0x7466, 0x6447, 0x5424, 0x4405,
    0xa7db, 0xb7fa, 0x8799, 0x97b8, 0xe75f, 0xf77e, 0xc71d, 0xd73c,
    0x26d3, 0x36f2, 0x0691, 0x16b0, 0x6657, 0x7676, 0x4615, 0x5634,
    0xd94c, 0xc96d, 0xf90e, 0xe92f, 0x99c8, 0x89e9, 0xb98a, 0xa9ab,
    0x5844, 0x4865, 0x7806, 0x6827, 0x18c0, 0x08e1, 0x3882, 0x28a3,
    0xcb7d, 0xdb5c, 0xeb3f, 0xfb1e, 0x8bf9, 0x9bd8, 0xabbb, 0xbb9a,
    0x4a75, 0x5a54, 0x6a37, 0x7a16, 0x0af1, 0x1ad0, 0x2ab3, 0x3a92,
    0xfd2e, 0xed0f, 0xdd6c, 0xcd4d, 0xbdaa, 0xad8b, 0x9de8, 0x8dc9,
    0x7c26, 0x6c07, 0x5c64, 0x4c45, 0x3ca2, 0x2c83, 0x1ce0, 0x0cc1,
    0xef1f, 0xff3e, 0xcf5d, 0xdf7c, 0xaf9b, 0xbfba, 0x8fd9, 0x9ff8,
    0x6e17, 0x7e36, 0x4e55, 0x5e74, 0x2e93, 0x3eb2, 0x0ed1, 0x1ef0
  ]"

definition crc_tab_byte :: "u16 \<Rightarrow> u8 \<Rightarrow> u16" where
  "crc_tab_byte crc b =
     push_bit 8 crc XOR crc16tab ! unat ((drop_bit 8 crc XOR ucast b) AND 0x00FF)"

fun crc_tab_loop :: "u8 list \<Rightarrow> nat \<Rightarrow> nat \<Rightarrow> u16 \<Rightarrow> u16" where
  "crc_tab_loop buf p 0 crc = crc"
| "crc_tab_loop buf p (Suc n) crc = crc_tab_loop buf (Suc p) n (crc_tab_byte crc (buf ! p))"

definition crc16_xmodem :: "u8 list \<Rightarrow> u32 \<Rightarrow> u16" where
  "crc16_xmodem buf len = crc_tab_loop buf 0 (unat len) 0"

section \<open>The register update is linear and injective\<close>

lemma crc_bit_test [byte_simps]: "(c :: u16) AND 0x8000 = 0 \<longleftrightarrow> \<not> bit c 15"
  using and_exp_eq_0_iff_not_bit [of c 15] by simp

lemma crc_bit_alt: "crc_bit c = (if bit c 15 then push_bit 1 c XOR 0x1021 else push_bit 1 c)"
  by (simp add: crc_bit_def crc_bit_test)

lemma crc_bit_0 [simp]: "crc_bit 0 = 0"
  by (simp add: crc_bit_def)

lemma bit_double [byte_simps]: "bit (c * 2 :: u16) n \<longleftrightarrow> n < 16 \<and> n \<noteq> 0 \<and> bit c (n - 1)"
  using bit_push_bit_iff [of 1 c n] by (auto simp: bit_simps dest: bit_imp_le_length)

lemma crc_bit_xor: "crc_bit (a XOR b) = crc_bit a XOR crc_bit b"
  by (simp add: crc_bit_alt bit_xor_iff push_bit_xor ac_simps)

lemma crc_bits_0 [simp]: "crc_bits n 0 = 0"
  by (induction n) auto

lemma crc_bits_xor: "crc_bits n (a XOR b) = crc_bits n a XOR crc_bits n b"
  by (induction n arbitrary: a b) (auto simp: crc_bit_xor)

lemma crc_bits_add: "crc_bits (m + n) c = crc_bits n (crc_bits m c)"
  by (induction m arbitrary: c) auto

lemma crc_bit_eq_0: "crc_bit c = 0 \<Longrightarrow> c = 0"
proof -
  assume z: "crc_bit c = 0"
  have "bit (crc_bit c) 0 \<longleftrightarrow> bit c 15"
    by (auto simp: crc_bit_alt bit_simps byte_simps)
  with z have top: "\<not> bit c 15" by simp
  with z have p: "push_bit 1 c = 0" by (simp add: crc_bit_alt)
  show "c = 0"
  proof (rule bit_word_eqI)
    fix n assume "n < LENGTH(16)"
    then have "n = 15 \<or> Suc n < 16" by auto
    moreover have "Suc n < 16 \<Longrightarrow> bit c n \<longleftrightarrow> bit (push_bit 1 c) (Suc n)"
      by (simp add: bit_simps byte_simps)
    ultimately show "bit c n \<longleftrightarrow> bit 0 n" using top p by auto
  qed
qed

lemma crc_bits_eq_0: "crc_bits n c = 0 \<Longrightarrow> c = 0"
  by (induction n arbitrary: c) (auto dest: crc_bit_eq_0)

lemma crc_bits_inject: "crc_bits n a = crc_bits n b \<longleftrightarrow> a = b"
proof
  assume "crc_bits n a = crc_bits n b"
  then have "crc_bits n (a XOR b) = 0" by (simp add: crc_bits_xor)
  then have z: "a XOR b = 0" by (rule crc_bits_eq_0)
  have "a = b XOR (a XOR b)" by (simp add: ac_simps)
  with z show "a = b" by simp
qed simp

text \<open>A register with \<open>n\<close> empty top bits is shifted left \<open>n\<close> times without feedback.\<close>

lemma crc_bits_shift:
  "n \<le> 16 \<Longrightarrow> (\<And>i. 16 - n \<le> i \<Longrightarrow> \<not> bit c i) \<Longrightarrow> crc_bits n c = push_bit n c"
proof (induction n arbitrary: c)
  case 0
  then show ?case by simp
next
  case (Suc n)
  from Suc.prems have "crc_bit c = push_bit 1 c" by (simp add: crc_bit_alt)
  moreover have "crc_bits n (push_bit 1 c) = push_bit n (push_bit 1 c)"
  proof (rule Suc.IH)
    show "n \<le> 16" using Suc.prems(1) by simp
    fix i assume i: "16 - n \<le> i"
    with Suc.prems(1) have "16 - Suc n \<le> i - 1" by linarith
    with Suc.prems(2) have "\<not> bit c (i - 1)" by blast
    then show "\<not> bit (push_bit 1 c) i" by (simp add: byte_simps)
  qed
  ultimately show ?case by (simp add: push_bit_push_bit add.commute)
qed

lemma crc_bits_low_byte: "crc_bits 8 (take_bit 8 c) = push_bit 8 c"
proof -
  have "crc_bits 8 (take_bit 8 c) = push_bit 8 (take_bit 8 c)"
    by (rule crc_bits_shift) (auto simp: bit_simps)
  also have "\<dots> = push_bit 8 c"
    by (rule bit_word_eqI) (auto simp: bit_simps)
  finally show ?thesis .
qed

lemma split_low_byte: "(c :: u16) = push_bit 8 (drop_bit 8 c) XOR take_bit 8 c"
  by (rule bit_word_eqI) (auto simp: bit_simps)

lemma crc_bits_8_split: "crc_bits 8 c = crc_bits 8 (push_bit 8 (drop_bit 8 c)) XOR push_bit 8 c"
proof -
  have "crc_bits 8 c = crc_bits 8 (push_bit 8 (drop_bit 8 c) XOR take_bit 8 c)"
    using split_low_byte [of c] by simp
  then show ?thesis by (simp only: crc_bits_xor crc_bits_low_byte)
qed

lemma crc_byte_xor: "crc_byte c b = crc_bits 8 c XOR crc_bits 8 (push_bit 8 (ucast b))"
  by (simp add: crc_byte_def crc_bits_xor)

section \<open>The table\<close>

text \<open>
  By linearity the table of all \<open>2\<^sup>n\<close> entries is spanned by the \<open>n\<close> entries at
  powers of two: \<open>span_tab\<close> doubles the table once per basis entry.
\<close>

definition tab_entry :: "u16 \<Rightarrow> u16" where
  "tab_entry x = crc_bits 8 (push_bit 8 x)"

fun span_tab :: "u16 list \<Rightarrow> u16 list" where
  "span_tab [] = [0]"
| "span_tab (b # bs) = (let t = span_tab bs in t @ map (\<lambda>x. x XOR b) t)"

lemma tab_entry_xor: "tab_entry (a XOR b) = tab_entry a XOR tab_entry b"
  by (simp add: tab_entry_def push_bit_xor crc_bits_xor)

lemma bit_nat_bound: "k < 2 ^ n \<Longrightarrow> bit (k :: nat) i \<Longrightarrow> i < n"
proof (rule ccontr)
  assume "k < 2 ^ n" and "bit k i" and "\<not> i < n"
  then have "k < 2 ^ i" by (meson leI le_less_trans less_le_trans one_le_numeral power_increasing)
  then have "k div 2 ^ i = 0" by simp
  with \<open>bit k i\<close> show False by (simp add: bit_iff_odd)
qed

lemma of_nat_add_pow2_xor:
  assumes "k < 2 ^ n" and "n < 16"
  shows "(of_nat (2 ^ n + k) :: u16) = of_nat k XOR 2 ^ n"
proof -
  have 1: "\<not> bit (of_nat k :: u16) n"
    using bit_nat_bound [OF assms(1), of n] by (auto simp: bit_simps)
  have "(of_nat (2 ^ n + k) :: u16) = of_nat k + 2 ^ n" by simp
  also have "\<dots> = of_nat k OR 2 ^ n"
    by (rule disjunctive_add) (use 1 in \<open>auto simp: bit_simps\<close>)
  also have "\<dots> = of_nat k XOR 2 ^ n"
    by (rule bit_word_eqI) (use 1 in \<open>auto simp: bit_simps\<close>)
  finally show ?thesis .
qed

lemma span_tab_eq:
  "n \<le> 16 \<Longrightarrow> span_tab (map (\<lambda>i. tab_entry (2 ^ i)) (rev [0..<n])) =
     map (\<lambda>k. tab_entry (of_nat k)) [0..<2 ^ n]"
proof (induction n)
  case 0
  then show ?case by (simp add: tab_entry_def)
next
  case (Suc n)
  have "[0..<2 ^ Suc n] = [0..<2 ^ n] @ map (\<lambda>k. 2 ^ n + k) [0..<2 ^ n]"
    using map_add_upt [of "2 ^ n" "2 ^ n"] upt_add_eq_append [of 0 "2 ^ n" "2 ^ n"]
    by (simp add: add.commute mult_2)
  moreover have "tab_entry (of_nat (2 ^ n + k)) = tab_entry (of_nat k) XOR tab_entry (2 ^ n)"
    if "k < 2 ^ n" for k
    using that Suc.prems by (subst of_nat_add_pow2_xor) (auto simp: tab_entry_xor)
  ultimately show ?case using Suc by (simp add: Let_def)
qed

lemma crc_bits_8:
  "crc_bits 8 c = crc_bit (crc_bit (crc_bit (crc_bit (crc_bit (crc_bit (crc_bit (crc_bit c)))))))"
  by (simp add: eval_nat_numeral)

lemma rev_upt_8: "rev [0..<8] = [7, 6, 5, 4, 3, 2, 1, 0 :: nat]"
  by code_simp

lemma tab_basis: "map (\<lambda>i. tab_entry (2 ^ i)) (rev [0..<8]) =
    [0x9188, 0x48c4, 0x2462, 0x1231, 0x8108, 0x4084, 0x2042, 0x1021]"
  by (simp add: rev_upt_8 tab_entry_def crc_bits_8) (simp add: crc_bit_def)

lemma crc16tab_span:
  "crc16tab = span_tab [0x9188, 0x48c4, 0x2462, 0x1231, 0x8108, 0x4084, 0x2042, 0x1021]"
  by (simp add: crc16tab_def Let_def)

lemma crc16tab_eq: "crc16tab = map (\<lambda>k. tab_entry (of_nat k)) [0..<256]"
  using span_tab_eq [of 8] by (simp add: crc16tab_span tab_basis)

lemma crc16tab_nth: "unat x < 256 \<Longrightarrow> crc16tab ! unat x = tab_entry x"
  by (simp add: crc16tab_eq)

lemma crc_tab_byte_eq: "crc_tab_byte c b = crc_byte c b"
proof -
  let ?x = "drop_bit 8 c XOR ucast b"
  have x: "?x AND 0x00FF = ?x"
    unfolding and_0xff16
    by (rule bit_word_eqI) (auto simp: bit_simps dest: bit_imp_le_length)
  have "unat (?x AND 0x00FF) \<le> unat (0x00FF :: u16)"
    by (rule word_and_le1 [THEN word_le_nat_alt [THEN iffD1]])
  then have b: "unat ?x < 256" unfolding x by simp
  have "crc_tab_byte c b = push_bit 8 c XOR tab_entry ?x"
    unfolding crc_tab_byte_def x by (simp only: crc16tab_nth [OF b])
  also have "\<dots> = crc_byte c b"
    by (simp add: tab_entry_def push_bit_xor crc_bits_xor crc_byte_xor crc_bits_8_split [of c]
        ac_simps)
  finally show ?thesis .
qed

lemma crc_tab_loop_eq: "crc_tab_loop buf p n crc = crc_loop buf p n crc"
  by (induction n arbitrary: p crc) (auto simp: crc_tab_byte_eq)

section \<open>The loop as a fold\<close>

definition crc_bytes :: "u16 \<Rightarrow> u8 list \<Rightarrow> u16" where
  "crc_bytes c bs = foldl crc_byte c bs"

lemma crc_bytes_simps [simp]:
  "crc_bytes c [] = c"
  "crc_bytes c (b # bs) = crc_bytes (crc_byte c b) bs"
  "crc_bytes c (xs @ ys) = crc_bytes (crc_bytes c xs) ys"
  by (auto simp: crc_bytes_def)

lemma crc_loop_fold: "p + n \<le> length msg \<Longrightarrow>
    crc_loop msg p n c = crc_bytes c (take n (drop p msg))"
proof (induction n arbitrary: p c)
  case 0
  then show ?case by simp
next
  case (Suc n)
  then have "drop p msg = msg ! p # drop (Suc p) msg"
    by (simp add: Cons_nth_drop_Suc)
  with Suc show ?case by simp
qed

lemma CRC16_XMODEM_fold: "unat n \<le> length msg \<Longrightarrow>
    CRC16_XMODEM msg n = crc_bytes 0 (take (unat n) msg)"
  by (simp add: CRC16_XMODEM_def crc_loop_fold)

lemma CRC16_XMODEM_prefix:
  "unat n = length xs \<Longrightarrow> CRC16_XMODEM (xs @ ys) n = crc_bytes 0 xs"
  by (simp add: CRC16_XMODEM_fold)

section \<open>The residue of a message with its CRC appended\<close>

lemma crc_byte_hi: "crc_byte c (hi8 c) = push_bit 8 c"
proof -
  have "c XOR push_bit 8 (ucast (hi8 c)) = take_bit 8 c"
    by (rule bit_word_eqI) (auto simp: hi8_def bit_simps)
  then show ?thesis by (simp add: crc_byte_def crc_bits_low_byte)
qed

lemma crc_byte_lo: "crc_byte (push_bit 8 c) (lo8 c) = 0"
proof -
  have "push_bit 8 c XOR push_bit 8 (ucast (lo8 c)) = 0"
    by (rule bit_word_eqI) (auto simp: lo8_ucast bit_simps)
  then show ?thesis by (simp add: crc_byte_def)
qed

lemma crc_bytes_residue [simp]: "crc_bytes c [hi8 c, lo8 c] = 0"
  by (simp add: crc_byte_hi crc_byte_lo)

lemma crc_bytes_zeros [simp]: "crc_bytes 0 (replicate n 0) = 0"
  by (induction n) (auto simp: crc_byte_def)

lemma crc_bytes_codeword: "crc_bytes 0 (msg @ [hi8 (crc_bytes 0 msg), lo8 (crc_bytes 0 msg)]) = 0"
  using crc_bytes_residue [of "crc_bytes 0 msg"] by simp

section \<open>Error detection\<close>

lemma xor_cancel_left: "(c :: u16) XOR a = c XOR b \<longleftrightarrow> a = b"
proof
  assume "c XOR a = c XOR b"
  then have "c XOR (c XOR a) = c XOR (c XOR b)" by simp
  then show "a = b" by (simp add: xor.assoc [symmetric])
qed simp

lemma crc_byte_inject: "crc_byte c b = crc_byte d b \<longleftrightarrow> c = d"
  by (simp add: crc_byte_xor xor.commute [of _ "crc_bits 8 (push_bit 8 (ucast b))"]
      xor_cancel_left crc_bits_inject)

lemma crc_bytes_inject: "crc_bytes c bs = crc_bytes d bs \<longleftrightarrow> c = d"
  by (induction bs arbitrary: c d) (auto simp: crc_byte_inject)

text \<open>Two bytes enter the register as one 16-bit word.\<close>

lemma crc_two_bytes: "crc_bytes c [a, b] = crc_bits 16 (c XOR join16 a b)"
proof -
  have ab: "join16 a b = push_bit 8 (ucast a) XOR ucast b"
    unfolding join16_def
    by (rule bit_word_eqI) (auto simp: bit_simps dest: bit_imp_le_length)
  have "take_bit 8 (ucast b :: u16) = ucast b"
    by (rule bit_word_eqI) (auto simp: bit_simps dest: bit_imp_le_length)
  then have low: "crc_bits 8 (ucast b) = push_bit 8 (ucast b)"
    using crc_bits_low_byte [of "ucast b"] by simp
  have "crc_bits 16 (c XOR join16 a b) = crc_bits 8 (crc_bits 8 (c XOR join16 a b))"
    using crc_bits_add [of 8 8 "c XOR join16 a b"] by simp
  also have "crc_bits 8 (c XOR join16 a b) = crc_byte c a XOR push_bit 8 (ucast b)"
    by (simp add: ab crc_byte_xor crc_bits_xor low xor.assoc)
  finally show ?thesis by (simp add: crc_byte_def)
qed

lemma crc_two_bytes_inject: "crc_bytes c [a, b] = crc_bytes c [a', b'] \<longleftrightarrow> a = a' \<and> b = b'"
  by (simp only: crc_two_bytes crc_bits_inject xor_cancel_left join16_inject)

lemma crc_bytes_burst:
  assumes "(a, b) \<noteq> (a', b')"
  shows "crc_bytes c (pre @ [a, b] @ post) \<noteq> crc_bytes c (pre @ [a', b'] @ post)"
proof
  assume "crc_bytes c (pre @ [a, b] @ post) = crc_bytes c (pre @ [a', b'] @ post)"
  then have "crc_bytes (crc_bytes c pre) [a, b] = crc_bytes (crc_bytes c pre) [a', b']"
    by (simp only: crc_bytes_simps(3) crc_bytes_inject)
  with assms show False by (simp only: crc_two_bytes_inject) simp
qed

section \<open>Bursts of bits\<close>

text \<open>The bits of a message in the order in which they enter the register, and one step for one bit.\<close>

definition message_bits :: "u8 list \<Rightarrow> bool list" where
  "message_bits m = concat (map (\<lambda>b. map (bit b) [7, 6, 5, 4, 3, 2, 1, 0]) m)"

definition top_bit :: "bool \<Rightarrow> u16" where
  "top_bit b = push_bit 15 (of_bool b)"

definition crc_step :: "u16 \<Rightarrow> bool \<Rightarrow> u16" where
  "crc_step c b = crc_bit (c XOR top_bit b)"

text \<open>A list of at most 16 bits, left-aligned in a register.\<close>

primrec aligned :: "bool list \<Rightarrow> u16" where
  "aligned [] = 0"
| "aligned (b # bs) = top_bit b XOR drop_bit 1 (aligned bs)"

lemma bit_top_bit: "bit (top_bit b) i \<longleftrightarrow> b \<and> i = 15"
  by (auto simp: top_bit_def bit_simps)

lemma bit_aligned: "length bs \<le> 16 \<Longrightarrow> i < 16 \<Longrightarrow> bit (aligned bs) i \<longleftrightarrow> 15 - i < length bs \<and> bs ! (15 - i)"
proof (induction bs arbitrary: i)
  case (Cons b bs)
  show ?case
  proof (cases "i = 15")
    case True
    then show ?thesis by (simp add: bit_xor_iff bit_drop_bit_eq bit_top_bit impossible_bit)
  next
    case False
    then have "15 - i = Suc (15 - Suc i)" using Cons.prems(2) by simp
    with False Cons show ?thesis by (simp add: bit_xor_iff bit_drop_bit_eq bit_top_bit)
  qed
qed simp

lemma aligned_inject:
  assumes "length xs = length ys" and "length xs \<le> 16" and "aligned xs = aligned ys"
  shows "xs = ys"
proof (rule nth_equalityI [OF assms(1)])
  fix i assume i: "i < length xs"
  have e: "15 - (15 - i) = i" "15 - i < 16" using i assms(2) by simp_all
  show "xs ! i = ys ! i"
    using bit_aligned [OF assms(2) e(2)] bit_aligned [of ys "15 - i"] assms i e by simp
qed

lemma shift_out_in: "\<not> bit (a :: u16) 0 \<Longrightarrow> push_bit 1 (drop_bit 1 a) = a"
proof (rule bit_word_eqI)
  fix i assume "\<not> bit a 0"
  then show "bit (push_bit 1 (drop_bit 1 a)) i = bit a i" if "i < LENGTH(16)"
    using that by (cases i) (simp_all add: bit_push_bit_iff bit_drop_bit_eq del: push_bit_Suc push_bit_of_Suc_0 push_bit_eq_mult)
qed

lemma crc_steps: "length bs \<le> 16 \<Longrightarrow> foldl crc_step c bs = crc_bits (length bs) (c XOR aligned bs)"
proof (induction bs arbitrary: c)
  case (Cons b bs)
  let ?a = "aligned bs"
  have "\<not> bit ?a 0" using Cons.prems bit_aligned [of bs 0] by simp
  then have "push_bit 1 (drop_bit 1 ?a) = ?a" by (rule shift_out_in)
  moreover have "crc_bit (drop_bit 1 ?a) = push_bit 1 (drop_bit 1 ?a)"
    by (simp add: crc_bit_alt bit_simps impossible_bit)
  ultimately have "crc_bit (c XOR (top_bit b XOR drop_bit 1 ?a)) = crc_step c b XOR ?a"
    by (simp add: crc_step_def crc_bit_xor flip: xor.assoc)
  then show ?case using Cons by simp
qed simp

lemma crc_step_inject: "crc_step c b = crc_step d b \<longleftrightarrow> c = d"
  using crc_bits_inject [of 1 "c XOR top_bit b" "d XOR top_bit b"]
  by (simp add: crc_step_def xor.commute [of _ "top_bit b"] xor_cancel_left)

lemma crc_steps_inject: "foldl crc_step c bs = foldl crc_step d bs \<longleftrightarrow> c = d"
  by (induction bs arbitrary: c d) (simp_all add: crc_step_inject)

lemma aligned_byte: "aligned (map (bit b) [7, 6, 5, 4, 3, 2, 1, 0]) = push_bit 8 (ucast (b :: u8))"
proof (rule bit_word_eqI)
  define l :: "nat list" where "l = [7, 6, 5, 4, 3, 2, 1, 0]"
  have len: "length l = 8" by (simp add: l_def)
  have l: "l ! k = 7 - k" if "k < 8" for k
    using that by (auto simp: l_def less_Suc_eq numeral_eq_Suc)
  fix i assume "i < LENGTH(16)"
  then have i: "i < 16" by simp
  have "bit (aligned (map (bit b) l)) i \<longleftrightarrow> 15 - i < 8 \<and> map (bit b) l ! (15 - i)"
    using bit_aligned [OF _ i, of "map (bit b) l"] by (simp add: len)
  also have "\<dots> \<longleftrightarrow> 15 - i < 8 \<and> bit b (7 - (15 - i))"
    using len l [of "15 - i"] by (cases "15 - i < 8") simp_all
  also have "\<dots> \<longleftrightarrow> 8 \<le> i \<and> bit b (i - 8)"
    using i by (cases "8 \<le> i") auto
  also have "\<dots> \<longleftrightarrow> bit (push_bit 8 (ucast b) :: u16) i"
    using i by (auto simp: bit_simps)
  finally show "bit (aligned (map (bit b) [7, 6, 5, 4, 3, 2, 1, 0])) i = bit (push_bit 8 (ucast b) :: u16) i"
    unfolding l_def .
qed

lemma crc_bytes_steps: "crc_bytes c m = foldl crc_step c (message_bits m)"
proof (induction m arbitrary: c)
  case (Cons b m)
  let ?l = "map (bit b) [7, 6, 5, 4, 3, 2, 1, 0]"
  have "crc_byte c b = foldl crc_step c ?l"
    using crc_steps [of ?l c, unfolded aligned_byte] by (simp only: crc_byte_def list.size list.map) (simp add: crc_bits_8)
  moreover have "message_bits (b # m) = ?l @ message_bits m" by (simp add: message_bits_def)
  ultimately show ?case using Cons by (simp only: foldl_append crc_bytes_simps(2))
qed (simp add: message_bits_def)

lemma crc_bytes_bit_burst:
  assumes m: "message_bits m = pre @ x @ post" "message_bits m' = pre @ y @ post"
    and xy: "length x = length y" "length x \<le> 16" "x \<noteq> y"
  shows "crc_bytes c m \<noteq> crc_bytes c m'"
proof
  let ?c = "foldl crc_step c pre"
  assume "crc_bytes c m = crc_bytes c m'"
  then have "foldl crc_step ?c x = foldl crc_step ?c y"
    by (simp only: crc_bytes_steps m foldl_append crc_steps_inject)
  then have "aligned x = aligned y"
    using crc_steps [of x ?c] crc_steps [of y ?c] xy(1,2) by (simp add: crc_bits_inject xor_cancel_left)
  with aligned_inject xy show False by blast
qed

lemma length_message_bits: "length (message_bits m) = 8 * length m"
  by (induction m) (simp_all add: message_bits_def)

section \<open>Properties\<close>

text \<open>C30: The table-driven routine of crc16.h and the bitwise routine of can.c compute the
  same CRC of every message, for every 16-bit length.\<close>

theorem crc16_xmodem_equiv: "crc16_xmodem buf (ucast n) = CRC16_XMODEM buf n"
  by (simp add: crc16_xmodem_def CRC16_XMODEM_def crc_tab_loop_eq)

text \<open>A message followed by the two bytes of its own CRC, high byte first, and by any
  number of zero bytes has CRC zero: the receiver can check a whole packet by its residue.\<close>

lemma crc16_residue:
  assumes "length msg + 2 + k < 2 ^ 16"
    and "c = CRC16_XMODEM msg (of_nat (length msg))"
  shows "CRC16_XMODEM (msg @ [hi8 c, lo8 c] @ replicate k 0) (of_nat (length msg + 2 + k)) = 0"
proof -
  have "unat (of_nat (length msg) :: u16) = length msg"
    using assms(1) by (intro unat_of_nat16) simp
  then have c: "c = crc_bytes 0 msg"
    using assms(2) by (simp add: CRC16_XMODEM_fold)
  have "unat (of_nat (length msg + 2 + k) :: u16) = length msg + 2 + k"
    using assms(1) by (intro unat_of_nat16) simp
  then have "CRC16_XMODEM (msg @ [hi8 c, lo8 c] @ replicate k 0) (of_nat (length msg + 2 + k))
      = crc_bytes 0 (msg @ [hi8 c, lo8 c] @ replicate k 0)"
    by (subst CRC16_XMODEM_fold) auto
  also have "\<dots> = 0"
    using crc_bytes_residue [of c] by (simp add: c del: crc_bytes_residue)
  finally show ?thesis .
qed

text \<open>C29: A burst of up to 16 bits changes the CRC: two messages whose bits (of every byte the most
  significant first) differ only within 16 consecutive positions, anywhere in the message and in up to three
  bytes, have different CRCs, for every length the 16-bit argument can hold.\<close>

theorem crc16_burst_detected:
  assumes "message_bits m = pre @ x @ post" and "message_bits m' = pre @ y @ post"
    and "length x = length y" and "length x \<le> 16" and "x \<noteq> y" and "length m < 2 ^ 16"
  shows "CRC16_XMODEM m (of_nat (length m)) \<noteq> CRC16_XMODEM m' (of_nat (length m'))"
proof -
  have "length (message_bits m) = length (message_bits m')" using assms(1-3) by simp
  then have l: "length m = length m'" by (simp add: length_message_bits)
  have n: "unat (of_nat (length m) :: u16) = length m"
    using assms(6) by (rule unat_of_nat16)
  have "CRC16_XMODEM m (of_nat (length m)) = crc_bytes 0 m" "CRC16_XMODEM m' (of_nat (length m')) = crc_bytes 0 m'"
    using n l by (simp_all add: CRC16_XMODEM_fold)
  then show ?thesis using crc_bytes_bit_burst [OF assms(1-5), of 0] by simp
qed

text \<open>A burst of 10 bits that reaches into three bytes.\<close>

theorem crc16_burst_detected_witness:
  "CRC16_XMODEM [0xE0, 0x01, 0x32, 0x07] 4 \<noteq> CRC16_XMODEM [0xE0, 0x00, 0xCD, 0x87] 4"
proof -
  let ?pre = "message_bits [0xE0] @ replicate 7 False" and ?post = "[False, False, False, False, True, True, True]"
  let ?x = "[True, False, False, True, True, False, False, True, False, False]"
    and ?y = "[False, True, True, False, False, True, True, False, True, True]"
  have "message_bits [0xE0, 0x01, 0x32, 0x07] = ?pre @ ?x @ ?post"
    "message_bits [0xE0, 0x00, 0xCD, 0x87] = ?pre @ ?y @ ?post"
    by (simp_all add: message_bits_def) (simp_all add: numeral_eq_Suc)
  from crc16_burst_detected [OF this] show ?thesis by simp
qed

end
