(* ===== verification/Csu_State.thy ===== *)
theory Csu_State
  imports Prelude
begin

text \<open>
  The global state of the controller (CSU): the enumerations of HARDWARE/ALARM/alarm.h, the
  measurement and set-point structures of HARDWARE/CAN/can.h, and the global variables that
  can.c, io.c, usart.c and main.c share.  The outside world is a parameter: what the input
  pins read, what interrupts and the other tasks do to the globals while a task sleeps in
  \<open>delay_ms\<close>, and what the CAN controller answers.
\<close>

section \<open>Enumerations\<close>

datatype ALARM_CODE = ALARM_CODE_NULL | OVTH3 | OVTH7 | OVTH60 | OVTH80 | OVEXT | OVINT
  | SMOKE | MFAN | RETAIN_WARNING | OVTERMINAL

datatype ERROR_CODE = ERROR_CODE_NULL | NFB_OPEN | MFUSE_BROKEN | PPC_FAULT | POWER_DROP
  | MC1_OPEN | MC2_OPEN | SR1_OPEN | SR2_OPEN | EMERGENCY_STOP

datatype SYSTEM_STATE = STANDBY | RUNNING | WARNING | FAULT | SHUTDOWN

datatype SYSTEM_POWER_STATE = POWER_HOLD | POWER_RUNING | POWER_ON | POWER_OFF | POWER_FAULT
  | POWER_ON_FAULT | POWER_OFF_FAULT

text \<open>The integer values the compiler gives to the enumerators, as they go into a packet.\<close>

primrec alarm_num :: "ALARM_CODE \<Rightarrow> u16" where
  "alarm_num ALARM_CODE_NULL = 0" | "alarm_num OVTH3 = 1" | "alarm_num OVTH7 = 2"
| "alarm_num OVTH60 = 3" | "alarm_num OVTH80 = 4" | "alarm_num OVEXT = 5"
| "alarm_num OVINT = 6" | "alarm_num SMOKE = 7" | "alarm_num MFAN = 8"
| "alarm_num RETAIN_WARNING = 9" | "alarm_num OVTERMINAL = 10"

primrec error_num :: "ERROR_CODE \<Rightarrow> u16" where
  "error_num ERROR_CODE_NULL = 0" | "error_num NFB_OPEN = 1" | "error_num MFUSE_BROKEN = 2"
| "error_num PPC_FAULT = 3" | "error_num POWER_DROP = 4" | "error_num MC1_OPEN = 5"
| "error_num MC2_OPEN = 6" | "error_num SR1_OPEN = 7" | "error_num SR2_OPEN = 8"
| "error_num EMERGENCY_STOP = 9"

primrec state_num :: "SYSTEM_STATE \<Rightarrow> u16" where
  "state_num STANDBY = 0" | "state_num RUNNING = 1" | "state_num WARNING = 2"
| "state_num FAULT = 3" | "state_num SHUTDOWN = 4"

primrec power_num :: "SYSTEM_POWER_STATE \<Rightarrow> u16" where
  "power_num POWER_HOLD = 0" | "power_num POWER_RUNING = 1" | "power_num POWER_ON = 2"
| "power_num POWER_OFF = 3" | "power_num POWER_FAULT = 4" | "power_num POWER_ON_FAULT = 5"
| "power_num POWER_OFF_FAULT = 6"

section \<open>Measurements and set points\<close>

record PTC_ELECT_DATA =
  Input_v :: u16
  Input_i :: u16
  Rectifier_output_v :: u16
  PFCInductor1_i :: u16
  PFCInductor2_i :: u16
  BUSoutput_v :: u16
  Coil_i :: u16
  INVInductor_i :: u16
  INV_fre :: u16
  Temp_envir :: u8
  Temp_rectify :: u8
  Temp_pfc_mos :: u8
  Temp_INV_mos1 :: u8
  Temp_INV_mos2 :: u8
  Output_v :: u16
  Output_i :: u16
  Output_p :: u32
  Output_MAX_i :: u16
  g_PTC_State :: u16
  g_pfc_State :: u16
  g_inv_State :: u16
  g_PFCAlarm_State :: u16
  g_INVAlarm_State :: u16

record SET_PTC_DATA =
  s_output_v :: u16
  s_output_i :: u16
  s_Bus_v :: u16
  s_INV_fre :: u16
  s_set_statu :: bool

section \<open>Pins and observable events\<close>

text \<open>The output pins the application drives.\<close>

datatype out_pin = LED_LAM | LED_Run | LED_Fault | LED_Stop | RESET_OUT | OUTPUT_RLY
  | SCREEN_485 | FAILOVER_485 | METER_485 | OUT_485

text \<open>The input pins \<open>read_io\<close> samples (io.h).\<close>

datatype in_pin = P_TH3 | P_TH7 | P_TH60 | P_TH80 | P_EXT_OHD | P_INT_OHD | P_SMOKE | P_MFAN
  | P_REMOTE_RUN | P_REMOTE_STOP | P_EXT_RESET | P_EMO | P_SPARE1 | P_SPARE2
  | P_NFB | P_MFUSE | P_PPC | P_POWER | P_MC1 | P_MC2 | P_SR1 | P_SR2

text \<open>The serial ports of \<open>uart_send_dma\<close> and their numbers in usart.h.\<close>

datatype uart_port = UART_SCREEN | UART_METER | UART_4G | UART_WIFI | UART_FAILOVER | UART_OUT

text \<open>
  What the outside sees, in order: CAN frames, serial transmissions, changes of an output
  pin, delays, feeding of the watchdog and records appended to the log on the memory card.
\<close>

datatype event =
    CanTx u32 "u8 list"
  | UartTx uart_port "u8 list"
  | PinOut out_pin bool
  | Delay nat
  | Feed
  | LogWritten

text \<open>
  The tasks and timer callbacks that post to the CAN task.  Each has one buffer of its own,
  \<open>screen_txbuf\<close> or \<open>tmr1_txbuf\<close> and so on, and posts a pointer to it.
\<close>

datatype sender = Screen_tx | Scan_tx | Tmr1_tx | Tmr2_tx

section \<open>The global variables\<close>

text \<open>
  \<open>can_q\<close> is the message queue of the CAN task (a list of pointers to the senders' buffers,
  oldest first) and \<open>txbuf\<close> the first byte of each sender's buffer.
\<close>

record csu =
  statio :: u32
  warning_code :: ALARM_CODE
  fault_code :: ERROR_CODE
  System_State :: SYSTEM_STATE
  SYSTEM_POWER :: SYSTEM_POWER_STATE
  PTCElectData :: PTC_ELECT_DATA
  SetPTCData :: SET_PTC_DATA
  canid_tx :: u32
  canid_rx :: u32
  flag_canrev :: u8
  revframe_num :: u8
  revdata_len :: u8
  crcdata :: u16
  can_temp :: "u8 list"
  revframe_pos :: u8
  can2_tbuf :: "u8 list"
  mcgs_buf :: "u8 list"
  sendbuff :: "u8 list"
  can_q :: "sender list"
  txbuf :: "sender \<Rightarrow> u8"
  odr :: "out_pin \<Rightarrow> bool"
  now :: nat
  reads :: nat
  polls :: nat
  trace :: "event list"

text \<open>The values of the globals after the C start-up code.\<close>

definition ptc_zero :: PTC_ELECT_DATA where
  "ptc_zero = \<lparr>Input_v = 0, Input_i = 0, Rectifier_output_v = 0, PFCInductor1_i = 0,
     PFCInductor2_i = 0, BUSoutput_v = 0, Coil_i = 0, INVInductor_i = 0, INV_fre = 0,
     Temp_envir = 0, Temp_rectify = 0, Temp_pfc_mos = 0, Temp_INV_mos1 = 0, Temp_INV_mos2 = 0,
     Output_v = 0, Output_i = 0, Output_p = 0, Output_MAX_i = 0, g_PTC_State = 0,
     g_pfc_State = 0, g_inv_State = 0, g_PFCAlarm_State = 0, g_INVAlarm_State = 0\<rparr>"

definition csu_init :: csu where
  "csu_init = \<lparr>statio = 0, warning_code = ALARM_CODE_NULL, fault_code = ERROR_CODE_NULL,
     System_State = STANDBY, SYSTEM_POWER = POWER_HOLD, PTCElectData = ptc_zero,
     SetPTCData = \<lparr>s_output_v = 0, s_output_i = 0, s_Bus_v = 0, s_INV_fre = 0, s_set_statu = False\<rparr>,
     canid_tx = 0, canid_rx = 0, flag_canrev = 0, revframe_num = 0, revdata_len = 0,
     crcdata = 0, can_temp = replicate 50 0, revframe_pos = 0, can2_tbuf = replicate 50 0,
     mcgs_buf = [0x77, 0x88, 0x02, 0x01] @ replicate 252 0, sendbuff = replicate 256 0,
     can_q = [], txbuf = (\<lambda>_. 0), odr = (\<lambda>_. False), now = 0, reads = 0, polls = 0, trace = []\<rparr>"

section \<open>The outside world\<close>

text \<open>
  \<open>during w k\<close> is what interrupts and the other tasks do to the globals in the \<open>k\<close>-th
  delay; \<open>tsr w k n\<close> is what the \<open>n\<close>-th read of the transmit status register of the CAN
  controller after the \<open>k\<close>-th delay finds (\<open>polls\<close> counts these reads and starts again
  with every delay), so that the register may show a frame as pending right after it has been
  handed over and as sent 20 ms later; \<open>pin_at w n p\<close> is the level the \<open>n\<close>-th sample of an input pin sees
  if it is a sample of pin \<open>p\<close>.
\<close>

record world =
  during :: "nat \<Rightarrow> csu \<Rightarrow> csu"
  tsr :: "nat \<Rightarrow> nat \<Rightarrow> u32"
  pin_at :: "nat \<Rightarrow> in_pin \<Rightarrow> bool"

definition emit :: "event \<Rightarrow> csu \<Rightarrow> csu" where
  "emit e s = s\<lparr>trace := trace s @ [e]\<rparr>"

definition pin_out :: "out_pin \<Rightarrow> bool \<Rightarrow> csu \<Rightarrow> csu" where
  "pin_out p v s = emit (PinOut p v) (s\<lparr>odr := (odr s)(p := v)\<rparr>)"

definition delay_ms :: "world \<Rightarrow> nat \<Rightarrow> csu \<Rightarrow> csu" where
  "delay_ms w n s = (during w (now s) (emit (Delay n) s))\<lparr>now := Suc (now s), polls := 0\<rparr>"

text \<open>
  A world in which nothing else touches the globals, the mailboxes of the CAN controller are
  empty again after every delay while a frame just handed over is pending, and every input pin
  is at the level it has in normal operation.
\<close>

definition idle_world :: world where
  "idle_world = \<lparr>during = (\<lambda>_ s. s), tsr = (\<lambda>_ n. if n = 0 then 0x1C000003 else 0x18000000),
     pin_at = (\<lambda>_ p. p \<noteq> P_TH3 \<and> p \<noteq> P_TH7)\<rparr>"

lemma emit_simps [simp]:
  "trace (emit e s) = trace s @ [e]"
  "now (emit e s) = now s" "odr (emit e s) = odr s"
  "PTCElectData (emit e s) = PTCElectData s" "SetPTCData (emit e s) = SetPTCData s"
  "System_State (emit e s) = System_State s" "SYSTEM_POWER (emit e s) = SYSTEM_POWER s"
  "warning_code (emit e s) = warning_code s" "fault_code (emit e s) = fault_code s"
  "statio (emit e s) = statio s" "reads (emit e s) = reads s"
  "mcgs_buf (emit e s) = mcgs_buf s" "sendbuff (emit e s) = sendbuff s"
  "can2_tbuf (emit e s) = can2_tbuf s" "polls (emit e s) = polls s"
  "can_q (emit e s) = can_q s" "txbuf (emit e s) = txbuf s" "canid_tx (emit e s) = canid_tx s"
  by (simp_all add: emit_def)

lemma pin_out_simps [simp]:
  "trace (pin_out p v s) = trace s @ [PinOut p v]"
  "odr (pin_out p v s) = (odr s)(p := v)"
  "now (pin_out p v s) = now s"
  "PTCElectData (pin_out p v s) = PTCElectData s" "SetPTCData (pin_out p v s) = SetPTCData s"
  "System_State (pin_out p v s) = System_State s" "SYSTEM_POWER (pin_out p v s) = SYSTEM_POWER s"
  "warning_code (pin_out p v s) = warning_code s" "fault_code (pin_out p v s) = fault_code s"
  "statio (pin_out p v s) = statio s" "reads (pin_out p v s) = reads s"
  "mcgs_buf (pin_out p v s) = mcgs_buf s" "sendbuff (pin_out p v s) = sendbuff s"
  "can2_tbuf (pin_out p v s) = can2_tbuf s" "polls (pin_out p v s) = polls s"
  "can_q (pin_out p v s) = can_q s" "txbuf (pin_out p v s) = txbuf s" "canid_tx (pin_out p v s) = canid_tx s"
  by (simp_all add: pin_out_def)

lemma delay_ms_counters [simp]: "now (delay_ms w n s) = Suc (now s)" "polls (delay_ms w n s) = 0"
  by (simp_all add: delay_ms_def)

section \<open>What a task puts out among the others\<close>

text \<open>
  While a task sleeps the other tasks and the interrupts may change the globals and produce
  output of their own.  \<open>amid es tr\<close>: a task that produces the events \<open>es\<close> leaves the trace
  \<open>tr\<close>, in which the events of the others, none of them a CAN frame, come only during its delays.
\<close>

definition is_can :: "event \<Rightarrow> bool" where
  "is_can e = (case e of CanTx _ _ \<Rightarrow> True | _ \<Rightarrow> False)"

lemma is_can_simps [simp]:
  "is_can (CanTx i d)" "\<not> is_can (UartTx p x)" "\<not> is_can (PinOut q b)" "\<not> is_can (Delay n)"
  "\<not> is_can Feed" "\<not> is_can LogWritten"
  by (simp_all add: is_can_def)

inductive amid :: "event list \<Rightarrow> event list \<Rightarrow> bool" where
  nothing: "amid [] []"
| own: "amid es tr \<Longrightarrow> amid (e # es) (e # tr)"
| asleep: "amid es tr \<Longrightarrow> (\<forall>e \<in> set others. \<not> is_can e) \<Longrightarrow> amid (Delay n # es) (Delay n # others @ tr)"

definition emits :: "csu \<Rightarrow> event list \<Rightarrow> csu \<Rightarrow> bool" where
  "emits s es s' \<longleftrightarrow> (\<exists>tr. trace s' = trace s @ tr \<and> amid es tr)"

text \<open>
  In a world where one task alone sends on the CAN bus: while it sleeps, the others leave the
  transmit buffer and the identifier alone and put no frame on the bus.
\<close>

definition sole_sender :: "world \<Rightarrow> bool" where
  "sole_sender w \<longleftrightarrow> (\<forall>k s. can2_tbuf (during w k s) = can2_tbuf s \<and> canid_tx (during w k s) = canid_tx s
     \<and> (\<exists>others. trace (during w k s) = trace s @ others \<and> (\<forall>e \<in> set others. \<not> is_can e)))"

lemma sole_sender_idle [simp]: "sole_sender idle_world"
  by (simp add: sole_sender_def idle_world_def)

lemma amid_append: "amid es tr \<Longrightarrow> amid es' tr' \<Longrightarrow> amid (es @ es') (tr @ tr')"
  by (induction rule: amid.induct) (auto intro: amid.intros)

lemma amid_same: "amid es es"
  by (induction es) (auto intro: amid.intros)

text \<open>The frames on the bus are those of the task, in its order.\<close>

lemma amid_frames: "amid es tr \<Longrightarrow> filter is_can tr = filter is_can es"
  by (induction rule: amid.induct) auto

lemma emits_trans: "emits s es t \<Longrightarrow> emits t es' u \<Longrightarrow> emits s (es @ es') u"
  unfolding emits_def using amid_append by fastforce

lemma emits_trace: "trace t = trace s @ es \<Longrightarrow> emits s es t"
  unfolding emits_def using amid_same by blast

lemma emits_cong: "trace s = trace t \<Longrightarrow> trace s' = trace t' \<Longrightarrow> emits s es s' = emits t es t'"
  by (simp add: emits_def)

lemma emits_frames: "emits s es t \<Longrightarrow> filter is_can (trace t) = filter is_can (trace s) @ filter is_can es"
  by (auto simp: emits_def amid_frames)

lemma delay_ms_sole [simp]:
  "sole_sender w \<Longrightarrow> can2_tbuf (delay_ms w n s) = can2_tbuf s"
  "sole_sender w \<Longrightarrow> canid_tx (delay_ms w n s) = canid_tx s"
  by (simp_all add: delay_ms_def sole_sender_def)

lemma emits_delay:
  assumes "sole_sender w"
  shows "emits s [Delay n] (delay_ms w n s)"
proof -
  obtain os where os: "trace (during w (now s) (emit (Delay n) s)) = trace (emit (Delay n) s) @ os"
    "\<forall>e \<in> set os. \<not> is_can e" using assms unfolding sole_sender_def by blast
  then have "trace (delay_ms w n s) = trace s @ Delay n # os @ []" by (simp add: delay_ms_def)
  with os(2) show ?thesis unfolding emits_def using amid.intros by blast
qed

lemma emits_then_delay: "sole_sender w \<Longrightarrow> emits s es t \<Longrightarrow> emits s (es @ [Delay n]) (delay_ms w n t)"
  by (rule emits_trans [OF _ emits_delay])

end
