(* ===== verification/Can_Tx.thy ===== *)
theory Can_Tx
  imports Crc16 Csu_State "HOL-Library.Monad_Syntax"
begin

text \<open>
  The transmit half of HARDWARE/CAN/can.c: the identifiers, the packet builder
  \<open>can2_data_packet\<close> with \<open>PreProcess_CanOrder\<close>, the single-frame and multi-frame
  senders, and the two routines of the peripheral library they call
  (\<open>CAN_Transmit\<close> and \<open>CAN_TransmitStatus\<close>, over the status register).
\<close>

section \<open>Protocol constants (can.h)\<close>

abbreviation (input) PROTOCOL_NOR :: u8 where "PROTOCOL_NOR \<equiv> 0xE0"
abbreviation (input) CSU_TYPE :: u8 where "CSU_TYPE \<equiv> 0x7D"
abbreviation (input) PTC_TYPE :: u8 where "PTC_TYPE \<equiv> 0x01"
abbreviation (input) CSU_ADDR :: u8 where "CSU_ADDR \<equiv> 0x78"
abbreviation (input) PTC_ADDR :: u8 where "PTC_ADDR \<equiv> 0x01"
abbreviation (input) PRIORITY :: u8 where "PRIORITY \<equiv> 0x1"
abbreviation (input) FUNC_SEEK :: u8 where "FUNC_SEEK \<equiv> 0x20"
abbreviation (input) FUNC_SETNUM :: u8 where "FUNC_SETNUM \<equiv> 0x24"
abbreviation (input) FUNC_CONFIG :: u8 where "FUNC_CONFIG \<equiv> 0x26"
abbreviation (input) FUNC_LINK :: u8 where "FUNC_LINK \<equiv> 0x28"
abbreviation (input) FUNC_RCONTROL :: u8 where "FUNC_RCONTROL \<equiv> 0x29"
abbreviation (input) FUNC_SEEKVALUE :: u8 where "FUNC_SEEKVALUE \<equiv> 0x32"
abbreviation (input) FUNC_SEEKSTAT :: u8 where "FUNC_SEEKSTAT \<equiv> 0x33"
abbreviation (input) APPEND_CODEH :: u8 where "APPEND_CODEH \<equiv> 0x24"
abbreviation (input) APPEND_CODEL_STOP :: u8 where "APPEND_CODEL_STOP \<equiv> 0x04"
abbreviation (input) APPEND_CODEL_START :: u8 where "APPEND_CODEL_START \<equiv> 0x05"
abbreviation (input) RTN_CODE :: u8 where "RTN_CODE \<equiv> 0x80"
abbreviation (input) SHEET_SN :: u8 where "SHEET_SN \<equiv> 0x01"
abbreviation (input) REV_DATA0 :: u8 where "REV_DATA0 \<equiv> 0x0"
abbreviation (input) REV_DATA1 :: u8 where "REV_DATA1 \<equiv> 0x0"
abbreviation (input) SegNum0 :: u8 where "SegNum0 \<equiv> 0x0"

section \<open>Identifiers\<close>

definition can_id :: "u8 \<Rightarrow> u8 \<Rightarrow> u8 \<Rightarrow> u8 \<Rightarrow> u8 \<Rightarrow> u32" where
  "can_id prio st sa tt ta = push_bit 28 (ucast prio) OR push_bit 21 (ucast st)
     OR push_bit 14 (ucast sa) OR push_bit 7 (ucast tt) OR ucast ta"

definition canid_init :: "csu \<Rightarrow> csu" where
  "canid_init s = s\<lparr>canid_tx := can_id PRIORITY CSU_TYPE CSU_ADDR PTC_TYPE PTC_ADDR,
                    canid_rx := can_id PRIORITY PTC_TYPE PTC_ADDR CSU_TYPE CSU_ADDR\<rparr>"

section \<open>The number of frames of an order\<close>

definition PreProcess_CanOrder :: "u8 \<Rightarrow> u8" where
  "PreProcess_CanOrder order =
     (let len = (if order = FUNC_SEEK then 0
                 else if order = FUNC_SETNUM then 6
                 else if order = FUNC_CONFIG then 21
                 else if order = FUNC_LINK then 0
                 else if order = FUNC_RCONTROL then 6
                 else if order = FUNC_SEEKVALUE then 0
                 else if order = FUNC_SEEKSTAT then 14
                 else 0)
      in if (len + 14) mod 7 \<noteq> 0 then (len + 14) div 7 + 1 else (len + 14) div 7)"

section \<open>The packet builder\<close>

text \<open>\<open>*(data + k)\<close>: the data pointer may be null, and reads past its end fail.\<close>

definition data_at :: "u8 list option \<Rightarrow> nat \<Rightarrow> u8 option" where
  "data_at data k = (case data of None \<Rightarrow> None | Some xs \<Rightarrow> if k < length xs then Some (xs ! k) else None)"

text \<open>The first frame: segment 0, the protocol header, and three bytes that depend on the order.\<close>

definition packet_header :: "u8 \<Rightarrow> u8 \<Rightarrow> u8 list \<Rightarrow> u8 list option" where
  "packet_header order append_codel b =
     do { b \<leftarrow> poke b 0 [SegNum0, PROTOCOL_NOR, CSU_TYPE, CSU_ADDR, order];
          if order = FUNC_RCONTROL then poke b 5 [APPEND_CODEH, append_codel, RTN_CODE]
          else if order = FUNC_SEEKSTAT then poke b 5 [0x00, 0x01, 0x00]
          else poke b 5 [0, 0, RTN_CODE] }"

text \<open>\<open>memcpy(&crc_table[dst], &can2_tbuf[src], n)\<close>.\<close>

definition gather :: "u8 list \<Rightarrow> nat \<Rightarrow> u8 list \<Rightarrow> nat \<Rightarrow> nat \<Rightarrow> u8 list option" where
  "gather tab dst buf src n = do { xs \<leftarrow> peek buf src n; poke tab dst xs }"

definition packet_2 :: "u8 \<Rightarrow> u8 list \<Rightarrow> u8 list option" where
  "packet_2 len_data b =
     do { b \<leftarrow> poke b 8 [0x80 + 2 - 1, SHEET_SN, REV_DATA1, REV_DATA0,
                         hi8 (ucast len_data), lo8 (ucast len_data)];
          t \<leftarrow> gather (replicate 50 0) 0 b 1 7;
          t \<leftarrow> gather t 7 b 9 5;
          (let crc = CRC16_XMODEM t 12 in poke b 14 [hi8 crc, lo8 crc]) }"

definition packet_3 :: "u8 \<Rightarrow> u8 list option \<Rightarrow> u8 list \<Rightarrow> u8 list option" where
  "packet_3 len_data data b =
     do { d0 \<leftarrow> data_at data 0; d1 \<leftarrow> data_at data 1; d2 \<leftarrow> data_at data 2;
          d3 \<leftarrow> data_at data 3; d4 \<leftarrow> data_at data 4; d5 \<leftarrow> data_at data 5;
          b \<leftarrow> poke b 8 [0x1, SHEET_SN, REV_DATA1, REV_DATA0,
                         hi8 (ucast len_data), lo8 (ucast len_data), d0, d1];
          b \<leftarrow> poke b 16 [0x80 + 3 - 1, d2, d3, d4, d5];
          t \<leftarrow> gather (replicate 50 0) 0 b 1 7;
          t \<leftarrow> gather t 7 b 9 7;
          t \<leftarrow> gather t 14 b 17 4;
          (let crc = CRC16_XMODEM t 18 in poke b 21 [hi8 crc, lo8 crc, 0x0]) }"

definition packet_4 :: "u8 \<Rightarrow> u8 list option \<Rightarrow> u8 list \<Rightarrow> u8 list option" where
  "packet_4 len_data data b =
     do { d0 \<leftarrow> data_at data 0; d1 \<leftarrow> data_at data 1; d2 \<leftarrow> data_at data 2;
          d3 \<leftarrow> data_at data 3; d4 \<leftarrow> data_at data 4; d5 \<leftarrow> data_at data 5;
          b \<leftarrow> poke b 8 [4 - 3, SHEET_SN, REV_DATA1, REV_DATA0, 0, len_data, d0, d1];
          b \<leftarrow> poke b 16 [4 - 2, d2, d3, d4, d5];
          b \<leftarrow> poke b 24 [0x80 + 4 - 1];
          t \<leftarrow> gather (replicate 50 0) 0 b 1 7;
          t \<leftarrow> gather t 7 b 9 7;
          t \<leftarrow> gather t 14 b 17 7;
          t \<leftarrow> gather t 21 b 25 5;
          (let crc = CRC16_XMODEM t 26 in poke b 30 [hi8 crc, lo8 crc]) }"

definition packet_5 :: "u8 \<Rightarrow> u8 list option \<Rightarrow> u8 list \<Rightarrow> u8 list option" where
  "packet_5 len_data data b =
     do { d0 \<leftarrow> data_at data 0; d1 \<leftarrow> data_at data 1; d2 \<leftarrow> data_at data 2; d3 \<leftarrow> data_at data 3;
          b \<leftarrow> poke b 8 [5 - 4, SHEET_SN, REV_DATA1, REV_DATA0,
                         hi8 (ucast len_data), lo8 (ucast len_data), d0, d1];
          b \<leftarrow> poke b 16 [5 - 3, d2, d3];
          b \<leftarrow> poke b 24 [5 - 2];
          b \<leftarrow> poke b 32 [0x80 + 5 - 1];
          t \<leftarrow> gather (replicate 50 0) 0 b 1 7;
          t \<leftarrow> gather t 7 b 9 7;
          t \<leftarrow> gather t 14 b 17 7;
          t \<leftarrow> gather t 21 b 25 7;
          t \<leftarrow> gather t 28 b 33 5;
          (let crc = CRC16_XMODEM t 33 in poke b 38 [hi8 crc, lo8 crc]) }"

definition can2_data_packet ::
  "u8 \<Rightarrow> u8 \<Rightarrow> u8 \<Rightarrow> u8 list option \<Rightarrow> (u8 \<times> u8 list) option" where
  "can2_data_packet order append_codel len_data data =
     do { b \<leftarrow> packet_header order append_codel (replicate 50 0);
          let FrameNum = PreProcess_CanOrder order;
          b \<leftarrow> (if FrameNum = 2 then packet_2 len_data b
                else if FrameNum = 3 then packet_3 len_data data b
                else if FrameNum = 4 then packet_4 len_data data b
                else if FrameNum = 5 then packet_5 len_data data b
                else Some b);
          Some (FrameNum, b) }"

section \<open>Sending frames\<close>

text \<open>
  The transmit status register of the CAN controller: every read is one poll of the hardware,
  numbered from the last delay of the task.
\<close>

definition read_tsr :: "world \<Rightarrow> csu \<Rightarrow> u32 \<times> csu" where
  "read_tsr w s = (tsr w (now s) (polls s), s\<lparr>polls := Suc (polls s)\<rparr>)"

abbreviation (input) CAN_TxStatus_Failed :: u8 where "CAN_TxStatus_Failed \<equiv> 0"
abbreviation (input) CAN_TxStatus_Ok :: u8 where "CAN_TxStatus_Ok \<equiv> 1"
abbreviation (input) CAN_TxStatus_Pending :: u8 where "CAN_TxStatus_Pending \<equiv> 2"
abbreviation (input) CAN_TxStatus_NoMailBox :: u8 where "CAN_TxStatus_NoMailBox \<equiv> 4"

abbreviation (input) CAN_TSR_TME0 :: u32 where "CAN_TSR_TME0 \<equiv> 0x04000000"
abbreviation (input) CAN_TSR_TME1 :: u32 where "CAN_TSR_TME1 \<equiv> 0x08000000"
abbreviation (input) CAN_TSR_TME2 :: u32 where "CAN_TSR_TME2 \<equiv> 0x10000000"

text \<open>
  \<open>CAN_Transmit\<close> looks for an empty mailbox, reading the register again for each of the
  three; without one it returns \<open>CAN_TxStatus_NoMailBox\<close> and nothing is sent.
\<close>

definition CAN_Transmit :: "world \<Rightarrow> u32 \<Rightarrow> u8 list \<Rightarrow> csu \<Rightarrow> u8 \<times> csu" where
  "CAN_Transmit w exid msg s =
     (let (t0, s) = read_tsr w s
      in if t0 AND CAN_TSR_TME0 = CAN_TSR_TME0 then (0, emit (CanTx exid msg) s)
         else let (t1, s) = read_tsr w s
         in if t1 AND CAN_TSR_TME1 = CAN_TSR_TME1 then (1, emit (CanTx exid msg) s)
         else let (t2, s) = read_tsr w s
         in if t2 AND CAN_TSR_TME2 = CAN_TSR_TME2 then (2, emit (CanTx exid msg) s)
         else (CAN_TxStatus_NoMailBox, s))"

definition CAN_TransmitStatus :: "world \<Rightarrow> u8 \<Rightarrow> csu \<Rightarrow> u8 \<times> csu" where
  "CAN_TransmitStatus w mbox s =
     (let (state, s) =
            (if mbox = 0 then (let (t, s) = read_tsr w s in (t AND 0x04000003, s))
             else if mbox = 1 then (let (t, s) = read_tsr w s in (t AND 0x08000300, s))
             else if mbox = 2 then (let (t, s) = read_tsr w s in (t AND 0x10030000, s))
             else (ucast CAN_TxStatus_Failed, s))
      in (if state = 0 then CAN_TxStatus_Pending
          else if state \<in> {0x04000001, 0x08000100, 0x10010000} then CAN_TxStatus_Failed
          else if state \<in> {0x04000003, 0x08000300, 0x10030000} then CAN_TxStatus_Ok
          else CAN_TxStatus_Failed, s))"

text \<open>\<open>while ((CAN_TransmitStatus(CAN1, mbox) == CAN_TxStatus_Failed) && (i < 0XFFF)) i++;\<close>\<close>

function can_wait :: "world \<Rightarrow> u8 \<Rightarrow> nat \<Rightarrow> csu \<Rightarrow> nat \<times> csu" where
  "can_wait w mbox i s =
     (let (st, s) = CAN_TransmitStatus w mbox s
      in if st = CAN_TxStatus_Failed \<and> i < 0xFFF then can_wait w mbox (Suc i) s else (i, s))"
  by pat_completeness auto
termination
  by (relation "measure (\<lambda>(w, mbox, i, s). 0xFFF - i)") auto

declare can_wait.simps [simp del]

text \<open>\<open>TxMessage.Data\<close> has room for eight bytes; a longer message overruns it.\<close>

definition CAN1Send_Msg :: "world \<Rightarrow> u8 list \<Rightarrow> u8 \<Rightarrow> u32 \<Rightarrow> csu \<Rightarrow> (u8 \<times> csu) option" where
  "CAN1Send_Msg w msg len exid s =
     (if 8 < unat len \<or> length msg < unat len then None
      else let (mbox, s) = CAN_Transmit w exid (take (unat len) msg) s;
               (i, s) = can_wait w mbox 0 s
           in Some (if 0xFFF \<le> i then 1 else 0, s))"

text \<open>
  \<open>Can2Send_MultiMessages\<close> is only called on the global \<open>can2_tbuf\<close>, which it reads
  afresh for every frame; its counter is eight bits wide.  A counter that wraps would loop
  for ever, hence the partial function.
\<close>

partial_function (option) multi_loop :: "world \<Rightarrow> u32 \<Rightarrow> nat \<Rightarrow> u8 \<Rightarrow> csu \<Rightarrow> csu option" where
  "multi_loop w exid len i s =
     (if 0 < int len - 8 * uint i
      then Option.bind (peek (can2_tbuf s) (unat i * 8) 8) (\<lambda>msg.
           Option.bind (CAN1Send_Msg w msg 8 exid s) (\<lambda>r.
           multi_loop w exid len (i + 1) (delay_ms w 20 (snd r))))
      else Some s)"

definition Can2Send_MultiMessages :: "world \<Rightarrow> u32 \<Rightarrow> u16 \<Rightarrow> csu \<Rightarrow> (u8 \<times> csu) option" where
  "Can2Send_MultiMessages w exid len s =
     map_option (\<lambda>s. (0, s)) (multi_loop w exid (unat len) 0 s)"

section \<open>What a packet is\<close>

text \<open>
  Abstractly a packet is one message, cut into frames of seven bytes.  The message is the
  protocol header, the data table header with the declared length, the data bytes the frame
  count has room for, zeros, the CRC of everything before it, and (for three frames) one
  more zero.  Frame \<open>k\<close> starts with its segment number; the last one has bit 7 set.
\<close>

definition order_code :: "u8 \<Rightarrow> u8 \<Rightarrow> u8 list" where
  "order_code order append_codel =
     (if order = FUNC_RCONTROL then [APPEND_CODEH, append_codel, RTN_CODE]
      else if order = FUNC_SEEKSTAT then [0, 1, 0] else [0, 0, RTN_CODE])"

definition data_room :: "nat \<Rightarrow> nat" where
  "data_room n = (if n = 2 then 0 else if n = 5 then 4 else 6)"

definition body_length :: "nat \<Rightarrow> nat" where
  "body_length n = (if n = 3 then 18 else 7 * n - 2)"

definition packet_body :: "u8 \<Rightarrow> u8 \<Rightarrow> u8 \<Rightarrow> u8 list \<Rightarrow> nat \<Rightarrow> u8 list" where
  "packet_body order append_codel len_data xs n =
     [PROTOCOL_NOR, CSU_TYPE, CSU_ADDR, order] @ order_code order append_codel
     @ [SHEET_SN, REV_DATA1, REV_DATA0, 0, len_data] @ take (data_room n) xs
     @ replicate (body_length n - 12 - data_room n) 0"

definition packet_message :: "u8 \<Rightarrow> u8 \<Rightarrow> u8 \<Rightarrow> u8 list \<Rightarrow> nat \<Rightarrow> u8 list" where
  "packet_message order append_codel len_data xs n =
     (let body = packet_body order append_codel len_data xs n; crc = crc_bytes 0 body
      in body @ [hi8 crc, lo8 crc] @ replicate (7 * n - 2 - body_length n) 0)"

definition segment_number :: "nat \<Rightarrow> nat \<Rightarrow> u8" where
  "segment_number n k = (if Suc k = n then 0x80 + of_nat k else of_nat k)"

definition segments :: "nat \<Rightarrow> u8 list \<Rightarrow> u8 list list" where
  "segments n m = map (\<lambda>k. segment_number n k # take 7 (drop (7 * k) m)) [0..<n]"

text \<open>The frames in a transmit buffer, and the message they carry.\<close>

definition frames_of :: "nat \<Rightarrow> u8 list \<Rightarrow> u8 list list" where
  "frames_of n b = map (\<lambda>k. take 8 (drop (8 * k) b)) [0..<n]"

definition payload :: "u8 list list \<Rightarrow> u8 list" where
  "payload fs = concat (map tl fs)"

lemma hi8_ucast_byte [simp]: "hi8 (ucast (b :: u8)) = 0"
  by (rule bit_word_eqI) (auto simp: hi8_def bit_simps dest: bit_imp_le_length)

lemma lo8_ucast_byte [simp]: "lo8 (ucast (b :: u8)) = b"
  by (rule bit_word_eqI) (auto simp: lo8_ucast bit_simps dest: bit_imp_le_length)

lemma PreProcess_CanOrder_cases:
  "PreProcess_CanOrder order =
     (if order = FUNC_SETNUM \<or> order = FUNC_RCONTROL then 3
      else if order = FUNC_SEEKSTAT then 4 else if order = FUNC_CONFIG then 5 else 2)"
  by (auto simp: PreProcess_CanOrder_def)

lemma upt_small:
  "[0..<2] = [0, 1 :: nat]" "[0..<3] = [0, 1, 2 :: nat]" "[0..<4] = [0, 1, 2, 3 :: nat]"
  "[0..<5] = [0, 1, 2, 3, 4 :: nat]"
  by code_simp+

lemmas packet_defs = can2_data_packet_def packet_header_def packet_2_def packet_3_def
  packet_4_def packet_5_def gather_def poke_def peek_def data_at_def Let_def

lemmas packet_spec_defs = segments_def packet_message_def packet_body_def order_code_def
  data_room_def body_length_def segment_number_def upt_small Let_def

lemma six_bytes:
  assumes "6 \<le> length xs"
  obtains d0 d1 d2 d3 d4 d5 r where "xs = d0 # d1 # d2 # d3 # d4 # d5 # r"
  using assms by (auto simp: numeral_eq_Suc Suc_le_length_iff)

lemma segments_length [simp]: "length (segments n m) = n"
  by (simp add: segments_def)

lemma payload_segments: "length m = 7 * n \<Longrightarrow> payload (segments n m) = m"
proof -
  have "concat (map (\<lambda>k. take 7 (drop (7 * k) m)) [0..<j]) = take (7 * j) m" for j
    by (induction j) (auto simp: take_add [symmetric] add.commute)
  moreover assume "length m = 7 * n"
  ultimately show ?thesis by (simp add: payload_def segments_def comp_def)
qed

lemma frames_of_concat:
  "(\<forall>f \<in> set fs. length f = 8) \<Longrightarrow> frames_of (length fs) (concat fs @ rest) = fs"
proof (induction fs)
  case Nil
  then show ?case by (simp add: frames_of_def)
next
  case (Cons f fs)
  then have "frames_of (length fs) (concat fs @ rest) = fs" and "length f = 8" by auto
  then show ?case
    by (simp add: frames_of_def upt_conv_Cons map_Suc_upt [symmetric] comp_def del: upt_Suc)
qed

lemma replicate_small:
  "replicate 2 (0 :: u8) = [0, 0]"
  "replicate 3 (0 :: u8) = [0, 0, 0]"
  "replicate 4 (0 :: u8) = [0, 0, 0, 0]"
  "replicate 5 (0 :: u8) = [0, 0, 0, 0, 0]"
  "replicate 6 (0 :: u8) = [0, 0, 0, 0, 0, 0]"
  "replicate 7 (0 :: u8) = [0, 0, 0, 0, 0, 0, 0]"
  "replicate 8 (0 :: u8) = [0, 0, 0, 0, 0, 0, 0, 0]"
  "replicate 9 (0 :: u8) = [0, 0, 0, 0, 0, 0, 0, 0, 0]"
  "replicate 10 (0 :: u8) = [0, 0, 0, 0, 0, 0, 0, 0, 0, 0]"
  "replicate 11 (0 :: u8) = [0, 0, 0, 0, 0, 0, 0, 0, 0, 0, 0]"
  "replicate 12 (0 :: u8) = [0, 0, 0, 0, 0, 0, 0, 0, 0, 0, 0, 0]"
  "replicate 13 (0 :: u8) = [0, 0, 0, 0, 0, 0, 0, 0, 0, 0, 0, 0, 0]"
  "replicate 14 (0 :: u8) = [0, 0, 0, 0, 0, 0, 0, 0, 0, 0, 0, 0, 0, 0]"
  "replicate 15 (0 :: u8) = [0, 0, 0, 0, 0, 0, 0, 0, 0, 0, 0, 0, 0, 0, 0]"
  "replicate 16 (0 :: u8) = [0, 0, 0, 0, 0, 0, 0, 0, 0, 0, 0, 0, 0, 0, 0, 0]"
  "replicate 17 (0 :: u8) = [0, 0, 0, 0, 0, 0, 0, 0, 0, 0, 0, 0, 0, 0, 0, 0, 0]"
  by code_simp+

lemma packet_2_refines: "6 \<le> length xs \<Longrightarrow> PreProcess_CanOrder order = 2 \<Longrightarrow>
    can2_data_packet order ac len (Some xs) = Some (2,
      concat (segments 2 (packet_message order ac len xs 2)) @ replicate 34 0)"
  by (erule six_bytes)
    (simp add: packet_defs packet_spec_defs CRC16_XMODEM_fold replicate_small del: crc_bytes_simps)

lemma packet_3_refines: "6 \<le> length xs \<Longrightarrow> PreProcess_CanOrder order = 3 \<Longrightarrow>
    can2_data_packet order ac len (Some xs) = Some (3,
      concat (segments 3 (packet_message order ac len xs 3)) @ replicate 26 0)"
  by (erule six_bytes)
    (simp add: packet_defs packet_spec_defs CRC16_XMODEM_fold replicate_small del: crc_bytes_simps)

lemma packet_4_refines: "6 \<le> length xs \<Longrightarrow> PreProcess_CanOrder order = 4 \<Longrightarrow>
    can2_data_packet order ac len (Some xs) = Some (4,
      concat (segments 4 (packet_message order ac len xs 4)) @ replicate 18 0)"
  by (erule six_bytes)
    (simp add: packet_defs packet_spec_defs CRC16_XMODEM_fold replicate_small del: crc_bytes_simps)

lemma packet_5_refines: "6 \<le> length xs \<Longrightarrow> PreProcess_CanOrder order = 5 \<Longrightarrow>
    can2_data_packet order ac len (Some xs) = Some (5,
      concat (segments 5 (packet_message order ac len xs 5)) @ replicate 10 0)"
  by (erule six_bytes)
    (simp add: packet_defs packet_spec_defs CRC16_XMODEM_fold replicate_small del: crc_bytes_simps)

section \<open>What sending does\<close>

text \<open>
  \<open>mailbox_at w k\<close>: the search of \<open>CAN_Transmit\<close> that opens the time after the \<open>k\<close>-th delay finds
  an empty mailbox (it reads the register again for each of the three).  \<open>free_mailbox\<close>: this is
  so after every delay; what the register shows later, once a frame has been handed over, is left open.
  \<open>no_mailbox\<close>: all three are busy at every look.
\<close>

definition mailbox_at :: "world \<Rightarrow> nat \<Rightarrow> bool" where
  "mailbox_at w k \<longleftrightarrow> tsr w k 0 AND CAN_TSR_TME0 = CAN_TSR_TME0
     \<or> tsr w k 1 AND CAN_TSR_TME1 = CAN_TSR_TME1 \<or> tsr w k 2 AND CAN_TSR_TME2 = CAN_TSR_TME2"

definition free_mailbox :: "world \<Rightarrow> bool" where
  "free_mailbox w \<longleftrightarrow> (\<forall>k. mailbox_at w k)"

definition no_mailbox :: "world \<Rightarrow> bool" where
  "no_mailbox w \<longleftrightarrow> (\<forall>k n. tsr w k n AND CAN_TSR_TME0 \<noteq> CAN_TSR_TME0
     \<and> tsr w k n AND CAN_TSR_TME1 \<noteq> CAN_TSR_TME1 \<and> tsr w k n AND CAN_TSR_TME2 \<noteq> CAN_TSR_TME2)"

lemma free_mailbox_idle [simp]: "free_mailbox idle_world"
  by (simp add: free_mailbox_def mailbox_at_def idle_world_def)

lemma polls_self [simp]: "s\<lparr>polls := polls s\<rparr> = s"
  by simp

text \<open>Polling changes nothing but the poll counter.\<close>

lemma CAN_TransmitStatus_polls:
  "snd (CAN_TransmitStatus w mbox s) = s\<lparr>polls := polls (snd (CAN_TransmitStatus w mbox s))\<rparr>"
  by (simp add: CAN_TransmitStatus_def read_tsr_def Let_def)

lemma can_wait_polls_eq: "snd (can_wait w mbox i s) = s\<lparr>polls := polls (snd (can_wait w mbox i s))\<rparr>"
proof (induction w mbox i s rule: can_wait.induct)
  case (1 w mbox i s)
  define st where "st = fst (CAN_TransmitStatus w mbox s)"
  define s' where "s' = snd (CAN_TransmitStatus w mbox s)"
  define r where "r = snd (can_wait w mbox (Suc i) s')"
  have st: "CAN_TransmitStatus w mbox s = (st, s')" by (simp add: st_def s'_def)
  have s': "s' = s\<lparr>polls := polls s'\<rparr>"
    unfolding s'_def by (rule CAN_TransmitStatus_polls)
  show ?case
  proof (cases "st = 0 \<and> i < 0xFFF")
    case True
    then have step: "snd (can_wait w mbox i s) = r"
      by (simp add: can_wait.simps [of w mbox i s] st r_def)
    have "r = s'\<lparr>polls := polls r\<rparr>"
      unfolding r_def by (rule "1.IH" [OF st [symmetric] refl]) (use True in auto)
    also have "\<dots> = s\<lparr>polls := polls r\<rparr>" by (subst s') simp
    finally show ?thesis by (simp only: step)
  next
    case False
    then have "snd (can_wait w mbox i s) = s'"
      by (auto simp: can_wait.simps [of w mbox i s] st)
    with s' show ?thesis by simp
  qed
qed

lemma can_wait_split: "can_wait w mbox i s = (j, s') \<Longrightarrow> s' = s\<lparr>polls := polls s'\<rparr>"
  using can_wait_polls_eq [of w mbox i s] by simp

text \<open>
  Sending one frame: the frame is emitted when a mailbox was free, and nothing else but
  the poll counter changes.
\<close>

lemma CAN1Send_Msg_result:
  assumes "length msg = 8"
  shows "\<exists>r n. CAN1Send_Msg w msg 8 exid s = Some (r,
      (if fst (CAN_Transmit w exid msg s) = CAN_TxStatus_NoMailBox then s
       else emit (CanTx exid msg) s)\<lparr>polls := n\<rparr>)"
proof -
  obtain mbox s1 where tx: "CAN_Transmit w exid msg s = (mbox, s1)" by force
  obtain i s2 where wait: "can_wait w mbox 0 s1 = (i, s2)" by force
  have s1: "s1 = (if mbox = CAN_TxStatus_NoMailBox then s else emit (CanTx exid msg) s)\<lparr>polls := polls s1\<rparr>"
    using tx by (auto simp: CAN_Transmit_def read_tsr_def Let_def emit_def split: if_splits)
  have s2: "s2 = s1\<lparr>polls := polls s2\<rparr>" by (rule can_wait_split [OF wait])
  have "s2 = (if mbox = CAN_TxStatus_NoMailBox then s else emit (CanTx exid msg) s)\<lparr>polls := polls s2\<rparr>"
    by (subst s2, subst s1) simp
  moreover have "CAN1Send_Msg w msg 8 exid s = Some (if 0xFFF \<le> i then 1 else 0, s2)"
    using assms by (simp add: CAN1Send_Msg_def tx wait)
  ultimately show ?thesis using tx by auto
qed

lemma CAN_Transmit_mailbox:
  assumes "polls s = 0"
  shows "fst (CAN_Transmit w exid msg s) = CAN_TxStatus_NoMailBox \<longleftrightarrow> \<not> mailbox_at w (now s)"
proof -
  have "tsr w (now s) 2 = tsr w (now s) (Suc (Suc 0))" by (simp only: numeral_2_eq_2)
  with assms show ?thesis by (simp add: CAN_Transmit_def read_tsr_def mailbox_at_def Let_def)
qed

section \<open>The multi-frame loop\<close>

definition send_events :: "u32 \<Rightarrow> u8 list list \<Rightarrow> event list" where
  "send_events exid fs = concat (map (\<lambda>f. [CanTx exid f, Delay 20]) fs)"

lemma send_events_simps [simp]:
  "send_events exid [] = []"
  "send_events exid (f # fs) = CanTx exid f # Delay 20 # send_events exid fs"
  by (simp_all add: send_events_def)

text \<open>What the loop does from the \<open>k\<close>-th delay on: a frame that finds no empty mailbox is left out.\<close>

primrec sent_events :: "world \<Rightarrow> nat \<Rightarrow> u32 \<Rightarrow> u8 list list \<Rightarrow> event list" where
  "sent_events w k exid [] = []"
| "sent_events w k exid (f # fs) =
     (if mailbox_at w k then [CanTx exid f] else []) @ Delay 20 # sent_events w (Suc k) exid fs"

lemma sent_events_free: "free_mailbox w \<Longrightarrow> sent_events w k exid fs = send_events exid fs"
  by (induction fs arbitrary: k) (simp_all add: free_mailbox_def)

lemma unat_succ8: "unat (i :: u8) < 255 \<Longrightarrow> unat (i + 1) = Suc (unat i)"
  by (simp add: unat_word_ariths)

lemma multi_loop_sends:
  assumes w: "sole_sender w"
  shows "unat i + k = n \<Longrightarrow> n < 256 \<Longrightarrow> 8 * n \<le> length (can2_tbuf s) \<Longrightarrow>
    \<exists>s'. multi_loop w exid (8 * n) i s = Some s' \<and> can2_tbuf s' = can2_tbuf s \<and> canid_tx s' = canid_tx s \<and>
      (polls s = 0 \<longrightarrow> polls s' = 0 \<and>
        emits s (sent_events w (now s) exid (drop (unat i) (frames_of n (can2_tbuf s)))) s')"
proof (induction k arbitrary: i s)
  case 0
  then have "\<not> 0 < int (8 * n) - 8 * uint i" using uint_nat [of i] by simp
  with 0 show ?case by (subst multi_loop.simps) (simp add: frames_of_def emits_trace)
next
  case (Suc k)
  let ?f = "take 8 (drop (8 * unat i) (can2_tbuf s))"
  have cond: "0 < int (8 * n) - 8 * uint i" using Suc.prems(1) uint_nat [of i] by linarith
  have in_range: "8 * unat i + 8 \<le> length (can2_tbuf s)" using Suc.prems by linarith
  then have pk: "peek (can2_tbuf s) (unat i * 8) 8 = Some ?f" and len: "length ?f = 8"
    by (auto simp: peek_def mult.commute)
  define sent where "sent = (if fst (CAN_Transmit w exid ?f s) = CAN_TxStatus_NoMailBox then s
    else emit (CanTx exid ?f) s)"
  obtain r m where snd: "CAN1Send_Msg w ?f 8 exid s = Some (r, sent\<lparr>polls := m\<rparr>)"
    using CAN1Send_Msg_result [OF len, of w exid s] by (auto simp: sent_def)
  define s1 where "s1 = delay_ms w 20 (sent\<lparr>polls := m\<rparr>)"
  have step: "multi_loop w exid (8 * n) i s = multi_loop w exid (8 * n) (i + 1) s1"
    by (subst multi_loop.simps) (use cond in \<open>simp add: pk snd s1_def\<close>)
  have s1: "can2_tbuf s1 = can2_tbuf s" "canid_tx s1 = canid_tx s" "now s1 = Suc (now s)" "polls s1 = 0"
    using w by (simp_all add: s1_def sent_def)
  have out: "emits s ((if mailbox_at w (now s) then [CanTx exid ?f] else []) @ [Delay 20]) s1" if "polls s = 0"
    unfolding s1_def using CAN_Transmit_mailbox [OF that, of w exid ?f]
    by (intro emits_then_delay [OF w] emits_trace) (simp add: sent_def)
  have i: "unat (i + 1) = Suc (unat i)" using Suc.prems by (intro unat_succ8) linarith
  have "unat (i + 1) + k = n" using i Suc.prems(1) by simp
  from Suc.IH [OF this Suc.prems(2), of s1] Suc.prems(3) s1 i
  obtain s' where s': "multi_loop w exid (8 * n) (i + 1) s1 = Some s'"
      "can2_tbuf s' = can2_tbuf s" "canid_tx s' = canid_tx s" "polls s' = 0"
      "emits s1 (sent_events w (Suc (now s)) exid (drop (Suc (unat i)) (frames_of n (can2_tbuf s)))) s'"
    by auto
  have "unat i < n" using Suc.prems(1) by simp
  then have "drop (unat i) (frames_of n (can2_tbuf s)) =
      ?f # drop (Suc (unat i)) (frames_of n (can2_tbuf s))"
    by (subst Cons_nth_drop_Suc [symmetric]) (auto simp: frames_of_def)
  with step s'(1-4) emits_trans [OF out s'(5)] show ?case by simp
qed

section \<open>Packets and their frames\<close>

lemma PreProcess_CanOrder_unat:
  "unat (PreProcess_CanOrder order) \<in> {2, 3, 4, 5}"
  by (simp add: PreProcess_CanOrder_cases)

lemma packet_refines:
  assumes "6 \<le> length xs" and "n = unat (PreProcess_CanOrder order)"
  shows "can2_data_packet order ac len (Some xs) = Some (PreProcess_CanOrder order,
      concat (segments n (packet_message order ac len xs n)) @ replicate (50 - 8 * n) 0)"
proof -
  have "PreProcess_CanOrder order = 2 \<or> PreProcess_CanOrder order = 3
      \<or> PreProcess_CanOrder order = 4 \<or> PreProcess_CanOrder order = 5"
    by (simp add: PreProcess_CanOrder_cases)
  then show ?thesis
    using packet_2_refines [OF assms(1)] packet_3_refines [OF assms(1)]
      packet_4_refines [OF assms(1)] packet_5_refines [OF assms(1)] assms(2) by fastforce
qed

lemma packet_message_length:
  assumes "6 \<le> length xs" and "n \<in> {2, 3, 4, 5}"
  shows "length (packet_message order ac len xs n) = 7 * n"
  using assms by (auto simp: packet_message_def packet_body_def body_length_def data_room_def
      order_code_def Let_def)

lemma packet_message_residue: "crc_bytes 0 (packet_message order ac len xs n) = 0"
  using crc_bytes_residue [of "crc_bytes 0 (packet_body order ac len xs n)"]
  by (simp add: packet_message_def Let_def del: crc_bytes_residue)

lemma segments_frames:
  assumes "length m = 7 * n"
  shows "frames_of n (concat (segments n m) @ rest) = segments n m"
proof -
  have "\<forall>f \<in> set (segments n m). length f = 8"
    using assms by (auto simp: segments_def min_def)
  from frames_of_concat [OF this] show ?thesis by simp
qed

lemma segments_concat_length:
  "length m = 7 * n \<Longrightarrow> length (concat (segments n m)) = 8 * n"
proof -
  assume m: "length m = 7 * n"
  have "length (segment_number n k # take 7 (drop (7 * k) m)) = 8" if "k < n" for k
    using m that by auto
  then have "sum_list (map length (segments n m)) = sum_list (map (\<lambda>_. 8) [0..<n])"
    by (auto simp: segments_def comp_def intro!: arg_cong [where f = sum_list])
  then show ?thesis by (simp add: length_concat sum_list_triv)
qed

section \<open>Properties\<close>

text \<open>C2: For every order, append code, declared length and data of at least six bytes the
  packet builder returns the frame count of the order and a buffer that holds exactly the
  numbered segments of the abstract message (header, data table, CRC, padding), followed by
  zeros: the hand-written offsets of all four frame counts implement one packet format.\<close>

theorem can2_data_packet_refines:
  assumes "6 \<le> length xs" and "n = unat (PreProcess_CanOrder order)"
  shows "can2_data_packet order ac len (Some xs) = Some (PreProcess_CanOrder order,
      concat (segments n (packet_message order ac len xs n)) @ replicate (50 - 8 * n) 0)"
  using assms by (rule packet_refines)

theorem can2_data_packet_refines_witness:
  "can2_data_packet FUNC_RCONTROL APPEND_CODEL_START 6 (Some [0, 0, 0x12, 0xd0, 0, 0]) = Some (3,
     concat (segments 3 (packet_message FUNC_RCONTROL APPEND_CODEL_START 6 [0, 0, 0x12, 0xd0, 0, 0] 3))
     @ replicate 26 0)"
proof -
  have n: "PreProcess_CanOrder FUNC_RCONTROL = 3" by (simp add: PreProcess_CanOrder_cases)
  have z: "(50 :: nat) - 8 * 3 = 26" by simp
  have "3 = unat (PreProcess_CanOrder FUNC_RCONTROL)" by (simp add: n)
  from can2_data_packet_refines [OF _ this, unfolded z n] show ?thesis by simp
qed

text \<open>C15: Building a packet and, as the first transmission after a pause, sending \<open>FrameNum * 8\<close> bytes
  of the buffer returns, and puts on the bus
  the segments of the message in order, each followed by the pause of 20 ms, except that a segment
  for which all three mailboxes are still busy is left out and never repeated; so when the controller
  has an empty mailbox again after every pause, exactly the segments go out.  What the status
  register shows between a transmit request and the end of the pause is arbitrary (pending, failed or
  sent), and the other tasks and interrupts may do anything in the pauses but use the transmit buffer, its
  identifier or the bus.  The payload of the segments is the message and has CRC residue zero.\<close>

theorem packet_transmission:
  assumes "6 \<le> length xs" and "can2_data_packet order ac len (Some xs) = Some (n, b)"
    and "sole_sender w" and "polls s = 0"
    and "m = packet_message order ac len xs (unat n)"
  shows "\<exists>s'. Can2Send_MultiMessages w exid (ucast n * 8) (s\<lparr>can2_tbuf := b\<rparr>) = Some (0, s')
      \<and> emits s (sent_events w (now s) exid (segments (unat n) m)) s'
      \<and> (free_mailbox w \<longrightarrow> emits s (send_events exid (segments (unat n) m)) s')
      \<and> payload (segments (unat n) m) = m \<and> crc_bytes 0 m = 0"
proof -
  let ?n = "unat n"
  from packet_refines [OF assms(1) refl, of order ac len] assms(2)
  have n: "n = PreProcess_CanOrder order"
    and b: "b = concat (segments ?n m) @ replicate (50 - 8 * ?n) 0"
    by (auto simp: assms(5))
  from n PreProcess_CanOrder_unat [of order] have nn: "?n \<in> {2, 3, 4, 5}" by simp
  have lm: "length m = 7 * ?n" by (simp add: assms(5) packet_message_length [OF assms(1) nn])
  have lb: "8 * ?n \<le> length b" by (simp add: b segments_concat_length [OF lm])
  have "n \<in> {2, 3, 4, 5}" by (simp add: n PreProcess_CanOrder_cases)
  then have len8: "unat (ucast n * 8 :: u16) = 8 * ?n" by auto
  have fr: "frames_of ?n b = segments ?n m" by (simp add: b segments_frames [OF lm])
  have crc: "crc_bytes 0 m = 0" unfolding assms(5) by (rule packet_message_residue)
  have "unat (0 :: u8) + ?n = ?n" "?n < 256" using nn by auto
  from multi_loop_sends [OF assms(3) this, of "s\<lparr>can2_tbuf := b\<rparr>" exid] lb fr assms(4)
  obtain s' where s': "multi_loop w exid (8 * ?n) 0 (s\<lparr>can2_tbuf := b\<rparr>) = Some s'"
      "emits (s\<lparr>can2_tbuf := b\<rparr>) (sent_events w (now s) exid (segments ?n m)) s'" by auto
  have "emits s (sent_events w (now s) exid (segments ?n m)) s'"
    using s'(2) emits_cong [of s "s\<lparr>can2_tbuf := b\<rparr>" s' s'] by simp
  then show ?thesis
    using s'(1) by (auto simp: Can2Send_MultiMessages_def len8 payload_segments [OF lm] crc sent_events_free)
qed

text \<open>A controller that sends nothing in the first interval and is idle again after the first delay.\<close>

definition slow_world :: world where
  "slow_world = idle_world\<lparr>tsr := \<lambda>k n. if k = 0 then 0 else if n = 0 then 0x1C000003 else 0x18000000\<rparr>"

theorem packet_transmission_witness:
  "\<exists>b s' t. can2_data_packet FUNC_LINK 0 0 (Some [0, 0, 0, 0, 0, 0]) = Some (2, b)
     \<and> Can2Send_MultiMessages idle_world 0x1FBE0081 16 (csu_init\<lparr>can2_tbuf := b\<rparr>) = Some (0, s')
     \<and> emits csu_init (send_events 0x1FBE0081
         (segments 2 (packet_message FUNC_LINK 0 0 [0, 0, 0, 0, 0, 0] 2))) s'
     \<and> Can2Send_MultiMessages slow_world 0x1FBE0081 16 (csu_init\<lparr>can2_tbuf := b\<rparr>) = Some (0, t)
     \<and> emits csu_init (Delay 20 # send_events 0x1FBE0081
         (tl (segments 2 (packet_message FUNC_LINK 0 0 [0, 0, 0, 0, 0, 0] 2)))) t"
proof -
  have p: "can2_data_packet FUNC_LINK 0 0 (Some [0, 0, 0, 0, 0, 0]) = Some (2,
      concat (segments 2 (packet_message FUNC_LINK 0 0 [0, 0, 0, 0, 0, 0] 2)) @ replicate 34 0)"
    by (rule packet_2_refines) (auto simp: PreProcess_CanOrder_cases)
  have u: "unat (2 :: u8) = 2" "ucast (2 :: u8) * 8 = (16 :: u16)" by simp_all
  have t: "polls csu_init = 0" "now csu_init = 0" by (simp_all add: csu_init_def)
  have six: "6 \<le> length [0, 0, 0, 0, 0, 0 :: u8]" by simp
  have slow: "sole_sender slow_world" by (simp add: slow_world_def sole_sender_def idle_world_def)
  have later: "mailbox_at slow_world (Suc k)" "\<not> mailbox_at slow_world 0" for k
    by (simp_all add: mailbox_at_def slow_world_def)
  have "sent_events slow_world (Suc k) 0x1FBE0081 fs = send_events 0x1FBE0081 fs" for k fs
    by (induction fs arbitrary: k) (simp_all add: later)
  then have "sent_events slow_world 0 0x1FBE0081 fs = Delay 20 # send_events 0x1FBE0081 (tl fs)" if "fs \<noteq> []" for fs
    using that by (cases fs) (simp_all add: later)
  moreover have "segments 2 m \<noteq> []" for m by (simp add: segments_def)
  ultimately show ?thesis
    using packet_transmission [OF six p sole_sender_idle t(1) refl, of "0x1FBE0081"]
      packet_transmission [OF six p slow t(1) refl, of "0x1FBE0081"] p
    unfolding u t(2) by (metis free_mailbox_idle)
qed

text \<open>With a null data pointer the builder succeeds exactly for the orders whose packet has
  no data bytes; for the configuration of the unit number (sent with a null pointer by
  \<open>can_task\<close>), remote control, status and configuration orders it reads through the null
  pointer.\<close>

lemma can2_data_packet_null:
  "can2_data_packet order ac len None = None \<longleftrightarrow>
     order \<in> {FUNC_SETNUM, FUNC_RCONTROL, FUNC_SEEKSTAT, FUNC_CONFIG}"
  by (auto simp: packet_defs PreProcess_CanOrder_cases)

text \<open>When all three mailboxes are busy \<open>CAN1Send_Msg\<close> sends nothing, does not wait, and
  returns 0, the value it also returns for a frame on its way: a lost frame is never reported.\<close>

lemma CAN1Send_Msg_lost:
  assumes "no_mailbox w" and "unat len \<le> 8" and "unat len \<le> length msg"
  shows "CAN1Send_Msg w msg len exid s = Some (0, s\<lparr>polls := polls s + 3\<rparr>)"
proof -
  have "CAN_Transmit w exid (take (unat len) msg) s = (4, s\<lparr>polls := polls s + 3\<rparr>)"
    using assms(1) by (simp add: CAN_Transmit_def read_tsr_def no_mailbox_def Let_def eval_nat_numeral)
  moreover have "can_wait w 4 0 (s\<lparr>polls := polls s + 3\<rparr>) = (0, s\<lparr>polls := polls s + 3\<rparr>)"
    by (simp add: can_wait.simps [of w 4] CAN_TransmitStatus_def)
  ultimately show ?thesis using assms(2,3) by (simp add: CAN1Send_Msg_def)
qed

text \<open>The wait of \<open>CAN1Send_Msg\<close> goes on only while the status is failed: right after a request, when
  the frame is pending, it ends at once and 0 is returned before the frame is on the bus.\<close>

lemma CAN1Send_Msg_pending:
  assumes "tsr w (now s) (polls s) AND CAN_TSR_TME0 = CAN_TSR_TME0"
    and "tsr w (now s) (Suc (polls s)) AND 0x04000003 = 0" and "unat len \<le> 8" and "unat len \<le> length msg"
  shows "CAN1Send_Msg w msg len exid s
    = Some (0, (emit (CanTx exid (take (unat len) msg)) s)\<lparr>polls := polls s + 2\<rparr>)"
proof -
  let ?t = "(emit (CanTx exid (take (unat len) msg)) s)\<lparr>polls := Suc (polls s)\<rparr>"
  have "CAN_Transmit w exid (take (unat len) msg) s = (0, ?t)"
    using assms(1) by (simp add: CAN_Transmit_def read_tsr_def emit_def Let_def)
  moreover have "can_wait w 0 0 ?t = (0, ?t\<lparr>polls := polls s + 2\<rparr>)"
    using assms(2) by (simp add: can_wait.simps [of w 0] CAN_TransmitStatus_def read_tsr_def emit_def)
  ultimately show ?thesis using assms(3,4) by (simp add: CAN1Send_Msg_def)
qed

end
