(* ===== verification/Can_Rx.thy ===== *)
theory Can_Rx
  imports Can_Tx
begin

text \<open>
  The receive half of HARDWARE/CAN/can.c: the receive interrupts, the reassembly of a
  multi-frame message in \<open>can_temp\<close> (\<open>Can_ReadData\<close>) and its interpretation
  (\<open>Candata_analysis\<close>), with the routine of the peripheral library that takes a frame out
  of the mailbox registers (\<open>CAN_Receive\<close>) and the part of \<open>CAN_Transmit\<close> that puts
  one in.
\<close>

section \<open>Mailbox registers\<close>

record mailbox =
  R_IR :: u32
  R_DTR :: u32
  R_DLR :: u32
  R_DHR :: u32

record CanRxMsg =
  StdId :: u32
  ExtId :: u32
  IDE :: u8
  RTR :: u8
  DLC :: u8
  Data :: "u8 list"
  FMI :: u8

text \<open>\<open>((uint32_t)Data[3] << 24) | (Data[2] << 16) | (Data[1] << 8) | Data[0]\<close>\<close>

definition word_of_bytes :: "u8 \<Rightarrow> u8 \<Rightarrow> u8 \<Rightarrow> u8 \<Rightarrow> u32" where
  "word_of_bytes d0 d1 d2 d3 = push_bit 24 (ucast d3) OR push_bit 16 (ucast d2)
     OR push_bit 8 (ucast d1) OR ucast d0"

definition byte_of_word :: "nat \<Rightarrow> u32 \<Rightarrow> u8" where
  "byte_of_word k w = ucast (0xFF AND drop_bit (8 * k) w)"

text \<open>The registers \<open>CAN_Transmit\<close> writes for an extended data frame of \<open>CAN1Send_Msg\<close>.\<close>

definition load_mailbox :: "u32 \<Rightarrow> u8 \<Rightarrow> u8 \<Rightarrow> u8 \<Rightarrow> u8 list \<Rightarrow> mailbox \<Rightarrow> mailbox" where
  "load_mailbox exid ide rtr dlc d mb =
     (let ir = R_IR mb AND 1;
          ir = ir OR (push_bit 3 exid OR ucast ide OR ucast rtr);
          dtr = (R_DTR mb AND 0xFFFFFFF0) OR ucast (dlc AND 0x0F)
      in \<lparr>R_IR = ir OR 1, R_DTR = dtr,
          R_DLR = word_of_bytes (d ! 0) (d ! 1) (d ! 2) (d ! 3),
          R_DHR = word_of_bytes (d ! 4) (d ! 5) (d ! 6) (d ! 7)\<rparr>)"

text \<open>
  \<open>CAN_Receive\<close> fills in a \<open>CanRxMsg\<close> that the interrupt handlers leave
  uninitialised: the extended identifier of a standard frame is whatever the stack held.
\<close>

definition CAN_Receive :: "mailbox \<Rightarrow> CanRxMsg \<Rightarrow> CanRxMsg" where
  "CAN_Receive mb msg =
     (let ide = 0x04 AND ucast (R_IR mb);
          msg = msg\<lparr>IDE := ide\<rparr>;
          msg = (if ide = 0 then msg\<lparr>StdId := 0x7FF AND drop_bit 21 (R_IR mb)\<rparr>
                 else msg\<lparr>ExtId := 0x1FFFFFFF AND drop_bit 3 (R_IR mb)\<rparr>)
      in msg\<lparr>RTR := 0x02 AND ucast (R_IR mb), DLC := 0x0F AND ucast (R_DTR mb),
             FMI := 0xFF AND ucast (drop_bit 8 (R_DTR mb)),
             Data := map (\<lambda>k. byte_of_word k (R_DLR mb)) [0..<4]
                     @ map (\<lambda>k. byte_of_word k (R_DHR mb)) [0..<4]\<rparr>)"

section \<open>Interpretation of a message\<close>

definition getu16 :: "u8 \<Rightarrow> u8 \<Rightarrow> u16" where
  "getu16 h l = push_bit 8 (ucast h) OR ucast l"

text \<open>The measurements of a \<open>FUNC_SEEKVALUE\<close> report.\<close>

definition seek_value :: "u8 list \<Rightarrow> PTC_ELECT_DATA \<Rightarrow> PTC_ELECT_DATA" where
  "seek_value data e =
     (let e = e\<lparr>Rectifier_output_v := getu16 (data ! 12) (data ! 13)\<rparr>;
          e = e\<lparr>Input_v := Rectifier_output_v e\<rparr>;
          e = e\<lparr>PFCInductor1_i := getu16 (data ! 14) (data ! 15)\<rparr>;
          e = e\<lparr>Input_i := PFCInductor1_i e\<rparr>;
          e = e\<lparr>PFCInductor2_i := getu16 (data ! 16) (data ! 17),
                BUSoutput_v := getu16 (data ! 18) (data ! 19),
                Coil_i := getu16 (data ! 20) (data ! 21)\<rparr>;
          e = e\<lparr>Output_i := Coil_i e\<rparr>
      in e\<lparr>INVInductor_i := getu16 (data ! 22) (data ! 23),
           INV_fre := getu16 (data ! 24) (data ! 25),
           Temp_envir := data ! 28 - 40, Temp_rectify := data ! 29 - 40,
           Temp_pfc_mos := data ! 30 - 40, Temp_INV_mos1 := data ! 31 - 40,
           Temp_INV_mos2 := data ! 32 - 40\<rparr>)"

text \<open>The states and alarms of a \<open>FUNC_SEEKSTAT\<close> report.\<close>

definition seek_stat :: "u8 list \<Rightarrow> PTC_ELECT_DATA \<Rightarrow> PTC_ELECT_DATA" where
  "seek_stat data e = e\<lparr>g_PTC_State := getu16 (data ! 13) (data ! 14),
     g_pfc_State := getu16 (data ! 15) (data ! 16), g_inv_State := getu16 (data ! 17) (data ! 18),
     g_PFCAlarm_State := getu16 (data ! 22) (data ! 23),
     g_INVAlarm_State := getu16 (data ! 24) (data ! 25)\<rparr>"

text \<open>
  \<open>Candata_analysis\<close> is only called on the 50-byte array \<open>can_temp\<close>, so all its
  reads are in bounds.  The CRC comparison of a \<open>FUNC_SEEKVALUE\<close> report is commented out in
  the source and replaced by \<open>if(1)\<close>.
\<close>

definition Candata_analysis :: "u8 list \<Rightarrow> csu \<Rightarrow> csu" where
  "Candata_analysis data s =
     (if data ! 0 = PROTOCOL_NOR \<and> data ! 1 = PTC_TYPE \<and> data ! 2 = PTC_ADDR then
        (if data ! 3 = FUNC_SEEK then s
         else if data ! 3 = FUNC_SETNUM then s\<lparr>revframe_num := 3\<rparr>
         else if data ! 3 = FUNC_CONFIG then
           s\<lparr>SetPTCData := (SetPTCData s)\<lparr>s_set_statu := True\<rparr>, revframe_num := 2\<rparr>
         else if data ! 3 = FUNC_LINK then
           s\<lparr>PTCElectData := (PTCElectData s)\<lparr>Output_MAX_i := getu16 (data ! 17) (data ! 18)\<rparr>\<rparr>
         else if data ! 3 = FUNC_RCONTROL then s\<lparr>revframe_num := 3\<rparr>
         else if data ! 3 = FUNC_SEEKVALUE then
           s\<lparr>crcdata := CRC16_XMODEM data 40,
             revdata_len := ucast (getu16 (data ! 10) (data ! 11)),
             PTCElectData := seek_value data (PTCElectData s)\<rparr>
         else if data ! 3 = FUNC_SEEKSTAT then
           (if CRC16_XMODEM data 33 = getu16 (data ! 33) (data ! 34)
            then s\<lparr>PTCElectData := seek_stat data (PTCElectData s)\<rparr> else s)
         else s)
      else s)"

section \<open>Reassembly\<close>

text \<open>\<open>memcpy(&can_temp[off], &msg.Data[1], 7)\<close>\<close>

definition store_frame :: "nat \<Rightarrow> CanRxMsg \<Rightarrow> csu \<Rightarrow> csu option" where
  "store_frame off msg s =
     map_option (\<lambda>b. s\<lparr>can_temp := b\<rparr>) (poke (can_temp s) off (take 7 (drop 1 (Data msg))))"

text \<open>
  The result is \<^const>\<open>None\<close> when a copy runs past the end of \<open>can_temp\<close>.  The second
  \<open>if\<close>, \<open>close_message\<close>, is not an \<open>else if\<close>: the last frame of a message takes both
  copies.
\<close>

definition close_message :: "CanRxMsg \<Rightarrow> csu \<Rightarrow> csu option" where
  "close_message msg s =
     (if 0x80 \<le> Data msg ! 0 \<and> 1 \<le> revframe_pos s \<and> revframe_pos s < 8 then
        do { let s = s\<lparr>revframe_pos := revframe_pos s + 1\<rparr>;
             s \<leftarrow> store_frame ((unat (revframe_pos s) - 1) * 7) msg s;
             let s = Candata_analysis (can_temp s) s;
             Some (s\<lparr>revframe_pos := 0, can_temp := replicate 50 0\<rparr>) }
      else Some s)"

definition Can_ReadData :: "CanRxMsg \<Rightarrow> csu \<Rightarrow> csu option" where
  "Can_ReadData msg s =
     (if flag_canrev s = 1 then
        do { let s = s\<lparr>flag_canrev := 0\<rparr>;
             s \<leftarrow> (if Data msg ! 0 = 0x00 then
                     map_option (\<lambda>s. s\<lparr>revframe_pos := 1\<rparr>) (store_frame 0 msg s)
                   else if 1 \<le> revframe_pos s \<and> revframe_pos s < 0x80 then
                     (let s = s\<lparr>revframe_pos := revframe_pos s + 1\<rparr>
                      in store_frame ((unat (revframe_pos s) - 1) * 7) msg s)
                   else Some s);
             close_message msg s }
      else Some s)"

text \<open>\<open>CAN1_RX0_IRQHandler\<close> and \<open>CAN2_RX0_IRQHandler\<close> differ only in the controller they read.\<close>

definition CAN1_RX0_IRQHandler :: "CanRxMsg \<Rightarrow> mailbox \<Rightarrow> csu \<Rightarrow> csu option" where
  "CAN1_RX0_IRQHandler stack mb s =
     (let RxMessage = CAN_Receive mb stack
      in if ExtId RxMessage = 0x10207EF8
         then map_option (\<lambda>s. s\<lparr>flag_canrev := 1\<rparr>) (Can_ReadData RxMessage s)
         else Some s)"

definition CAN2_RX0_IRQHandler :: "CanRxMsg \<Rightarrow> mailbox \<Rightarrow> csu \<Rightarrow> csu option" where
  "CAN2_RX0_IRQHandler stack mb s =
     (let RxMessage = CAN_Receive mb stack
      in if ExtId RxMessage = 0x10207EF8
         then map_option (\<lambda>s. s\<lparr>flag_canrev := 1\<rparr>) (Can_ReadData RxMessage s)
         else Some s)"

text \<open>
  Polling reception: the FIFO status, and the copy of \<open>DLC\<close> bytes.  A length field above
  eight reads past \<open>RxMessage.Data\<close>, and a short caller buffer is overrun.
\<close>

definition CAN_MessagePending :: "u32 \<Rightarrow> u8" where
  "CAN_MessagePending rf0r = ucast (rf0r AND 0x03)"

definition CAN2_Receive_Msg ::
  "u32 \<Rightarrow> CanRxMsg \<Rightarrow> mailbox \<Rightarrow> u8 list \<Rightarrow> (u8 \<times> u8 list) option" where
  "CAN2_Receive_Msg rf0r stack mb buf =
     (if CAN_MessagePending rf0r = 0 then Some (0, buf)
      else let RxMessage = CAN_Receive mb stack
           in do { d \<leftarrow> peek (Data RxMessage) 0 (unat (DLC RxMessage));
                   b \<leftarrow> poke buf 0 d;
                   Some (DLC RxMessage, b) })"

section \<open>From the sender's mailbox to the receiver's\<close>

text \<open>What the bus carries of a mailbox: identifier, flags, length and data.\<close>

definition wire :: "mailbox \<Rightarrow> mailbox" where
  "wire mb = mb\<lparr>R_IR := R_IR mb AND NOT 1, R_DTR := R_DTR mb AND 0x0F\<rparr>"

text \<open>A frame as \<open>CAN1Send_Msg\<close> loads it: extended identifier, data frame, eight bytes.\<close>

definition can_frame :: "mailbox \<Rightarrow> u32 \<Rightarrow> u8 list \<Rightarrow> mailbox" where
  "can_frame mb exid f = wire (load_mailbox exid 4 0 8 f mb)"

text \<open>An uninitialised message and mailbox, for concrete runs.\<close>

definition zero_msg :: CanRxMsg where
  "zero_msg = \<lparr>StdId = 0, ExtId = 0, IDE = 0, RTR = 0, DLC = 0, Data = replicate 8 0, FMI = 0\<rparr>"

definition zero_mailbox :: mailbox where
  "zero_mailbox = \<lparr>R_IR = 0, R_DTR = 0, R_DLR = 0, R_DHR = 0\<rparr>"

lemma byte_of_word_of_bytes [byte_simps]:
  "byte_of_word 0 (word_of_bytes a b c d) = a"
  "byte_of_word (Suc 0) (word_of_bytes a b c d) = b"
  "byte_of_word 2 (word_of_bytes a b c d) = c"
  "byte_of_word 3 (word_of_bytes a b c d) = d"
proof -
  have mask: "(0xFF :: u32) = mask 8" by (simp add: mask_eq_exp_minus_1)
  note defs = byte_of_word_def word_of_bytes_def mask
  show "byte_of_word 0 (word_of_bytes a b c d) = a"
    by (rule bit_word_eqI) (auto simp: defs bit_simps dest: bit_imp_le_length)
  show "byte_of_word (Suc 0) (word_of_bytes a b c d) = b"
    by (rule bit_word_eqI) (auto simp: defs bit_simps dest: bit_imp_le_length)
  show "byte_of_word 2 (word_of_bytes a b c d) = c"
    by (rule bit_word_eqI) (auto simp: defs bit_simps dest: bit_imp_le_length)
  show "byte_of_word 3 (word_of_bytes a b c d) = d"
    by (rule bit_word_eqI) (auto simp: defs bit_simps dest: bit_imp_le_length)
qed

lemma upt_4: "[0..<4] = [0, 1, 2, 3 :: nat]" by code_simp

lemma eight_bytes:
  assumes "length f = 8"
  obtains a b c d e g h i where "f = [a, b, c, d, e, g, h, i]"
  using assms by (auto simp: numeral_eq_Suc length_Suc_conv)

lemma CAN_Receive_Data:
  assumes "length f = 8"
  shows "Data (CAN_Receive (can_frame mb exid f) m) = f"
  using assms
  by (rule eight_bytes)
    (simp add: CAN_Receive_def can_frame_def wire_def load_mailbox_def Let_def upt_4 byte_simps)

lemma CAN_Receive_FMI: "FMI (CAN_Receive (can_frame mb exid f) m) = 0"
proof -
  have "drop_bit 8 (R_DTR (can_frame mb exid f)) = 0"
  proof -
    have "(15 :: u32) = mask 4" by (simp add: mask_eq_exp_minus_1)
    then show ?thesis
      unfolding can_frame_def wire_def
      by (simp add: drop_bit_and drop_bit_mask_eq)
  qed
  then show ?thesis by (simp add: CAN_Receive_def Let_def)
qed

lemma bit_int_numeral:
  "bit (8 :: int) n \<Longrightarrow> n = 3" "bit (4 :: int) n \<Longrightarrow> n = 2" "bit (2 :: int) n \<Longrightarrow> n = 1"
  using bit_exp_iff [where 'a = int, of 3 n] bit_exp_iff [where 'a = int, of 2 n]
    bit_exp_iff [where 'a = int, of 1 n] by auto

lemma extended_id_register:
  fixes exid ir :: u32
  assumes "exid < 2 ^ 29"
  defines "r \<equiv> (((ir AND 1) OR (push_bit 3 exid OR 4)) OR 1) AND NOT 1"
  shows "0x04 AND ucast r = (4 :: u8)" and "0x1FFFFFFF AND drop_bit 3 r = exid"
    and "0x02 AND ucast r = (0 :: u8)"
proof -
  have bit1: "bit (1 :: u32) n \<longleftrightarrow> n = 0" for n by (simp add: bit_1_iff)
  have bit4: "bit (4 :: u32) n \<longleftrightarrow> n = 2" for n
    using bit_exp_iff [where 'a = "32 word", of 2 n] by auto
  have r: "bit r n \<longleftrightarrow> n < 32 \<and> (n = 2 \<or> (3 \<le> n \<and> bit exid (n - 3)))" for n
    unfolding r_def bit_and_iff bit_or_iff bit_not_iff bit_push_bit_iff bit1 bit4 by auto
  have m: "0x1FFFFFFF AND x = take_bit 29 x" for x :: u32
    by (simp add: take_bit_eq_mask mask_eq_exp_minus_1 and.commute)
  have ex: "exid = take_bit 29 exid"
    using assms(1) less_mask_eq [of exid 29] by (simp add: take_bit_eq_mask)
  have ex: "bit exid n \<Longrightarrow> n < 29" for n
    by (subst (asm) ex) (simp add: bit_simps)
  show "0x04 AND ucast r = (4 :: u8)"
    by (rule bit_word_eqI) (auto simp: bit_simps r dest!: bit_int_numeral)
  show "0x02 AND ucast r = (0 :: u8)"
    by (rule bit_word_eqI) (auto simp: bit_simps r dest!: bit_int_numeral)
  show "0x1FFFFFFF AND drop_bit 3 r = exid"
    by (simp only: m, rule bit_word_eqI) (auto simp: bit_simps r dest: ex)
qed

lemma CAN_Receive_frame:
  assumes "exid < 2 ^ 29" and "length f = 8"
  shows "ExtId (CAN_Receive (can_frame mb exid f) m) = exid"
    and "IDE (CAN_Receive (can_frame mb exid f) m) = 4"
    and "RTR (CAN_Receive (can_frame mb exid f) m) = 0"
    and "DLC (CAN_Receive (can_frame mb exid f) m) = 8"
proof -
  have ir: "R_IR (can_frame mb exid f) = (((R_IR mb AND 1) OR (push_bit 3 exid OR 4)) OR 1) AND NOT 1"
    by (simp add: can_frame_def wire_def load_mailbox_def Let_def)
  have dtr: "0x0F AND ucast (R_DTR (can_frame mb exid f)) = (8 :: u8)"
  proof -
    have m: "(15 :: u32) = mask 4" "(15 :: u8) = mask 4" "(0xFFFFFFF0 :: u32) = NOT (mask 4)"
      by (simp_all add: mask_eq_exp_minus_1)
    have "R_DTR (can_frame mb exid f) = ((R_DTR mb AND 0xFFFFFFF0) OR 8) AND 15"
      by (simp add: can_frame_def wire_def load_mailbox_def Let_def)
    then show ?thesis
      unfolding m by (simp only:) (rule bit_word_eqI, auto simp: bit_simps dest!: bit_int_numeral)
  qed
  note r = extended_id_register [OF assms(1), of "R_IR mb", folded ir]
  show "ExtId (CAN_Receive (can_frame mb exid f) m) = exid"
    and "IDE (CAN_Receive (can_frame mb exid f) m) = 4"
    and "RTR (CAN_Receive (can_frame mb exid f) m) = 0"
    and "DLC (CAN_Receive (can_frame mb exid f) m) = 8"
    by (simp_all add: CAN_Receive_def Let_def r dtr)
qed

section \<open>Receiving a message frame by frame\<close>

fun rx_frames :: "CanRxMsg \<Rightarrow> mailbox list \<Rightarrow> csu \<Rightarrow> csu option" where
  "rx_frames stack [] s = Some s"
| "rx_frames stack (mb # mbs) s =
     Option.bind (CAN1_RX0_IRQHandler stack mb s) (rx_frames stack mbs)"

abbreviation (input) PTC_FRAME_ID :: u32 where "PTC_FRAME_ID \<equiv> 0x10207EF8"

lemma rx_frames_append:
  "rx_frames stack (xs @ ys) s = Option.bind (rx_frames stack xs s) (rx_frames stack ys)"
  by (induction xs arbitrary: s) (auto split: Option.bind_split)

lemma Candata_analysis_simps [simp]:
  "Candata_analysis d (s\<lparr>flag_canrev := f\<rparr>) = (Candata_analysis d s)\<lparr>flag_canrev := f\<rparr>"
  "Candata_analysis d (s\<lparr>revframe_pos := p\<rparr>) = (Candata_analysis d s)\<lparr>revframe_pos := p\<rparr>"
  "Candata_analysis d (s\<lparr>can_temp := t\<rparr>) = (Candata_analysis d s)\<lparr>can_temp := t\<rparr>"
  by (simp_all add: Candata_analysis_def)

lemma receive_handler:
  assumes "length f = 8"
  obtains msg where "Data msg = f" and "CAN1_RX0_IRQHandler stack (can_frame mb PTC_FRAME_ID f) s
      = map_option (\<lambda>s. s\<lparr>flag_canrev := 1\<rparr>) (Can_ReadData msg s)"
proof -
  have "(PTC_FRAME_ID :: u32) < 2 ^ 29" by simp
  from CAN_Receive_frame(1) [OF this assms, of mb stack]
  have "CAN1_RX0_IRQHandler stack (can_frame mb PTC_FRAME_ID f) s = map_option (\<lambda>s. s\<lparr>flag_canrev := 1\<rparr>)
      (Can_ReadData (CAN_Receive (can_frame mb PTC_FRAME_ID f) stack) s)"
    by (simp add: CAN1_RX0_IRQHandler_def Let_def)
  with CAN_Receive_Data [OF assms] show thesis by (rule that)
qed

text \<open>The three ways a frame is stored, and the frame that arrives while the flag is clear.\<close>

lemma rx_first:
  assumes "length p = 7" and "flag_canrev s = 1" and "length (can_temp s) = 50"
  shows "CAN1_RX0_IRQHandler stack (can_frame mb PTC_FRAME_ID (0 # p)) s =
     Some (s\<lparr>flag_canrev := 1, revframe_pos := 1, can_temp := p @ drop 7 (can_temp s)\<rparr>)"
proof -
  have "length (0 # p) = 8" using assms(1) by simp
  then obtain msg where "Data msg = 0 # p" "CAN1_RX0_IRQHandler stack (can_frame mb PTC_FRAME_ID (0 # p)) s
      = map_option (\<lambda>s. s\<lparr>flag_canrev := 1\<rparr>) (Can_ReadData msg s)" by (rule receive_handler)
  with assms show ?thesis by (simp add: Can_ReadData_def close_message_def store_frame_def poke_def)
qed

lemma rx_middle:
  assumes "length p = 7" and "flag_canrev s = 1" and "length (can_temp s) = 50"
    and "d \<noteq> 0" and "d < 0x80" and "revframe_pos s = of_nat j" and "1 \<le> j" and "j \<le> 6"
  shows "CAN1_RX0_IRQHandler stack (can_frame mb PTC_FRAME_ID (d # p)) s =
     Some (s\<lparr>flag_canrev := 1, revframe_pos := of_nat (Suc j),
       can_temp := take (7 * j) (can_temp s) @ p @ drop (7 * j + 7) (can_temp s)\<rparr>)"
proof -
  have "length (d # p) = 8" using assms(1) by simp
  then obtain msg where msg: "Data msg = d # p" "CAN1_RX0_IRQHandler stack (can_frame mb PTC_FRAME_ID (d # p)) s
      = map_option (\<lambda>s. s\<lparr>flag_canrev := 1\<rparr>) (Can_ReadData msg s)" by (rule receive_handler)
  have nd: "(0x80 \<le> d) = False" using assms(5) by simp
  have "j \<in> {1, 2, 3, 4, 5, 6}" using assms(7,8) by auto
  then show ?thesis
    using msg assms(1-4,6) by (auto simp: Can_ReadData_def close_message_def store_frame_def poke_def nd)
qed

lemma rx_last:
  assumes "length p = 7" and "flag_canrev s = 1" and "length (can_temp s) = 50"
    and "0x80 \<le> d" and "revframe_pos s = of_nat j" and "1 \<le> j" and "j \<le> 5"
  shows "CAN1_RX0_IRQHandler stack (can_frame mb PTC_FRAME_ID (d # p)) s =
     Some ((Candata_analysis (take (7 * j) (can_temp s) @ p @ p @ drop (7 * j + 14) (can_temp s)) s)
       \<lparr>flag_canrev := 1, revframe_pos := 0, can_temp := replicate 50 0\<rparr>)"
proof -
  have "length (d # p) = 8" using assms(1) by simp
  then obtain msg where msg: "Data msg = d # p" "CAN1_RX0_IRQHandler stack (can_frame mb PTC_FRAME_ID (d # p)) s
      = map_option (\<lambda>s. s\<lparr>flag_canrev := 1\<rparr>) (Can_ReadData msg s)" by (rule receive_handler)
  have "j \<in> {1, 2, 3, 4, 5}" using assms(6,7) by auto
  moreover have "d \<noteq> 0" using assms(4) by auto
  ultimately show ?thesis
    using msg assms by (auto simp: Can_ReadData_def close_message_def store_frame_def poke_def)
qed

text \<open>Frames that are not stored: the flag is clear, or no message was started.\<close>

lemma rx_flag_clear:
  assumes "length f = 8" and "flag_canrev s = 0"
  shows "CAN1_RX0_IRQHandler stack (can_frame mb PTC_FRAME_ID f) s = Some (s\<lparr>flag_canrev := 1\<rparr>)"
  using receive_handler [OF assms(1), of stack mb s] assms(2) by (auto simp: Can_ReadData_def)

lemma rx_not_started:
  assumes "length (d # p) = 8" and "flag_canrev s = 1" and "revframe_pos s = 0" and "d \<noteq> 0"
  shows "CAN1_RX0_IRQHandler stack (can_frame mb PTC_FRAME_ID (d # p)) s = Some (s\<lparr>flag_canrev := 1\<rparr>)"
proof -
  obtain msg where "Data msg = d # p" "CAN1_RX0_IRQHandler stack (can_frame mb PTC_FRAME_ID (d # p)) s
      = map_option (\<lambda>s. s\<lparr>flag_canrev := 1\<rparr>) (Can_ReadData msg s)" by (rule receive_handler [OF assms(1)])
  with assms(2-4) show ?thesis by (simp add: Can_ReadData_def close_message_def)
qed

text \<open>The state after the first \<open>j\<close> frames of a message \<open>m\<close>.\<close>

definition rx_state :: "nat \<Rightarrow> u8 list \<Rightarrow> csu \<Rightarrow> csu" where
  "rx_state j m s = s\<lparr>flag_canrev := 1, revframe_pos := of_nat j,
     can_temp := take (7 * j) m @ drop (7 * j) (can_temp s)\<rparr>"

definition message_frames :: "mailbox \<Rightarrow> nat \<Rightarrow> u8 list \<Rightarrow> mailbox list" where
  "message_frames mb n m = map (can_frame mb PTC_FRAME_ID) (segments n m)"

lemma unat_segment_number:
  assumes "k < n" and "n \<le> 128"
  shows "unat (segment_number n k) = (if Suc k = n then 128 + k else k)"
proof -
  have u: "unat (of_nat k :: u8) = k"
    using assms by (simp add: unat_of_nat take_bit_nat_eq_self)
  have "unat (0x80 + of_nat k :: u8) = (128 + unat (of_nat k :: u8)) mod 256"
    by (simp only: unat_word_ariths) simp
  then show ?thesis using assms by (simp add: segment_number_def u)
qed

lemma segment_number_range:
  "k < n \<Longrightarrow> n \<le> 128 \<Longrightarrow> 0 < k \<Longrightarrow> segment_number n k \<noteq> 0"
  "Suc 0 < n \<Longrightarrow> segment_number n 0 = 0"
  "Suc k < n \<Longrightarrow> n \<le> 128 \<Longrightarrow> segment_number n k < 0x80"
  "k < 128 \<Longrightarrow> Suc k = n \<Longrightarrow> 0x80 \<le> segment_number n k"
  using unat_segment_number [of k n]
  by (auto simp: word_less_nat_alt word_le_nat_alt segment_number_def)

lemma message_frames_nth:
  "k < n \<Longrightarrow> message_frames mb n m ! k =
     can_frame mb PTC_FRAME_ID (segment_number n k # take 7 (drop (7 * k) m))"
  by (simp add: message_frames_def segments_def)

lemma length_message_frames [simp]: "length (message_frames mb n m) = n"
  by (simp add: message_frames_def)

lemma rx_frames_step:
  "k < n \<Longrightarrow> rx_frames stack (take (Suc k) (message_frames mb n m)) s =
     Option.bind (rx_frames stack (take k (message_frames mb n m)) s)
       (CAN1_RX0_IRQHandler stack (message_frames mb n m ! k))"
proof -
  have "rx_frames stack [] = Some" by (rule ext) simp
  moreover assume "k < n"
  ultimately show ?thesis
    by (simp add: take_Suc_conv_app_nth rx_frames_append split: Option.bind_split)
qed

lemma take_extend: "7 * j + 7 \<le> length m \<Longrightarrow> length (t :: 'a list) = 50 \<Longrightarrow> 7 * j + 7 \<le> 50 \<Longrightarrow>
    take (7 * j) (take (7 * j) m @ drop (7 * j) t) @ take 7 (drop (7 * j) m)
      @ drop (7 * j + 7) (take (7 * j) m @ drop (7 * j) t)
    = take (7 * Suc j) m @ drop (7 * Suc j) t"
proof -
  assume "7 * j + 7 \<le> length m"
  moreover have "take (7 + 7 * j) m = take (7 * j) m @ take 7 (drop (7 * j) m)"
    by (simp add: take_add add.commute [of 7])
  ultimately show ?thesis by simp
qed

lemma rx_prefix:
  assumes "flag_canrev s = 1" and "length (can_temp s) = 50" and "length m = 7 * n" and "n \<le> 128"
  shows "j < 7 \<Longrightarrow> Suc j < n \<Longrightarrow>
    rx_frames stack (take (Suc j) (message_frames mb n m)) s = Some (rx_state (Suc j) m s)"
proof (induction j)
  case 0
  then show ?case
    using assms rx_first [of "take 7 m" s stack mb] segment_number_range(2) [of n]
    by (simp add: rx_frames_step message_frames_nth rx_state_def)
next
  case (Suc j)
  let ?s = "rx_state (Suc j) m s"
  have bounds: "Suc j < n" "7 * Suc j + 7 \<le> length m" "7 * Suc j + 7 \<le> 50"
    using Suc.prems assms(3) by auto
  have flds: "flag_canrev ?s = 1" "length (can_temp ?s) = 50" "revframe_pos ?s = of_nat (Suc j)"
    "can_temp ?s = take (7 * Suc j) m @ drop (7 * Suc j) (can_temp s)"
    using bounds assms(2) by (simp_all add: rx_state_def)
  have num: "segment_number n (Suc j) \<noteq> 0" "segment_number n (Suc j) < 0x80"
    using segment_number_range(1) [of "Suc j" n] segment_number_range(3) [of "Suc j" n] Suc.prems assms(4)
    by auto
  have len: "length (take 7 (drop (7 * Suc j) m)) = 7" using bounds by simp
  have "CAN1_RX0_IRQHandler stack (message_frames mb n m ! Suc j) ?s =
      Some (?s\<lparr>flag_canrev := 1, revframe_pos := of_nat (Suc (Suc j)),
        can_temp := take (7 * Suc (Suc j)) m @ drop (7 * Suc (Suc j)) (can_temp s)\<rparr>)"
    unfolding message_frames_nth [OF bounds(1)]
    using rx_middle [OF len flds(1,2) num flds(3), of stack mb] Suc.prems
      take_extend [OF bounds(2) assms(2) bounds(3)]
    by (simp only: flds(4))
  then show ?case
    using Suc.IH Suc.prems bounds(1) by (simp add: rx_frames_step [OF bounds(1)] rx_state_def)
qed

text \<open>What the last frame of a message of \<open>n \<le> 6\<close> frames leaves in the analysis buffer.\<close>

definition analysed_buffer :: "nat \<Rightarrow> u8 list \<Rightarrow> u8 list \<Rightarrow> u8 list" where
  "analysed_buffer n m t = m @ drop (7 * n - 7) m @ drop (7 * n + 7) t"

lemma rx_message:
  assumes "flag_canrev s = 1" and "length (can_temp s) = 50"
    and "length m = 7 * n" and "2 \<le> n" and "n \<le> 6"
  shows "rx_frames stack (message_frames mb n m) s =
    Some ((Candata_analysis (analysed_buffer n m (can_temp s)) s)
      \<lparr>flag_canrev := 1, revframe_pos := 0, can_temp := replicate 50 0\<rparr>)"
proof -
  obtain j where n: "n = Suc (Suc j)" using assms(4) by (auto simp: numeral_2_eq_2 Suc_le_eq dest: less_imp_Suc_add)
  let ?s = "rx_state (Suc j) m s"
  have pre: "rx_frames stack (take (Suc j) (message_frames mb n m)) s = Some ?s"
    by (rule rx_prefix) (use assms n in auto)
  have p: "take 7 (drop (7 * Suc j) m) = drop (7 * Suc j) m" "length (drop (7 * Suc j) m) = 7"
    using assms(3) n by simp_all
  have d: "0x80 \<le> segment_number n (Suc j)" using segment_number_range(4) [of "Suc j" n] assms n by simp
  have flds: "flag_canrev ?s = 1" "length (can_temp ?s) = 50" "revframe_pos ?s = of_nat (Suc j)"
    using assms n by (simp_all add: rx_state_def)
  have buf: "take (7 * Suc j) (can_temp ?s) @ drop (7 * Suc j) m @ drop (7 * Suc j) m
      @ drop (7 * Suc j + 14) (can_temp ?s) = analysed_buffer n m (can_temp s)"
    using assms(2,3) n by (simp add: rx_state_def analysed_buffer_def)
  have last: "CAN1_RX0_IRQHandler stack (message_frames mb n m ! Suc j) ?s =
      Some ((Candata_analysis (analysed_buffer n m (can_temp s)) ?s)
        \<lparr>flag_canrev := 1, revframe_pos := 0, can_temp := replicate 50 0\<rparr>)"
  proof -
    have "Suc j < n" "1 \<le> Suc j" "Suc j \<le> 5" using assms(5) n by auto
    then show ?thesis
      using rx_last [OF p(2) flds(1,2) d flds(3), of stack mb]
      by (simp only: message_frames_nth p(1) buf)
  qed
  have "message_frames mb n m = take (Suc (Suc j)) (message_frames mb n m)" by (simp add: n)
  then show ?thesis
    using rx_frames_step [of "Suc j" n stack mb m s] pre last n by (simp add: rx_state_def)
qed

section \<open>Reports\<close>

lemma crc_bytes_two_zero: "crc_bytes c [a, b] = 0 \<longleftrightarrow> a = hi8 c \<and> b = lo8 c"
  using crc_two_bytes_inject [of c a b "hi8 c" "lo8 c"] crc_bytes_residue [of c]
  by (simp del: crc_bytes_simps crc_bytes_residue)

lemma getu16_join: "getu16 h l = join16 h l"
  by (simp add: getu16_def join16_def)

lemma crc_check_residue:
  assumes "length m = k + 2"
  shows "crc_bytes 0 (take k m) = getu16 (m ! k) (m ! Suc k) \<longleftrightarrow> crc_bytes 0 m = 0"
proof -
  have "m = take k m @ [m ! k, m ! Suc k]"
    using assms by (metis (no_types, lifting) Cons_nth_drop_Suc Suc_lessD add_2_eq_Suc'
        append_take_drop_id drop_all le_refl lessI)
  then have "crc_bytes 0 m = crc_bytes (crc_bytes 0 (take k m)) [m ! k, m ! Suc k]"
    by (metis crc_bytes_simps(3))
  then have "crc_bytes 0 m = 0 \<longleftrightarrow>
      m ! k = hi8 (crc_bytes 0 (take k m)) \<and> m ! Suc k = lo8 (crc_bytes 0 (take k m))"
    by (simp only: crc_bytes_two_zero)
  also have "\<dots> \<longleftrightarrow> crc_bytes 0 (take k m) = getu16 (m ! k) (m ! Suc k)"
    by (metis getu16_join hi8_join16 join16_hi_lo lo8_join16)
  finally show ?thesis by simp
qed

text \<open>A message addressed by the power module to the controller, with function code \<open>f\<close>.\<close>

definition report :: "u8 \<Rightarrow> u8 list \<Rightarrow> bool" where
  "report f m \<longleftrightarrow> take 4 m = [PROTOCOL_NOR, PTC_TYPE, PTC_ADDR, f]"

lemma report_header:
  assumes "report f m"
  shows "m ! 0 = PROTOCOL_NOR" "m ! Suc 0 = PTC_TYPE" "m ! 2 = PTC_ADDR" "m ! 3 = f" "4 \<le> length m"
proof -
  have t: "take 4 m = [PROTOCOL_NOR, PTC_TYPE, PTC_ADDR, f]" using assms by (simp add: report_def)
  have nth: "m ! k = take 4 m ! k" if "k < 4" for k using that by simp
  show "m ! 0 = PROTOCOL_NOR" "m ! Suc 0 = PTC_TYPE" "m ! 2 = PTC_ADDR" "m ! 3 = f"
    using nth [of 0] nth [of 1] nth [of 2] nth [of 3] by (simp_all add: t)
  have "length (take 4 m) = 4" by (simp add: t)
  then show "4 \<le> length m" by simp
qed

lemma analysed_nth: "k < length m \<Longrightarrow> analysed_buffer n m t ! k = m ! k"
  by (simp add: analysed_buffer_def nth_append)

lemma analysed_take: "k \<le> length m \<Longrightarrow> take k (analysed_buffer n m t) = take k m"
  by (simp add: analysed_buffer_def)

lemma analysis_status:
  assumes "report FUNC_SEEKSTAT m" and "length m = 35"
  shows "Candata_analysis (analysed_buffer 5 m t) s =
    (if crc_bytes 0 m = 0 then s\<lparr>PTCElectData := seek_stat m (PTCElectData s)\<rparr> else s)"
proof -
  let ?d = "analysed_buffer 5 m t"
  have "CRC16_XMODEM ?d 33 = crc_bytes 0 (take 33 m)"
    using assms(2) by (subst CRC16_XMODEM_fold) (auto simp: analysed_take, simp add: analysed_buffer_def)
  then have crc: "CRC16_XMODEM ?d 33 = getu16 (m ! 33) (m ! 34) \<longleftrightarrow> crc_bytes 0 m = 0"
    using crc_check_residue [of m 33] assms(2) by simp
  have "seek_stat ?d (PTCElectData s) = seek_stat m (PTCElectData s)"
    using assms(2) by (simp add: seek_stat_def analysed_nth)
  then show ?thesis
    using report_header [OF assms(1)] assms(2) by (simp add: Candata_analysis_def analysed_nth crc)
qed

lemma analysis_value:
  assumes "report FUNC_SEEKVALUE m" and "length m = 42"
  shows "Candata_analysis (analysed_buffer 6 m t) s =
    s\<lparr>crcdata := crc_bytes 0 (take 40 m), revdata_len := m ! 11,
      PTCElectData := seek_value m (PTCElectData s)\<rparr>"
proof -
  let ?d = "analysed_buffer 6 m t"
  have crc: "CRC16_XMODEM ?d 40 = crc_bytes 0 (take 40 m)"
    using assms(2) by (subst CRC16_XMODEM_fold) (auto simp: analysed_take, simp add: analysed_buffer_def)
  have "seek_value ?d (PTCElectData s) = seek_value m (PTCElectData s)"
    using assms(2) by (simp add: seek_value_def analysed_nth)
  moreover have "ucast (getu16 a b) = b" for a b
    using lo8_join16 [of a b] by (simp add: lo8_ucast getu16_join)
  ultimately show ?thesis
    using report_header [OF assms(1)] assms(2) by (simp add: Candata_analysis_def analysed_nth crc)
qed

text \<open>The number in two bytes of a message, high byte first.\<close>

definition number_at :: "u8 list \<Rightarrow> nat \<Rightarrow> u16" where
  "number_at m k = of_nat (256 * unat (m ! k) + unat (m ! Suc k))"

lemma getu16_number: "getu16 (m ! k) (m ! Suc k) = number_at m k"
proof -
  have "getu16 (m ! k) (m ! Suc k) = push_bit 8 (ucast (m ! k)) + ucast (m ! Suc k)"
    unfolding getu16_def by (rule disjunctive_add [symmetric]) (auto simp: bit_simps dest: bit_imp_le_length)
  also have "\<dots> = number_at m k" by (simp add: number_at_def push_bit_eq_mult of_nat_unat mult.commute)
  finally show ?thesis .
qed

section \<open>Overruns\<close>

lemma length_Data_CAN_Receive [simp]: "length (Data (CAN_Receive mb stack)) = 8"
  by (simp add: CAN_Receive_def Let_def)

lemma store_frame_result:
  assumes "length (can_temp s) = 50" and "length (Data msg) = 8"
  shows "store_frame off msg s = None \<longleftrightarrow> 43 < off"
    and "store_frame off msg s = Some s' \<Longrightarrow>
      length (can_temp s') = 50 \<and> revframe_pos s' = revframe_pos s"
  using assms by (auto simp: store_frame_def dest: poke_length)

lemma close_message_None_iff:
  assumes "length (can_temp s) = 50" and "length (Data msg) = 8"
  shows "close_message msg s = None \<longleftrightarrow> 0x80 \<le> Data msg ! 0 \<and> revframe_pos s = 7"
proof -
  let ?n = "unat (revframe_pos s)" and ?s = "s\<lparr>revframe_pos := revframe_pos s + 1\<rparr>"
  have range: "1 \<le> revframe_pos s \<and> revframe_pos s < 8 \<longleftrightarrow> 1 \<le> ?n \<and> ?n < 8"
      "revframe_pos s = 7 \<longleftrightarrow> ?n = 7"
    by (auto simp: word_le_nat_alt word_less_nat_alt word_unat_eq_iff)
  have n1: "?n < 8 \<Longrightarrow> unat (revframe_pos s + 1) = Suc ?n" by (intro unat_succ8) simp
  have "length (can_temp ?s) = 50" using assms(1) by simp
  note store = store_frame_result(1) [OF this assms(2)]
  show ?thesis
  proof (cases "0x80 \<le> Data msg ! 0 \<and> 1 \<le> ?n \<and> ?n < 8")
    case True
    with range(1) have "close_message msg s = None \<longleftrightarrow> store_frame ((unat (revframe_pos s + 1) - 1) * 7) msg ?s = None"
      by (auto simp: close_message_def Let_def split: Option.bind_splits)
    also have "\<dots> \<longleftrightarrow> ?n = 7" unfolding store using n1 True by auto
    finally show ?thesis using True range(2) by simp
  next
    case False
    with range(1) have "close_message msg s = Some s" unfolding close_message_def by (simp only: if_False)
    with False range(2) show ?thesis by auto
  qed
qed

lemma Can_ReadData_None_iff:
  assumes "length (can_temp s) = 50" and "length (Data msg) = 8"
  shows "Can_ReadData msg s = None \<longleftrightarrow> flag_canrev s = 1 \<and> Data msg ! 0 \<noteq> 0
    \<and> (7 \<le> revframe_pos s \<and> revframe_pos s < 0x80 \<or> revframe_pos s = 6 \<and> 0x80 \<le> Data msg ! 0)"
proof -
  let ?n = "unat (revframe_pos s)" and ?d = "Data msg ! 0"
  let ?s0 = "s\<lparr>flag_canrev := 0\<rparr>" and ?s1 = "s\<lparr>flag_canrev := 0, revframe_pos := revframe_pos s + 1\<rparr>"
  have range: "1 \<le> revframe_pos s \<and> revframe_pos s < 0x80 \<longleftrightarrow> 1 \<le> ?n \<and> ?n < 128"
      "revframe_pos s = 6 \<longleftrightarrow> ?n = 6" "7 \<le> revframe_pos s \<and> revframe_pos s < 0x80 \<longleftrightarrow> 7 \<le> ?n \<and> ?n < 128"
    by (auto simp: word_le_nat_alt word_less_nat_alt word_unat_eq_iff)
  consider (off) "flag_canrev s \<noteq> 1" | (first) "flag_canrev s = 1" "?d = 0"
    | (idle) "flag_canrev s = 1" "?d \<noteq> 0" "\<not> (1 \<le> ?n \<and> ?n < 128)"
    | (follow) "flag_canrev s = 1" "?d \<noteq> 0" "1 \<le> ?n \<and> ?n < 128" by blast
  then show ?thesis
  proof cases
    case off
    then show ?thesis by (simp add: Can_ReadData_def)
  next
    case first
    then show ?thesis using assms by (simp add: Can_ReadData_def close_message_def store_frame_def poke_def)
  next
    case idle
    have "length (can_temp ?s0) = 50" using assms by simp
    note close = close_message_None_iff [OF this assms(2)]
    have "revframe_pos s \<noteq> 7" using idle(3) by auto
    then have "close_message msg ?s0 \<noteq> None" unfolding close by simp
    moreover have "(1 \<le> revframe_pos s \<and> revframe_pos s < 0x80) = False"
      unfolding range(1) using idle(3) by blast
    then have "Can_ReadData msg s = close_message msg ?s0"
      using idle(1,2) unfolding Can_ReadData_def Let_def by (simp cong: conj_cong)
    ultimately have "Can_ReadData msg s \<noteq> None" by simp
    moreover have "\<not> (7 \<le> revframe_pos s \<and> revframe_pos s < 0x80)" "revframe_pos s \<noteq> 6"
      unfolding range(2,3) using idle(3) by auto
    ultimately show ?thesis by blast
  next
    case follow
    then have n1: "unat (revframe_pos s + 1) = Suc ?n" by (intro unat_succ8) simp
    have eq: "Can_ReadData msg s = Option.bind (store_frame (?n * 7) msg ?s1) (close_message msg)"
    proof -
      have "(1 \<le> revframe_pos s \<and> revframe_pos s < 0x80) = True"
        unfolding range(1) using follow(3) by blast
      then show ?thesis using follow(1,2) n1 unfolding Can_ReadData_def by simp
    qed
    have "length (can_temp ?s1) = 50" using assms by simp
    note store = store_frame_result [OF this assms(2), of "?n * 7"]
    show ?thesis
    proof (cases "store_frame (?n * 7) msg ?s1")
      case None
      then show ?thesis unfolding eq using follow store(1) range(2,3) by auto
    next
      case (Some s2)
      then have s2: "length (can_temp s2) = 50" "revframe_pos s2 = revframe_pos s + 1"
        using store(2) [OF Some] by simp_all
      have le: "?n \<le> 6" using store(1) Some by simp
      have "revframe_pos s2 = 7 \<longleftrightarrow> ?n = 6" unfolding s2(2) word_unat_eq_iff n1 by auto
      with close_message_None_iff [OF s2(1) assms(2)] show ?thesis
        unfolding eq Some using follow le range(2,3) by auto
    qed
  qed
qed

lemma analysis_can_temp [simp]:
  "can_temp (Candata_analysis d s) = can_temp s" "trace (Candata_analysis d s) = trace s"
  "odr (Candata_analysis d s) = odr s" "statio (Candata_analysis d s) = statio s"
  "System_State (Candata_analysis d s) = System_State s"
  "SYSTEM_POWER (Candata_analysis d s) = SYSTEM_POWER s"
  by (simp_all add: Candata_analysis_def)

section \<open>Properties\<close>

text \<open>C1: Whatever fragments an interrupted transmission left behind, the frames of a message
  of two to six segments that start with segment 0 are put together again: the analysis runs
  exactly once, on a buffer that starts with the whole message, and the receiver is then idle
  with a cleared buffer.\<close>

theorem Can_ReadData_reassembles:
  assumes "flag_canrev s = 1" and "length (can_temp s) = 50"
    and "length m = 7 * n" and "2 \<le> n" and "n \<le> 6"
  shows "rx_frames stack (message_frames mb n m) s =
    Some ((Candata_analysis (analysed_buffer n m (can_temp s)) s)
      \<lparr>flag_canrev := 1, revframe_pos := 0, can_temp := replicate 50 0\<rparr>)
    \<and> take (7 * n) (analysed_buffer n m (can_temp s)) = m"
  using rx_message [OF assms] assms(3) by (simp add: analysed_buffer_def)

theorem Can_ReadData_reassembles_witness:
  "rx_frames zero_msg (message_frames zero_mailbox 2 [1, 2, 3, 4, 5, 6, 7, 8, 9, 10, 11, 12, 13, 14])
      (csu_init\<lparr>flag_canrev := 1\<rparr>) =
    Some (csu_init\<lparr>flag_canrev := 1, revframe_pos := 0, can_temp := replicate 50 0\<rparr>)"
proof -
  have t: "can_temp (csu_init\<lparr>flag_canrev := 1\<rparr>) = replicate 50 0" by (simp add: csu_init_def)
  have a: "Candata_analysis (analysed_buffer 2 [1, 2, 3, 4, 5, 6, 7, 8, 9, 10, 11, 12, 13, 14] t) s = s" for t s
    by (simp add: Candata_analysis_def analysed_buffer_def)
  show ?thesis
    using Can_ReadData_reassembles [of "csu_init\<lparr>flag_canrev := 1\<rparr>"
        "[1, 2, 3, 4, 5, 6, 7, 8, 9, 10, 11, 12, 13, 14]" 2 zero_msg zero_mailbox]
    by (simp add: t a)
qed

text \<open>C18: A receive interrupt writes past the end of \<open>can_temp\<close> exactly when it continues a
  message at position 7 or more, or closes one at position 6: the 50 bytes hold seven frames,
  but the last frame is stored twice, so a message of seven segments already overruns them.\<close>

theorem rx_overrun_iff:
  assumes "length (can_temp s) = 50"
  shows "CAN1_RX0_IRQHandler stack mb s = None \<longleftrightarrow>
    ExtId (CAN_Receive mb stack) = PTC_FRAME_ID \<and> flag_canrev s = 1
    \<and> Data (CAN_Receive mb stack) ! 0 \<noteq> 0
    \<and> (7 \<le> revframe_pos s \<and> revframe_pos s < 0x80
       \<or> revframe_pos s = 6 \<and> 0x80 \<le> Data (CAN_Receive mb stack) ! 0)"
  using Can_ReadData_None_iff [OF assms, of "CAN_Receive mb stack"]
  by (simp add: CAN1_RX0_IRQHandler_def Let_def)

theorem rx_overrun_iff_witness:
  "CAN1_RX0_IRQHandler zero_msg (can_frame zero_mailbox PTC_FRAME_ID [0x86, 1, 2, 3, 4, 5, 6, 7])
     (csu_init\<lparr>flag_canrev := 1, revframe_pos := 6\<rparr>) = None"
proof -
  have "length (can_temp (csu_init\<lparr>flag_canrev := 1, revframe_pos := 6\<rparr>)) = 50"
    by (simp add: csu_init_def)
  from rx_overrun_iff [OF this] show ?thesis
    by (simp add: CAN_Receive_frame CAN_Receive_Data)
qed

text \<open>C16: A status report of five frames updates the status words to the big-endian fields of the
  message exactly when its CRC is right; with any error confined to two neighbouring bytes after
  the header it changes no measurement.\<close>

theorem status_report_received:
  assumes "flag_canrev s = 1" and "length (can_temp s) = 50"
    and "report FUNC_SEEKSTAT (pre @ [a, b] @ post)" and "length (pre @ [a, b] @ post) = 35"
    and "4 \<le> length pre" and "crc_bytes 0 (pre @ [a, b] @ post) = 0"
  shows "\<exists>s'. rx_frames stack (message_frames mb 5 (pre @ [a', b'] @ post)) s = Some s'
    \<and> PTCElectData s' = (if (a', b') = (a, b) then seek_stat (pre @ [a, b] @ post) (PTCElectData s)
                          else PTCElectData s)"
proof -
  let ?m = "pre @ [a', b'] @ post"
  have len: "length ?m = 35" "length ?m = 7 * 5" using assms(4) by simp_all
  have rep: "report FUNC_SEEKSTAT ?m" using assms(3,5) by (simp add: report_def)
  have "crc_bytes 0 ?m = 0 \<longleftrightarrow> (a', b') = (a, b)"
    using crc_bytes_burst [of a' b' a b 0 pre post] assms(6) by (cases "(a', b') = (a, b)") auto
  then show ?thesis
    using rx_message [OF assms(1,2) len(2), of stack mb] analysis_status [OF rep len(1)]
    by auto
qed

theorem status_report_received_witness:
  "\<exists>s'. rx_frames zero_msg (message_frames zero_mailbox 5 ([0xE0, 1, 1, 0x33] @ [8, 0] @ replicate 27 0
      @ [hi8 (crc_bytes 0 ([0xE0, 1, 1, 0x33] @ [7, 0] @ replicate 27 0)),
         lo8 (crc_bytes 0 ([0xE0, 1, 1, 0x33] @ [7, 0] @ replicate 27 0))]))
      (csu_init\<lparr>flag_canrev := 1\<rparr>) = Some s' \<and> PTCElectData s' = ptc_zero"
proof -
  define c where "c = crc_bytes 0 ([0xE0, 1, 1, 0x33] @ [7, 0] @ replicate 27 0)"
  let ?s = "csu_init\<lparr>flag_canrev := 1\<rparr>" and ?pre = "[0xE0, 1, 1, 0x33] :: u8 list"
  let ?post = "replicate 27 0 @ [hi8 c, lo8 c]"
  have s: "flag_canrev ?s = 1" "length (can_temp ?s) = 50" "PTCElectData ?s = ptc_zero"
    by (simp_all add: csu_init_def)
  have "report FUNC_SEEKSTAT (?pre @ [7, 0] @ ?post)" "length (?pre @ [7, 0] @ ?post) = 35" "4 \<le> length ?pre"
    by (simp_all add: report_def)
  moreover have "crc_bytes 0 (?pre @ [7, 0] @ ?post) = 0"
    using crc_bytes_codeword [of "?pre @ [7, 0] @ replicate 27 0"] unfolding c_def [symmetric] append_assoc .
  ultimately show ?thesis
    using status_report_received [of ?s ?pre 7 0 ?post zero_msg zero_mailbox 8 0] s
    unfolding c_def [symmetric] by simp
qed

text \<open>C17: A value report of six frames is taken over whatever its CRC bytes are: the comparison with
  the received CRC is disabled in the source.  Afterwards the receiver is ready for the next
  message, and of the measurements and states that are kept of the module the input voltage and current, the
  rectifier, inductor, bus and coil values, the output current and the frequency are the numbers at
  the byte offsets 12 to 25 (two of them serve twice), and the five temperatures the bytes 28 to 32 less
  40 (modulo 256); output voltage, output power, maximal current and the five status words keep their values.\<close>

theorem value_report_received:
  assumes "flag_canrev s = 1" and "length (can_temp s) = 50"
    and "report FUNC_SEEKVALUE m" and "length m = 42" and "e = PTCElectData s"
  shows "rx_frames stack (message_frames mb 6 m) s =
    Some (s\<lparr>flag_canrev := 1, revframe_pos := 0, can_temp := replicate 50 0,
      crcdata := crc_bytes 0 (take 40 m), revdata_len := m ! 11,
      PTCElectData := \<lparr>
        Input_v = number_at m 12, Input_i = number_at m 14,
        Rectifier_output_v = number_at m 12, PFCInductor1_i = number_at m 14,
        PFCInductor2_i = number_at m 16, BUSoutput_v = number_at m 18, Coil_i = number_at m 20,
        INVInductor_i = number_at m 22, INV_fre = number_at m 24,
        Temp_envir = m ! 28 - 40, Temp_rectify = m ! 29 - 40, Temp_pfc_mos = m ! 30 - 40,
        Temp_INV_mos1 = m ! 31 - 40, Temp_INV_mos2 = m ! 32 - 40,
        Output_v = Output_v e, Output_i = number_at m 20, Output_p = Output_p e,
        Output_MAX_i = Output_MAX_i e, g_PTC_State = g_PTC_State e, g_pfc_State = g_pfc_State e,
        g_inv_State = g_inv_State e, g_PFCAlarm_State = g_PFCAlarm_State e,
        g_INVAlarm_State = g_INVAlarm_State e\<rparr>\<rparr>)"
proof -
  have "length m = 7 * 6" using assms(4) by simp
  moreover note getu16_number [of m 12] getu16_number [of m 14] getu16_number [of m 16]
    getu16_number [of m 18] getu16_number [of m 20] getu16_number [of m 22] getu16_number [of m 24]
  ultimately show ?thesis
    using rx_message [OF assms(1,2), of m 6 stack mb]
    by (simp add: analysis_value [OF assms(3,4)] seek_value_def assms(5) PTC_ELECT_DATA.defs)
qed

theorem value_report_received_witness:
  "\<exists>s'. rx_frames zero_msg (message_frames zero_mailbox 6 ([0xE0, 1, 1, 0x32] @ replicate 8 0 @ [0x0E, 0xD8] @ replicate 28 65))
      (csu_init\<lparr>flag_canrev := 1\<rparr>) = Some s' \<and> Input_v (PTCElectData s') = 3800
    \<and> Temp_INV_mos2 (PTCElectData s') = 25 \<and> Output_v (PTCElectData s') = 0"
proof -
  let ?m = "[0xE0, 1, 1, 0x32] @ replicate 8 0 @ [0x0E, 0xD8] @ replicate 28 65 :: u8 list"
  have "length (can_temp (csu_init\<lparr>flag_canrev := 1\<rparr>)) = 50" by (simp add: csu_init_def)
  moreover have "report FUNC_SEEKVALUE ?m" by (simp add: report_def)
  moreover have "number_at ?m 12 = 3800" "?m ! 32 - 40 = 25" by (simp_all add: number_at_def nth_append)
  moreover have "Output_v (PTCElectData csu_init) = 0" by (simp add: csu_init_def ptc_zero_def)
  ultimately show ?thesis
    using value_report_received [of "csu_init\<lparr>flag_canrev := 1\<rparr>" ?m "PTCElectData csu_init" zero_msg zero_mailbox] by simp
qed

text \<open>While the receive flag is clear, as it is after start-up, the first frame that arrives only
  sets the flag, and the rest of its message is then ignored: the whole first message is lost.\<close>

lemma first_message_lost:
  assumes "flag_canrev s = 0" and "revframe_pos s = 0" and "2 \<le> n" and "n \<le> 128"
    and "length m = 7 * n"
  shows "rx_frames stack (message_frames mb n m) s = Some (s\<lparr>flag_canrev := 1\<rparr>)"
proof -
  have "k < n \<Longrightarrow> rx_frames stack (take (Suc k) (message_frames mb n m)) s = Some (s\<lparr>flag_canrev := 1\<rparr>)" for k
  proof (induction k)
    case 0
    have "length (segment_number n 0 # take 7 m) = 8" using assms by simp
    then show ?case
      using assms(1) 0 by (auto simp: rx_frames_step message_frames_nth rx_flag_clear)
  next
    case (Suc k)
    have "length (segment_number n (Suc k) # take 7 (drop (7 * Suc k) m)) = 8"
      using assms(5) Suc.prems by simp
    moreover have "segment_number n (Suc k) \<noteq> 0"
      using segment_number_range(1) [OF Suc.prems assms(4)] by simp
    ultimately show ?case
      using Suc assms(2) rx_frames_step [OF Suc.prems, of stack mb m s]
      by (auto simp: message_frames_nth rx_not_started)
  qed
  from this [of "n - 1"] assms(3) show ?thesis by simp
qed

text \<open>What \<open>CAN_Transmit\<close> writes into a mailbox for an extended data frame and \<open>CAN_Receive\<close>
  reads from the mailbox at the other end agree: identifier, length and the eight data bytes,
  whatever the registers and the uninitialised message held before.\<close>

lemma CAN_frame_roundtrip:
  assumes "exid < 2 ^ 29" and "length f = 8"
  shows "CAN_Receive (can_frame mb exid f) stack =
    \<lparr>StdId = StdId stack, ExtId = exid, IDE = 4, RTR = 0, DLC = 8, Data = f, FMI = 0\<rparr>"
proof -
  have "StdId (CAN_Receive (can_frame mb exid f) stack) = StdId stack"
    using CAN_Receive_frame(2) [OF assms, of mb stack] by (simp add: CAN_Receive_def Let_def split: if_splits)
  with CAN_Receive_frame [OF assms, of mb stack] CAN_Receive_Data [OF assms(2), of mb exid stack]
    CAN_Receive_FMI [of mb exid f stack]
  show ?thesis by (intro CanRxMsg.equality) simp_all
qed

end
