(* ===== verification/Io_Scan.thy ===== *)
theory Io_Scan
  imports Csu_State
begin

text \<open>
  Input scanning, HARDWARE/IO/io.c: \<open>read_io\<close> samples every input pin with software
  debouncing into the status word \<open>statio\<close>, then derives the warning code, the fault code,
  the system state and the power command.  Also the indicator routines of
  HARDWARE/ALARM/alarm.c.
\<close>

section \<open>The status word\<close>

text \<open>The bit positions of the bit fields of \<open>STAT_IO\<close> (io.h).\<close>

abbreviation (input) B_th3 :: nat where "B_th3 \<equiv> 0"
abbreviation (input) B_th7 :: nat where "B_th7 \<equiv> 1"
abbreviation (input) B_th60 :: nat where "B_th60 \<equiv> 2"
abbreviation (input) B_th80 :: nat where "B_th80 \<equiv> 3"
abbreviation (input) B_extohd :: nat where "B_extohd \<equiv> 4"
abbreviation (input) B_intohd :: nat where "B_intohd \<equiv> 5"
abbreviation (input) B_smoke :: nat where "B_smoke \<equiv> 6"
abbreviation (input) B_fan :: nat where "B_fan \<equiv> 7"
abbreviation (input) B_remote_run :: nat where "B_remote_run \<equiv> 8"
abbreviation (input) B_remote_stop :: nat where "B_remote_stop \<equiv> 9"
abbreviation (input) B_ext_reset :: nat where "B_ext_reset \<equiv> 10"
abbreviation (input) B_emo :: nat where "B_emo \<equiv> 11"
abbreviation (input) B_SPARE1 :: nat where "B_SPARE1 \<equiv> 13"
abbreviation (input) B_SPARE2 :: nat where "B_SPARE2 \<equiv> 14"
abbreviation (input) B_nfb :: nat where "B_nfb \<equiv> 16"
abbreviation (input) B_mfuse :: nat where "B_mfuse \<equiv> 17"
abbreviation (input) B_ppc :: nat where "B_ppc \<equiv> 18"
abbreviation (input) B_power :: nat where "B_power \<equiv> 19"
abbreviation (input) B_mc1 :: nat where "B_mc1 \<equiv> 20"
abbreviation (input) B_mc2 :: nat where "B_mc2 \<equiv> 21"
abbreviation (input) B_sr1 :: nat where "B_sr1 \<equiv> 22"
abbreviation (input) B_sr2 :: nat where "B_sr2 \<equiv> 23"

definition put_bit :: "nat \<Rightarrow> bool \<Rightarrow> csu \<Rightarrow> csu" where
  "put_bit k v s = s\<lparr>statio := (if v then set_bit k (statio s) else unset_bit k (statio s))\<rparr>"

definition io :: "nat \<Rightarrow> csu \<Rightarrow> bool" where
  "io k s = bit (statio s) k"

section \<open>Sampling\<close>

text \<open>\<open>GPIO_ReadInputDataBit\<close>: every use of a \<open>READ_\<close> macro samples the pin again.\<close>

definition read_pin :: "world \<Rightarrow> in_pin \<Rightarrow> csu \<Rightarrow> bool \<times> csu" where
  "read_pin w p s = (pin_at w (reads s) p, s\<lparr>reads := Suc (reads s)\<rparr>)"

text \<open>
  The temperature, smoke and fan inputs: the alarm level must be seen three times, 100 ms
  apart, before it is stored; the normal level is stored at once, on the second sample.
\<close>

definition scan_slow :: "world \<Rightarrow> in_pin \<Rightarrow> nat \<Rightarrow> bool \<Rightarrow> csu \<Rightarrow> csu" where
  "scan_slow w p k alarm s =
     (let (v, s) = read_pin w p s
      in if v = alarm then
           (let (v, s) = read_pin w p (delay_ms w 100 s)
            in if v = alarm then
                 (let (v, s) = read_pin w p (delay_ms w 100 s)
                  in if v = alarm then put_bit k alarm s else s)
               else s)
         else
           (let (v, s) = read_pin w p s
            in if v = (\<not> alarm) then put_bit k (\<not> alarm) s else s))"

text \<open>
  The contacts and buttons: a level is stored when two samples \<open>ms\<close> apart agree.  \<open>first\<close>
  is the level the first \<open>if\<close> tests; the \<open>else if\<close> samples the pin once more.
\<close>

definition scan_contact :: "world \<Rightarrow> nat \<Rightarrow> in_pin \<Rightarrow> nat \<Rightarrow> bool \<Rightarrow> csu \<Rightarrow> csu" where
  "scan_contact w ms p k first s =
     (let (v, s) = read_pin w p s
      in if v = first then
           (let (v, s) = read_pin w p (delay_ms w ms s)
            in if v = first then put_bit k first s else s)
         else
           (let (v, s) = read_pin w p s
            in if v = (\<not> first) then
                 (let (v, s) = read_pin w p (delay_ms w ms s)
                  in if v = (\<not> first) then put_bit k (\<not> first) s else s)
               else s))"

definition read_buttons :: "world \<Rightarrow> csu \<Rightarrow> csu" where
  "read_buttons w s =
     (let s = scan_contact w 10 P_SPARE1 B_SPARE1 False s
      in scan_contact w 10 P_SPARE2 B_SPARE2 True s)"

definition read_temperatures :: "world \<Rightarrow> csu \<Rightarrow> csu" where
  "read_temperatures w s =
     (let s = scan_slow w P_TH3 B_th3 True s;
          s = scan_slow w P_TH7 B_th7 True s;
          s = scan_slow w P_TH60 B_th60 False s;
          s = scan_slow w P_TH80 B_th80 False s;
          s = scan_slow w P_EXT_OHD B_extohd False s;
          s = scan_slow w P_INT_OHD B_intohd False s;
          s = scan_slow w P_SMOKE B_smoke False s
      in scan_slow w P_MFAN B_fan False s)"

definition read_controls :: "world \<Rightarrow> csu \<Rightarrow> csu" where
  "read_controls w s =
     (let s = scan_contact w 100 P_REMOTE_RUN B_remote_run False s;
          s = scan_contact w 100 P_REMOTE_STOP B_remote_stop False s;
          s = scan_contact w 100 P_EXT_RESET B_ext_reset False s
      in scan_contact w 100 P_EMO B_emo False s)"

definition read_contacts :: "world \<Rightarrow> csu \<Rightarrow> csu" where
  "read_contacts w s =
     (let s = scan_contact w 100 P_NFB B_nfb False s;
          s = scan_contact w 100 P_MFUSE B_mfuse False s;
          s = scan_contact w 100 P_PPC B_ppc False s;
          s = scan_contact w 100 P_POWER B_power False s;
          s = scan_contact w 100 P_MC1 B_mc1 False s;
          s = scan_contact w 100 P_MC2 B_mc2 False s;
          s = scan_contact w 100 P_SR1 B_sr1 False s
      in scan_contact w 100 P_SR2 B_sr2 False s)"

section \<open>Evaluation\<close>

definition byte_of_statio :: "nat \<Rightarrow> csu \<Rightarrow> u8" where
  "byte_of_statio k s = ucast (drop_bit (8 * k) (statio s) AND 0xff)"

text \<open>\<open>if (cond) { warning_code = c; }\<close> and \<open>if (cond) { fault_code = c; System_State = st; }\<close>\<close>

definition warn_if :: "bool \<Rightarrow> ALARM_CODE \<Rightarrow> csu \<Rightarrow> csu" where
  "warn_if cond c s = (if cond then s\<lparr>warning_code := c\<rparr> else s)"

definition fault_if :: "bool \<Rightarrow> ERROR_CODE \<Rightarrow> SYSTEM_STATE \<Rightarrow> csu \<Rightarrow> csu" where
  "fault_if cond c st s = (if cond then s\<lparr>fault_code := c, System_State := st\<rparr> else s)"

definition eval_warnings :: "csu \<Rightarrow> csu" where
  "eval_warnings s =
     (let io_temp = byte_of_statio 0 s;
          s = (if io_temp \<noteq> 0xfc then
                 (let s = warn_if (\<not> io B_extohd s) OVEXT s;
                      s = warn_if (\<not> io B_intohd s) OVINT s;
                      s = warn_if (\<not> io B_smoke s) SMOKE s;
                      s = warn_if (\<not> io B_fan s) MFAN s;
                      s = warn_if (io B_th3 s) OVTH3 s;
                      s = warn_if (io B_th7 s) OVTH7 s;
                      s = warn_if (\<not> io B_th60 s) OVTH60 s
                  in warn_if (\<not> io B_th80 s) OVTH80 s)
               else s)
      in if io_temp = 0xfc then s\<lparr>warning_code := ALARM_CODE_NULL\<rparr>
         else if warning_code s = OVTH60 then s\<lparr>System_State := RUNNING\<rparr>
         else s\<lparr>System_State := WARNING\<rparr>)"

definition eval_faults :: "csu \<Rightarrow> csu" where
  "eval_faults s =
     (if byte_of_statio 1 s \<noteq> 0x2f then
        (let s = fault_if (\<not> io B_mfuse s) MFUSE_BROKEN FAULT s;
             s = fault_if (\<not> io B_mc2 s) MC2_OPEN FAULT s;
             s = fault_if (\<not> io B_mc1 s) MC1_OPEN FAULT s
         in fault_if (\<not> io B_emo s) EMERGENCY_STOP SHUTDOWN s)
      else s)"

definition eval_power :: "csu \<Rightarrow> csu" where
  "eval_power s =
     (let s = (if \<not> io B_SPARE1 s then
                 (if SYSTEM_POWER s = POWER_HOLD \<or> SYSTEM_POWER s = POWER_OFF
                  then s\<lparr>SYSTEM_POWER := POWER_ON\<rparr>
                  else if SYSTEM_POWER s = POWER_ON then s\<lparr>SYSTEM_POWER := POWER_RUNING\<rparr>
                  else s)
               else s)
      in if \<not> io B_SPARE2 s then
           (if SYSTEM_POWER s = POWER_RUNING \<or> SYSTEM_POWER s = POWER_ON
            then s\<lparr>SYSTEM_POWER := POWER_OFF\<rparr> else s)
         else s)"

definition eval_emergency :: "csu \<Rightarrow> csu" where
  "eval_emergency s = fault_if (\<not> io B_emo s) EMERGENCY_STOP SHUTDOWN s"

text \<open>The sampling half of \<open>read_io\<close>, and the whole routine.\<close>

definition sample :: "world \<Rightarrow> csu \<Rightarrow> csu" where
  "sample w s =
     (let s = read_buttons w s;
          s = read_temperatures w s;
          s = read_controls w s
      in read_contacts w s)"

definition read_io :: "world \<Rightarrow> csu \<Rightarrow> csu" where
  "read_io w s =
     (let s = sample w s;
          s = eval_warnings s;
          s = eval_faults s;
          s = eval_power s
      in eval_emergency s)"

section \<open>Indicators (alarm.c)\<close>

definition handle_led :: "csu \<Rightarrow> csu" where
  "handle_led s =
     (case System_State s of
        STANDBY \<Rightarrow> pin_out LED_Fault False (pin_out LED_Stop True (pin_out LED_Run False s))
      | RUNNING \<Rightarrow> pin_out LED_Fault False (pin_out LED_Stop False (pin_out LED_Run True s))
      | WARNING \<Rightarrow> pin_out LED_Fault True (pin_out LED_Stop False (pin_out LED_Run False s))
      | FAULT \<Rightarrow> pin_out LED_Fault True (pin_out LED_Stop False (pin_out LED_Run False s))
      | SHUTDOWN \<Rightarrow> pin_out LED_Fault False (pin_out LED_Stop True (pin_out LED_Run False s)))"

text \<open>The switches of \<open>handle_alarm\<close> and \<open>handle_fault\<close> have only empty branches.\<close>

definition handle_alarm :: "csu \<Rightarrow> csu" where
  "handle_alarm s = (case warning_code s of _ \<Rightarrow> s)"

definition handle_fault :: "csu \<Rightarrow> csu" where
  "handle_fault s = (case fault_code s of _ \<Rightarrow> s)"

section \<open>Bits of the status word\<close>

lemma io_put_bit [simp]: "k < 32 \<Longrightarrow> io j (put_bit k v s) = (if j = k then v else io j s)"
  by (auto simp: io_def put_bit_def bit_simps)

lemma put_bit_frame [frame_simps]:
  "reads (put_bit k v s) = reads s" "warning_code (put_bit k v s) = warning_code s"
  "fault_code (put_bit k v s) = fault_code s" "System_State (put_bit k v s) = System_State s"
  "SYSTEM_POWER (put_bit k v s) = SYSTEM_POWER s"
  by (simp_all add: put_bit_def)

lemma less_8_cases: "(\<forall>k < 8. P k) \<longleftrightarrow> P 0 \<and> P (Suc 0) \<and> P 2 \<and> P 3 \<and> P 4 \<and> P 5 \<and> P 6 \<and> P (7 :: nat)"
  by (simp add: eval_nat_numeral All_less_Suc conj_ac)

lemma byte_of_statio_iff:
  "byte_of_statio j s = b \<longleftrightarrow> (\<forall>k < 8. io (8 * j + k) s = bit b k)"
proof -
  have m: "(0xff :: u32) = mask 8" by (simp add: mask_eq_exp_minus_1)
  have b: "bit (byte_of_statio j s) k \<longleftrightarrow> k < 8 \<and> io (8 * j + k) s" for k
    by (auto simp: byte_of_statio_def io_def m bit_simps dest: bit_imp_le_length)
  show ?thesis
    by (auto simp: bit_eq_iff b dest: bit_imp_le_length)
qed

text \<open>The normal values of the first two bytes, bit by bit.\<close>

lemma byte_0_normal: "byte_of_statio 0 s = 0xfc \<longleftrightarrow>
    \<not> io B_th3 s \<and> \<not> io B_th7 s \<and> io B_th60 s \<and> io B_th80 s \<and> io B_extohd s \<and> io B_intohd s
    \<and> io B_smoke s \<and> io B_fan s"
  by (simp add: byte_of_statio_iff less_8_cases)

lemma byte_1_masked: "byte_of_statio 1 s = 0x2f \<longleftrightarrow>
    io B_remote_run s \<and> io B_remote_stop s \<and> io B_ext_reset s \<and> io B_emo s \<and> \<not> io 12 s
    \<and> io B_SPARE1 s \<and> \<not> io B_SPARE2 s \<and> \<not> io 15 s"
  by (simp add: byte_of_statio_iff less_8_cases)

section \<open>Alarms by severity\<close>

primrec severity :: "ALARM_CODE \<Rightarrow> nat" where
  "severity ALARM_CODE_NULL = 0" | "severity OVEXT = 1" | "severity OVINT = 2"
| "severity SMOKE = 3" | "severity MFAN = 4" | "severity OVTH3 = 5" | "severity OVTH7 = 6"
| "severity OVTH60 = 7" | "severity OVTH80 = 8" | "severity RETAIN_WARNING = 9"
| "severity OVTERMINAL = 10"

lemma severity_inject: "severity a = severity b \<Longrightarrow> a = b"
  by (cases a; cases b) simp_all

instantiation ALARM_CODE :: linorder
begin

definition less_eq_ALARM_CODE :: "ALARM_CODE \<Rightarrow> ALARM_CODE \<Rightarrow> bool" where
  "less_eq_ALARM_CODE a b \<longleftrightarrow> severity a \<le> severity b"

definition less_ALARM_CODE :: "ALARM_CODE \<Rightarrow> ALARM_CODE \<Rightarrow> bool" where
  "less_ALARM_CODE a b \<longleftrightarrow> severity a < severity b"

instance
  by standard (auto simp: less_eq_ALARM_CODE_def less_ALARM_CODE_def dest: severity_inject)

end

text \<open>The alarms the status word reports.\<close>

definition active_alarms :: "csu \<Rightarrow> ALARM_CODE set" where
  "active_alarms s = {c. case c of OVEXT \<Rightarrow> \<not> io B_extohd s | OVINT \<Rightarrow> \<not> io B_intohd s
     | SMOKE \<Rightarrow> \<not> io B_smoke s | MFAN \<Rightarrow> \<not> io B_fan s | OVTH3 \<Rightarrow> io B_th3 s
     | OVTH7 \<Rightarrow> io B_th7 s | OVTH60 \<Rightarrow> \<not> io B_th60 s | OVTH80 \<Rightarrow> \<not> io B_th80 s
     | _ \<Rightarrow> False}"

lemma finite_ALARM_CODE [simp]: "finite (A :: ALARM_CODE set)"
proof -
  have "inj_on severity A" by (rule inj_onI) (rule severity_inject)
  moreover have "severity ` A \<subseteq> {..10}"
  proof
    fix n assume "n \<in> severity ` A"
    then obtain a where "n = severity a" by auto
    then show "n \<in> {..10}" by (cases a) simp_all
  qed
  ultimately show ?thesis using finite_imageD finite_subset finite_atMost by blast
qed

lemma all_ALARM_CODE: "(\<forall>c. P c) \<longleftrightarrow> P ALARM_CODE_NULL \<and> P OVTH3 \<and> P OVTH7 \<and> P OVTH60
    \<and> P OVTH80 \<and> P OVEXT \<and> P OVINT \<and> P SMOKE \<and> P MFAN \<and> P RETAIN_WARNING \<and> P OVTERMINAL"
proof
  assume r: "P ALARM_CODE_NULL \<and> P OVTH3 \<and> P OVTH7 \<and> P OVTH60
    \<and> P OVTH80 \<and> P OVEXT \<and> P OVINT \<and> P SMOKE \<and> P MFAN \<and> P RETAIN_WARNING \<and> P OVTERMINAL"
  show "\<forall>c. P c"
  proof
    fix c show "P c" using r by (cases c) simp_all
  qed
qed simp

lemma active_alarms_empty: "active_alarms s = {} \<longleftrightarrow> byte_of_statio 0 s = 0xfc"
proof -
  have "active_alarms s = {} \<longleftrightarrow> (\<forall>c. c \<notin> active_alarms s)" by blast
  then show ?thesis unfolding byte_0_normal all_ALARM_CODE active_alarms_def by simp
qed

lemma io_cong: "statio s = statio t \<Longrightarrow> io k s = io k t"
  by (simp add: io_def)

lemma warn_if_simps [simp]:
  "io k (warn_if b c s) = io k s" "statio (warn_if b c s) = statio s"
  "warning_code (warn_if b c s) = (if b then c else warning_code s)"
  "fault_code (warn_if b c s) = fault_code s" "System_State (warn_if b c s) = System_State s"
  "SYSTEM_POWER (warn_if b c s) = SYSTEM_POWER s" "reads (warn_if b c s) = reads s"
  by (simp_all add: warn_if_def io_def)

lemma fault_if_simps [simp]:
  "io k (fault_if b c st s) = io k s" "statio (fault_if b c st s) = statio s"
  "warning_code (fault_if b c st s) = warning_code s"
  "fault_code (fault_if b c st s) = (if b then c else fault_code s)"
  "System_State (fault_if b c st s) = (if b then st else System_State s)"
  "SYSTEM_POWER (fault_if b c st s) = SYSTEM_POWER s" "reads (fault_if b c st s) = reads s"
  by (simp_all add: fault_if_def io_def)

text \<open>The warning code after the evaluation: the last test that fires wins.\<close>

definition last_alarm :: "csu \<Rightarrow> ALARM_CODE" where
  "last_alarm s = (if \<not> io B_th80 s then OVTH80 else if \<not> io B_th60 s then OVTH60
     else if io B_th7 s then OVTH7 else if io B_th3 s then OVTH3 else if \<not> io B_fan s then MFAN
     else if \<not> io B_smoke s then SMOKE else if \<not> io B_intohd s then OVINT
     else if \<not> io B_extohd s then OVEXT else ALARM_CODE_NULL)"

lemma last_alarm_Max: "last_alarm s = Max (insert ALARM_CODE_NULL (active_alarms s))"
proof (rule Max_eqI [symmetric])
  show "last_alarm s \<in> insert ALARM_CODE_NULL (active_alarms s)"
    by (simp add: last_alarm_def active_alarms_def)
  have "\<forall>c. c \<in> insert ALARM_CODE_NULL (active_alarms s) \<longrightarrow> c \<le> last_alarm s"
    unfolding all_ALARM_CODE
    by (simp add: last_alarm_def active_alarms_def less_eq_ALARM_CODE_def)
  then show "c \<le> last_alarm s" if "c \<in> insert ALARM_CODE_NULL (active_alarms s)" for c
    using that by blast
qed simp

lemma last_alarm_NULL: "last_alarm s = ALARM_CODE_NULL \<longleftrightarrow> byte_of_statio 0 s = 0xfc"
  unfolding byte_0_normal by (simp add: last_alarm_def)

lemma eval_warnings_code: "warning_code (eval_warnings s) = last_alarm s"
proof (cases "byte_of_statio 0 s = 0xfc")
  case True
  with last_alarm_NULL [of s] show ?thesis by (simp add: eval_warnings_def)
next
  case False
  then show ?thesis unfolding byte_0_normal by (simp add: eval_warnings_def last_alarm_def byte_0_normal Let_def)
qed

lemma eval_warnings_state:
  "System_State (eval_warnings s) =
     (if last_alarm s = ALARM_CODE_NULL then System_State s
      else if last_alarm s = OVTH60 then RUNNING else WARNING)"
proof -
  have "byte_of_statio 0 s \<noteq> 0xfc \<Longrightarrow>
      System_State (eval_warnings s) = (if warning_code (eval_warnings s) = OVTH60 then RUNNING else WARNING)"
    by (simp add: eval_warnings_def Let_def)
  moreover have "byte_of_statio 0 s = 0xfc \<Longrightarrow> System_State (eval_warnings s) = System_State s"
    by (simp add: eval_warnings_def)
  ultimately show ?thesis by (simp add: last_alarm_NULL eval_warnings_code)
qed

lemma eval_warnings_frame [simp]:
  "statio (eval_warnings s) = statio s" "fault_code (eval_warnings s) = fault_code s"
  "SYSTEM_POWER (eval_warnings s) = SYSTEM_POWER s" "reads (eval_warnings s) = reads s"
  by (simp_all add: eval_warnings_def Let_def)

lemma eval_frame [simp]:
  "statio (eval_faults s) = statio s" "statio (eval_power s) = statio s"
  "statio (eval_emergency s) = statio s"
  "warning_code (eval_faults s) = warning_code s" "warning_code (eval_power s) = warning_code s"
  "warning_code (eval_emergency s) = warning_code s"
  "SYSTEM_POWER (eval_faults s) = SYSTEM_POWER s" "SYSTEM_POWER (eval_emergency s) = SYSTEM_POWER s"
  "fault_code (eval_power s) = fault_code s" "System_State (eval_power s) = System_State s"
  by (simp_all add: eval_faults_def eval_power_def eval_emergency_def Let_def)

section \<open>Sampling\<close>

text \<open>Nobody but the scan task writes the status word or counts its samples.\<close>

definition scan_private :: "world \<Rightarrow> bool" where
  "scan_private w \<longleftrightarrow> (\<forall>k s. statio (during w k s) = statio s \<and> reads (during w k s) = reads s)"

lemma scan_private_idle [simp]: "scan_private idle_world"
  by (simp add: scan_private_def idle_world_def)

lemma delay_ms_private [simp]:
  "scan_private w \<Longrightarrow> statio (delay_ms w n s) = statio s"
  "scan_private w \<Longrightarrow> reads (delay_ms w n s) = reads s"
  "scan_private w \<Longrightarrow> io k (delay_ms w n s) = io k s"
  by (simp_all add: delay_ms_def scan_private_def io_def)

lemma io_reads [simp]: "io k (s\<lparr>reads := n\<rparr>) = io k s"
  by (simp add: io_def)

lemma scan_slow_other [simp]:
  "scan_private w \<Longrightarrow> k < 32 \<Longrightarrow> j \<noteq> k \<Longrightarrow> io j (scan_slow w p k a s) = io j s"
  by (simp add: scan_slow_def read_pin_def Let_def)

lemma scan_contact_other [simp]:
  "scan_private w \<Longrightarrow> k < 32 \<Longrightarrow> j \<noteq> k \<Longrightarrow> io j (scan_contact w ms p k a s) = io j s"
  by (simp add: scan_contact_def read_pin_def Let_def)

lemma scan_slow_stable:
  "scan_private w \<Longrightarrow> k < 32 \<Longrightarrow> (\<And>n. pin_at w n p = v) \<Longrightarrow> io k (scan_slow w p k a s) = v"
  by (auto simp: scan_slow_def read_pin_def Let_def)

lemma scan_contact_stable:
  "scan_private w \<Longrightarrow> k < 32 \<Longrightarrow> (\<And>n. pin_at w n p = v) \<Longrightarrow> io k (scan_contact w ms p k a s) = v"
  by (auto simp: scan_contact_def read_pin_def Let_def)

text \<open>An alarm bit that appears was seen three times in a row.\<close>

definition alarm_seen :: "world \<Rightarrow> in_pin \<Rightarrow> bool \<Rightarrow> bool" where
  "alarm_seen w p a \<longleftrightarrow> (\<exists>n. pin_at w n p = a \<and> pin_at w (Suc n) p = a \<and> pin_at w (Suc (Suc n)) p = a)"

lemma scan_slow_alarm:
  assumes "scan_private w" "k < 32" "io k (scan_slow w p k a s) = a" "io k s \<noteq> a"
  shows "alarm_seen w p a"
proof -
  have "pin_at w (reads s) p = a \<and> pin_at w (Suc (reads s)) p = a \<and> pin_at w (Suc (Suc (reads s))) p = a"
    using assms by (auto simp: scan_slow_def read_pin_def Let_def split: if_splits)
  then show ?thesis unfolding alarm_seen_def by blast
qed

text \<open>The input pins, their bits, and for the slow inputs the alarm level.\<close>

definition pin_bits :: "(in_pin \<times> nat) list" where
  "pin_bits = [(P_TH3, B_th3), (P_TH7, B_th7), (P_TH60, B_th60), (P_TH80, B_th80),
     (P_EXT_OHD, B_extohd), (P_INT_OHD, B_intohd), (P_SMOKE, B_smoke), (P_MFAN, B_fan),
     (P_REMOTE_RUN, B_remote_run), (P_REMOTE_STOP, B_remote_stop), (P_EXT_RESET, B_ext_reset),
     (P_EMO, B_emo), (P_SPARE1, B_SPARE1), (P_SPARE2, B_SPARE2), (P_NFB, B_nfb),
     (P_MFUSE, B_mfuse), (P_PPC, B_ppc), (P_POWER, B_power), (P_MC1, B_mc1), (P_MC2, B_mc2),
     (P_SR1, B_sr1), (P_SR2, B_sr2)]"

definition slow_pins :: "(in_pin \<times> nat \<times> bool) list" where
  "slow_pins = [(P_TH3, B_th3, True), (P_TH7, B_th7, True), (P_TH60, B_th60, False),
     (P_TH80, B_th80, False), (P_EXT_OHD, B_extohd, False), (P_INT_OHD, B_intohd, False),
     (P_SMOKE, B_smoke, False), (P_MFAN, B_fan, False)]"

lemmas sample_defs = sample_def read_buttons_def read_temperatures_def read_controls_def
  read_contacts_def

lemma sample_stable:
  assumes "scan_private w" and "\<And>n p. pin_at w n p = L p"
  shows "(p, k) \<in> set pin_bits \<Longrightarrow> io k (sample w s) = L p"
  using assms(1) scan_slow_stable [OF assms(1) _ assms(2)] scan_contact_stable [OF assms(1) _ assms(2)]
  by (auto simp: pin_bits_def sample_defs Let_def)

lemma sample_untouched:
  "scan_private w \<Longrightarrow> k \<in> {12, 15} \<or> 24 \<le> k \<Longrightarrow> io k (sample w s) = io k s"
  by (auto simp: sample_defs Let_def)

lemma sample_slow:
  assumes "scan_private w" and "(p, k, a) \<in> set slow_pins"
    and "io k (sample w s) = a" and "io k s \<noteq> a"
  shows "alarm_seen w p a"
proof -
  have high: "alarm_seen w q True" if "io j (scan_slow w q j True t)" "\<not> io j t" "j < 32" for q j t
    using scan_slow_alarm [OF assms(1) that(3), of q True t] that by simp
  have low: "alarm_seen w q False" if "\<not> io j (scan_slow w q j False t)" "io j t" "j < 32" for q j t
    using scan_slow_alarm [OF assms(1) that(3), of q False t] that by simp
  from assms(2) consider "(p, k, a) = (P_TH3, B_th3, True)" | "(p, k, a) = (P_TH7, B_th7, True)"
    | "(p, k, a) = (P_TH60, B_th60, False)" | "(p, k, a) = (P_TH80, B_th80, False)"
    | "(p, k, a) = (P_EXT_OHD, B_extohd, False)" | "(p, k, a) = (P_INT_OHD, B_intohd, False)"
    | "(p, k, a) = (P_SMOKE, B_smoke, False)" | "(p, k, a) = (P_MFAN, B_fan, False)"
    unfolding slow_pins_def by auto
  then show ?thesis
    by cases (use assms(1,3,4) in \<open>auto simp: sample_defs Let_def dest: high low\<close>)
qed

section \<open>Faults and the power command\<close>

text \<open>The contact fault a status word reports, emergency stop first; \<open>None\<close> also when the
  second byte has the value the code takes for normal.\<close>

definition contact_fault :: "csu \<Rightarrow> (ERROR_CODE \<times> SYSTEM_STATE) option" where
  "contact_fault s =
     (if \<not> io B_emo s then Some (EMERGENCY_STOP, SHUTDOWN)
      else if byte_of_statio 1 s = 0x2f then None
      else if \<not> io B_mc1 s then Some (MC1_OPEN, FAULT)
      else if \<not> io B_mc2 s then Some (MC2_OPEN, FAULT)
      else if \<not> io B_mfuse s then Some (MFUSE_BROKEN, FAULT)
      else None)"

lemma byte_of_statio_cong: "statio s = statio t \<Longrightarrow> byte_of_statio k s = byte_of_statio k t"
  by (simp add: byte_of_statio_def)

lemma contact_fault_cong: "statio s = statio t \<Longrightarrow> contact_fault s = contact_fault t"
  unfolding contact_fault_def using byte_of_statio_cong [of s t 1] io_cong [of s t] by simp

lemma eval_faults_verdict:
  "(fault_code (eval_emergency (eval_power (eval_faults s))),
    System_State (eval_emergency (eval_power (eval_faults s)))) =
   (case contact_fault s of Some f \<Rightarrow> f | None \<Rightarrow> (fault_code s, System_State s))"
proof -
  have io: "io k (eval_power t) = io k t" "io k (eval_faults t) = io k t" for k t
    by (simp_all add: io_def)
  have emo: "\<not> io B_emo s \<Longrightarrow> byte_of_statio 1 s \<noteq> 0x2f" unfolding byte_1_masked by simp
  show ?thesis
    unfolding contact_fault_def using emo
    by (auto simp: eval_emergency_def io eval_faults_def Let_def)
qed

lemma read_io_statio: "statio (read_io w s) = statio (sample w s)"
  by (simp add: read_io_def Let_def)

lemma read_io_bit: "io k (read_io w s) = io k (sample w s)"
  by (rule io_cong) (rule read_io_statio)

lemma active_alarms_cong: "statio s = statio t \<Longrightarrow> active_alarms s = active_alarms t"
  unfolding active_alarms_def using io_cong [of s t] by simp

lemma scan_outcome:
  "(fault_code (read_io w s), System_State (read_io w s)) =
     (case contact_fault (read_io w s) of Some f \<Rightarrow> f
      | None \<Rightarrow> (fault_code (sample w s),
          case warning_code (read_io w s) of ALARM_CODE_NULL \<Rightarrow> System_State (sample w s)
          | OVTH60 \<Rightarrow> RUNNING | _ \<Rightarrow> WARNING))"
proof -
  let ?s = "sample w s"
  have c: "contact_fault (read_io w s) = contact_fault (eval_warnings ?s)"
    by (rule contact_fault_cong) (simp add: read_io_statio)
  have wc: "warning_code (read_io w s) = last_alarm ?s"
    by (simp add: read_io_def Let_def eval_warnings_code)
  have st: "System_State (eval_warnings ?s) = (case last_alarm ?s of
      ALARM_CODE_NULL \<Rightarrow> System_State ?s | OVTH60 \<Rightarrow> RUNNING | _ \<Rightarrow> WARNING)"
    by (simp add: eval_warnings_state split: ALARM_CODE.split)
  have eq: "read_io w s = eval_emergency (eval_power (eval_faults (eval_warnings ?s)))"
    by (simp add: read_io_def Let_def)
  have "(fault_code (read_io w s), System_State (read_io w s)) = (case contact_fault (read_io w s) of
      Some f \<Rightarrow> f | None \<Rightarrow> (fault_code ?s, System_State (eval_warnings ?s)))"
    unfolding c using eval_faults_verdict [of "eval_warnings ?s"] by (simp only: eq eval_warnings_frame)
  then show ?thesis by (simp only: st wc)
qed











section \<open>Properties\<close>

text \<open>With steady inputs one scan stores the level of each of the 22 input pins in its bit of
  the status word and leaves the other ten bits alone, whatever the other tasks do meanwhile to
  the rest of the state.\<close>

lemma read_io_samples:
  assumes "scan_private w" and "\<And>n p. pin_at w n p = L p"
  shows "(\<forall>(p, k) \<in> set pin_bits. io k (read_io w s) = L p)
    \<and> (\<forall>k. k \<in> {12, 15} \<or> 24 \<le> k \<longrightarrow> io k (read_io w s) = io k s)"
  using sample_stable [where L = L, OF assms] sample_untouched [OF assms(1)] by (auto simp: read_io_bit)

text \<open>C19: Debouncing: a temperature, smoke or fan alarm bit that was clear appears in the status
  word only if the pin showed the alarm level in three consecutive samples of the scan.\<close>

theorem read_io_debounced:
  assumes "scan_private w" and "(p, k, a) \<in> set slow_pins" and "io k s \<noteq> a"
    and "\<not> alarm_seen w p a"
  shows "io k (read_io w s) \<noteq> a"
  using sample_slow [OF assms(1,2) _ assms(3)] assms(4) by (auto simp: read_io_bit)

theorem read_io_debounced_witness:
  "\<not> io B_th3 (read_io (idle_world\<lparr>pin_at := \<lambda>n p. odd n\<rparr>) csu_init)"
proof -
  have "scan_private (idle_world\<lparr>pin_at := \<lambda>n p. odd n\<rparr>)"
    by (simp add: scan_private_def idle_world_def)
  moreover have "\<not> alarm_seen (idle_world\<lparr>pin_at := \<lambda>n p. odd n\<rparr>) P_TH3 True"
    by (simp add: alarm_seen_def)
  moreover have "\<not> io B_th3 csu_init" by (simp add: io_def csu_init_def)
  ultimately show ?thesis
    using read_io_debounced [of "idle_world\<lparr>pin_at := \<lambda>n p. odd n\<rparr>" P_TH3 B_th3 True csu_init]
    by (simp add: slow_pins_def)
qed

text \<open>C20: After every scan the warning code is the most severe of the alarms the status word
  reports, and \<open>ALARM_CODE_NULL\<close> exactly when it reports none.\<close>

theorem read_io_warning:
  "warning_code (read_io w s) = Max (insert ALARM_CODE_NULL (active_alarms (read_io w s)))
   \<and> (warning_code (read_io w s) = ALARM_CODE_NULL \<longleftrightarrow> active_alarms (read_io w s) = {})"
proof -
  have a: "active_alarms (read_io w s) = active_alarms (sample w s)"
    by (rule active_alarms_cong) (rule read_io_statio)
  have "warning_code (read_io w s) = last_alarm (sample w s)"
    by (simp add: read_io_def Let_def eval_warnings_code)
  then show ?thesis
    by (simp add: a last_alarm_Max [symmetric] active_alarms_empty last_alarm_NULL)
qed

text \<open>C21: The outcome of a scan: emergency stop, then the contact faults, in the order main
  contactor, precharge contactor, fuse, decide fault code and system state; without a fault
  both keep their value, except that a 60 degree alarm forces the state RUNNING and any other
  alarm the state WARNING, from every state.\<close>

theorem read_io_outcome:
  "(fault_code (read_io w s), System_State (read_io w s)) =
     (case contact_fault (read_io w s) of Some f \<Rightarrow> f
      | None \<Rightarrow> (fault_code (sample w s),
          case warning_code (read_io w s) of ALARM_CODE_NULL \<Rightarrow> System_State (sample w s)
          | OVTH60 \<Rightarrow> RUNNING | _ \<Rightarrow> WARNING))"
  by (rule scan_outcome)


text \<open>With the stop button pressed and the other control inputs normal, the byte the code
  compares with 0x2f looks normal: a broken fuse and welded contactors are not reported.\<close>

lemma read_io_fault_masked:
  assumes "byte_of_statio 1 (read_io w s) = 0x2f"
  shows "\<not> io B_SPARE2 (read_io w s) \<and> fault_code (read_io w s) = fault_code (sample w s)"
proof -
  have "contact_fault (read_io w s) = None" using assms unfolding contact_fault_def byte_1_masked by simp
  with scan_outcome [of w s] assms show ?thesis unfolding byte_1_masked by simp
qed

text \<open>The indicators show the system state: the run lamp is on exactly when running, the stop
  lamp in standby and shutdown, the fault lamp on a warning or fault, and no other output moves.\<close>

lemma handle_led_shows_state:
  "odr (handle_led s) = (odr s)(LED_Run := System_State s = RUNNING,
     LED_Stop := System_State s \<in> {STANDBY, SHUTDOWN}, LED_Fault := System_State s \<in> {WARNING, FAULT})"
  by (cases "System_State s") (simp_all add: handle_led_def fun_eq_iff)

end
