(* ===== verification/Screen.thy ===== *)
theory Screen
  imports Csu_State "HOL-Library.Monad_Syntax" "HOL-Library.Signed_Division"
begin

text \<open>
  The serial side of HARDWARE/USART/usart.c: hexadecimal encoding and checksum, the two
  messages the controller sends to the touch screen (\<open>screen_datasend\<close>, \<open>screen_ack\<close>),
  the senders below them, and the receive interrupts of the five ports.  Every array access
  is checked: the result is \<^const>\<open>None\<close> when the code leaves the bounds of a buffer.
\<close>

section \<open>Protocol constants (usart.h)\<close>

abbreviation (input) SCREEN_SOF1 :: u8 where "SCREEN_SOF1 \<equiv> 0x77"
abbreviation (input) SCREEN_SOF2 :: u8 where "SCREEN_SOF2 \<equiv> 0x88"
abbreviation (input) ADDR_CSU :: u8 where "ADDR_CSU \<equiv> 0x02"
abbreviation (input) ADDR_SCREEN :: u8 where "ADDR_SCREEN \<equiv> 0x01"
abbreviation (input) SCREEN_ACKON :: u8 where "SCREEN_ACKON \<equiv> 0x20"
abbreviation (input) SCREEN_ACKOFF :: u8 where "SCREEN_ACKOFF \<equiv> 0x21"
abbreviation (input) SCREEN_ACKDATA :: u8 where "SCREEN_ACKDATA \<equiv> 0x22"
abbreviation (input) SCREEN_ACKCONFIG :: u8 where "SCREEN_ACKCONFIG \<equiv> 0x23"

section \<open>Senders\<close>

text \<open>
  \<open>uart_send_dma\<close> stops the stream of the port, hands it the buffer and the length, and starts
  it; the loop that is meant to wait for the end of the transfer only clears the completion
  flag and falls through.  The event records the bytes the stream is started with.
\<close>

definition uart_send_dma :: "uart_port \<Rightarrow> u8 list \<Rightarrow> u16 \<Rightarrow> csu \<Rightarrow> csu option" where
  "uart_send_dma usart_periph send_buf send_len s =
     (if usart_periph \<in> {UART_SCREEN, UART_WIFI, UART_METER, UART_FAILOVER, UART_OUT}
      then map_option (\<lambda>d. emit (UartTx usart_periph d) s) (peek send_buf 0 (unat send_len))
      else Some s)"

text \<open>\<open>uart_send\<close> waits for the transmitter before every byte; it serves two ports.\<close>

definition uart_send :: "uart_port \<Rightarrow> u8 list \<Rightarrow> u8 \<Rightarrow> csu \<Rightarrow> csu option" where
  "uart_send usart_periph addr len s =
     (if usart_periph \<in> {UART_WIFI, UART_METER}
      then map_option (\<lambda>d. emit (UartTx usart_periph d) s) (peek addr 0 (unat len))
      else Some s)"

section \<open>Encoding\<close>

definition AppendTwoBytes :: "u16 \<Rightarrow> u8 list \<times> u16 \<Rightarrow> (u8 list \<times> u16) option" where
  "AppendTwoBytes data p = (case p of (pBuf, pPos) \<Rightarrow>
     map_option (\<lambda>b. (b, pPos + 2)) (poke pBuf (unat pPos) [hi8 data, lo8 data]))"

text \<open>A run of calls of \<open>AppendTwoBytes\<close>.\<close>

primrec append_fields :: "u16 list \<Rightarrow> u8 list \<times> u16 \<Rightarrow> (u8 list \<times> u16) option" where
  "append_fields [] p = Some p"
| "append_fields (v # vs) p = Option.bind (AppendTwoBytes v p) (append_fields vs)"

fun check_loop :: "u8 list \<Rightarrow> nat \<Rightarrow> u16 \<Rightarrow> u16 option" where
  "check_loop ptr 0 acc = Some acc"
| "check_loop [] (Suc n) acc = None"
| "check_loop (x # ptr) (Suc n) acc = check_loop ptr n (acc + ucast x)"

definition check_sum :: "u8 list \<Rightarrow> u8 \<Rightarrow> u8 option" where
  "check_sum si count = map_option (\<lambda>acc. ucast (acc AND 0xff)) (check_loop si (unat count) 0)"

text \<open>
  \<open>HexToAscii\<close> works in a local buffer of 256 bytes that also takes the closing zero.  The
  branch for a nibble above 15 cannot be reached, because both nibbles are masked.
\<close>

definition nibble_ascii :: "u8 \<Rightarrow> u8 option" where
  "nibble_ascii n = (if n < 10 then Some (n + 0x30)
                     else if n < 16 then Some (n - 10 + 0x41) else None)"

datatype hex_result = Overrun | Bad_nibble | Digits "u8 list"

function hex_loop :: "u8 list \<Rightarrow> nat \<Rightarrow> nat \<Rightarrow> u8 list \<Rightarrow> hex_result" where
  "hex_loop pHexStr i Len Buffer =
     (if i < Len then
        (if length pHexStr \<le> i then Overrun
         else case (nibble_ascii (drop_bit 4 (pHexStr ! i) AND 0x0F), nibble_ascii (pHexStr ! i AND 0x0F)) of
             (Some h, Some l) \<Rightarrow>
               (case poke Buffer (i * 2) [h, l] of None \<Rightarrow> Overrun
                | Some b \<Rightarrow> hex_loop pHexStr (Suc i) Len b)
           | _ \<Rightarrow> Bad_nibble)
      else Digits Buffer)"
  by pat_completeness auto
termination by (relation "measure (\<lambda>(src, i, Len, b). Len - i)") auto

declare hex_loop.simps [simp del]

definition HexToAscii :: "u8 list \<Rightarrow> u8 list \<Rightarrow> nat \<Rightarrow> (int \<times> u8 list) option" where
  "HexToAscii pHexStr pAscStr Len =
     (case hex_loop pHexStr 0 Len (replicate 256 0) of
        Overrun \<Rightarrow> None
      | Bad_nibble \<Rightarrow> Some (0, pAscStr)
      | Digits Buffer \<Rightarrow>
          do { Buffer \<leftarrow> poke Buffer (2 * Len) [0];
               d \<leftarrow> poke pAscStr 0 (take (2 * Len) Buffer);
               d \<leftarrow> poke d (2 * Len) [0];
               Some (1, d) })"

section \<open>Messages to the screen\<close>

text \<open>
  The product of two 16-bit values is computed in a signed 32-bit integer, which wraps for
  products of \<open>2 ^ 31\<close> and more on this processor, and the division rounds towards zero.
\<close>

definition output_power :: "u16 \<Rightarrow> u16 \<Rightarrow> u32" where
  "output_power v i = word_of_int (sint (ucast v * ucast i :: u32) sdiv 1000)"

text \<open>The values sent before and after the power is computed, in the order of the calls.\<close>

definition head_fields :: "csu \<Rightarrow> u16 list" where
  "head_fields s = (let e = PTCElectData s in
     [state_num (System_State s), alarm_num (warning_code s), error_num (fault_code s),
      Input_v e, Input_i e div 10, Output_i e div 10])"

definition tail_fields :: "csu \<Rightarrow> u16 list" where
  "tail_fields s = (let e = PTCElectData s in
     [ucast (Output_p e), Rectifier_output_v e, PFCInductor1_i e div 10, PFCInductor2_i e div 10,
      BUSoutput_v e, Coil_i e div 10, INVInductor_i e div 10, INV_fre e div 10,
      ucast (Temp_envir e), ucast (Temp_rectify e), ucast (Temp_pfc_mos e),
      ucast (Temp_INV_mos1 e), ucast (Temp_INV_mos2 e),
      g_PTC_State e, g_pfc_State e, g_inv_State e, g_PFCAlarm_State e, g_INVAlarm_State e,
      power_num (SYSTEM_POWER s)])"

text \<open>The reaction to the status words of the power module, before and after sending.\<close>

definition latch_module_fault :: "csu \<Rightarrow> csu" where
  "latch_module_fault s =
     (let s = (if drop_bit 8 (g_pfc_State (PTCElectData s)) AND 0x08 \<noteq> 0
               then s\<lparr>warning_code := RETAIN_WARNING, System_State := FAULT\<rparr> else s)
      in if drop_bit 8 (g_inv_State (PTCElectData s)) AND 0x08 \<noteq> 0
         then s\<lparr>warning_code := RETAIN_WARNING, System_State := FAULT\<rparr> else s)"

definition follow_module :: "csu \<Rightarrow> csu" where
  "follow_module s =
     (if warning_code s = ALARM_CODE_NULL \<and> fault_code s = ERROR_CODE_NULL then
        (let s = (if drop_bit 8 (g_PTC_State (PTCElectData s)) AND 0x01 \<noteq> 0
                  then s\<lparr>System_State := RUNNING\<rparr> else s)
         in if drop_bit 8 (g_PTC_State (PTCElectData s)) AND 0x02 \<noteq> 0
            then s\<lparr>System_State := STANDBY\<rparr> else s)
      else s)"

definition screen_datasend :: "u8 \<Rightarrow> csu \<Rightarrow> csu option" where
  "screen_datasend order s =
     do { let len = 6;
          let s = s\<lparr>sendbuff := replicate 256 0\<rparr>;
          b \<leftarrow> poke (replicate 256 0) 0 [SCREEN_SOF1, SCREEN_SOF2, ADDR_CSU, ADDR_SCREEN, order];
          (b, len) \<leftarrow> append_fields (head_fields s) (b, len);
          let s = s\<lparr>PTCElectData := (PTCElectData s)\<lparr>Output_p :=
                 output_power (Rectifier_output_v (PTCElectData s)) (PFCInductor1_i (PTCElectData s))\<rparr>\<rparr>;
          (b, len) \<leftarrow> append_fields (tail_fields s) (b, len);
          let s = latch_module_fault s;
          b \<leftarrow> poke b 5 [ucast (len - 6)];
          c \<leftarrow> check_sum (drop 6 b) (ucast (len - 6));
          b \<leftarrow> poke b (unat len) [c];
          let size = len + 1;
          (r, d) \<leftarrow> HexToAscii b (sendbuff s) (unat size);
          let s = s\<lparr>mcgs_buf := b, sendbuff := d\<rparr>;
          s \<leftarrow> uart_send_dma UART_SCREEN (sendbuff s) (size * 2) s;
          Some (follow_module s) }"

definition screen_ack :: "u8 \<Rightarrow> csu \<Rightarrow> csu option" where
  "screen_ack order s =
     do { let s = s\<lparr>sendbuff := replicate 256 0\<rparr>;
          b \<leftarrow> poke (replicate 256 0) 0 [SCREEN_SOF1, SCREEN_SOF2, ADDR_CSU, ADDR_SCREEN];
          b \<leftarrow> (if order = SCREEN_ACKON \<or> order = SCREEN_ACKOFF then poke b 4 [order, 0, 0, 0]
                else if order = SCREEN_ACKCONFIG then poke b 4 [order, 1, 1, 0]
                else Some b);
          (r, d) \<leftarrow> HexToAscii b (sendbuff s) 8;
          let s = s\<lparr>mcgs_buf := b, sendbuff := d\<rparr>;
          uart_send_dma UART_SCREEN (sendbuff s) 16 s }"

section \<open>Receive interrupts\<close>

text \<open>
  A port in reception: the DMA buffer, the transfers left of its 256, and the application
  buffer the interrupt copies into.  The handlers answer the length of the message they post
  to the screen task, if they post one.
\<close>

record rx_port =
  rx_buf :: "u8 list"
  rx_left :: u16
  app_buf :: "u8 list"

definition rx_interrupt :: "(u16 \<Rightarrow> bool) \<Rightarrow> bool \<Rightarrow> rx_port \<Rightarrow> (u16 option \<times> rx_port) option" where
  "rx_interrupt accepts idle p =
     (if idle then
        do { let num = 256 - rx_left p;
             (post, p) \<leftarrow>
               (if num \<noteq> 0 then
                  do { d \<leftarrow> peek (rx_buf p) 0 (unat num);
                       b \<leftarrow> poke (app_buf p) 0 d;
                       Some (if accepts num then Some num else None, p\<lparr>app_buf := b\<rparr>) }
                else Some (None, p));
             Some (post, p\<lparr>rx_left := 256\<rparr>) }
      else Some (None, p))"

definition USART2_IRQHandler :: "bool \<Rightarrow> rx_port \<Rightarrow> (u16 option \<times> rx_port) option" where
  "USART2_IRQHandler = rx_interrupt (\<lambda>num. num = 8 \<or> num = 15)"

definition USART3_IRQHandler :: "bool \<Rightarrow> rx_port \<Rightarrow> (u16 option \<times> rx_port) option" where
  "USART3_IRQHandler = rx_interrupt (\<lambda>num. num = 8)"

definition UART4_IRQHandler :: "bool \<Rightarrow> rx_port \<Rightarrow> (u16 option \<times> rx_port) option" where
  "UART4_IRQHandler = rx_interrupt (\<lambda>num. num = 8)"

definition UART5_IRQHandler :: "bool \<Rightarrow> rx_port \<Rightarrow> (u16 option \<times> rx_port) option" where
  "UART5_IRQHandler = rx_interrupt (\<lambda>num. num = 8)"

definition USART6_IRQHandler :: "bool \<Rightarrow> rx_port \<Rightarrow> (u16 option \<times> rx_port) option" where
  "USART6_IRQHandler = rx_interrupt (\<lambda>num. num = 8)"

section \<open>Hexadecimal text\<close>

text \<open>The two digits of a byte, and how a receiver reads them back.\<close>

definition hex_digit :: "u8 \<Rightarrow> u8" where
  "hex_digit n = (if n < 10 then n + 0x30 else n - 10 + 0x41)"

definition hex_text :: "u8 list \<Rightarrow> u8 list" where
  "hex_text bs = concat (map (\<lambda>b. [hex_digit (drop_bit 4 b), hex_digit (b AND 0x0F)]) bs)"

definition digit_value :: "u8 \<Rightarrow> u8" where
  "digit_value c = (if c < 0x3A then c - 0x30 else c - 0x41 + 10)"

fun unhex :: "u8 list \<Rightarrow> u8 list" where
  "unhex (h # l # cs) = (push_bit 4 (digit_value h) OR digit_value l) # unhex cs"
| "unhex _ = []"

lemma hex_text_simps [simp]:
  "hex_text [] = []"
  "hex_text (b # bs) = hex_digit (drop_bit 4 b) # hex_digit (b AND 0x0F) # hex_text bs"
  "hex_text (xs @ ys) = hex_text xs @ hex_text ys"
  by (simp_all add: hex_text_def)

lemma length_hex_text [simp]: "length (hex_text bs) = 2 * length bs"
  by (induction bs) auto

lemma nibble_low: "b AND 0x0F < (16 :: u8)"
proof -
  have "b AND 0x0F = take_bit 4 b" by (simp add: take_bit_eq_mask mask_eq_exp_minus_1)
  then have "unat (b AND 0x0F) = take_bit 4 (unat b)" by (simp add: unsigned_take_bit_eq)
  then have "unat (b AND 0x0F) < 16" using take_bit_nat_less_exp [of 4 "unat b"] by simp
  then show ?thesis by (simp add: word_less_nat_alt)
qed

lemma nibble_high [simp]: "drop_bit 4 b AND 0x0F = drop_bit 4 (b :: u8)"
proof (rule bit_word_eqI)
  fix n assume "n < LENGTH(8)"
  have m: "(0x0F :: u8) = mask 4" by (simp add: mask_eq_exp_minus_1)
  show "bit (drop_bit 4 b AND 0x0F) n = bit (drop_bit 4 b) n"
    by (auto simp: m bit_simps dest: bit_imp_le_length)
qed

lemma nibble_ascii_digit: "n < 16 \<Longrightarrow> nibble_ascii n = Some (hex_digit n)"
  by (simp add: nibble_ascii_def hex_digit_def)

lemma nibble_ascii_byte [simp]:
  "nibble_ascii (b AND 0x0F) = Some (hex_digit (b AND 0x0F))"
  "nibble_ascii (drop_bit 4 b) = Some (hex_digit (drop_bit 4 b))"
  using nibble_ascii_digit [OF nibble_low, of b] nibble_ascii_digit [OF nibble_low, of "drop_bit 4 b"]
  by (simp_all add: nibble_high)

lemma digit_value_hex_digit: "n < 16 \<Longrightarrow> digit_value (hex_digit n) = n"
proof -
  assume "n < 16"
  then have u: "unat n < 16" by (simp add: word_less_nat_alt)
  have a: "n < 10 \<Longrightarrow> unat (n + 0x30) = unat n + 0x30"
    using u by (simp add: unat_word_ariths)
  have "\<not> n < 10 \<Longrightarrow> n - 10 + 0x41 = n + 0x37" by simp
  moreover have "unat (0x37 + n) = unat n + 0x37" using u by (simp add: unat_word_ariths)
  ultimately show ?thesis
    using a by (auto simp: digit_value_def hex_digit_def word_less_nat_alt)
qed

lemma nibbles_join: "push_bit 4 (drop_bit 4 b) OR b AND 0x0F = (b :: u8)"
proof (rule bit_word_eqI)
  fix n assume "n < LENGTH(8)"
  have m: "(0x0F :: u8) = mask 4" by (simp add: mask_eq_exp_minus_1)
  show "bit (push_bit 4 (drop_bit 4 b) OR b AND 0x0F) n = bit b n"
    by (auto simp: m bit_simps dest: bit_imp_le_length)
qed

lemma unhex_hex_text: "unhex (hex_text bs) = bs"
proof (induction bs)
  case (Cons b bs)
  have "digit_value (hex_digit (drop_bit 4 b)) = drop_bit 4 b"
    using nibble_low [of "drop_bit 4 b"] by (intro digit_value_hex_digit) (simp add: nibble_high)
  then show ?case
    using Cons by (simp add: digit_value_hex_digit [OF nibble_low] nibbles_join)
qed simp

text \<open>The loop fills the local buffer from the front.\<close>

lemma hex_loop_result:
  assumes "Len \<le> length src" and "2 * Len \<le> 256" and "length buf = 256"
  shows "i \<le> Len \<Longrightarrow> hex_loop src i Len (hex_text (take i src) @ drop (2 * i) buf)
    = Digits (hex_text (take Len src) @ drop (2 * Len) buf)"
proof (induction "Len - i" arbitrary: i)
  case 0
  then show ?case by (simp add: hex_loop.simps)
next
  case (Suc n)
  then have i: "i < Len" by simp
  have t: "take (Suc i) src = take i src @ [src ! i]"
    using i assms(1) by (simp add: take_Suc_conv_app_nth)
  have p: "poke (hex_text (take i src) @ drop (2 * i) buf) (i * 2) [h, l]
      = Some (hex_text (take i src) @ [h, l] @ drop (2 * Suc i) buf)" for h l
    using i assms by (simp add: poke_def)
  have "hex_loop src (Suc i) Len (hex_text (take (Suc i) src) @ drop (2 * Suc i) buf)
      = Digits (hex_text (take Len src) @ drop (2 * Len) buf)"
    using Suc.hyps(1) [of "Suc i"] Suc.hyps(2) i by simp
  then show ?case
    using i assms(1) by (subst hex_loop.simps) (simp add: p t)
qed

lemma hex_loop_overrun:
  assumes "length src < Len \<or> 128 < Len"
  shows "i \<le> Len \<Longrightarrow> i \<le> length src \<Longrightarrow> i \<le> 128 \<Longrightarrow> length buf = 256 \<Longrightarrow>
    hex_loop src i Len buf = Overrun"
proof (induction "Len - i" arbitrary: i buf)
  case 0
  then show ?case using assms by auto
next
  case (Suc n)
  then have i: "i < Len" by simp
  show ?case
  proof (cases "length src \<le> i \<or> i = 128")
    case True
    then show ?thesis using i Suc.prems by (subst hex_loop.simps) (auto simp: poke_def)
  next
    case False
    then have "n = Len - Suc i" "Suc i \<le> Len" "Suc i \<le> length src" "Suc i \<le> 128"
      using Suc.hyps(2) Suc.prems i by auto
    note IH = Suc.hyps(1) [OF this]
    show ?thesis
      using False i Suc.prems by (subst hex_loop.simps) (auto simp: IH poke_length split: option.split)
  qed
qed

lemma HexToAscii_result:
  assumes "Len \<le> length src" and "Len < 128" and "2 * Len < length dst"
  shows "HexToAscii src dst Len = Some (1, hex_text (take Len src) @ 0 # drop (2 * Len + 1) dst)"
proof -
  have "hex_loop src 0 Len (replicate 256 0) = Digits (hex_text (take Len src) @ replicate (256 - 2 * Len) 0)"
    using hex_loop_result [OF assms(1), of "replicate 256 0" 0] assms(2) by simp
  then show ?thesis
    using assms by (simp add: HexToAscii_def poke_def)
qed

lemma HexToAscii_overrun:
  assumes "length src < Len \<or> 128 \<le> Len \<or> length dst \<le> 2 * Len"
  shows "HexToAscii src dst Len = None"
proof (cases "length src < Len \<or> 128 < Len")
  case True
  have "hex_loop src 0 Len (replicate 256 0) = Overrun"
    by (rule hex_loop_overrun [OF True]) simp_all
  then show ?thesis by (simp add: HexToAscii_def)
next
  case False
  then have "Len \<le> length src" and "2 * Len \<le> 256" by simp_all
  from hex_loop_result [OF this, of "replicate 256 0" 0]
  have "hex_loop src 0 Len (replicate 256 0) = Digits (hex_text (take Len src) @ replicate (256 - 2 * Len) 0)"
    by simp
  moreover have "128 \<le> Len \<or> length dst \<le> 2 * Len" using assms False by auto
  ultimately show ?thesis
    using False by (auto simp: HexToAscii_def poke_def)
qed

section \<open>Building a message\<close>

definition be16 :: "u16 list \<Rightarrow> u8 list" where
  "be16 vs = concat (map (\<lambda>v. [hi8 v, lo8 v]) vs)"

lemma be16_simps [simp]:
  "be16 [] = []" "be16 (v # vs) = hi8 v # lo8 v # be16 vs" "be16 (us @ vs) = be16 us @ be16 vs"
  by (simp_all add: be16_def)

lemma length_be16 [simp]: "length (be16 vs) = 2 * length vs"
  by (induction vs) auto

lemma append_fields_result:
  "n + 2 * length vs \<le> length b \<Longrightarrow> length b \<le> 256 \<Longrightarrow>
    append_fields vs (b, of_nat n) =
      Some (take n b @ be16 vs @ drop (n + 2 * length vs) b, of_nat (n + 2 * length vs))"
proof (induction vs arbitrary: n b)
  case (Cons v vs)
  have u: "unat (of_nat n :: u16) = n" using Cons.prems by (intro unat_of_nat16) simp
  let ?b = "take n b @ [hi8 v, lo8 v] @ drop (n + 2) b"
  have "AppendTwoBytes v (b, of_nat n) = Some (?b, of_nat (n + 2))"
    using Cons.prems by (simp add: AppendTwoBytes_def u poke_def add.commute)
  moreover have "append_fields vs (?b, of_nat (n + 2)) =
      Some (take (n + 2) ?b @ be16 vs @ drop (n + 2 + 2 * length vs) ?b, of_nat (n + 2 + 2 * length vs))"
    using Cons.prems by (intro Cons.IH) simp_all
  moreover have "take (n + 2) ?b = take n b @ [hi8 v, lo8 v]"
    using Cons.prems by simp
  moreover have "drop (n + 2 + 2 * length vs) ?b = drop (n + 2 * length (v # vs)) b"
    using Cons.prems by (simp add: add.commute add.left_commute)
  ultimately show ?case by simp
qed simp

lemma ucast_add8: "(ucast (a + b :: u16) :: u8) = ucast a + ucast b"
proof (rule word_unat_eq_iff [THEN iffD2])
  have "(unat a + unat b) mod 65536 mod 256 = (unat a + unat b) mod 256"
    by (rule mod_mod_cancel) simp
  then show "unat (ucast (a + b :: u16) :: u8) = unat (ucast a + ucast b :: u8)"
    by (simp add: unat_word_ariths unsigned_ucast_eq take_bit_eq_mod mod_simps)
qed

lemma check_loop_result:
  "n \<le> length xs \<Longrightarrow> check_loop xs n acc = Some (acc + sum_list (map ucast (take n xs)))"
proof (induction xs n acc rule: check_loop.induct)
  case (3 x xs n acc)
  then show ?case by (simp add: add.assoc)
qed simp_all

lemma ucast_sum8: "(ucast (sum_list (map ucast xs) :: u16) :: u8) = sum_list xs"
proof (induction xs)
  case (Cons x xs)
  have "lo8 (ucast x) = x"
    by (rule bit_word_eqI) (auto simp: lo8_ucast bit_simps dest: bit_imp_le_length)
  with Cons show ?case by (simp add: ucast_add8 lo8_ucast)
qed simp

lemma check_sum_result: "unat n \<le> length xs \<Longrightarrow> check_sum xs n = Some (sum_list (take (unat n) xs))"
  using lo8_ucast [of "sum_list (map ucast (take (unat n) xs))"]
  by (simp add: check_sum_def check_loop_result ucast_sum8 lo8_def)

text \<open>The frames the controller sends.\<close>

definition data_frame :: "u8 \<Rightarrow> u16 list \<Rightarrow> u8 list" where
  "data_frame order vs = [SCREEN_SOF1, SCREEN_SOF2, ADDR_CSU, ADDR_SCREEN, order, of_nat (2 * length vs)]
     @ be16 vs @ [sum_list (be16 vs)]"

definition ack_frame :: "u8 \<Rightarrow> u8 list" where
  "ack_frame order = [SCREEN_SOF1, SCREEN_SOF2, ADDR_CSU, ADDR_SCREEN]
     @ (if order = SCREEN_ACKON \<or> order = SCREEN_ACKOFF then [order, 0, 0, 0]
        else if order = SCREEN_ACKCONFIG then [order, 1, 1, 0] else [0, 0, 0, 0])"

text \<open>The state a data message is built from, and what sending it leaves behind.\<close>

definition with_power :: "csu \<Rightarrow> csu" where
  "with_power s = s\<lparr>PTCElectData := (PTCElectData s)\<lparr>Output_p :=
     output_power (Rectifier_output_v (PTCElectData s)) (PFCInductor1_i (PTCElectData s))\<rparr>\<rparr>"

definition screen_fields :: "csu \<Rightarrow> u16 list" where
  "screen_fields s = head_fields s @ tail_fields (with_power s)"

lemma length_fields [simp]: "length (head_fields s) = 6" "length (tail_fields s) = 19"
  by (simp_all add: head_fields_def tail_fields_def Let_def)

lemma head_fields_sendbuff [simp]: "head_fields (s\<lparr>sendbuff := b\<rparr>) = head_fields s"
  by (simp add: head_fields_def)

lemma tail_fields_sendbuff [simp]: "tail_fields (s\<lparr>sendbuff := b\<rparr>) = tail_fields s"
  by (simp add: tail_fields_def)

lemma latch_module_fault_frame [simp]:
  "sendbuff (latch_module_fault s) = sendbuff s" "trace (latch_module_fault s) = trace s"
  "latch_module_fault (s\<lparr>sendbuff := b\<rparr>) = (latch_module_fault s)\<lparr>sendbuff := b\<rparr>"
  by (simp_all add: latch_module_fault_def Let_def)

lemma append_fields_at:
  assumes "unat n = k" and "k + 2 * length vs \<le> length b" and "length b \<le> 256"
  shows "append_fields vs (b, n) =
      Some (take k b @ be16 vs @ drop (k + 2 * length vs) b, of_nat (k + 2 * length vs))"
proof -
  have "n = of_nat k" using assms(1) by auto
  then show ?thesis using append_fields_result [OF assms(2,3)] by simp
qed

lemma frame_buffers:
  fixes h :: "u8 list"
  assumes "length h = 5" and "length H = 6" and "length T = 19"
  defines "F \<equiv> h @ [50] @ be16 (H @ T) @ [sum_list (be16 (H @ T))]"
  shows "append_fields H (h @ replicate 251 0, 6) = Some (h @ [0] @ be16 H @ replicate 238 0, 18)"
    and "append_fields T (h @ [0] @ be16 H @ replicate 238 0, 18)
      = Some (h @ [0] @ be16 (H @ T) @ replicate 200 0, 56)"
    and "poke (h @ [0] @ be16 (H @ T) @ replicate 200 0) 5 [50] = Some (h @ [50] @ be16 (H @ T) @ replicate 200 0)"
    and "check_sum (drop 6 (h @ [50] @ be16 (H @ T) @ replicate 200 0)) 50 = Some (sum_list (be16 (H @ T)))"
    and "poke (h @ [50] @ be16 (H @ T) @ replicate 200 0) 56 [sum_list (be16 (H @ T))] = Some (F @ replicate 199 0)"
    and "HexToAscii (F @ replicate 199 0) (replicate 256 0) 57 = Some (1, hex_text F @ replicate 142 0)"
    and "peek (hex_text F @ replicate 142 0) 0 114 = Some (hex_text F)"
proof -
  have lF: "length F = 57" using assms by simp
  show "append_fields H (h @ replicate 251 0, 6) = Some (h @ [0] @ be16 H @ replicate 238 0, 18)"
    using assms(1,2) append_fields_at [of 6 6 H "h @ replicate 251 0"] by simp
  show "append_fields T (h @ [0] @ be16 H @ replicate 238 0, 18)
      = Some (h @ [0] @ be16 (H @ T) @ replicate 200 0, 56)"
    using assms(1-3) append_fields_at [of 18 18 T "h @ [0] @ be16 H @ replicate 238 0"] by simp
  show "poke (h @ [0] @ be16 (H @ T) @ replicate 200 0) 5 [50] = Some (h @ [50] @ be16 (H @ T) @ replicate 200 0)"
    using assms(1-3) by (simp add: poke_def)
  show "check_sum (drop 6 (h @ [50] @ be16 (H @ T) @ replicate 200 0)) 50 = Some (sum_list (be16 (H @ T)))"
    using assms(1-3) by (subst check_sum_result) simp_all
  show "poke (h @ [50] @ be16 (H @ T) @ replicate 200 0) 56 [sum_list (be16 (H @ T))] = Some (F @ replicate 199 0)"
    using assms(1-3) by (simp add: poke_def F_def)
  show "HexToAscii (F @ replicate 199 0) (replicate 256 0) 57 = Some (1, hex_text F @ replicate 142 0)"
    using HexToAscii_result [of 57 "F @ replicate 199 0" "replicate 256 0"] lF
    by (simp add: replicate_Suc [symmetric] del: replicate_Suc)
  show "peek (hex_text F @ replicate 142 0) 0 114 = Some (hex_text F)"
    using lF by (simp add: peek_def)
qed

lemma screen_datasend_result:
  "screen_datasend order s = Some (follow_module
     (emit (UartTx UART_SCREEN (hex_text (data_frame order (screen_fields s))))
        ((latch_module_fault (with_power s))\<lparr>
          mcgs_buf := data_frame order (screen_fields s) @ replicate 199 0,
          sendbuff := hex_text (data_frame order (screen_fields s)) @ replicate 142 0\<rparr>)))"
proof -
  let ?h = "[SCREEN_SOF1, SCREEN_SOF2, ADDR_CSU, ADDR_SCREEN, order]"
  let ?H = "head_fields s" and ?T = "tail_fields (with_power s)"
  let ?F = "data_frame order (screen_fields s)"
  let ?s0 = "s\<lparr>sendbuff := replicate 256 0\<rparr>"
  have F: "?h @ [50] @ be16 (?H @ ?T) @ [sum_list (be16 (?H @ ?T))] = ?F"
    by (simp add: data_frame_def screen_fields_def)
  have start: "poke (replicate 256 0) 0 ?h = Some (?h @ replicate 251 0)"
    by (simp add: poke_def)
  have wp: "?s0\<lparr>PTCElectData := (PTCElectData ?s0)\<lparr>Output_p :=
      output_power (Rectifier_output_v (PTCElectData ?s0)) (PFCInductor1_i (PTCElectData ?s0))\<rparr>\<rparr>
      = (with_power s)\<lparr>sendbuff := replicate 256 0\<rparr>"
    by (simp add: with_power_def)
  have h5: "length ?h = 5" "length ?H = 6" "length ?T = 19" by simp_all
  note fb = frame_buffers [OF h5, unfolded F]
  have nums: "(56 :: u16) - 6 = 50" "ucast (50 :: u16) = (50 :: u8)" "unat (56 :: u16) = 56"
    "unat (56 + 1 :: u16) = 57" "(56 + 1) * 2 = (114 :: u16)" "unat (114 :: u16) = 114" by simp_all
  show ?thesis
    unfolding screen_datasend_def Let_def start wp
    by (simp only: bind.bind_lunit fb nums head_fields_sendbuff tail_fields_sendbuff case_prod_conv
        uart_send_dma_def latch_module_fault_frame csu.simps option.map)
      (simp add: fb(6,7))
qed

lemma screen_ack_result:
  "screen_ack order s = Some (emit (UartTx UART_SCREEN (hex_text (ack_frame order)))
     (s\<lparr>mcgs_buf := ack_frame order @ replicate 248 0,
        sendbuff := hex_text (ack_frame order) @ replicate 240 0\<rparr>))"
proof -
  have l: "length (ack_frame order) = 8" by (simp add: ack_frame_def)
  have "(if order = SCREEN_ACKON \<or> order = SCREEN_ACKOFF
        then poke ([SCREEN_SOF1, SCREEN_SOF2, ADDR_CSU, ADDR_SCREEN] @ replicate 252 0) 4 [order, 0, 0, 0]
        else if order = SCREEN_ACKCONFIG
        then poke ([SCREEN_SOF1, SCREEN_SOF2, ADDR_CSU, ADDR_SCREEN] @ replicate 252 0) 4 [order, 1, 1, 0]
        else Some ([SCREEN_SOF1, SCREEN_SOF2, ADDR_CSU, ADDR_SCREEN] @ replicate 252 0))
      = Some (ack_frame order @ replicate 248 0)"
  proof -
    have "replicate 252 (0 :: u8) = [0, 0, 0, 0] @ replicate 248 0"
      by (simp add: replicate_Suc [symmetric] del: replicate_Suc)
    then show ?thesis by (simp add: poke_def ack_frame_def)
  qed
  moreover have "HexToAscii (ack_frame order @ replicate 248 0) (replicate 256 0) 8
      = Some (1, hex_text (ack_frame order) @ replicate 240 0)"
    using HexToAscii_result [of 8 "ack_frame order @ replicate 248 0" "replicate 256 0"] l
    by (simp add: replicate_Suc [symmetric] del: replicate_Suc)
  moreover have "poke (replicate 256 0) 0 [SCREEN_SOF1, SCREEN_SOF2, ADDR_CSU, ADDR_SCREEN]
      = Some ([SCREEN_SOF1, SCREEN_SOF2, ADDR_CSU, ADDR_SCREEN] @ replicate 252 0)"
    by (simp add: poke_def)
  moreover have "peek (hex_text (ack_frame order) @ replicate 240 0) 0 (unat (16 :: u16))
      = Some (hex_text (ack_frame order))"
    using l by (simp add: peek_def)
  ultimately show ?thesis
    unfolding screen_ack_def Let_def uart_send_dma_def
    by (simp only: bind.bind_lunit case_prod_conv csu.simps option.map) simp
qed

section \<open>Reading a message\<close>

fun words_of :: "u8 list \<Rightarrow> u16 list" where
  "words_of (h # l # bs) = join16 h l # words_of bs"
| "words_of _ = []"

lemma words_of_be16 [simp]: "words_of (be16 vs) = vs"
  by (induction vs) auto

text \<open>What a screen can check and recover of a message: header, length, checksum, fields.\<close>

definition parse_frame :: "u8 list \<Rightarrow> (u8 \<times> u16 list) option" where
  "parse_frame f =
     (if 7 \<le> length f \<and> take 4 f = [SCREEN_SOF1, SCREEN_SOF2, ADDR_CSU, ADDR_SCREEN]
         \<and> unat (f ! 5) = length f - 7 \<and> sum_list (take (length f - 7) (drop 6 f)) = f ! (length f - 1)
      then Some (f ! 4, words_of (take (length f - 7) (drop 6 f))) else None)"

lemma parse_data_frame:
  assumes "length vs < 128"
  shows "parse_frame (data_frame order vs) = Some (order, vs)"
proof -
  have "unat (of_nat m :: u8) = m" if "m < 256" for m
    using that by (simp add: unat_of_nat take_bit_nat_eq_self)
  from this [of "2 * length vs"] assms show ?thesis
    by (simp add: parse_frame_def data_frame_def nth_append del: of_nat_mult)
qed

section \<open>The module's fault bits\<close>

definition module_fault :: "csu \<Rightarrow> bool" where
  "module_fault s \<longleftrightarrow> bit (g_pfc_State (PTCElectData s)) 11 \<or> bit (g_inv_State (PTCElectData s)) 11"

lemma high_byte_bit: "drop_bit 8 w AND 0x08 \<noteq> 0 \<longleftrightarrow> bit (w :: u16) 11"
  "drop_bit 8 w AND 0x01 \<noteq> 0 \<longleftrightarrow> bit (w :: u16) 8" "drop_bit 8 w AND 0x02 \<noteq> 0 \<longleftrightarrow> bit (w :: u16) 9"
proof -
  have e: "v AND push_bit n 1 \<noteq> 0 \<longleftrightarrow> bit (v :: u16) n" for v n
    by (metis bit_and_iff and_exp_eq_0_iff_not_bit push_bit_of_1)
  show "drop_bit 8 w AND 0x08 \<noteq> 0 \<longleftrightarrow> bit w 11" using e [of "drop_bit 8 w" 3] by (simp add: bit_simps)
  show "drop_bit 8 w AND 0x01 \<noteq> 0 \<longleftrightarrow> bit w 8" using e [of "drop_bit 8 w" 0] by (simp add: bit_simps)
  show "drop_bit 8 w AND 0x02 \<noteq> 0 \<longleftrightarrow> bit w 9" using e [of "drop_bit 8 w" 1] by (simp add: bit_simps)
qed

lemma latch_module_fault_eq:
  "latch_module_fault s = (if module_fault s then s\<lparr>warning_code := RETAIN_WARNING, System_State := FAULT\<rparr> else s)"
  by (simp add: latch_module_fault_def module_fault_def high_byte_bit Let_def)

lemma follow_module_eq:
  "follow_module s = (if warning_code s = ALARM_CODE_NULL \<and> fault_code s = ERROR_CODE_NULL then
      (if bit (g_PTC_State (PTCElectData s)) 9 then s\<lparr>System_State := STANDBY\<rparr>
       else if bit (g_PTC_State (PTCElectData s)) 8 then s\<lparr>System_State := RUNNING\<rparr> else s)
     else s)"
  by (simp add: follow_module_def high_byte_bit Let_def)

lemma with_power_frame [simp]:
  "trace (with_power s) = trace s" "module_fault (with_power s) = module_fault s"
  "warning_code (with_power s) = warning_code s" "fault_code (with_power s) = fault_code s"
  "System_State (with_power s) = System_State s"
  "g_PTC_State (PTCElectData (with_power s)) = g_PTC_State (PTCElectData s)"
  by (simp_all add: with_power_def module_fault_def)

lemma follow_module_trace [simp]: "trace (follow_module s) = trace s"
  by (simp add: follow_module_eq)

lemma output_power_small:
  assumes "unat v * unat i < 2 ^ 31"
  shows "unat (output_power v i) = unat v * unat i div 1000"
proof -
  have "unat v < 2 ^ 16" "unat i < 2 ^ 16" using unsigned_less [of v] unsigned_less [of i] by simp_all
  then have u: "unat (ucast v * ucast i :: u32) = unat v * unat i"
    using assms by (simp add: unat_word_ariths)
  then have "sint (ucast v * ucast i :: u32) = int (unat v * unat i)"
  proof -
    have "uint (ucast v * ucast i :: u32) = int (unat v * unat i)"
      using u by (simp only: uint_nat)
    then show ?thesis
      unfolding sint_uint using signed_take_bit_int_eq_self [of 31 "int (unat v * unat i)"] assms
      by (simp del: of_nat_mult)
  qed
  then have "output_power v i = word_of_int (int (unat v * unat i) sdiv 1000)"
    by (simp only: output_power_def)
  also have "int m sdiv 1000 = int (m div 1000)" for m
    by (cases m) (simp_all add: signed_divide_int_def zdiv_int)
  finally have "output_power v i = of_nat (unat v * unat i div 1000)"
    by (simp only: of_int_of_nat_eq)
  moreover have "unat v * unat i div 1000 < 2 ^ 32"
    using assms by simp
  ultimately show ?thesis
    by (simp only: unat_of_nat) (simp add: take_bit_nat_eq_self del: of_nat_mult)
qed

section \<open>Properties\<close>

text \<open>C23: From every state, for every order code, the data message stays inside its buffers and
  puts exactly one transmission on the screen port, from which a receiver that undoes the
  hexadecimal coding and checks header, length and checksum recovers the order and the 25
  values, in the order of the calls, as they were before the message was sent.\<close>

theorem screen_datasend_roundtrip:
  "\<exists>s' txt. screen_datasend order s = Some s' \<and> trace s' = trace s @ [UartTx UART_SCREEN txt]
     \<and> length txt = 114 \<and> parse_frame (unhex txt) = Some (order, screen_fields s)"
proof -
  have "length (screen_fields s) < 128" by (simp add: screen_fields_def)
  then show ?thesis
    unfolding screen_datasend_result latch_module_fault_eq
    by (simp add: unhex_hex_text parse_data_frame) (simp add: data_frame_def screen_fields_def)
qed

text \<open>The state after a data message: a fault bit in the PFC or inverter status latches the
  retained warning and the state FAULT, which the message just sent does not show yet; without
  any code the state follows the module, standby before running; otherwise it is kept.\<close>

lemma screen_datasend_state:
  "\<exists>s'. screen_datasend order s = Some s' \<and> hd (screen_fields s) = state_num (System_State s)
     \<and> (warning_code s', System_State s') =
       (if module_fault s then (RETAIN_WARNING, FAULT)
        else (warning_code s,
          if warning_code s = ALARM_CODE_NULL \<and> fault_code s = ERROR_CODE_NULL
          then (if bit (g_PTC_State (PTCElectData s)) 9 then STANDBY
                else if bit (g_PTC_State (PTCElectData s)) 8 then RUNNING else System_State s)
          else System_State s))"
proof -
  have "hd (screen_fields s) = state_num (System_State s)"
    by (simp add: screen_fields_def head_fields_def Let_def)
  then show ?thesis
    unfolding screen_datasend_result latch_module_fault_eq follow_module_eq
    by (cases "module_fault s") simp_all
qed

text \<open>\<open>HexToAscii\<close> leaves its buffers exactly when the source is too short, the text needs
  more than 255 bytes of its local buffer, or the destination has no room for the text and its
  closing zero; otherwise it succeeds and the text decodes to the source.\<close>

lemma HexToAscii_bounds:
  "(HexToAscii src dst Len = None \<longleftrightarrow> length src < Len \<or> 128 \<le> Len \<or> length dst \<le> 2 * Len)
   \<and> (case HexToAscii src dst Len of None \<Rightarrow> True
      | Some (r, d) \<Rightarrow> r = 1 \<and> length d = length dst \<and> unhex (take (2 * Len) d) = take Len src)"
proof (cases "length src < Len \<or> 128 \<le> Len \<or> length dst \<le> 2 * Len")
  case True
  then show ?thesis using HexToAscii_overrun [OF True] by simp
next
  case False
  then have "Len \<le> length src" "Len < 128" "2 * Len < length dst" by auto
  with HexToAscii_result [OF this] show ?thesis by (simp add: unhex_hex_text min_def)
qed

text \<open>The reported output power is the exact quotient of voltage times current by 1000 as long
  as the product is below \<open>2 ^ 31\<close>, the range of the signed product.\<close>

lemma output_power_exact:
  assumes "unat v * unat i < 2 ^ 31"
  shows "unat (output_power v i) = unat v * unat i div 1000"
  using assms by (rule output_power_small)

text \<open>Every acknowledgement is one 16-digit transmission that does not depend on the state: the
  configuration acknowledgement always carries the success code, also when the module never
  confirmed the configuration.\<close>

lemma screen_ack_sends:
  "\<exists>s'. screen_ack order s = Some s'
     \<and> trace s' = trace s @ [UartTx UART_SCREEN (hex_text (ack_frame order))]
     \<and> length (ack_frame order) = 8 \<and> ack_frame SCREEN_ACKCONFIG ! 6 = 1
     \<and> s' = emit (UartTx UART_SCREEN (hex_text (ack_frame order)))
         (s\<lparr>mcgs_buf := mcgs_buf s', sendbuff := sendbuff s'\<rparr>)"
  by (simp add: screen_ack_result) (simp add: ack_frame_def emit_def)

text \<open>C31: The screen's receive interrupt overruns its 20-byte buffer exactly when an idle line ends
  a burst of more than 20 bytes; the DMA accepts up to 256.\<close>

theorem USART2_overrun_iff:
  assumes "length (rx_buf p) = 256" and "length (app_buf p) = 20" and "unat (rx_left p) \<le> 256"
  shows "USART2_IRQHandler idle p = None \<longleftrightarrow> idle \<and> 20 < 256 - unat (rx_left p)"
proof -
  have u: "unat (256 - rx_left p) = 256 - unat (rx_left p)"
    using assms(3) by (subst unat_sub) (simp_all add: word_le_nat_alt)
  then have z: "256 - rx_left p = 0 \<longleftrightarrow> unat (rx_left p) = 256"
    using assms(3) by (metis diff_is_0_eq' diff_diff_cancel diff_zero le_refl unat_eq_0)
  let ?d = "take (256 - unat (rx_left p)) (rx_buf p)"
  have pk: "peek (rx_buf p) 0 (unat (256 - rx_left p)) = Some ?d"
    using assms(1) by (simp add: peek_def u)
  have pn: "poke (app_buf p) 0 ?d = None \<longleftrightarrow> 20 < 256 - unat (rx_left p)"
    using assms(1,2) by simp
  show ?thesis
  proof (cases "idle \<and> 256 - rx_left p \<noteq> 0")
    case True
    then show ?thesis
      unfolding pn [symmetric]
      by (cases "poke (app_buf p) 0 ?d") (simp_all only: USART2_IRQHandler_def rx_interrupt_def pk Let_def
          bind.simps if_True simp_thms not_False_eq_True option.distinct case_prod_conv)
  next
    case False
    then show ?thesis using z by (auto simp: USART2_IRQHandler_def rx_interrupt_def Let_def)
  qed
qed

theorem USART2_overrun_iff_witness:
  "USART2_IRQHandler True \<lparr>rx_buf = replicate 256 0, rx_left = 235, app_buf = replicate 20 0\<rparr> = None"
  using USART2_overrun_iff [of "\<lparr>rx_buf = replicate 256 0, rx_left = 235, app_buf = replicate 20 0\<rparr>" True]
  by simp

end
