(* ===== verification/Control.thy ===== *)
theory Control
  imports Can_Rx Io_Scan Screen
begin

text \<open>
  The tasks of USER/main.c: the commands to the power module (\<open>poweron\<close>, \<open>poweroff\<close>,
  \<open>waring_poweroff\<close>, \<open>Set_ptcdata\<close>), the bodies of the loops of the screen, CAN, scan and
  handle tasks, and the two timer callbacks, with the message queue between them.  A function
  here is one pass of a task's loop; what other tasks and interrupts do meanwhile happens in
  the delays, through \<open>during\<close>.  \<^const>\<open>None\<close> is a buffer overrun or a null pointer read.
\<close>

section \<open>Posting to the CAN task\<close>

abbreviation (input) MSG_CAN_LINK :: u8 where "MSG_CAN_LINK \<equiv> 0"
abbreviation (input) MSG_CAN_SEARCH :: u8 where "MSG_CAN_SEARCH \<equiv> 1"
abbreviation (input) MSG_CAN_POWERON :: u8 where "MSG_CAN_POWERON \<equiv> 2"
abbreviation (input) MSG_CAN_POWEROFF :: u8 where "MSG_CAN_POWEROFF \<equiv> 3"
abbreviation (input) MSG_CAN_CONFIG_NUM :: u8 where "MSG_CAN_CONFIG_NUM \<equiv> 4"
abbreviation (input) MSG_CAN_CONFIG_DATA :: u8 where "MSG_CAN_CONFIG_DATA \<equiv> 5"
abbreviation (input) MSG_CAN_CONFIG_SEARCH_DATA :: u8 where "MSG_CAN_CONFIG_SEARCH_DATA \<equiv> 6"
abbreviation (input) MSG_CAN_CONFIG_SEARCH_STATE :: u8 where "MSG_CAN_CONFIG_SEARCH_STATE \<equiv> 7"

abbreviation (input) SCREEN_POWERON :: u8 where "SCREEN_POWERON \<equiv> 0x10"
abbreviation (input) SCREEN_POWEROFF :: u8 where "SCREEN_POWEROFF \<equiv> 0x11"
abbreviation (input) SCREEN_SEEK :: u8 where "SCREEN_SEEK \<equiv> 0x12"
abbreviation (input) SCREEN_CONFIG :: u8 where "SCREEN_CONFIG \<equiv> 0x13"
abbreviation (input) UART_TEST :: u8 where "UART_TEST \<equiv> 0x20"

abbreviation (input) TASK_CAN_NUM :: nat where "TASK_CAN_NUM \<equiv> 10"

text \<open>
  \<open>txbuf[0] = m; OSTaskQPost(&CanTaskTCB, txbuf, 3, OS_OPT_POST_FIFO, &err)\<close>: the pointer is
  queued at the end, or dropped with \<open>OS_ERR_Q_MAX\<close> (which no caller looks at).
\<close>

definition post_can :: "sender \<Rightarrow> u8 \<Rightarrow> csu \<Rightarrow> csu" where
  "post_can x m s = (let s = s\<lparr>txbuf := (txbuf s)(x := m)\<rparr>
     in if length (can_q s) < TASK_CAN_NUM then s\<lparr>can_q := can_q s @ [x]\<rparr> else s)"

section \<open>Commands to the power module\<close>

text \<open>Build a packet into \<open>can2_tbuf\<close> and send its \<open>num_frame * 8\<close> bytes.\<close>

definition send_order :: "world \<Rightarrow> u8 \<Rightarrow> u8 \<Rightarrow> u8 \<Rightarrow> u8 list option \<Rightarrow> csu \<Rightarrow> csu option" where
  "send_order w order append_codel len_data data s =
     do { (num_frame, b) \<leftarrow> can2_data_packet order append_codel len_data data;
          let s = s\<lparr>can2_tbuf := b\<rparr>;
          (r, s) \<leftarrow> Can2Send_MultiMessages w (canid_tx s) (ucast num_frame * 8) s;
          Some s }"

text \<open>The loop \<open>while (!done && (i < 10)) { ...; i++; }\<close> of the command functions.\<close>

function retry :: "(csu \<Rightarrow> bool) \<Rightarrow> (csu \<Rightarrow> csu option) \<Rightarrow> nat \<Rightarrow> csu \<Rightarrow> csu option" where
  "retry fin attempt i s =
     (if \<not> fin s \<and> i < 10 then Option.bind (attempt s) (retry fin attempt (Suc i)) else Some s)"
  by pat_completeness auto
termination
  by (relation "measure (\<lambda>(fin, attempt, i, s). 10 - i)") auto

declare retry.simps [simp del]

definition ptc_state_byte :: "csu \<Rightarrow> u16" where
  "ptc_state_byte s = drop_bit 8 (g_PTC_State (PTCElectData s))"

definition control_attempt :: "world \<Rightarrow> u8 \<Rightarrow> csu \<Rightarrow> csu option" where
  "control_attempt w append_codel s =
     do { s \<leftarrow> send_order w FUNC_RCONTROL append_codel 6 (Some [0, 0, 0x12, 0xd0, 0x00, 0x00]) s;
          Some (delay_ms w 100 s) }"

definition poweron :: "world \<Rightarrow> csu \<Rightarrow> csu option" where
  "poweron w s =
     do { s \<leftarrow> retry (\<lambda>s. ptc_state_byte s AND 0x01 = 0x01) (control_attempt w APPEND_CODEL_START) 0 s;
          if ptc_state_byte s AND 0x01 \<noteq> 0 then do {
            let s = delay_ms w 10 (pin_out SCREEN_485 False s);
            s \<leftarrow> screen_ack SCREEN_ACKON s;
            let s = pin_out SCREEN_485 True (delay_ms w 500 s);
            let s = delay_ms w 10 s;
            Some (s\<lparr>System_State := RUNNING\<rparr>) }
          else Some s }"

definition poweroff :: "world \<Rightarrow> csu \<Rightarrow> csu option" where
  "poweroff w s =
     do { s \<leftarrow> retry (\<lambda>s. ptc_state_byte s AND 0x02 = 0x02) (control_attempt w APPEND_CODEL_STOP) 0 s;
          if ptc_state_byte s AND 0x02 \<noteq> 0 then do {
            let s = delay_ms w 10 (pin_out SCREEN_485 False s);
            s \<leftarrow> screen_ack SCREEN_ACKOFF s;
            let s = pin_out SCREEN_485 True (delay_ms w 10 s);
            Some (s\<lparr>warning_code := ALARM_CODE_NULL, fault_code := ERROR_CODE_NULL,
                    System_State := STANDBY\<rparr>) }
          else Some s }"

definition waring_poweroff :: "world \<Rightarrow> csu \<Rightarrow> csu option" where
  "waring_poweroff w s =
     retry (\<lambda>s. ptc_state_byte s AND 0x02 = 0x02) (control_attempt w APPEND_CODEL_STOP) 0 s"

text \<open>A run of \<open>delay_ms(n); screen_ack(SCREEN_ACKCONFIG);\<close> with the given delays.\<close>

primrec ack_config :: "world \<Rightarrow> nat list \<Rightarrow> csu \<Rightarrow> csu option" where
  "ack_config w [] s = Some s"
| "ack_config w (n # ns) s = Option.bind (screen_ack SCREEN_ACKCONFIG (delay_ms w n s)) (ack_config w ns)"

definition config_attempt :: "world \<Rightarrow> u8 list \<Rightarrow> csu \<Rightarrow> csu option" where
  "config_attempt w data s =
     do { s \<leftarrow> send_order w FUNC_CONFIG 0 21 (Some data) s;
          Some (delay_ms w 10 s) }"

definition Set_ptcdata :: "world \<Rightarrow> csu \<Rightarrow> csu option" where
  "Set_ptcdata w s =
     do { let d = SetPTCData s;
          let data = [hi8 (s_Bus_v d), lo8 (s_Bus_v d), hi8 (s_INV_fre d), lo8 (s_INV_fre d)];
          let s = s\<lparr>SetPTCData := d\<lparr>s_set_statu := False\<rparr>\<rparr>;
          s \<leftarrow> retry (\<lambda>s. s_set_statu (SetPTCData s)) (config_attempt w data) 0 s;
          s \<leftarrow> (if s_set_statu (SetPTCData s) then ack_config w [10, 12, 14, 16, 18, 20] s else Some s);
          ack_config w [10, 12, 14, 16, 18, 20] s }"

section \<open>The tasks\<close>

definition test_buf :: "u8 list" where
  "test_buf = [1, 2, 3, 4, 5, 6, 7, 8, 9, 0]"

text \<open>The reaction to one message of the screen; \<open>p\<close> is the buffer the interrupt filled.\<close>

definition uart_test :: "world \<Rightarrow> out_pin \<Rightarrow> uart_port \<Rightarrow> csu \<Rightarrow> csu option" where
  "uart_test w dir port s =
     do { let s = delay_ms w 10 (pin_out dir False s);
          s \<leftarrow> uart_send_dma port test_buf 10 s;
          Some (pin_out dir True (delay_ms w 50 s)) }"

definition screen_command :: "world \<Rightarrow> u8 list \<Rightarrow> csu \<Rightarrow> csu option" where
  "screen_command w p s =
     (if p ! 0 = 0x55 \<and> p ! 1 = 0x66 then
        if p ! 4 = SCREEN_POWERON then do {
          let s = delay_ms w 10 (pin_out SCREEN_485 False s);
          s \<leftarrow> screen_ack SCREEN_ACKON s;
          let s = pin_out SCREEN_485 True (delay_ms w 50 s);
          Some (delay_ms w 50 (post_can Screen_tx MSG_CAN_POWERON s)) }
        else if p ! 4 = SCREEN_POWEROFF then
          poweroff w (s\<lparr>SYSTEM_POWER := POWER_OFF\<rparr>)
        else if p ! 4 = SCREEN_CONFIG then
          (let s = s\<lparr>SetPTCData := (SetPTCData s)\<lparr>s_Bus_v := getu16 (p ! 7) (p ! 6) * 10,
                                                  s_INV_fre := getu16 (p ! 9) (p ! 8) * 10\<rparr>\<rparr>
           in Some (delay_ms w 50 (post_can Screen_tx MSG_CAN_CONFIG_DATA s)))
        else if p ! 4 = SCREEN_SEEK then do {
          let s = delay_ms w 10 (pin_out SCREEN_485 False s);
          s \<leftarrow> screen_datasend SCREEN_ACKDATA s;
          Some (pin_out SCREEN_485 True (delay_ms w 10 s)) }
        else if p ! 4 = UART_TEST then
          (if p ! 5 = 1 then uart_test w METER_485 UART_METER s
           else if p ! 5 = 2 then uart_test w FAILOVER_485 UART_FAILOVER s
           else if p ! 5 = 3 then uart_test w OUT_485 UART_OUT s
           else if p ! 5 = 4 then uart_test w SCREEN_485 UART_SCREEN s
           else Some s)
        else Some s
      else Some s)"

text \<open>The end of a pass: \<open>delay_ms(500); IWDG_Feed();\<close>.\<close>

definition pass_end :: "world \<Rightarrow> csu \<Rightarrow> csu" where
  "pass_end w s = emit Feed (delay_ms w 500 s)"

definition screen_task :: "world \<Rightarrow> u8 list \<Rightarrow> csu \<Rightarrow> csu option" where
  "screen_task w p s = map_option (pass_end w) (if length p < 10 then None else screen_command w p s)"

text \<open>
  The status bytes the CAN task sends.  Its array \<open>data\<close> lives across the passes: in the state
  FAULT no branch assigns \<open>data[0]\<close>, which keeps the code of an earlier state.
\<close>

definition status_bytes :: "csu \<Rightarrow> u8 list \<Rightarrow> u8 list" where
  "status_bytes s data =
     (case System_State s of STANDBY \<Rightarrow> data[0 := 0x01] | RUNNING \<Rightarrow> data[0 := 0x02]
      | WARNING \<Rightarrow> data[0 := 0x04] | SHUTDOWN \<Rightarrow> data[0 := 0x08] | FAULT \<Rightarrow> data)
     [1 := 0, 2 := byte_of_statio 0 s, 3 := (if io B_emo s then 1 else 0), 4 := 0, 5 := 0]"

definition can_command :: "world \<Rightarrow> u8 \<Rightarrow> u8 list \<times> csu \<Rightarrow> (u8 list \<times> csu) option" where
  "can_command w m ds = (case ds of (data, s) \<Rightarrow>
     if m = MSG_CAN_LINK then map_option (Pair data) (send_order w FUNC_LINK 0 0 None s)
     else if m = MSG_CAN_SEARCH then map_option (Pair data) (send_order w FUNC_SEEK 0 0 None s)
     else if m = MSG_CAN_POWERON then map_option (Pair data) (poweron w s)
     else if m = MSG_CAN_POWEROFF then map_option (Pair data) (poweroff w s)
     else if m = MSG_CAN_CONFIG_NUM then map_option (Pair data) (send_order w FUNC_SETNUM 0 6 None s)
     else if m = MSG_CAN_CONFIG_DATA then map_option (Pair data) (Set_ptcdata w s)
     else if m = MSG_CAN_CONFIG_SEARCH_DATA then do {
       s \<leftarrow> screen_datasend SCREEN_ACKDATA s;
       Some (data, if SYSTEM_POWER s = POWER_ON then s\<lparr>SYSTEM_POWER := POWER_RUNING\<rparr> else s) }
     else if m = MSG_CAN_CONFIG_SEARCH_STATE then do {
       let data = status_bytes s data;
       s \<leftarrow> send_order w FUNC_SEEKSTAT 0 14 (Some data) s;
       Some (data, emit LogWritten s) }
     else Some (data, s))"

text \<open>A pass of the CAN task; with an empty queue it waits in \<open>OSTaskQPend\<close>.\<close>

definition can_task :: "world \<Rightarrow> u8 list \<times> csu \<Rightarrow> (u8 list \<times> csu) option" where
  "can_task w ds = (case ds of (data, s) \<Rightarrow> (case can_q s of
     [] \<Rightarrow> Some (data, s)
   | x # q \<Rightarrow> map_option (map_prod id (pass_end w)) (can_command w (txbuf s x) (data, s\<lparr>can_q := q\<rparr>))))"

definition scan_task :: "world \<Rightarrow> csu \<Rightarrow> csu" where
  "scan_task w s =
     (let s = read_io w s;
          s = (if SYSTEM_POWER s = POWER_ON then delay_ms w 50 (post_can Scan_tx MSG_CAN_POWERON s) else s);
          s = (if SYSTEM_POWER s = POWER_OFF then delay_ms w 50 (post_can Scan_tx MSG_CAN_POWEROFF s) else s)
      in pass_end w s)"

definition handle_task :: "world \<Rightarrow> csu \<Rightarrow> csu" where
  "handle_task w s = pass_end w (handle_fault (handle_alarm (handle_led s)))"

text \<open>
  The functions of the two timers.  The delay of 50 ms they ask for is refused, because the timer task
  calls them with the scheduler locked (\<open>locked_delay_refused\<close> in Os_TmrTask), so they end at once.
\<close>

definition tmr1_callback :: "csu \<Rightarrow> csu" where
  "tmr1_callback s = post_can Tmr1_tx MSG_CAN_CONFIG_SEARCH_DATA s"

definition tmr2_callback :: "csu \<Rightarrow> csu" where
  "tmr2_callback s = post_can Tmr2_tx MSG_CAN_CONFIG_SEARCH_STATE s"

text \<open>The part of \<open>sys_init\<close> that sets the identifiers and asks for a link three times.\<close>

primrec link_loop :: "world \<Rightarrow> nat \<Rightarrow> csu \<Rightarrow> csu option" where
  "link_loop w 0 s = Some s"
| "link_loop w (Suc n) s =
     do { s \<leftarrow> send_order w FUNC_LINK 0 0 None s;
          link_loop w n (delay_ms w 500 s) }"

definition sys_link :: "world \<Rightarrow> csu \<Rightarrow> csu option" where
  "sys_link w s = link_loop w 3 (delay_ms w 100 (canid_init s))"

section \<open>The retry loop\<close>

lemma retry_stop: "fin s \<or> \<not> i < 10 \<Longrightarrow> retry fin attempt i s = Some s"
  by (subst retry.simps) auto

lemma retry_go: "\<not> fin s \<Longrightarrow> i < 10 \<Longrightarrow> attempt s = Some t \<Longrightarrow>
    retry fin attempt i s = retry fin attempt (Suc i) t"
  by (subst retry.simps) simp

lemma retry_total:
  assumes "\<And>s. I s \<Longrightarrow> \<exists>s'. attempt s = Some s' \<and> I s'"
  shows "I s \<Longrightarrow> \<exists>s'. retry fin attempt i s = Some s' \<and> I s'"
proof (induction "10 - i" arbitrary: i s)
  case 0
  then show ?case by (simp add: retry_stop)
next
  case (Suc n)
  obtain t where t: "attempt s = Some t" "I t" using assms [OF Suc.prems] by blast
  have "n = 10 - Suc i" "i < 10" using Suc.hyps(2) by auto
  with Suc.hyps(1) [OF _ t(2)] t(1) Suc.prems show ?case
    by (cases "fin s") (auto simp: retry_stop retry_go)
qed

lemma retry_iterates:
  assumes att: "\<And>s. attempt s = Some (f s)"
  shows "i \<le> 10 \<Longrightarrow> \<exists>k \<le> 10 - i. retry fin attempt i s = Some ((f ^^ k) s)
    \<and> (\<forall>j < k. \<not> fin ((f ^^ j) s)) \<and> (fin ((f ^^ k) s) \<or> k = 10 - i)"
proof (induction "10 - i" arbitrary: i s)
  case 0
  then show ?case by (simp add: retry_stop)
next
  case (Suc n)
  show ?case
  proof (cases "fin s")
    case True
    then show ?thesis by (intro exI [of _ 0]) (simp add: retry_stop)
  next
    case False
    have i: "n = 10 - Suc i" "Suc i \<le> 10" "i < 10" using Suc.hyps(2) by auto
    from Suc.hyps(1) [OF i(1,2), of "f s"] obtain k where k: "k \<le> 10 - Suc i"
      "retry fin attempt (Suc i) (f s) = Some ((f ^^ k) (f s))"
      "\<forall>j < k. \<not> fin ((f ^^ j) (f s))" "fin ((f ^^ k) (f s)) \<or> k = 10 - Suc i" by blast
    have shift: "(f ^^ Suc j) s = (f ^^ j) (f s)" for j by (simp add: funpow_swap1)
    show ?thesis
    proof (intro exI [of _ "Suc k"] conjI)
      show "Suc k \<le> 10 - i" using k(1) i by simp
      show "retry fin attempt i s = Some ((f ^^ Suc k) s)"
        using retry_go [where fin = fin and attempt = attempt, OF False i(3) att [of s]] k(2) by (simp only: shift)
      show "\<forall>j < Suc k. \<not> fin ((f ^^ j) s)"
        using False k(3) by (auto simp: less_Suc_eq_0_disj shift simp del: funpow.simps(2))
      show "fin ((f ^^ Suc k) s) \<or> Suc k = 10 - i" using k(4) i by (simp only: shift) auto
    qed
  qed
qed

section \<open>Sending\<close>

text \<open>
  An order whose packet is \<open>n\<close> segments goes out completely, whatever the mailboxes do; when the
  task sends for the first time since its last pause and a mailbox is free after every pause, exactly
  its segments are on the bus.
\<close>

lemma send_order_events:
  assumes w: "sole_sender w"
    and p: "can2_data_packet order ac len data = Some (n, concat (segments (unat n) m) @ rest)"
    and n: "n \<in> {2, 3, 4, 5}" and m: "length m = 7 * unat n"
  shows "\<exists>s'. send_order w order ac len data s = Some s' \<and> canid_tx s' = canid_tx s
    \<and> (free_mailbox w \<longrightarrow> polls s = 0 \<longrightarrow> emits s (send_events (canid_tx s) (segments (unat n) m)) s')"
proof -
  let ?b = "concat (segments (unat n) m) @ rest" and ?s = "s\<lparr>can2_tbuf := concat (segments (unat n) m) @ rest\<rparr>"
  have nn: "unat n \<in> {2, 3, 4, 5}" using n by auto
  have len8: "unat (ucast n * 8 :: u16) = 8 * unat n" using n by auto
  have lb: "8 * unat n \<le> length ?b" by (simp add: segments_concat_length [OF m])
  have "unat (0 :: u8) + unat n = unat n" "unat n < 256" using nn by auto
  from multi_loop_sends [OF w this, of ?s "canid_tx s"] lb
  obtain s' where s': "multi_loop w (canid_tx s) (8 * unat n) 0 ?s = Some s'" "canid_tx s' = canid_tx s"
    "polls s = 0 \<Longrightarrow> emits ?s (sent_events w (now s) (canid_tx s) (segments (unat n) m)) s'"
    by (auto simp: segments_frames [OF m])
  have "emits s (send_events (canid_tx s) (segments (unat n) m)) s'" if "free_mailbox w" "polls s = 0"
    using s'(3) [OF that(2)] emits_cong [of s ?s s' s'] by (simp add: sent_events_free [OF that(1)])
  then show ?thesis using s'(1,2) by (simp add: send_order_def p Can2Send_MultiMessages_def len8)
qed

definition control_message :: "u8 \<Rightarrow> u8 list" where
  "control_message ac = packet_message FUNC_RCONTROL ac 6 [0, 0, 0x12, 0xd0, 0, 0] 3"

definition config_message :: "u8 list \<Rightarrow> u8 list" where
  "config_message data = packet_message FUNC_CONFIG 0 21 data 5"

definition attempt_events :: "nat \<Rightarrow> u32 \<Rightarrow> nat \<Rightarrow> u8 list \<Rightarrow> event list" where
  "attempt_events n exid ms m = send_events exid (segments n m) @ [Delay ms]"

lemma control_packet:
  "can2_data_packet FUNC_RCONTROL ac 6 (Some [0, 0, 0x12, 0xd0, 0, 0])
     = Some (3, concat (segments (unat (3 :: u8)) (control_message ac)) @ replicate 26 0)"
  using packet_3_refines [of "[0, 0, 0x12, 0xd0, 0, 0]" FUNC_RCONTROL ac 6]
  by (simp add: PreProcess_CanOrder_cases control_message_def)

lemma config_packet:
  "can2_data_packet FUNC_CONFIG 0 21 (Some [a, b, c, d])
     = Some (5, concat (segments (unat (5 :: u8)) (config_message [a, b, c, d])) @ replicate 10 0)"
proof -
  have "can2_data_packet FUNC_CONFIG 0 21 (Some [a, b, c, d])
      = can2_data_packet FUNC_CONFIG 0 21 (Some [a, b, c, d, 0, 0])"
    by (simp add: packet_defs PreProcess_CanOrder_cases)
  moreover have "packet_message FUNC_CONFIG 0 21 [a, b, c, d, 0, 0] 5 = config_message [a, b, c, d]"
    by (simp add: packet_message_def packet_body_def data_room_def config_message_def Let_def)
  ultimately show ?thesis
    using packet_5_refines [of "[a, b, c, d, 0, 0]" FUNC_CONFIG 0 21]
    by (simp add: PreProcess_CanOrder_cases)
qed

lemma message_lengths [simp]: "length (control_message ac) = 21" "length (config_message [a, b, c, d]) = 35"
  by (simp_all add: control_message_def config_message_def packet_message_def packet_body_def
      body_length_def data_room_def order_code_def Let_def)

text \<open>What one attempt does, as a total function.\<close>

definition control_step :: "world \<Rightarrow> u8 \<Rightarrow> csu \<Rightarrow> csu" where
  "control_step w ac s = the (control_attempt w ac s)"

definition config_step :: "world \<Rightarrow> u8 list \<Rightarrow> csu \<Rightarrow> csu" where
  "config_step w data s = the (config_attempt w data s)"

lemma control_step_total:
  assumes "sole_sender w"
  shows "control_attempt w ac s = Some (control_step w ac s)"
    and "canid_tx (control_step w ac s) = canid_tx s" and "polls (control_step w ac s) = 0"
  using send_order_events [OF assms control_packet [of ac], of s] assms
  by (auto simp: control_attempt_def control_step_def)

lemma control_step_events:
  assumes "sole_sender w" and "free_mailbox w" and "polls s = 0"
  shows "emits s (attempt_events 3 (canid_tx s) 100 (control_message ac)) (control_step w ac s)"
  using send_order_events [OF assms(1) control_packet [of ac], of s] assms
  by (auto simp: control_attempt_def control_step_def attempt_events_def intro: emits_then_delay)

lemma config_step_total:
  assumes "sole_sender w"
  shows "config_attempt w [a, b, c, d] s = Some (config_step w [a, b, c, d] s)"
    and "canid_tx (config_step w [a, b, c, d] s) = canid_tx s" and "polls (config_step w [a, b, c, d] s) = 0"
  using send_order_events [OF assms config_packet [of a b c d], of s] assms
  by (auto simp: config_attempt_def config_step_def)

lemma config_step_events:
  assumes "sole_sender w" and "free_mailbox w" and "polls s = 0"
  shows "emits s (attempt_events 5 (canid_tx s) 10 (config_message [a, b, c, d])) (config_step w [a, b, c, d] s)"
  using send_order_events [OF assms(1) config_packet [of a b c d], of s] assms
  by (auto simp: config_attempt_def config_step_def attempt_events_def intro: emits_then_delay)

lemma steps_events:
  fixes f :: "csu \<Rightarrow> csu"
  assumes f: "\<And>s. canid_tx (f s) = canid_tx s" "\<And>s. polls (f s) = 0"
    and e: "\<And>s. polls s = 0 \<Longrightarrow> emits s (E (canid_tx s)) (f s)" and s: "polls s = 0"
  shows "emits s (concat (replicate k (E (canid_tx s)))) ((f ^^ k) s)
    \<and> canid_tx ((f ^^ k) s) = canid_tx s \<and> polls ((f ^^ k) s) = 0"
proof (induction k)
  case 0
  then show ?case using s by (simp add: emits_trace)
next
  case (Suc k)
  let ?x = "E (canid_tx s)"
  have "concat (replicate k ?x) @ ?x = concat (replicate (Suc k) ?x)"
    by (induction k) simp_all
  moreover have "emits s (concat (replicate k ?x) @ ?x) (f ((f ^^ k) s))"
    using Suc e [of "(f ^^ k) s"] by (intro emits_trans [of s _ "(f ^^ k) s"]) simp_all
  ultimately show ?case using Suc f by simp
qed

section \<open>The commands\<close>

abbreviation (input) ptc_on :: "csu \<Rightarrow> bool" where
  "ptc_on s \<equiv> bit (g_PTC_State (PTCElectData s)) 8"

abbreviation (input) ptc_off :: "csu \<Rightarrow> bool" where
  "ptc_off s \<equiv> bit (g_PTC_State (PTCElectData s)) 9"

lemma ptc_bits:
  "ptc_state_byte s AND 0x01 = 0x01 \<longleftrightarrow> ptc_on s" "ptc_state_byte s AND 0x01 \<noteq> 0 \<longleftrightarrow> ptc_on s"
  "ptc_state_byte s AND 0x02 = 0x02 \<longleftrightarrow> ptc_off s" "ptc_state_byte s AND 0x02 \<noteq> 0 \<longleftrightarrow> ptc_off s"
proof -
  note e0 = and_single_bit [of "ptc_state_byte s" 0] and e1 = and_single_bit [of "ptc_state_byte s" 1]
  show "ptc_state_byte s AND 0x01 = 0x01 \<longleftrightarrow> ptc_on s" "ptc_state_byte s AND 0x01 \<noteq> 0 \<longleftrightarrow> ptc_on s"
    using e0 by (simp_all add: ptc_state_byte_def bit_simps)
  show "ptc_state_byte s AND 0x02 = 0x02 \<longleftrightarrow> ptc_off s" "ptc_state_byte s AND 0x02 \<noteq> 0 \<longleftrightarrow> ptc_off s"
    using e1 by (simp_all add: ptc_state_byte_def bit_simps)
qed

text \<open>The retries of a command: \<open>k\<close> attempts, the first after which the module is done or the tenth.\<close>

definition attempts :: "(csu \<Rightarrow> bool) \<Rightarrow> (csu \<Rightarrow> csu) \<Rightarrow> csu \<Rightarrow> nat \<Rightarrow> bool" where
  "attempts fin f s k \<longleftrightarrow> k \<le> 10 \<and> (\<forall>j < k. \<not> fin ((f ^^ j) s)) \<and> (fin ((f ^^ k) s) \<or> k = 10)"

lemma attempts_unique: "attempts fin f s k \<Longrightarrow> attempts fin f s l \<Longrightarrow> k = l"
  by (metis attempts_def le_antisym linorder_not_less)

lemma retry_attempts:
  assumes "\<And>s. attempt s = Some (f s)"
  obtains k where "attempts fin f s k" and "retry fin attempt 0 s = Some ((f ^^ k) s)"
  using retry_iterates [where attempt = attempt and f = f and i = 0 and fin = fin and s = s, OF assms]
  unfolding attempts_def by auto

text \<open>The exchange with the screen that ends a successful command.\<close>

definition ack_events :: "u8 \<Rightarrow> nat \<Rightarrow> event list" where
  "ack_events order ms = [PinOut SCREEN_485 False, Delay 10, UartTx UART_SCREEN (hex_text (ack_frame order)),
     Delay ms, PinOut SCREEN_485 True]"

lemma ack_exchange:
  assumes w: "sole_sender w"
  obtains t where "screen_ack order (delay_ms w 10 (pin_out SCREEN_485 False s)) = Some t"
    and "emits s (ack_events order ms) (pin_out SCREEN_485 True (delay_ms w ms t))"
proof -
  let ?s = "delay_ms w 10 (pin_out SCREEN_485 False s)"
  obtain t where t: "screen_ack order ?s = Some t" "trace t = trace ?s @ [UartTx UART_SCREEN (hex_text (ack_frame order))]"
    by (rule that [OF screen_ack_result]) simp
  have "emits s ([PinOut SCREEN_485 False] @ [Delay 10]) ?s"
    by (rule emits_then_delay [OF w emits_trace]) simp
  from emits_trans [OF this emits_trace [OF t(2)]]
  have "emits s ([PinOut SCREEN_485 False, Delay 10, UartTx UART_SCREEN (hex_text (ack_frame order))]) t" by simp
  from emits_trans [OF emits_then_delay [OF w this, of ms] emits_trace [OF pin_out_simps(1)]]
  show thesis using t(1) by (intro that) (simp_all add: ack_events_def)
qed

text \<open>The loop of \<open>poweron\<close> and \<open>poweroff\<close>: the attempts and the frames they put on the bus.\<close>

lemma control_loop:
  assumes w: "sole_sender w" "free_mailbox w" and s: "polls s = 0"
  obtains k t where "t = (control_step w ac ^^ k) s" and "attempts fin (control_step w ac) s k"
    and "retry fin (control_attempt w ac) 0 s = Some t"
    and "emits s (concat (replicate k (attempt_events 3 (canid_tx s) 100 (control_message ac)))) t"
proof -
  note step = control_step_total [OF w(1), of ac]
  obtain k where "attempts fin (control_step w ac) s k"
    and "retry fin (control_attempt w ac) 0 s = Some ((control_step w ac ^^ k) s)"
    by (rule retry_attempts [OF step(1)])
  then show thesis
    using steps_events [of "control_step w ac", OF step(2,3) control_step_events [OF w] s]
    by (intro that [OF refl]) simp_all
qed

lemma poweron_runs:
  assumes w: "sole_sender w" "free_mailbox w" and s: "polls s = 0"
  shows "\<exists>k s' t. poweron w s = Some s' \<and> t = (control_step w APPEND_CODEL_START ^^ k) s
    \<and> attempts ptc_on (control_step w APPEND_CODEL_START) s k
    \<and> emits s (concat (replicate k (attempt_events 3 (canid_tx s) 100 (control_message APPEND_CODEL_START)))
        @ (if ptc_on t then ack_events SCREEN_ACKON 500 @ [Delay 10] else [])) s'
    \<and> (if ptc_on t then System_State s' = RUNNING else s' = t)"
proof -
  obtain k t where t: "t = (control_step w APPEND_CODEL_START ^^ k) s"
      "attempts ptc_on (control_step w APPEND_CODEL_START) s k"
    and loop: "retry ptc_on (control_attempt w APPEND_CODEL_START) 0 s = Some t"
    and tr: "emits s (concat (replicate k
      (attempt_events 3 (canid_tx s) 100 (control_message APPEND_CODEL_START)))) t"
    by (rule control_loop [OF w s])
  show ?thesis
  proof (cases "ptc_on t")
    case True
    obtain u where u: "screen_ack SCREEN_ACKON (delay_ms w 10 (pin_out SCREEN_485 False t)) = Some u"
      "emits t (ack_events SCREEN_ACKON 500) (pin_out SCREEN_485 True (delay_ms w 500 u))"
      by (rule ack_exchange [OF w(1)])
    define s' where "s' = (delay_ms w 10 (pin_out SCREEN_485 True (delay_ms w 500 u)))\<lparr>System_State := RUNNING\<rparr>"
    have "poweron w s = Some s'" using loop u(1) True by (simp add: poweron_def ptc_bits s'_def Let_def)
    moreover have "emits t (ack_events SCREEN_ACKON 500 @ [Delay 10]) s'"
      using emits_then_delay [OF w(1) u(2), of 10] by (simp add: s'_def emits_def)
    moreover have "System_State s' = RUNNING" by (simp add: s'_def)
    ultimately show ?thesis using t True emits_trans [OF tr]
      by (intro exI [of _ k] exI [of _ s'] exI [of _ t]) simp
  next
    case False
    then have "poweron w s = Some t" using loop by (simp add: poweron_def ptc_bits Let_def)
    then show ?thesis using t tr False by (intro exI [of _ k] exI [of _ t]) simp
  qed
qed

lemma poweroff_runs:
  assumes w: "sole_sender w" "free_mailbox w" and s: "polls s = 0"
  shows "\<exists>k s' t. poweroff w s = Some s' \<and> t = (control_step w APPEND_CODEL_STOP ^^ k) s
    \<and> attempts ptc_off (control_step w APPEND_CODEL_STOP) s k
    \<and> emits s (concat (replicate k (attempt_events 3 (canid_tx s) 100 (control_message APPEND_CODEL_STOP)))
        @ (if ptc_off t then ack_events SCREEN_ACKOFF 10 else [])) s'
    \<and> (if ptc_off t then System_State s' = STANDBY \<and> warning_code s' = ALARM_CODE_NULL
          \<and> fault_code s' = ERROR_CODE_NULL else s' = t)"
proof -
  obtain k t where t: "t = (control_step w APPEND_CODEL_STOP ^^ k) s"
      "attempts ptc_off (control_step w APPEND_CODEL_STOP) s k"
    and loop: "retry ptc_off (control_attempt w APPEND_CODEL_STOP) 0 s = Some t"
    and tr: "emits s (concat (replicate k
      (attempt_events 3 (canid_tx s) 100 (control_message APPEND_CODEL_STOP)))) t"
    by (rule control_loop [OF w s])
  show ?thesis
  proof (cases "ptc_off t")
    case True
    obtain u where u: "screen_ack SCREEN_ACKOFF (delay_ms w 10 (pin_out SCREEN_485 False t)) = Some u"
      "emits t (ack_events SCREEN_ACKOFF 10) (pin_out SCREEN_485 True (delay_ms w 10 u))"
      by (rule ack_exchange [OF w(1)])
    define s' where "s' = (pin_out SCREEN_485 True (delay_ms w 10 u))\<lparr>warning_code := ALARM_CODE_NULL,
        fault_code := ERROR_CODE_NULL, System_State := STANDBY\<rparr>"
    have "poweroff w s = Some s'" using loop u(1) True by (simp add: poweroff_def ptc_bits s'_def Let_def)
    moreover have "emits t (ack_events SCREEN_ACKOFF 10) s'"
      using u(2) by (simp add: s'_def emits_def)
    moreover have "System_State s' = STANDBY \<and> warning_code s' = ALARM_CODE_NULL
          \<and> fault_code s' = ERROR_CODE_NULL" by (simp add: s'_def)
    ultimately show ?thesis using t True emits_trans [OF tr]
      by (intro exI [of _ k] exI [of _ s'] exI [of _ t]) simp
  next
    case False
    then have "poweroff w s = Some t" using loop by (simp add: poweroff_def ptc_bits Let_def)
    then show ?thesis using t tr False by (intro exI [of _ k] exI [of _ t]) simp
  qed
qed

text \<open>The acknowledgements of a configuration.\<close>

definition config_acks :: "nat list \<Rightarrow> event list" where
  "config_acks ns = concat (map (\<lambda>n. [Delay n, UartTx UART_SCREEN (hex_text (ack_frame SCREEN_ACKCONFIG))]) ns)"

lemma config_acks_simps [simp]:
  "config_acks [] = []"
  "config_acks (n # ns) = Delay n # UartTx UART_SCREEN (hex_text (ack_frame SCREEN_ACKCONFIG)) # config_acks ns"
  by (simp_all add: config_acks_def)

lemma ack_config_runs:
  assumes w: "sole_sender w"
  shows "\<exists>t. ack_config w ns s = Some t \<and> emits s (config_acks ns) t"
proof (induction ns arbitrary: s)
  case Nil
  then show ?case by (simp add: emits_trace)
next
  case (Cons n ns)
  let ?e = "UartTx UART_SCREEN (hex_text (ack_frame SCREEN_ACKCONFIG))"
  obtain u where u: "screen_ack SCREEN_ACKCONFIG (delay_ms w n s) = Some u"
    "trace u = trace (delay_ms w n s) @ [?e]"
    by (rule that [OF screen_ack_result]) simp
  have "emits s ([Delay n] @ [?e]) u" by (rule emits_trans [OF emits_delay [OF w] emits_trace [OF u(2)]])
  moreover obtain t where "ack_config w ns u = Some t" "emits u (config_acks ns) t" using Cons.IH by blast
  ultimately show ?case using u(1) emits_trans [of s "[Delay n] @ [?e]" u] by simp
qed

definition config_data :: "SET_PTC_DATA \<Rightarrow> u8 list" where
  "config_data d = [hi8 (s_Bus_v d), lo8 (s_Bus_v d), hi8 (s_INV_fre d), lo8 (s_INV_fre d)]"

abbreviation (input) confirmed :: "csu \<Rightarrow> bool" where
  "confirmed s \<equiv> s_set_statu (SetPTCData s)"

definition unconfirm :: "csu \<Rightarrow> csu" where
  "unconfirm s = s\<lparr>SetPTCData := (SetPTCData s)\<lparr>s_set_statu := False\<rparr>\<rparr>"

lemma unconfirm_simps [simp]:
  "trace (unconfirm s) = trace s" "canid_tx (unconfirm s) = canid_tx s" "polls (unconfirm s) = polls s"
  "\<not> confirmed (unconfirm s)"
  by (simp_all add: unconfirm_def)

abbreviation (input) ack_delays :: "nat list" where
  "ack_delays \<equiv> [10, 12, 14, 16, 18, 20]"

lemma Set_ptcdata_runs:
  assumes w: "sole_sender w" "free_mailbox w" and s: "polls s = 0" and data_def: "data = config_data (SetPTCData s)"
  shows "\<exists>k t s'. Set_ptcdata w s = Some s' \<and> t = (config_step w data ^^ k) (unconfirm s)
    \<and> attempts confirmed (config_step w data) (unconfirm s) k \<and> 1 \<le> k
    \<and> emits s (concat (replicate k (attempt_events 5 (canid_tx s) 10 (config_message data)))
        @ concat (replicate (if confirmed t then 2 else 1) (config_acks ack_delays))) s'"
proof -
  obtain a b c d where data: "data = [a, b, c, d]" by (simp add: data_def config_data_def)
  note step = config_step_total [OF w(1), of a b c d, folded data]
    and events = config_step_events [OF w, of _ a b c d, folded data]
  have u: "polls (unconfirm s) = 0" using s by simp
  obtain k where k: "attempts confirmed (config_step w data) (unconfirm s) k"
    and loop: "retry confirmed (config_attempt w data) 0 (unconfirm s)
      = Some ((config_step w data ^^ k) (unconfirm s))"
    by (rule retry_attempts [OF step(1)])
  define t where "t = (config_step w data ^^ k) (unconfirm s)"
  have "emits (unconfirm s) (concat (replicate k (attempt_events 5 (canid_tx s) 10 (config_message data)))) t"
    using steps_events [of "config_step w data", OF step(2,3) events u, of k] by (simp add: t_def)
  then have tr: "emits s (concat (replicate k (attempt_events 5 (canid_tx s) 10 (config_message data)))) t"
    using emits_cong [of s "unconfirm s" t t] by simp
  have pos: "1 \<le> k"
  proof (cases k)
    case 0
    then show ?thesis using k by (simp add: attempts_def)
  qed simp
  obtain u where u: "(if confirmed t then ack_config w ack_delays t else Some t) = Some u"
      "emits t (if confirmed t then config_acks ack_delays else []) u"
    using ack_config_runs [OF w(1), of ack_delays t] by (cases "confirmed t") (auto simp: emits_trace)
  obtain s' where s': "ack_config w ack_delays u = Some s'" "emits u (config_acks ack_delays) s'"
    using ack_config_runs [OF w(1)] by blast
  have "Set_ptcdata w s = Some s'"
    using loop u(1) s'(1)
    by (simp add: Set_ptcdata_def data_def [symmetric] config_data_def [symmetric] Let_def
        unconfirm_def [symmetric] t_def [symmetric] del: ack_config.simps)
  moreover have "(if confirmed t then config_acks ack_delays else []) @ config_acks ack_delays
      = concat (replicate (if confirmed t then 2 else 1) (config_acks ack_delays))"
    by (simp add: eval_nat_numeral del: config_acks_simps)
  ultimately show ?thesis using k pos emits_trans [OF tr emits_trans [OF u(2) s'(2)]] t_def
    by (intro exI [of _ k] exI [of _ t] exI [of _ s']) (simp del: config_acks_simps)
qed

section \<open>From the screen to the power module\<close>

text \<open>
  While the screen task sleeps nobody takes its message from the queue, writes to its message buffer or
  changes the two set points; others may queue messages behind it.
\<close>

definition config_private :: "world \<Rightarrow> bool" where
  "config_private w \<longleftrightarrow> (\<forall>k s. s_Bus_v (SetPTCData (during w k s)) = s_Bus_v (SetPTCData s)
     \<and> s_INV_fre (SetPTCData (during w k s)) = s_INV_fre (SetPTCData s)
     \<and> (\<exists>q. can_q (during w k s) = can_q s @ q) \<and> txbuf (during w k s) Screen_tx = txbuf s Screen_tx)"

lemma config_private_idle [simp]: "config_private idle_world"
  by (simp add: config_private_def idle_world_def)

lemma config_private_delay:
  "config_private w \<Longrightarrow> config_data (SetPTCData (delay_ms w n s)) = config_data (SetPTCData s)"
  "config_private w \<Longrightarrow> txbuf (delay_ms w n s) Screen_tx = txbuf s Screen_tx"
  by (simp_all add: delay_ms_def config_private_def config_data_def)

lemma config_private_queue:
  assumes "config_private w"
  shows "\<exists>q. can_q (delay_ms w n s) = can_q s @ q"
proof -
  have "\<exists>q. can_q (during w (now s) (emit (Delay n) s)) = can_q (emit (Delay n) s) @ q"
    using assms unfolding config_private_def by blast
  then show ?thesis by (simp add: delay_ms_def)
qed

text \<open>The configuration a message of the screen asks for: two values, low byte first, times ten.\<close>

definition asked_data :: "u8 list \<Rightarrow> u8 list" where
  "asked_data p = (let v = getu16 (p ! 7) (p ! 6) * 10; f = getu16 (p ! 9) (p ! 8) * 10
     in [hi8 v, lo8 v, hi8 f, lo8 f])"

lemma screen_config_pass:
  assumes w: "sole_sender w" and "config_private w" and "can_q s = []" and "10 \<le> length p"
    and "p ! 0 = 0x55" and "p ! 1 = 0x66" and "p ! 4 = SCREEN_CONFIG"
  obtains s1 q where "screen_task w p s = Some s1" and "can_q s1 = Screen_tx # q"
    and "txbuf s1 Screen_tx = MSG_CAN_CONFIG_DATA" and "canid_tx s1 = canid_tx s" and "polls s1 = 0"
    and "emits s [Delay 50, Delay 500, Feed] s1" and "config_data (SetPTCData s1) = asked_data p"
proof -
  let ?v = "getu16 (p ! 7) (p ! 6) * 10" and ?f = "getu16 (p ! 9) (p ! 8) * 10"
  define a where "a = post_can Screen_tx MSG_CAN_CONFIG_DATA
    (s\<lparr>SetPTCData := (SetPTCData s)\<lparr>s_Bus_v := ?v, s_INV_fre := ?f\<rparr>\<rparr>)"
  define b where "b = delay_ms w 50 a"
  have task: "screen_task w p s = Some (pass_end w b)"
    using assms(4-7) by (simp add: screen_task_def screen_command_def a_def b_def)
  have a: "can_q a = [Screen_tx]" "txbuf a Screen_tx = MSG_CAN_CONFIG_DATA" "canid_tx a = canid_tx s"
    "trace a = trace s" "config_data (SetPTCData a) = asked_data p"
    using assms(3) by (simp_all add: a_def post_can_def config_data_def asked_data_def Let_def)
  have "emits s [] a" using a(4) by (simp add: emits_trace)
  from emits_then_delay [OF w emits_then_delay [OF w this, of 50], of 500]
  have "emits s [Delay 50, Delay 500] (delay_ms w 500 b)" by (simp add: b_def)
  from emits_trans [OF this emits_trace [OF emit_simps(1)]]
  have out: "emits s [Delay 50, Delay 500, Feed] (pass_end w b)" by (simp add: pass_end_def)
  obtain q q' where "can_q b = can_q a @ q" "can_q (delay_ms w 500 b) = can_q b @ q'"
    unfolding b_def using config_private_queue [OF assms(2)] by metis
  then have "can_q (pass_end w b) = Screen_tx # q @ q'" by (simp add: pass_end_def a)
  then show thesis
    by (rule that [OF task]) (use w assms(2) a out in \<open>simp_all add: pass_end_def b_def config_private_delay\<close>)
qed

section \<open>Properties\<close>

text \<open>C13: On a CAN controller that has an empty mailbox again after every pause, with the other
  tasks and interrupts free to do anything in the pauses but use the bus, its transmit buffer or its
  identifier, \<open>poweron\<close>, called after a pause as by the CAN task, returns after sending the start command \<open>k\<close> times, where \<open>k\<close> is the number
  of attempts after which the module first reports that it runs, or ten; if it does, the screen gets one
  acknowledgement, with its bus switched to sending and back, and the state is RUNNING; if not, nothing but
  the attempts has happened.\<close>

theorem poweron_outcome:
  assumes "sole_sender w" and "free_mailbox w" and "polls s = 0"
  shows "\<exists>k s' t. poweron w s = Some s' \<and> t = (control_step w APPEND_CODEL_START ^^ k) s
    \<and> attempts ptc_on (control_step w APPEND_CODEL_START) s k
    \<and> emits s (concat (replicate k (attempt_events 3 (canid_tx s) 100 (control_message APPEND_CODEL_START)))
        @ (if ptc_on t then ack_events SCREEN_ACKON 500 @ [Delay 10] else [])) s'
    \<and> (if ptc_on t then System_State s' = RUNNING else s' = t)"
  using assms by (rule poweron_runs)

text \<open>A world whose module reports, while another task drives a lamp, that it runs.\<close>

definition started_world :: world where
  "started_world = idle_world\<lparr>during := \<lambda>_ s.
     pin_out LED_LAM True (s\<lparr>PTCElectData := (PTCElectData s)\<lparr>g_PTC_State := 0x0100\<rparr>\<rparr>)\<rparr>"

theorem poweron_outcome_witness:
  "\<exists>s'. poweron started_world csu_init = Some s' \<and> System_State s' = RUNNING
    \<and> emits csu_init (attempt_events 3 0 100 (control_message APPEND_CODEL_START)
        @ ack_events SCREEN_ACKON 500 @ [Delay 10]) s'"
proof -
  let ?f = "control_step started_world APPEND_CODEL_START"
  have w: "sole_sender started_world" "free_mailbox started_world"
    by (simp_all add: started_world_def sole_sender_def free_mailbox_def mailbox_at_def idle_world_def)
  have init: "polls csu_init = 0" "\<not> ptc_on csu_init" "canid_tx csu_init = 0"
    by (simp_all add: csu_init_def ptc_zero_def)
  have "ptc_on (delay_ms started_world 100 s)" for s
    by (simp add: delay_ms_def started_world_def)
  then have on: "ptc_on (?f s)" for s
    using control_step_total(1) [OF w(1), of APPEND_CODEL_START s]
    by (auto simp: control_attempt_def bind_eq_Some_conv) metis
  obtain k s' where r: "poweron started_world csu_init = Some s'" "attempts ptc_on ?f csu_init k"
    "emits csu_init (concat (replicate k (attempt_events 3 (canid_tx csu_init) 100 (control_message APPEND_CODEL_START)))
        @ (if ptc_on ((?f ^^ k) csu_init) then ack_events SCREEN_ACKON 500 @ [Delay 10] else [])) s'"
    "if ptc_on ((?f ^^ k) csu_init) then System_State s' = RUNNING else s' = (?f ^^ k) csu_init"
    using poweron_outcome [OF w init(1)] by blast
  have "attempts ptc_on ?f csu_init 1" using init(2) on by (simp add: attempts_def)
  then have "k = 1" using attempts_unique r(2) by blast
  then show ?thesis using r on by (simp add: init(3))
qed

text \<open>C14: Under the same conditions \<open>poweroff\<close> sends the stop command at most ten times, until the
  module reports that it has stopped; only then does the screen get its acknowledgement, and only then
  are the warning and fault codes cleared and the state STANDBY.\<close>

theorem poweroff_outcome:
  assumes "sole_sender w" and "free_mailbox w" and "polls s = 0"
  shows "\<exists>k s' t. poweroff w s = Some s' \<and> t = (control_step w APPEND_CODEL_STOP ^^ k) s
    \<and> attempts ptc_off (control_step w APPEND_CODEL_STOP) s k
    \<and> emits s (concat (replicate k (attempt_events 3 (canid_tx s) 100 (control_message APPEND_CODEL_STOP)))
        @ (if ptc_off t then ack_events SCREEN_ACKOFF 10 else [])) s'
    \<and> (if ptc_off t then System_State s' = STANDBY \<and> warning_code s' = ALARM_CODE_NULL
          \<and> fault_code s' = ERROR_CODE_NULL else s' = t)"
  using assms by (rule poweroff_runs)

text \<open>The module has already stopped: no command is sent.\<close>

theorem poweroff_outcome_witness:
  "\<exists>s'. poweroff idle_world (csu_init\<lparr>PTCElectData := ptc_zero\<lparr>g_PTC_State := 0x0200\<rparr>, fault_code := MC1_OPEN\<rparr>) = Some s'
    \<and> System_State s' = STANDBY \<and> fault_code s' = ERROR_CODE_NULL
    \<and> emits csu_init (ack_events SCREEN_ACKOFF 10) s'"
proof -
  let ?s = "csu_init\<lparr>PTCElectData := ptc_zero\<lparr>g_PTC_State := 0x0200\<rparr>, fault_code := MC1_OPEN\<rparr>"
  let ?f = "control_step idle_world APPEND_CODEL_STOP"
  have init: "polls ?s = 0" "ptc_off ?s" "trace csu_init = trace ?s"
    by (simp_all add: csu_init_def)
  obtain k s' where r: "poweroff idle_world ?s = Some s'" "attempts ptc_off ?f ?s k"
    "emits ?s (concat (replicate k (attempt_events 3 (canid_tx ?s) 100 (control_message APPEND_CODEL_STOP)))
        @ (if ptc_off ((?f ^^ k) ?s) then ack_events SCREEN_ACKOFF 10 else [])) s'"
    "if ptc_off ((?f ^^ k) ?s) then System_State s' = STANDBY \<and> warning_code s' = ALARM_CODE_NULL
          \<and> fault_code s' = ERROR_CODE_NULL else s' = (?f ^^ k) ?s"
    using poweroff_outcome [OF sole_sender_idle free_mailbox_idle init(1)] by blast
  have "attempts ptc_off ?f ?s 0" using init(2) by (simp add: attempts_def)
  then have "k = 0" using attempts_unique r(2) by blast
  then show ?thesis using r init(2) emits_cong [OF init(3) refl] by simp
qed

text \<open>C3: A configuration message of the screen, handled by a pass of the screen task and then by a pass of
  the CAN task, reaches the module as the configuration packet with ten times the two values (modulo
  \<open>2 ^ 16\<close>).  The packet is sent \<open>k\<close> times, at least once, where \<open>k\<close> is the first number of attempts
  after which the module has confirmed, the old confirmation having been cleared, or ten if it never
  does.  Then the screen gets twice six acknowledgements of success when the module has confirmed, and six
  when it has not.  The conditions are those of C13 and C14, an empty queue, and that in the pauses
  nobody takes the screen's message or changes the set points.\<close>

theorem config_end_to_end:
  assumes "sole_sender w" and "free_mailbox w" and "config_private w" and "can_q s = []" and "10 \<le> length p"
    and "p ! 0 = 0x55" and "p ! 1 = 0x66" and "p ! 4 = SCREEN_CONFIG"
  shows "\<exists>s1 s2 k u t. screen_task w p s = Some s1 \<and> can_task w (data, s1) = Some (data, s2)
    \<and> u = unconfirm (s1\<lparr>can_q := tl (can_q s1)\<rparr>) \<and> t = (config_step w (asked_data p) ^^ k) u
    \<and> attempts confirmed (config_step w (asked_data p)) u k \<and> 1 \<le> k
    \<and> emits s ([Delay 50, Delay 500, Feed]
        @ concat (replicate k (attempt_events 5 (canid_tx s) 10 (config_message (asked_data p))))
        @ concat (replicate (if confirmed t then 2 else 1) (config_acks ack_delays)) @ [Delay 500, Feed]) s2"
proof -
  obtain s1 q where s1: "screen_task w p s = Some s1" "can_q s1 = Screen_tx # q"
    "txbuf s1 Screen_tx = MSG_CAN_CONFIG_DATA" "canid_tx s1 = canid_tx s" "polls s1 = 0"
    "emits s [Delay 50, Delay 500, Feed] s1" "config_data (SetPTCData s1) = asked_data p"
    using screen_config_pass [OF assms(1,3-8)] by metis
  let ?s = "s1\<lparr>can_q := tl (can_q s1)\<rparr>"
  have s: "polls ?s = 0" "asked_data p = config_data (SetPTCData ?s)" using s1(5,7) by simp_all
  from Set_ptcdata_runs [OF assms(1,2) s] obtain k t v where
    v: "Set_ptcdata w ?s = Some v" "t = (config_step w (asked_data p) ^^ k) (unconfirm ?s)"
      "attempts confirmed (config_step w (asked_data p)) (unconfirm ?s) k" "1 \<le> k"
      "emits ?s (concat (replicate k (attempt_events 5 (canid_tx s) 10 (config_message (asked_data p))))
        @ concat (replicate (if confirmed t then 2 else 1) (config_acks ack_delays))) v"
    by (auto simp: s1(4))
  have task: "can_task w (data, s1) = Some (data, pass_end w v)"
    using v(1) s1(2,3) by (simp add: can_task_def can_command_def)
  have last: "emits v [Delay 500, Feed] (pass_end w v)"
    using emits_trans [OF emits_delay [OF assms(1)] emits_trace [OF emit_simps(1)]]
    by (simp add: pass_end_def)
  have v5: "emits s1 (concat (replicate k (attempt_events 5 (canid_tx s) 10 (config_message (asked_data p))))
      @ concat (replicate (if confirmed t then 2 else 1) (config_acks ack_delays))) v"
    using v(5) emits_cong [of s1 ?s v v] by simp
  have "emits s ([Delay 50, Delay 500, Feed]
      @ concat (replicate k (attempt_events 5 (canid_tx s) 10 (config_message (asked_data p))))
      @ concat (replicate (if confirmed t then 2 else 1) (config_acks ack_delays)) @ [Delay 500, Feed]) (pass_end w v)"
    using emits_trans [OF emits_trans [OF s1(6) v5] last] by (simp only: append_assoc)
  then show ?thesis using s1(1) task v(2-4) by blast
qed

text \<open>A world whose module confirms at the first opportunity.\<close>

definition confirming_world :: world where
  "confirming_world = idle_world\<lparr>during := \<lambda>_ s. s\<lparr>SetPTCData := (SetPTCData s)\<lparr>s_set_statu := True\<rparr>\<rparr>\<rparr>"

theorem config_end_to_end_witness:
  "\<exists>s1 s2. screen_task confirming_world [0x55, 0x66, 0, 0, 0x13, 0, 0x5E, 0x01, 0x2C, 0x01] csu_init = Some s1
    \<and> can_task confirming_world (replicate 6 0, s1) = Some (replicate 6 0, s2)
    \<and> emits csu_init ([Delay 50, Delay 500, Feed]
        @ attempt_events 5 0 10 (config_message [0x0D, 0xAC, 0x0B, 0xB8])
        @ config_acks ack_delays @ config_acks ack_delays @ [Delay 500, Feed]) s2"
proof -
  let ?p = "[0x55, 0x66, 0, 0, 0x13, 0, 0x5E, 0x01, 0x2C, 0x01] :: u8 list"
  let ?d = "[0x0D, 0xAC, 0x0B, 0xB8] :: u8 list"
  let ?f = "config_step confirming_world ?d"
  have d: "asked_data ?p = ?d" by (simp add: asked_data_def getu16_def hi8_def lo8_def Let_def)
  have p: "10 \<le> length ?p" "?p ! 0 = 0x55" "?p ! 1 = 0x66" "?p ! 4 = SCREEN_CONFIG" by simp_all
  have init: "can_q csu_init = []" "canid_tx csu_init = 0" by (simp_all add: csu_init_def)
  have w: "sole_sender confirming_world" "free_mailbox confirming_world" "config_private confirming_world"
    by (simp_all add: confirming_world_def sole_sender_def free_mailbox_def mailbox_at_def config_private_def
        idle_world_def)
  have "confirmed (delay_ms confirming_world 10 s)" for s by (simp add: delay_ms_def confirming_world_def)
  then have c: "confirmed (?f s)" for s
    using config_step_total(1) [OF w(1), of "0x0D" "0xAC" "0x0B" "0xB8" s]
    by (auto simp: config_attempt_def bind_eq_Some_conv) metis
  obtain s1 s2 k u where r: "screen_task confirming_world ?p csu_init = Some s1"
    "can_task confirming_world (replicate 6 0, s1) = Some (replicate 6 0, s2)"
    "u = unconfirm (s1\<lparr>can_q := tl (can_q s1)\<rparr>)" "attempts confirmed ?f u k"
    "emits csu_init ([Delay 50, Delay 500, Feed] @ concat (replicate k (attempt_events 5 0 10 (config_message ?d)))
        @ concat (replicate (if confirmed ((?f ^^ k) u) then 2 else 1) (config_acks ack_delays)) @ [Delay 500, Feed]) s2"
    using config_end_to_end [OF w init(1) p, of "replicate 6 0", unfolded d init(2)] by blast
  have "attempts confirmed ?f u 1" using c r(3) by (simp add: attempts_def)
  then have "k = 1" using attempts_unique r(4) by blast
  then show ?thesis using r(1,2,5) c
    by (auto simp: numeral_2_eq_2 simp del: config_acks_simps)
qed

end
