(* ===== verification/Tasks.thy ===== *)
theory Tasks
  imports Control
begin

text \<open>
  The task system of USER/main.c as a whole: the states the tasks, the timer callbacks and the
  CAN receive interrupt reach from power-up, the invariant that ties the message queue, the
  senders' buffers and the transmit buffer together, and that no pass of a task fails in a
  reachable state.
\<close>

section \<open>The invariant\<close>

text \<open>The messages each sender puts into its buffer; 0 is what the buffer holds before the first.\<close>

primrec sender_msgs :: "sender \<Rightarrow> u8 set" where
  "sender_msgs Screen_tx = {0, MSG_CAN_POWERON, MSG_CAN_CONFIG_DATA}"
| "sender_msgs Scan_tx = {0, MSG_CAN_POWERON, MSG_CAN_POWEROFF}"
| "sender_msgs Tmr1_tx = {0, MSG_CAN_CONFIG_SEARCH_DATA}"
| "sender_msgs Tmr2_tx = {0, MSG_CAN_CONFIG_SEARCH_STATE}"

definition task_inv :: "csu \<Rightarrow> bool" where
  "task_inv s \<longleftrightarrow> length (can2_tbuf s) = 50 \<and> length (can_q s) \<le> TASK_CAN_NUM
     \<and> (\<forall>x. txbuf s x \<in> sender_msgs x)"

text \<open>What interrupts and other tasks do during a delay keeps the invariant.\<close>

definition benign :: "world \<Rightarrow> bool" where
  "benign w \<longleftrightarrow> (\<forall>k s. task_inv s \<longrightarrow> task_inv (during w k s))"

lemma benign_idle [simp]: "benign idle_world"
  by (simp add: benign_def idle_world_def)

lemma task_inv_cong:
  "can2_tbuf t = can2_tbuf s \<Longrightarrow> can_q t = can_q s \<Longrightarrow> txbuf t = txbuf s \<Longrightarrow> task_inv t = task_inv s"
  by (simp add: task_inv_def)

lemma task_inv_emit [simp]: "task_inv (emit e s) = task_inv s"
  by (rule task_inv_cong) simp_all

lemma task_inv_pin_out [simp]: "task_inv (pin_out p v s) = task_inv s"
  by (rule task_inv_cong) simp_all

lemma task_inv_fields [simp]:
  "task_inv (s\<lparr>polls := n\<rparr>) = task_inv s" "task_inv (s\<lparr>reads := n\<rparr>) = task_inv s"
  "task_inv (s\<lparr>now := n\<rparr>) = task_inv s" "task_inv (s\<lparr>statio := b\<rparr>) = task_inv s"
  "task_inv (s\<lparr>System_State := st\<rparr>) = task_inv s" "task_inv (s\<lparr>SYSTEM_POWER := sp\<rparr>) = task_inv s"
  "task_inv (s\<lparr>warning_code := wc\<rparr>) = task_inv s" "task_inv (s\<lparr>fault_code := fc\<rparr>) = task_inv s"
  "task_inv (s\<lparr>SetPTCData := d\<rparr>) = task_inv s" "task_inv (s\<lparr>PTCElectData := e\<rparr>) = task_inv s"
  "task_inv (s\<lparr>revframe_num := f1\<rparr>) = task_inv s" "task_inv (s\<lparr>crcdata := f2\<rparr>) = task_inv s"
  "task_inv (s\<lparr>revdata_len := f3\<rparr>) = task_inv s" "task_inv (s\<lparr>flag_canrev := f4\<rparr>) = task_inv s"
  "task_inv (s\<lparr>revframe_pos := f5\<rparr>) = task_inv s" "task_inv (s\<lparr>can_temp := f6\<rparr>) = task_inv s"
  "task_inv (s\<lparr>mcgs_buf := b1\<rparr>) = task_inv s" "task_inv (s\<lparr>sendbuff := b2\<rparr>) = task_inv s"
  by (simp_all add: task_inv_def)

lemma task_inv_delay [simp]: "benign w \<Longrightarrow> task_inv s \<Longrightarrow> task_inv (delay_ms w n s)"
  by (simp add: delay_ms_def benign_def)

lemma task_inv_post [simp]: "task_inv s \<Longrightarrow> m \<in> sender_msgs x \<Longrightarrow> task_inv (post_can x m s)"
  by (auto simp: task_inv_def post_can_def Let_def)

lemma task_inv_pass_end [simp]: "benign w \<Longrightarrow> task_inv s \<Longrightarrow> task_inv (pass_end w s)"
  by (simp add: pass_end_def)

section \<open>Scanning keeps the invariant\<close>

lemma task_inv_put_bit [simp]: "task_inv (put_bit k v s) = task_inv s"
  by (simp add: put_bit_def)

lemma task_inv_scan_slow [simp]: "benign w \<Longrightarrow> task_inv s \<Longrightarrow> task_inv (scan_slow w p k a s)"
  by (simp add: scan_slow_def read_pin_def Let_def)

lemma task_inv_scan_contact [simp]: "benign w \<Longrightarrow> task_inv s \<Longrightarrow> task_inv (scan_contact w ms p k f s)"
  by (simp add: scan_contact_def read_pin_def Let_def)

lemma task_inv_sample [simp]: "benign w \<Longrightarrow> task_inv s \<Longrightarrow> task_inv (sample w s)"
  by (simp add: sample_def read_buttons_def read_temperatures_def read_controls_def read_contacts_def Let_def)

lemma task_inv_warn [simp]: "task_inv (warn_if c a s) = task_inv s"
  by (simp add: warn_if_def)

lemma task_inv_fault [simp]: "task_inv (fault_if c a st s) = task_inv s"
  by (simp add: fault_if_def)

lemma task_inv_evals [simp]:
  "task_inv (eval_faults s) = task_inv s" "task_inv (eval_power s) = task_inv s"
  "task_inv (eval_emergency s) = task_inv s"
  by (simp_all add: eval_faults_def eval_power_def eval_emergency_def Let_def)

lemma task_inv_eval_warnings [simp]: "task_inv (eval_warnings s) = task_inv s"
  unfolding eval_warnings_def Let_def if_distrib [of task_inv] task_inv_fields task_inv_warn by simp

lemma task_inv_read_io [simp]: "benign w \<Longrightarrow> task_inv s \<Longrightarrow> task_inv (read_io w s)"
  by (simp add: read_io_def Let_def)

lemma task_inv_scan_task [simp]: "benign w \<Longrightarrow> task_inv s \<Longrightarrow> task_inv (scan_task w s)"
  by (simp add: scan_task_def Let_def)

lemma task_inv_handle_task [simp]: "benign w \<Longrightarrow> task_inv s \<Longrightarrow> task_inv (handle_task w s)"
  by (simp add: handle_task_def handle_led_def handle_alarm_def handle_fault_def
      split: SYSTEM_STATE.split ALARM_CODE.split ERROR_CODE.split)

lemma task_inv_timers [simp]:
  "task_inv s \<Longrightarrow> task_inv (tmr1_callback s)"
  "task_inv s \<Longrightarrow> task_inv (tmr2_callback s)"
  by (simp_all add: tmr1_callback_def tmr2_callback_def)

section \<open>Sending keeps the invariant and never fails\<close>

lemma multi_loop_total:
  assumes w: "benign w"
  shows "unat i + k = n \<Longrightarrow> n \<le> 5 \<Longrightarrow> task_inv s \<Longrightarrow>
    \<exists>s'. multi_loop w exid (8 * n) i s = Some s' \<and> task_inv s'"
proof (induction k arbitrary: i s)
  case 0
  then have "\<not> 0 < int (8 * n) - 8 * uint i" using uint_nat [of i] by simp
  with 0 show ?case by (subst multi_loop.simps) simp
next
  case (Suc k)
  let ?f = "take 8 (drop (8 * unat i) (can2_tbuf s))"
  have cond: "0 < int (8 * n) - 8 * uint i" using Suc.prems(1) uint_nat [of i] by linarith
  have "8 * unat i + 8 \<le> length (can2_tbuf s)" using Suc.prems by (simp add: task_inv_def)
  then have pk: "peek (can2_tbuf s) (unat i * 8) 8 = Some ?f" and len: "length ?f = 8"
    by (auto simp: peek_def mult.commute)
  obtain r u where snd: "CAN1Send_Msg w ?f 8 exid s = Some (r, u)" "task_inv u"
    using CAN1Send_Msg_result [OF len, of w exid s] Suc.prems(3) by (auto split: if_splits)
  have step: "multi_loop w exid (8 * n) i s = multi_loop w exid (8 * n) (i + 1) (delay_ms w 20 u)"
    by (subst multi_loop.simps) (use cond in \<open>simp add: pk snd(1)\<close>)
  have "unat (i + 1) + k = n" using Suc.prems by (subst unat_succ8) simp_all
  from Suc.IH [OF this Suc.prems(2), of "delay_ms w 20 u"] step snd(2) w show ?case by simp
qed

text \<open>The packets the tasks build: six data bytes, the four of a configuration, or no data.\<close>

definition packet_ok :: "u8 \<Rightarrow> u8 \<Rightarrow> u8 \<Rightarrow> u8 list option \<Rightarrow> bool" where
  "packet_ok order ac len data \<longleftrightarrow> (\<exists>n b. can2_data_packet order ac len data = Some (n, b)
     \<and> n \<in> {2, 3, 4, 5} \<and> length b = 50)"

lemma packet_ok_six: "6 \<le> length xs \<Longrightarrow> packet_ok order ac len (Some xs)"
proof -
  let ?n = "PreProcess_CanOrder order"
  assume xs: "6 \<le> length xs"
  have n: "?n \<in> {2, 3, 4, 5}" by (simp add: PreProcess_CanOrder_cases)
  let ?m = "packet_message order ac len xs (unat ?n)"
  have "length ?m = 7 * unat ?n" by (rule packet_message_length [OF xs PreProcess_CanOrder_unat])
  then have "length (concat (segments (unat ?n) ?m) @ replicate (50 - 8 * unat ?n) 0) = 50"
    using n segments_concat_length [of ?m "unat ?n"] by auto
  then show ?thesis using packet_refines [OF xs refl, of order ac len] n by (auto simp: packet_ok_def)
qed

lemma packet_ok_config: "packet_ok FUNC_CONFIG 0 21 (Some [a, b, c, d])"
  by (simp add: packet_ok_def config_packet segments_concat_length)

lemma packet_ok_null: "PreProcess_CanOrder order = 2 \<Longrightarrow> packet_ok order ac len None"
proof -
  assume n: "PreProcess_CanOrder order = 2"
  then have "can2_data_packet order ac len None = can2_data_packet order ac len (Some (replicate 6 0))"
    by (simp add: can2_data_packet_def packet_2_def)
  then show ?thesis using packet_ok_six [of "replicate 6 0" order ac len] by (simp add: packet_ok_def)
qed

lemma send_order_total:
  assumes "benign w" and "task_inv s" and "packet_ok order ac len data"
  shows "\<exists>s'. send_order w order ac len data s = Some s' \<and> task_inv s'"
proof -
  obtain n b where p: "can2_data_packet order ac len data = Some (n, b)" "n \<in> {2, 3, 4, 5}" "length b = 50"
    using assms(3) by (auto simp: packet_ok_def)
  have "unat (0 :: u8) + unat n = unat n" "unat n \<le> 5" using p(2) by auto
  moreover have "task_inv (s\<lparr>can2_tbuf := b\<rparr>)" using assms(2) p(3) by (simp add: task_inv_def)
  ultimately obtain s' where "multi_loop w (canid_tx s) (8 * unat n) 0 (s\<lparr>can2_tbuf := b\<rparr>) = Some s'" "task_inv s'"
    using multi_loop_total [OF assms(1)] by blast
  moreover have "unat (ucast n * 8 :: u16) = 8 * unat n" using p(2) by auto
  ultimately show ?thesis by (simp add: send_order_def p(1) Can2Send_MultiMessages_def)
qed

text \<open>An operation is safe when it succeeds and keeps the invariant.\<close>

definition safe :: "(csu \<Rightarrow> csu option) \<Rightarrow> bool" where
  "safe f \<longleftrightarrow> (\<forall>s. task_inv s \<longrightarrow> (\<exists>s'. f s = Some s' \<and> task_inv s'))"

lemma safeD: "safe f \<Longrightarrow> task_inv s \<Longrightarrow> \<exists>s'. f s = Some s' \<and> task_inv s'"
  by (simp add: safe_def)

lemma safe_retry: "safe attempt \<Longrightarrow> safe (retry fin attempt i)"
  using retry_total [of task_inv attempt] by (simp add: safe_def)

lemma safe_order: "benign w \<Longrightarrow> packet_ok order ac len data \<Longrightarrow> safe (send_order w order ac len data)"
  using send_order_total by (simp add: safe_def)

lemma safe_ack: "safe (screen_ack order)"
  by (simp add: safe_def screen_ack_result)

lemma task_inv_with_power [simp]: "task_inv (with_power s) = task_inv s"
  by (simp add: with_power_def)

lemma safe_datasend: "safe (screen_datasend order)"
  by (simp add: safe_def screen_datasend_result follow_module_eq latch_module_fault_eq)

lemma safe_uart: "safe (uart_send_dma port test_buf 10)"
  by (simp add: safe_def uart_send_dma_def test_buf_def peek_def)

lemma safe_control: "benign w \<Longrightarrow> safe (control_attempt w ac)"
  using safeD [OF safe_order [OF _ packet_ok_six [of "[0, 0, 0x12, 0xd0, 0, 0]" FUNC_RCONTROL ac 6]], of w]
  by (fastforce simp: safe_def control_attempt_def)

lemma safe_config: "benign w \<Longrightarrow> safe (config_attempt w [a, b, c, d])"
  using safeD [OF safe_order [OF _ packet_ok_config [of a b c d]], of w]
  by (fastforce simp: safe_def config_attempt_def)

lemma safe_power: "benign w \<Longrightarrow> safe (poweron w)" "benign w \<Longrightarrow> safe (poweroff w)"
  "benign w \<Longrightarrow> safe (waring_poweroff w)"
proof -
  assume w: "benign w"
  note loop = safeD [OF safe_retry [OF safe_control [OF w]]]
  show "safe (poweron w)" unfolding safe_def
  proof (intro allI impI)
    fix s assume "task_inv s"
    from loop [OF this] obtain t where t: "task_inv t"
      "retry ptc_on (control_attempt w APPEND_CODEL_START) 0 s = Some t" by blast
    then show "\<exists>s'. poweron w s = Some s' \<and> task_inv s'"
      using w by (simp add: poweron_def ptc_bits screen_ack_result Let_def)
  qed
  show "safe (poweroff w)" unfolding safe_def
  proof (intro allI impI)
    fix s assume "task_inv s"
    from loop [OF this] obtain t where t: "task_inv t"
      "retry ptc_off (control_attempt w APPEND_CODEL_STOP) 0 s = Some t" by blast
    then show "\<exists>s'. poweroff w s = Some s' \<and> task_inv s'"
      using w by (simp add: poweroff_def ptc_bits screen_ack_result Let_def)
  qed
  show "safe (waring_poweroff w)"
    using loop by (simp add: safe_def waring_poweroff_def)
qed

lemma safe_ack_config: "benign w \<Longrightarrow> safe (ack_config w ns)"
proof (induction ns)
  case (Cons n ns)
  then show ?case by (simp add: safe_def screen_ack_result)
qed (simp add: safe_def)

lemma safe_Set_ptcdata: "benign w \<Longrightarrow> safe (Set_ptcdata w)"
  unfolding safe_def
proof (intro allI impI)
  fix s assume w: "benign w" and s: "task_inv s"
  let ?d = "SetPTCData s"
  have "task_inv (s\<lparr>SetPTCData := ?d\<lparr>s_set_statu := False\<rparr>\<rparr>)" using s by simp
  from safeD [OF safe_retry [OF safe_config [OF w]] this]
  obtain t where t: "task_inv t" "retry confirmed (config_attempt w [hi8 (s_Bus_v ?d), lo8 (s_Bus_v ?d),
      hi8 (s_INV_fre ?d), lo8 (s_INV_fre ?d)]) 0 (s\<lparr>SetPTCData := ?d\<lparr>s_set_statu := False\<rparr>\<rparr>) = Some t" by blast
  obtain u where u: "ack_config w ack_delays t = Some u" "task_inv u"
    using safeD [OF safe_ack_config [OF w] t(1)] by blast
  have "\<exists>v. ack_config w ack_delays u = Some v \<and> task_inv v" "\<exists>v. ack_config w ack_delays t = Some v \<and> task_inv v"
    using safeD [OF safe_ack_config [OF w]] t(1) u(2) by blast+
  then show "\<exists>s'. Set_ptcdata w s = Some s' \<and> task_inv s'"
    using t u by (simp add: Set_ptcdata_def Let_def del: ack_config.simps)
qed

section \<open>The tasks\<close>

lemma safe_uart_test: "benign w \<Longrightarrow> safe (uart_test w dir port)"
  unfolding safe_def
proof (intro allI impI)
  fix s assume w: "benign w" and "task_inv s"
  then have "task_inv (delay_ms w 10 (pin_out dir False s))" by simp
  from safeD [OF safe_uart this, of port] w show "\<exists>s'. uart_test w dir port s = Some s' \<and> task_inv s'"
    by (auto simp: uart_test_def Let_def)
qed

lemma safe_screen_command: "benign w \<Longrightarrow> safe (screen_command w p)"
  unfolding safe_def
proof (intro allI impI)
  fix s assume w: "benign w" and s: "task_inv s"
  have off: "\<exists>s'. poweroff w (s\<lparr>SYSTEM_POWER := POWER_OFF\<rparr>) = Some s' \<and> task_inv s'"
    using safeD [OF safe_power(2) [OF w]] s by simp
  have seek: "\<exists>s'. screen_datasend SCREEN_ACKDATA (delay_ms w 10 (pin_out SCREEN_485 False s)) = Some s' \<and> task_inv s'"
    using safeD [OF safe_datasend] s w by simp
  have test: "\<exists>s'. uart_test w dir port s = Some s' \<and> task_inv s'" for dir port
    using safeD [OF safe_uart_test [OF w] s] .
  show "\<exists>s'. screen_command w p s = Some s' \<and> task_inv s'"
    unfolding screen_command_def using off seek test s w
    by (auto simp: screen_ack_result Let_def)
qed

lemma safe_screen_task: "benign w \<Longrightarrow> 10 \<le> length p \<Longrightarrow> safe (screen_task w p)"
  using safeD [OF safe_screen_command] by (fastforce simp: safe_def screen_task_def)

definition can_inv :: "u8 list \<times> csu \<Rightarrow> bool" where
  "can_inv x \<longleftrightarrow> length (fst x) = 6 \<and> task_inv (snd x)"

lemma status_bytes_length [simp]: "length (status_bytes s data) = length data"
  by (simp add: status_bytes_def split: SYSTEM_STATE.split)

lemma can_command_total:
  assumes w: "benign w" and x: "can_inv (data, s)" and m: "m \<noteq> MSG_CAN_CONFIG_NUM"
  shows "\<exists>y. can_command w m (data, s) = Some y \<and> can_inv y"
proof -
  have s: "task_inv s" and d: "length data = 6" using x by (simp_all add: can_inv_def)
  have null: "\<exists>s'. send_order w order 0 0 None s = Some s' \<and> task_inv s'" if "PreProcess_CanOrder order = 2" for order
    using safeD [OF safe_order [OF w packet_ok_null [OF that]] s] .
  have link: "\<exists>s'. send_order w FUNC_LINK 0 0 None s = Some s' \<and> task_inv s'"
    "\<exists>s'. send_order w FUNC_SEEK 0 0 None s = Some s' \<and> task_inv s'"
    by (rule null; simp add: PreProcess_CanOrder_cases)+
  have stat: "\<exists>s'. send_order w FUNC_SEEKSTAT 0 14 (Some (status_bytes s data)) s = Some s' \<and> task_inv s'"
    using safeD [OF safe_order [OF w packet_ok_six] s] d by simp
  have data: "\<exists>s'. screen_datasend SCREEN_ACKDATA s = Some s' \<and> task_inv s'" using safeD [OF safe_datasend s] .
  have pow: "\<exists>s'. poweron w s = Some s' \<and> task_inv s'" "\<exists>s'. poweroff w s = Some s' \<and> task_inv s'"
    "\<exists>s'. Set_ptcdata w s = Some s' \<and> task_inv s'"
    using safeD [OF safe_power(1) [OF w] s] safeD [OF safe_power(2) [OF w] s]
      safeD [OF safe_Set_ptcdata [OF w] s] by blast+
  show ?thesis
    unfolding can_command_def using link stat data pow m d s by (auto simp: can_inv_def Let_def)
qed

lemma sender_msgs_no_num: "m \<in> sender_msgs x \<Longrightarrow> m \<noteq> MSG_CAN_CONFIG_NUM"
  by (cases x) auto

lemma can_task_total:
  assumes w: "benign w" and x: "can_inv x"
  shows "\<exists>y. can_task w x = Some y \<and> can_inv y"
proof -
  obtain data s where ds: "x = (data, s)" by force
  show ?thesis
  proof (cases "can_q s")
    case Nil
    then show ?thesis using x by (simp add: can_task_def ds)
  next
    case (Cons p q)
    have "can_inv (data, s\<lparr>can_q := q\<rparr>)" and "txbuf s p \<in> sender_msgs p"
      using x Cons by (simp_all add: can_inv_def task_inv_def ds)
    from can_command_total [OF w this(1) sender_msgs_no_num [OF this(2)]] show ?thesis
      using w Cons by (auto simp: can_task_def can_inv_def ds)
  qed
qed

lemma link_loop_total: "benign w \<Longrightarrow> safe (link_loop w n)"
proof (induction n)
  case (Suc n)
  have "packet_ok FUNC_LINK 0 0 None" by (rule packet_ok_null) (simp add: PreProcess_CanOrder_cases)
  from safeD [OF safe_order [OF Suc.prems this]] Suc show ?case
    by (fastforce simp: safe_def)
qed (simp add: safe_def)

lemma sys_link_total: "benign w \<Longrightarrow> \<exists>s. sys_link w csu_init = Some s \<and> task_inv s"
proof -
  assume w: "benign w"
  have "task_inv (canid_init csu_init)"
    by (auto simp: task_inv_def canid_init_def csu_init_def) (case_tac x; simp)
  then show ?thesis using safeD [OF link_loop_total [OF w]] w by (simp add: sys_link_def)
qed

lemma store_frame_inv: "store_frame off msg s = Some t \<Longrightarrow> task_inv t = task_inv s"
  by (auto simp: store_frame_def)

lemma Candata_analysis_inv [simp]: "task_inv (Candata_analysis data s) = task_inv s"
  by (simp add: Candata_analysis_def)

lemma close_message_inv: "close_message msg s = Some t \<Longrightarrow> task_inv t = task_inv s"
  by (auto simp: close_message_def Let_def bind_eq_Some_conv dest!: store_frame_inv split: if_splits)

lemma Can_ReadData_inv: "Can_ReadData msg s = Some t \<Longrightarrow> task_inv t = task_inv s"
  by (auto simp: Can_ReadData_def Let_def bind_eq_Some_conv dest!: store_frame_inv close_message_inv
      split: if_splits)

lemma rx_keeps_inv: "CAN1_RX0_IRQHandler stack mb s = Some t \<Longrightarrow> task_inv t = task_inv s"
  by (auto simp: CAN1_RX0_IRQHandler_def Let_def dest!: Can_ReadData_inv split: if_splits)

section \<open>Reachable states\<close>

inductive reach :: "world \<Rightarrow> u8 list \<times> csu \<Rightarrow> bool" for w :: world where
  boot: "sys_link w csu_init = Some s \<Longrightarrow> reach w (replicate 6 0, s)"
| screen: "reach w (d, s) \<Longrightarrow> length p = 20 \<Longrightarrow> screen_task w p s = Some s' \<Longrightarrow> reach w (d, s')"
| can: "reach w x \<Longrightarrow> can_task w x = Some y \<Longrightarrow> reach w y"
| scan: "reach w (d, s) \<Longrightarrow> reach w (d, scan_task w s)"
| handle: "reach w (d, s) \<Longrightarrow> reach w (d, handle_task w s)"
| tmr1: "reach w (d, s) \<Longrightarrow> reach w (d, tmr1_callback s)"
| tmr2: "reach w (d, s) \<Longrightarrow> reach w (d, tmr2_callback s)"
| rx: "reach w (d, s) \<Longrightarrow> CAN1_RX0_IRQHandler stack mb s = Some s' \<Longrightarrow> reach w (d, s')"

lemma reach_inv: "reach w x \<Longrightarrow> benign w \<Longrightarrow> can_inv x"
proof (induction rule: reach.induct)
  case (boot s)
  then show ?case using sys_link_total [of w] by (simp add: can_inv_def)
next
  case (screen d s p s')
  then show ?case using safeD [OF safe_screen_task [of w p], of s] by (simp add: can_inv_def)
next
  case (can x y)
  then show ?case using can_task_total [of w x] by simp
qed (simp_all add: can_inv_def rx_keeps_inv)

text \<open>The commands the CAN task will see if it runs now, oldest first.\<close>

definition pending_commands :: "csu \<Rightarrow> u8 list" where
  "pending_commands s = map (txbuf s) (can_q s)"

section \<open>Properties\<close>

text \<open>C4: In every state the tasks, timers and the receive interrupt reach from power-up, every pass
  of the screen task (whatever the screen sent) and of the CAN task returns: no buffer is overrun
  and the null pointer of the unit-number order is never read, because no sender posts it; the
  queue of the CAN task never holds more than ten messages.\<close>

theorem tasks_never_fail:
  assumes "benign w" and "reach w (d, s)" and "length p = 20"
  shows "screen_task w p s \<noteq> None \<and> can_task w (d, s) \<noteq> None \<and> length (can_q s) \<le> 10
    \<and> MSG_CAN_CONFIG_NUM \<notin> set (pending_commands s)"
proof -
  have inv: "can_inv (d, s)" by (rule reach_inv [OF assms(2,1)])
  then have s: "task_inv s" by (simp add: can_inv_def)
  have "10 \<le> length p" using assms(3) by simp
  then have "screen_task w p s \<noteq> None" using safeD [OF safe_screen_task [OF assms(1)] s] by auto
  moreover have "can_task w (d, s) \<noteq> None" using can_task_total [OF assms(1) inv] by auto
  moreover have "MSG_CAN_CONFIG_NUM \<notin> set (pending_commands s)"
    using s sender_msgs_no_num by (fastforce simp: task_inv_def pending_commands_def)
  ultimately show ?thesis using s by (simp add: task_inv_def)
qed

theorem tasks_never_fail_witness:
  "\<exists>s. reach idle_world (replicate 6 0, tmr1_callback s)
    \<and> can_task idle_world (replicate 6 0, tmr1_callback s) \<noteq> None"
proof -
  obtain s where "sys_link idle_world csu_init = Some s" using sys_link_total [OF benign_idle] by blast
  then have r: "reach idle_world (replicate 6 0, tmr1_callback s)" by (intro reach.tmr1 reach.boot)
  have "length (replicate 20 (0 :: u8)) = 20" by simp
  from tasks_never_fail [OF benign_idle r this] r show ?thesis by blast
qed

text \<open>A sender posts a pointer to its one buffer: if it posts a second command before the CAN task
  has taken the first, the CAN task sees the second command twice and the first one never, and
  every older message of that sender changes as well; with the queue full the second post still
  rewrites all of them.\<close>

lemma posts_overwrite:
  "pending_commands (post_can x m2 (post_can x m1 s)) =
     map (\<lambda>y. if y = x then m2 else txbuf s y) (can_q s)
     @ replicate (min 2 (10 - length (can_q s))) m2"
proof -
  consider "length (can_q s) \<le> 8" | "length (can_q s) = 9" | "10 \<le> length (can_q s)" by linarith
  then show ?thesis
    by cases (auto simp: pending_commands_def post_can_def Let_def eval_nat_numeral)
qed

end
