(* ===== verification/Dll.thy ===== *)
theory Dll
  imports Main
begin

text \<open>
  Doubly linked lists: which addresses form a list is a predicate on the two functions that
  give the next and the previous address of every node.
\<close>

type_synonym ptr = "nat option"

primrec first_ptr :: "nat list \<Rightarrow> ptr \<Rightarrow> ptr" where
  "first_ptr [] n = n"
| "first_ptr (x # xs) n = Some x"

definition last_ptr :: "ptr \<Rightarrow> nat list \<Rightarrow> ptr" where
  "last_ptr p xs = (if xs = [] then p else Some (last xs))"

lemma last_ptr_simps [simp]:
  "last_ptr p [] = p" "last_ptr p (x # xs) = last_ptr (Some x) xs"
  "last_ptr p (xs @ ys) = last_ptr (last_ptr p xs) ys"
  by (simp_all add: last_ptr_def)

lemma first_ptr_append [simp]: "first_ptr (xs @ ys) n = first_ptr xs (first_ptr ys n)"
  by (cases xs) simp_all

lemma first_ptr_None [simp]: "first_ptr xs None = None \<longleftrightarrow> xs = []"
  by (cases xs) simp_all

lemma last_ptr_None [simp]: "last_ptr None xs = None \<longleftrightarrow> xs = []"
  by (simp add: last_ptr_def)

lemma first_ptr_in: "first_ptr xs None = Some y \<Longrightarrow> y \<in> set xs"
  by (cases xs) simp_all

lemma last_ptr_in: "last_ptr None xs = Some y \<Longrightarrow> y \<in> set xs"
  by (simp add: last_ptr_def split: if_splits) auto

text \<open>The nodes \<open>xs\<close> are linked both ways, the first one back to \<open>p\<close>, the last one on to \<open>n\<close>.\<close>

primrec seg :: "(nat \<Rightarrow> ptr) \<Rightarrow> (nat \<Rightarrow> ptr) \<Rightarrow> ptr \<Rightarrow> nat list \<Rightarrow> ptr \<Rightarrow> bool" where
  "seg nx pv p [] n \<longleftrightarrow> True"
| "seg nx pv p (x # xs) n \<longleftrightarrow> pv x = p \<and> nx x = first_ptr xs n \<and> seg nx pv (Some x) xs n"

lemma seg_append [simp]:
  "seg nx pv p (xs @ ys) n \<longleftrightarrow> seg nx pv p xs (first_ptr ys n) \<and> seg nx pv (last_ptr p xs) ys n"
  by (induction xs arbitrary: p) auto

lemma seg_cong:
  "(\<And>x. x \<in> set xs \<Longrightarrow> nx' x = nx x) \<Longrightarrow> (\<And>x. x \<in> set xs \<Longrightarrow> pv' x = pv x) \<Longrightarrow>
    seg nx' pv' p xs n = seg nx pv p xs n"
  by (induction xs arbitrary: p) auto

lemma seg_neighbours:
  assumes "seg nx pv p xs n" and "x \<in> set xs" and "distinct xs"
  obtains ys zs where "xs = ys @ x # zs" "x \<notin> set ys" "x \<notin> set zs" "pv x = last_ptr p ys" "nx x = first_ptr zs n"
proof -
  from assms(2) obtain ys zs where "xs = ys @ x # zs" by (meson split_list)
  then show ?thesis using assms that by auto
qed

text \<open>Taking a node out, putting one in front or at the end, and moving the first one to the end.\<close>

lemma seg_remove:
  assumes "seg nx pv p (ys @ x # zs) n" and "distinct (ys @ x # zs)"
    and "\<And>y. y \<in> set ys \<Longrightarrow> pv' y = pv y" and "\<And>z. z \<in> set zs \<Longrightarrow> nx' z = nx z"
    and "\<And>y. y \<in> set ys \<Longrightarrow> last_ptr None ys \<noteq> Some y \<Longrightarrow> nx' y = nx y"
    and "\<And>y. last_ptr None ys = Some y \<Longrightarrow> nx' y = first_ptr zs n"
    and "\<And>z. z \<in> set zs \<Longrightarrow> first_ptr zs None \<noteq> Some z \<Longrightarrow> pv' z = pv z"
    and "\<And>z. first_ptr zs None = Some z \<Longrightarrow> pv' z = last_ptr p ys"
  shows "seg nx' pv' p (ys @ zs) n"
proof -
  have "seg nx' pv' p ys (first_ptr zs n)"
  proof (cases ys rule: rev_cases)
    case (snoc us u)
    have "seg nx' pv' p us (Some u) = seg nx pv p us (Some u)"
      by (rule seg_cong) (use assms snoc in auto)
    then show ?thesis using assms snoc by auto
  qed simp
  moreover have "seg nx' pv' (last_ptr p ys) zs n"
  proof (cases zs)
    case (Cons v vs)
    have "pv' z = pv z" if "z \<in> set vs" for z
    proof -
      have "z \<noteq> v" using that assms(2) Cons by auto
      then show ?thesis using that assms(7) Cons by simp
    qed
    then have "seg nx' pv' (Some v) vs n = seg nx pv (Some v) vs n"
      by (intro seg_cong) (use assms(4) Cons in auto)
    then show ?thesis using assms Cons by auto
  qed simp
  ultimately show ?thesis by simp
qed

lemma seg_push:
  assumes "seg nx pv None (x # xs) n" and "p \<notin> set (x # xs)" and "distinct (x # xs)"
    and "nx' p = Some x" and "pv' p = q" and "pv' x = Some p" and "nx' x = nx x"
    and "\<And>y. y \<in> set xs \<Longrightarrow> nx' y = nx y" and "\<And>y. y \<in> set xs \<Longrightarrow> pv' y = pv y"
  shows "seg nx' pv' q (p # x # xs) n"
proof -
  have "seg nx' pv' (Some x) xs n = seg nx pv (Some x) xs n"
    by (rule seg_cong) (use assms in auto)
  then show ?thesis using assms by auto
qed

lemma seg_snoc:
  assumes "seg nx pv q (xs @ [x]) None" and "p \<notin> set (xs @ [x])" and "distinct (xs @ [x])"
    and "nx' p = n" and "pv' p = Some x" and "nx' x = Some p" and "pv' x = pv x"
    and "\<And>y. y \<in> set xs \<Longrightarrow> nx' y = nx y" and "\<And>y. y \<in> set xs \<Longrightarrow> pv' y = pv y"
  shows "seg nx' pv' q (xs @ [x, p]) n"
proof -
  have "seg nx' pv' q xs (Some x) = seg nx pv q xs (Some x)"
    by (rule seg_cong) (use assms in auto)
  then show ?thesis using assms by auto
qed

lemma seg_insert:
  assumes "seg nx pv q (us @ vs) n" and "distinct (us @ vs)"
    and "nx' p = first_ptr vs n" and "pv' p = last_ptr q us"
    and "\<And>u. u \<in> set us \<Longrightarrow> pv' u = pv u"
    and "\<And>u. u \<in> set us \<Longrightarrow> nx' u = (if last_ptr None us = Some u then Some p else nx u)"
    and "\<And>v. v \<in> set vs \<Longrightarrow> nx' v = nx v"
    and "\<And>v. v \<in> set vs \<Longrightarrow> pv' v = (if first_ptr vs None = Some v then Some p else pv v)"
  shows "seg nx' pv' q (us @ p # vs) n"
proof -
  have "seg nx' pv' q us (Some p)"
  proof (cases us rule: rev_cases)
    case (snoc ws w)
    have "seg nx' pv' q ws (Some w) = seg nx pv q ws (Some w)"
      by (rule seg_cong) (use assms(2,5,6) snoc in auto)
    then show ?thesis using assms(1,5) assms(6) [of w] snoc by auto
  qed simp
  moreover have "seg nx' pv' (Some p) vs n"
  proof (cases vs)
    case (Cons w ws)
    have "seg nx' pv' (Some w) ws n = seg nx pv (Some w) ws n"
      by (rule seg_cong) (use assms(2,7,8) Cons in auto)
    then show ?thesis using assms(1,7) assms(8) [of w] Cons by auto
  qed simp
  ultimately show ?thesis using assms(3,4) by simp
qed

section \<open>Insertion into an ordered list\<close>

text \<open>Where the walk along an ordered list puts a node with key \<open>d\<close>: before the first one that is not less.\<close>

definition placed :: "(nat \<Rightarrow> 'a::linorder) \<Rightarrow> 'a \<Rightarrow> nat \<Rightarrow> nat list \<Rightarrow> nat list" where
  "placed f d p xs = takeWhile (\<lambda>x. f x < d) xs @ p # dropWhile (\<lambda>x. f x < d) xs"

lemma set_placed [simp]: "set (placed f d p xs) = insert p (set xs)"
  unfolding placed_def by (metis (no_types, lifting) list.simps(15) set_append takeWhile_dropWhile_id insert_is_Un Un_insert_right)

lemma length_placed [simp]: "length (placed f d p xs) = Suc (length xs)"
  unfolding placed_def by (metis add_Suc_right length_Cons length_append takeWhile_dropWhile_id)

lemma distinct_placed: "distinct xs \<Longrightarrow> p \<notin> set xs \<Longrightarrow> distinct (placed f d p xs)"
  unfolding placed_def by (induction xs) (auto dest: set_takeWhileD set_dropWhileD)

lemma sorted_placed:
  "sorted (map f xs) \<Longrightarrow> (\<And>x. x \<in> set xs \<Longrightarrow> f x = g x) \<Longrightarrow> f p = d \<Longrightarrow> sorted (map f (placed g d p xs))"
proof (induction xs)
  case (Cons x xs)
  show ?case
  proof (cases "g x < d")
    case True
    then have "placed g d p (x # xs) = x # placed g d p xs" by (simp add: placed_def)
    then show ?thesis using Cons True by auto
  next
    case False
    then have "placed g d p (x # xs) = p # x # xs" by (simp add: placed_def)
    then show ?thesis using Cons.prems False by auto
  qed
qed (simp add: placed_def)

lemma placed_Nil [simp]: "placed f d p [] = [p]"
  by (simp add: placed_def)

lemma placed_cong: "(\<And>x. x \<in> set xs \<Longrightarrow> f x = g x) \<Longrightarrow> placed f d p xs = placed g d p xs"
  unfolding placed_def by (simp cong: takeWhile_cong dropWhile_cong)

text \<open>A family of lists with one node more.\<close>

lemma ex_fun_upd:
  assumes "(s :: nat) < c"
  shows "(\<exists>i < c. x \<in> set ((W(s := placed f d p (W s))) i)) \<longleftrightarrow> x = p \<or> (\<exists>i < c. x \<in> set (W i))"
proof
  assume "\<exists>i < c. x \<in> set ((W(s := placed f d p (W s))) i)"
  then show "x = p \<or> (\<exists>i < c. x \<in> set (W i))" by (auto split: if_splits)
next
  assume "x = p \<or> (\<exists>i < c. x \<in> set (W i))"
  then consider "x = p" | i where "i < c" "x \<in> set (W i)" by blast
  then show "\<exists>i < c. x \<in> set ((W(s := placed f d p (W s))) i)"
  proof cases
    case 1
    then show ?thesis using assms by (intro exI [of _ s]) simp
  next
    case 2
    then show ?thesis by (intro exI [of _ i]) auto
  qed
qed

end
