(* ===== verification/Os_Msg.thy ===== *)
theory Os_Msg
  imports Prelude Dll "HOL-Library.Monad_Syntax"
begin

text \<open>
  The message pool and the message queues of the kernel (UCOSIII/uCOS-III/Source/os_msg.c):
  linked lists of \<open>OS_MSG\<close> cells in one shared pool.  Cells live at addresses; a null
  pointer is \<^const>\<open>None\<close>, and following one makes an operation return \<^const>\<open>None\<close>.  The
  counters are natural numbers: the invariant bounds them by the size of the pool (100 in
  os_cfg_app.h), so the 16-bit counters of the code neither wrap nor go below zero.
\<close>

section \<open>Cells, pool and queues\<close>

record os_msg =
  NextPtr :: ptr
  MsgPtr :: nat
  MsgSize :: u16
  MsgTS :: u32

record os_msg_q =
  InPtr :: ptr
  OutPtr :: ptr
  NbrEntriesSize :: nat
  NbrEntries :: nat
  NbrEntriesMax :: nat

text \<open>The pool, the memory it lives in, and the queue of every task.\<close>

record os_msgs =
  cells :: "nat \<Rightarrow> os_msg"
  PoolNextPtr :: ptr
  NbrFree :: nat
  NbrUsed :: nat
  NbrUsedMax :: nat
  MsgQ :: "nat \<Rightarrow> os_msg_q"

datatype OS_ERR = OS_ERR_NONE | OS_ERR_Q_EMPTY | OS_ERR_Q_MAX | OS_ERR_MSG_POOL_EMPTY
  | OS_ERR_MSG_POOL_NULL_PTR | OS_ERR_OPT_INVALID | OS_ERR_STATE_INVALID | OS_ERR_PEND_ISR
  | OS_ERR_PEND_WOULD_BLOCK | OS_ERR_SCHED_LOCKED | OS_ERR_PEND_ABORT | OS_ERR_TIMEOUT
  | OS_ERR_SCHED_LOCK_ISR | OS_ERR_SCHED_UNLOCK_ISR | OS_ERR_OS_NOT_RUNNING | OS_ERR_LOCK_NESTING_OVF
  | OS_ERR_SCHED_NOT_LOCKED | OS_ERR_YIELD_ISR | OS_ERR_ROUND_ROBIN_DISABLED | OS_ERR_ROUND_ROBIN_1
  | OS_ERR_TIME_ZERO_DLY | OS_ERR_TIME_DLY_ISR | OS_ERR_TIME_INVALID_MILLISECONDS
  | OS_ERR_TIME_INVALID_SECONDS | OS_ERR_TIME_INVALID_MINUTES | OS_ERR_TIME_INVALID_HOURS
  | OS_ERR_TIME_DLY_RESUME_ISR | OS_ERR_TASK_NOT_DLY | OS_ERR_TASK_SUSPENDED | OS_ERR_FLUSH_ISR
  | OS_ERR_PTR_INVALID | OS_ERR_STATUS_INVALID | OS_ERR_PEND_ABORT_ISR | OS_ERR_PEND_ABORT_SELF
  | OS_ERR_PEND_ABORT_NONE | OS_ERR_SEM_OVF | OS_ERR_SET_ISR | OS_ERR_TASK_SUSPEND_ISR
  | OS_ERR_TASK_SUSPEND_IDLE | OS_ERR_TASK_RESUME_ISR | OS_ERR_TASK_RESUME_SELF
  | OS_ERR_TASK_NOT_SUSPENDED | OS_ERR_OBJ_PTR_NULL | OS_ERR_OBJ_TYPE | OS_ERR_TMR_ISR | OS_ERR_TMR_INVALID
  | OS_ERR_TMR_INVALID_PERIOD | OS_ERR_TMR_INVALID_DLY | OS_ERR_TMR_INACTIVE | OS_ERR_TMR_INVALID_STATE
  | OS_ERR_TMR_NO_CALLBACK | OS_ERR_TMR_STOPPED | OS_ERR_TASK_CREATE_ISR | OS_ERR_STK_INVALID
  | OS_ERR_STK_SIZE_INVALID | OS_ERR_PRIO_INVALID | OS_ERR_TCB_INVALID | OS_ERR_TASK_DEL_ISR
  | OS_ERR_TASK_DEL_IDLE | OS_ERR_TASK_DEL_INVALID | OS_ERR_TASK_CHANGE_PRIO_ISR | OS_ERR_TASK_INVALID
  | OS_ERR_STK_LIMIT_INVALID | OS_ERR_TICK_STK_INVALID | OS_ERR_TICK_STK_SIZE_INVALID | OS_ERR_TICK_PRIO_INVALID
  | OS_ERR_STAT_STK_INVALID | OS_ERR_STAT_STK_SIZE_INVALID | OS_ERR_STAT_PRIO_INVALID | OS_ERR_TMR_STK_INVALID
  | OS_ERR_TMR_STK_SIZE_INVALID | OS_ERR_TMR_PRIO_INVALID | OS_ERR_OS_RUNNING

abbreviation (input) OS_OPT_POST_FIFO :: u16 where "OS_OPT_POST_FIFO \<equiv> 0x0000"
abbreviation (input) OS_OPT_POST_LIFO :: u16 where "OS_OPT_POST_LIFO \<equiv> 0x0010"
abbreviation (input) OS_OPT_POST_NO_SCHED :: u16 where "OS_OPT_POST_NO_SCHED \<equiv> 0x8000"

text \<open>A message as the application sees it: pointer, size, time stamp.\<close>

type_synonym message = "nat \<times> u16 \<times> u32"

section \<open>Operations\<close>

text \<open>\<open>OS_MsgPoolCreate\<close>: \<open>loops\<close> cells from \<open>p_msg1\<close> on are linked to their successor, then one
  more is made the last of the list.\<close>

primrec pool_loop :: "nat \<Rightarrow> nat \<Rightarrow> (nat \<Rightarrow> os_msg) \<Rightarrow> nat \<Rightarrow> os_msg" where
  "pool_loop 0 p_msg1 h = h(p_msg1 := \<lparr>NextPtr = None, MsgPtr = 0, MsgSize = 0, MsgTS = 0\<rparr>)"
| "pool_loop (Suc loops) p_msg1 h = pool_loop loops (Suc p_msg1)
     (h(p_msg1 := \<lparr>NextPtr = Some (Suc p_msg1), MsgPtr = 0, MsgSize = 0, MsgTS = 0\<rparr>))"

definition OS_MsgPoolCreate :: "nat \<Rightarrow> nat \<Rightarrow> (nat \<Rightarrow> os_msg) \<Rightarrow> nat \<Rightarrow> os_msg" where
  "OS_MsgPoolCreate p_msg qty h = pool_loop (qty - 1) p_msg h"

definition OS_MsgPoolInit :: "ptr \<Rightarrow> nat \<Rightarrow> os_msgs \<Rightarrow> OS_ERR \<times> os_msgs" where
  "OS_MsgPoolInit base qty s =
     (case base of
        None \<Rightarrow> (OS_ERR_MSG_POOL_NULL_PTR, s)
      | Some b \<Rightarrow>
          if qty = 0 then (OS_ERR_MSG_POOL_EMPTY, s)
          else (OS_ERR_NONE, s\<lparr>cells := OS_MsgPoolCreate b qty (cells s), PoolNextPtr := base,
                               NbrFree := qty, NbrUsed := 0, NbrUsedMax := 0\<rparr>))"

definition OS_MsgQInit :: "nat \<Rightarrow> nat \<Rightarrow> os_msgs \<Rightarrow> os_msgs" where
  "OS_MsgQInit i qty s =
     s\<lparr>MsgQ := (MsgQ s)(i := \<lparr>InPtr = None, OutPtr = None, NbrEntriesSize = qty,
                              NbrEntries = 0, NbrEntriesMax = 0\<rparr>)\<rparr>"

definition OS_MsgQFreeAll :: "nat \<Rightarrow> os_msgs \<Rightarrow> (nat \<times> os_msgs) option" where
  "OS_MsgQFreeAll i s =
     (let q = MsgQ s i; qty = NbrEntries q
      in if 0 < NbrEntries q then
           (case InPtr q of
              None \<Rightarrow> None
            | Some p_msg \<Rightarrow>
                let h = (cells s)(p_msg := (cells s p_msg)\<lparr>NextPtr := PoolNextPtr s\<rparr>)
                in Some (qty, s\<lparr>cells := h, PoolNextPtr := OutPtr q,
                     NbrUsed := NbrUsed s - NbrEntries q, NbrFree := NbrFree s + NbrEntries q,
                     MsgQ := (MsgQ s)(i := q\<lparr>NbrEntries := 0, NbrEntriesMax := 0,
                                             InPtr := None, OutPtr := None\<rparr>)\<rparr>))
         else Some (qty, s))"

definition OS_MsgQGet :: "nat \<Rightarrow> os_msgs \<Rightarrow> (OS_ERR \<times> message \<times> os_msgs) option" where
  "OS_MsgQGet i s =
     (let q = MsgQ s i
      in if NbrEntries q = 0 then Some (OS_ERR_Q_EMPTY, (0, 0, 0), s)
         else case OutPtr q of
           None \<Rightarrow> None
         | Some p_msg \<Rightarrow>
             let c = cells s p_msg;
                 q = q\<lparr>OutPtr := NextPtr c\<rparr>;
                 q = (if OutPtr q = None then q\<lparr>InPtr := None, NbrEntries := 0\<rparr>
                      else q\<lparr>NbrEntries := NbrEntries q - 1\<rparr>);
                 h = (cells s)(p_msg := c\<lparr>NextPtr := PoolNextPtr s\<rparr>)
             in Some (OS_ERR_NONE, (MsgPtr c, MsgSize c, MsgTS c),
                  s\<lparr>cells := h, PoolNextPtr := Some p_msg, NbrFree := NbrFree s + 1,
                    NbrUsed := NbrUsed s - 1, MsgQ := (MsgQ s)(i := q)\<rparr>))"

text \<open>
  \<open>OS_MsgQPut\<close>.  The first message of a queue keeps the pointer to the next free cell it had
  in the pool: the tail of a queue may point anywhere, and only the entry count says where
  the queue ends.
\<close>

definition link_msg :: "nat \<Rightarrow> u16 \<Rightarrow> os_msg_q \<Rightarrow> (nat \<Rightarrow> os_msg) \<Rightarrow> (os_msg_q \<times> (nat \<Rightarrow> os_msg)) option" where
  "link_msg p_msg opt q h =
     (if NbrEntries q = 0 then
        Some (q\<lparr>InPtr := Some p_msg, OutPtr := Some p_msg, NbrEntries := 1\<rparr>, h)
      else if opt AND OS_OPT_POST_LIFO = OS_OPT_POST_FIFO then
        (case InPtr q of
           None \<Rightarrow> None
         | Some p_msg_in \<Rightarrow>
             let h = h(p_msg_in := (h p_msg_in)\<lparr>NextPtr := Some p_msg\<rparr>);
                 h = h(p_msg := (h p_msg)\<lparr>NextPtr := None\<rparr>)
             in Some (q\<lparr>InPtr := Some p_msg, NbrEntries := NbrEntries q + 1\<rparr>, h))
      else
        Some (q\<lparr>OutPtr := Some p_msg, NbrEntries := NbrEntries q + 1\<rparr>,
              h(p_msg := (h p_msg)\<lparr>NextPtr := OutPtr q\<rparr>)))"

definition OS_MsgQPut :: "nat \<Rightarrow> message \<Rightarrow> u16 \<Rightarrow> os_msgs \<Rightarrow> (OS_ERR \<times> os_msgs) option" where
  "OS_MsgQPut i m opt s =
     (let q = MsgQ s i
      in if NbrEntriesSize q \<le> NbrEntries q then Some (OS_ERR_Q_MAX, s)
         else if NbrFree s = 0 then Some (OS_ERR_MSG_POOL_EMPTY, s)
         else case PoolNextPtr s of
           None \<Rightarrow> None
         | Some p_msg \<Rightarrow>
             do { let s = s\<lparr>PoolNextPtr := NextPtr (cells s p_msg), NbrFree := NbrFree s - 1,
                            NbrUsed := NbrUsed s + 1\<rparr>;
                  let s = (if NbrUsedMax s < NbrUsed s then s\<lparr>NbrUsedMax := NbrUsed s\<rparr> else s);
                  (q, h) \<leftarrow> link_msg p_msg opt q (cells s);
                  let q = (if NbrEntriesMax q < NbrEntries q then q\<lparr>NbrEntriesMax := NbrEntries q\<rparr> else q);
                  let h = h(p_msg := (h p_msg)\<lparr>MsgPtr := fst m, MsgSize := fst (snd m), MsgTS := snd (snd m)\<rparr>);
                  Some (OS_ERR_NONE, s\<lparr>cells := h, MsgQ := (MsgQ s)(i := q)\<rparr>) })"

section \<open>Chains of cells\<close>

text \<open>\<open>path h p c\<close>: the first cells from \<open>p\<close> on are \<open>c\<close>; the last one may point anywhere.\<close>

primrec path :: "(nat \<Rightarrow> os_msg) \<Rightarrow> ptr \<Rightarrow> nat list \<Rightarrow> bool" where
  "path h p [] = True"
| "path h p (a # c) = (p = Some a \<and> path h (NextPtr (h a)) c)"

definition message_of :: "os_msg \<Rightarrow> message" where
  "message_of c = (MsgPtr c, MsgSize c, MsgTS c)"

fun follow :: "(nat \<Rightarrow> os_msg) \<Rightarrow> ptr \<Rightarrow> nat \<Rightarrow> nat list" where
  "follow h p 0 = []"
| "follow h None (Suc n) = []"
| "follow h (Some a) (Suc n) = a # follow h (NextPtr (h a)) n"

text \<open>What a queue holds, oldest message first.\<close>

definition queued :: "os_msgs \<Rightarrow> nat \<Rightarrow> message list" where
  "queued s i = map (\<lambda>a. message_of (cells s a)) (follow (cells s) (OutPtr (MsgQ s i)) (NbrEntries (MsgQ s i)))"

lemma follow_path: "path h p c \<Longrightarrow> follow h p (length c) = c"
  by (induction c arbitrary: p) auto

lemma path_upd [simp]: "a \<notin> set c \<Longrightarrow> path (h(a := v)) p c = path h p c"
  by (induction c arbitrary: p) auto

lemma path_append:
  "path h p (c @ d) \<longleftrightarrow> path h p c \<and> path h (if c = [] then p else NextPtr (h (last c))) d"
  by (induction c arbitrary: p) auto

lemma path_link:
  "path h p c \<Longrightarrow> c \<noteq> [] \<Longrightarrow> distinct c \<Longrightarrow>
    path (h(last c := (h (last c))\<lparr>NextPtr := r\<rparr>)) p c"
proof (induction c arbitrary: p)
  case (Cons a c)
  then show ?case by (cases "c = []") auto
qed simp

text \<open>The pool is one chain of free cells, every queue a chain of its own.\<close>

definition q_chain :: "(nat \<Rightarrow> os_msg) \<Rightarrow> os_msg_q \<Rightarrow> nat list \<Rightarrow> bool" where
  "q_chain h q c \<longleftrightarrow> NbrEntries q = length c \<and> path h (OutPtr q) c
     \<and> (c \<noteq> [] \<longrightarrow> InPtr q = Some (last c)) \<and> length c \<le> NbrEntriesSize q"

definition owned :: "nat \<Rightarrow> nat \<Rightarrow> nat list \<Rightarrow> (nat \<Rightarrow> nat list) \<Rightarrow> os_msgs \<Rightarrow> bool" where
  "owned n N fr cs s \<longleftrightarrow>
     path (cells s) (PoolNextPtr s) fr \<and> NbrFree s = length fr
     \<and> (\<forall>i < n. q_chain (cells s) (MsgQ s i) (cs i))
     \<and> distinct fr \<and> (\<forall>i < n. distinct (cs i) \<and> set (cs i) \<inter> set fr = {})
     \<and> (\<forall>i < n. \<forall>j < n. i \<noteq> j \<longrightarrow> set (cs i) \<inter> set (cs j) = {})
     \<and> NbrUsed s = (\<Sum>i < n. length (cs i)) \<and> NbrFree s + NbrUsed s = N"

definition msgs_inv :: "nat \<Rightarrow> nat \<Rightarrow> os_msgs \<Rightarrow> bool" where
  "msgs_inv n N s \<longleftrightarrow> (\<exists>fr cs. owned n N fr cs s)"

lemma queued_chain:
  "q_chain (cells s) (MsgQ s i) c \<Longrightarrow> queued s i = map (\<lambda>a. message_of (cells s a)) c"
  by (simp add: queued_def q_chain_def follow_path)

lemma q_chain_upd [simp]: "a \<notin> set c \<Longrightarrow> q_chain (h(a := v)) q c = q_chain h q c"
  by (simp add: q_chain_def)

lemma path_cong:
  "(\<And>b. b \<in> set c \<Longrightarrow> NextPtr (h b) = NextPtr (h' b)) \<Longrightarrow> path h p c = path h' p c"
  by (induction c arbitrary: p) auto

lemma q_chain_cong:
  "(\<And>b. b \<in> set c \<Longrightarrow> NextPtr (h b) = NextPtr (h' b)) \<Longrightarrow> q_chain h q c = q_chain h' q c"
  unfolding q_chain_def using path_cong [of c h h'] by metis

section \<open>Depositing and retrieving\<close>

text \<open>The chain of a queue after a deposit.\<close>

definition linked :: "u16 \<Rightarrow> 'a \<Rightarrow> 'a list \<Rightarrow> 'a list" where
  "linked opt a c = (if opt AND OS_OPT_POST_LIFO = OS_OPT_POST_FIFO then c @ [a] else a # c)"

lemma linked_simps [simp]: "linked opt a [] = [a]" "set (linked opt a c) = insert a (set c)"
  "distinct (linked opt a c) \<longleftrightarrow> a \<notin> set c \<and> distinct c" "length (linked opt a c) = Suc (length c)"
  "map f (linked opt a c) = linked opt (f a) (map f c)"
  by (auto simp: linked_def)

lemma link_msg_chain:
  assumes "q_chain h q c" and "distinct c" and "a \<notin> set c" and "length c < NbrEntriesSize q"
  obtains q' h' where "link_msg a opt q h = Some (q', h')" and "q_chain h' q' (linked opt a c)"
    and "NbrEntriesSize q' = NbrEntriesSize q" and "\<And>b. b \<notin> insert a (set c) \<Longrightarrow> h' b = h b"
    and "\<And>b. message_of (h' b) = message_of (h b)"
proof (cases "c = []")
  case True
  with assms that show thesis by (simp add: link_msg_def q_chain_def)
next
  case False
  note q = assms(1) [unfolded q_chain_def]
  show thesis
  proof (cases "opt AND OS_OPT_POST_LIFO = OS_OPT_POST_FIFO")
    case True
    let ?h1 = "h(last c := (h (last c))\<lparr>NextPtr := Some a\<rparr>)"
    let ?h = "?h1(a := (?h1 a)\<lparr>NextPtr := None\<rparr>)"
    have la: "last c \<noteq> a" using assms(3) False by auto
    have p: "path ?h (OutPtr q) c" using q assms(2,3) False by (simp add: path_link)
    then have "path ?h (OutPtr q) (c @ [a])" using False la by (simp add: path_append)
    then have ch: "q_chain ?h (q\<lparr>InPtr := Some a, NbrEntries := NbrEntries q + 1\<rparr>) (linked opt a c)"
      using q assms(4) True by (simp add: q_chain_def linked_def)
    have link: "link_msg a opt q h = Some (q\<lparr>InPtr := Some a, NbrEntries := NbrEntries q + 1\<rparr>, ?h)"
      using q False True by (simp add: link_msg_def Let_def)
    have same: "?h b = h b" if "b \<notin> insert a (set c)" for b
      using that last_in_set [OF False] by auto
    have msg: "message_of (?h b) = message_of (h b)" for b
      by (simp add: message_of_def)
    show thesis by (rule that [OF link ch _ same msg]) simp_all
  next
    case lifo: False
    let ?h = "h(a := (h a)\<lparr>NextPtr := OutPtr q\<rparr>)"
    have "q_chain ?h (q\<lparr>OutPtr := Some a, NbrEntries := NbrEntries q + 1\<rparr>) (linked opt a c)"
      using q assms(3,4) lifo False by (simp add: q_chain_def linked_def)
    moreover have "link_msg a opt q h = Some (q\<lparr>OutPtr := Some a, NbrEntries := NbrEntries q + 1\<rparr>, ?h)"
      using q False lifo by (simp add: link_msg_def)
    ultimately show thesis
      using that [of _ ?h] by (auto simp: message_of_def)
  qed
qed

lemma sum_upd:
  "i < n \<Longrightarrow> (\<Sum>j < n. length ((cs(i := c)) j)) + length (cs i) = (\<Sum>j < n. length (cs j)) + length c"
  for cs :: "nat \<Rightarrow> 'a list"
  by (simp add: sum.remove [of "{..<n}" i])

lemma put_result:
  assumes "owned n N fr cs s" and "i < n"
  shows "if NbrEntriesSize (MsgQ s i) \<le> length (cs i) then OS_MsgQPut i m opt s = Some (OS_ERR_Q_MAX, s)
    else if fr = [] then OS_MsgQPut i m opt s = Some (OS_ERR_MSG_POOL_EMPTY, s)
    else \<exists>s'. OS_MsgQPut i m opt s = Some (OS_ERR_NONE, s')
      \<and> owned n N (tl fr) (cs(i := linked opt (hd fr) (cs i))) s'
      \<and> NbrEntriesSize (MsgQ s' i) = NbrEntriesSize (MsgQ s i) \<and> (\<forall>j. j \<noteq> i \<longrightarrow> MsgQ s' j = MsgQ s j)
      \<and> message_of (cells s' (hd fr)) = m
      \<and> (\<forall>b. b \<noteq> hd fr \<longrightarrow> message_of (cells s' b) = message_of (cells s b))"
proof -
  note o = assms(1) [unfolded owned_def]
  have q: "q_chain (cells s) (MsgQ s i) (cs i)" "distinct (cs i)" using o assms(2) by auto
  then have len: "NbrEntries (MsgQ s i) = length (cs i)" by (simp add: q_chain_def)
  show ?thesis
  proof (cases "NbrEntriesSize (MsgQ s i) \<le> length (cs i) \<or> fr = []")
    case True
    then show ?thesis using o len by (auto simp: OS_MsgQPut_def Let_def)
  next
    case False
    then obtain a fr' where fr: "fr = a # fr'" by (cases fr) auto
    have a: "PoolNextPtr s = Some a" "a \<notin> set fr'" "path (cells s) (NextPtr (cells s a)) fr'"
      using o fr by auto
    have a_cs: "a \<notin> set (cs j)" "set (cs j) \<inter> set fr' = {}" if "j < n" for j
      using o fr that by auto
    have room: "length (cs i) < NbrEntriesSize (MsgQ s i)" using False by simp
    obtain q' h' where link: "link_msg a opt (MsgQ s i) (cells s) = Some (q', h')"
      and ch: "q_chain h' q' (linked opt a (cs i))" and sz: "NbrEntriesSize q' = NbrEntriesSize (MsgQ s i)"
      and same: "\<And>b. b \<notin> insert a (set (cs i)) \<Longrightarrow> h' b = cells s b"
      and msg: "\<And>b. message_of (h' b) = message_of (cells s b)"
      using link_msg_chain [OF q a_cs(1) [OF assms(2)] room] by metis
    define h2 where "h2 = h'(a := (h' a)\<lparr>MsgPtr := fst m, MsgSize := fst (snd m), MsgTS := snd (snd m)\<rparr>)"
    define q2 where "q2 = (if NbrEntriesMax q' < NbrEntries q' then q'\<lparr>NbrEntriesMax := NbrEntries q'\<rparr> else q')"
    define s' where "s' = s\<lparr>PoolNextPtr := NextPtr (cells s a), NbrFree := NbrFree s - 1,
      NbrUsed := NbrUsed s + 1, NbrUsedMax := max (NbrUsedMax s) (NbrUsed s + 1), cells := h2, MsgQ := (MsgQ s)(i := q2)\<rparr>"
    have put: "OS_MsgQPut i m opt s = Some (OS_ERR_NONE, s')"
      using False len link fr a(1) o
      by (simp add: OS_MsgQPut_def Let_def s'_def h2_def q2_def max_def)
    have next2: "NextPtr (h2 b) = NextPtr (h' b)" for b by (simp add: h2_def)
    have ch2: "q_chain h2 q2 (linked opt a (cs i))"
      using ch q_chain_cong [of "linked opt a (cs i)" h2 h' q'] next2 by (simp add: q2_def q_chain_def)
    have others: "q_chain h2 (MsgQ s j) (cs j)" if "j < n" "j \<noteq> i" for j
    proof -
      have "q_chain (cells s) (MsgQ s j) (cs j)" using o that by simp
      moreover have "NextPtr (cells s b) = NextPtr (h2 b)" if "b \<in> set (cs j)" for b
        using same [of b] a_cs(1) [OF \<open>j < n\<close>] o \<open>j < n\<close> \<open>j \<noteq> i\<close> assms(2) that next2 by (metis disjoint_iff insertE)
      ultimately show ?thesis using q_chain_cong [of "cs j" "cells s" h2] by simp
    qed
    have free: "path h2 (NextPtr (cells s a)) fr'"
    proof -
      have "NextPtr (cells s b) = NextPtr (h2 b)" if "b \<in> set fr'" for b
        using same [of b] a(2) a_cs(2) [OF assms(2)] that next2 by (metis disjoint_iff insertE)
      then show ?thesis using a(3) path_cong [of fr' "cells s" h2] by simp
    qed
    have used: "(\<Sum>j < n. length ((cs(i := linked opt a (cs i))) j)) = NbrUsed s + 1"
      using sum_upd [OF assms(2), of cs "linked opt a (cs i)"] o by simp
    have "owned n N fr' (cs(i := linked opt a (cs i))) s'"
      unfolding owned_def
      using o fr ch2 others free used a a_cs q(2) assms(2)
      by (auto simp: s'_def)
    moreover have "message_of (cells s' a) = m" by (simp add: s'_def h2_def message_of_def)
    moreover have "b \<noteq> a \<Longrightarrow> message_of (cells s' b) = message_of (cells s b)" for b
      using msg by (simp add: s'_def h2_def)
    ultimately show ?thesis
      using False put fr sz by (auto simp: s'_def q2_def)
  qed
qed

lemma get_result:
  assumes "owned n N fr cs s" and "i < n"
  shows "if cs i = [] then OS_MsgQGet i s = Some (OS_ERR_Q_EMPTY, (0, 0, 0), s)
    else \<exists>s'. OS_MsgQGet i s = Some (OS_ERR_NONE, message_of (cells s (hd (cs i))), s')
      \<and> owned n N (hd (cs i) # fr) (cs(i := tl (cs i))) s'
      \<and> NbrEntriesSize (MsgQ s' i) = NbrEntriesSize (MsgQ s i) \<and> (\<forall>j. j \<noteq> i \<longrightarrow> MsgQ s' j = MsgQ s j)
      \<and> (\<forall>b. message_of (cells s' b) = message_of (cells s b))"
proof (cases "cs i")
  case Nil
  then show ?thesis using assms by (simp add: OS_MsgQGet_def owned_def q_chain_def)
next
  case (Cons a c)
  note o = assms(1) [unfolded owned_def]
  have "q_chain (cells s) (MsgQ s i) (cs i)" "distinct (cs i)" "set (cs i) \<inter> set fr = {}"
    using o assms(2) by auto
  then have qc: "q_chain (cells s) (MsgQ s i) (a # c)"
    and d: "a \<notin> set c" "distinct c" "a \<notin> set fr" "set c \<inter> set fr = {}"
    using Cons by auto
  from qc have q: "NbrEntries (MsgQ s i) = Suc (length c)" "OutPtr (MsgQ s i) = Some a"
    "path (cells s) (NextPtr (cells s a)) c" "c \<noteq> [] \<longrightarrow> InPtr (MsgQ s i) = Some (last c)"
    "Suc (length c) \<le> NbrEntriesSize (MsgQ s i)"
    by (auto simp: q_chain_def)
  have a_cs: "a \<notin> set (cs j)" if "j < n" "j \<noteq> i" for j
    using o that assms(2) Cons by (metis disjoint_iff list.set_intros(1))
  define h where "h = (cells s)(a := (cells s a)\<lparr>NextPtr := PoolNextPtr s\<rparr>)"
  define q' where "q' = (if NextPtr (cells s a) = None
      then (MsgQ s i)\<lparr>OutPtr := NextPtr (cells s a), InPtr := None, NbrEntries := 0\<rparr>
      else (MsgQ s i)\<lparr>OutPtr := NextPtr (cells s a), NbrEntries := length c\<rparr>)"
  define s' where "s' = s\<lparr>cells := h, PoolNextPtr := Some a, NbrFree := NbrFree s + 1,
      NbrUsed := NbrUsed s - 1, MsgQ := (MsgQ s)(i := q')\<rparr>"
  have get: "OS_MsgQGet i s = Some (OS_ERR_NONE, message_of (cells s a), s')"
    using q by (simp add: OS_MsgQGet_def Let_def s'_def h_def q'_def message_of_def)
  have "NextPtr (cells s a) = None \<Longrightarrow> c = []" using q(3) by (cases c) auto
  then have ch: "q_chain h q' c"
    using q d by (auto simp: q_chain_def q'_def h_def)
  have used: "(\<Sum>j < n. length ((cs(i := c)) j)) = NbrUsed s - 1" "0 < NbrUsed s"
    using sum_upd [OF assms(2), of cs c] o Cons by simp_all
  have "owned n N (a # fr) (cs(i := c)) s'"
    unfolding owned_def
  proof (intro conjI allI impI)
    show "path (cells s') (PoolNextPtr s') (a # fr)" using o d by (simp add: s'_def h_def)
    show "q_chain (cells s') (MsgQ s' j) ((cs(i := c)) j)" if "j < n" for j
      using ch o that a_cs by (auto simp: s'_def h_def)
    show "distinct (a # fr)" using o d by simp
    show "distinct ((cs(i := c)) j)" "set ((cs(i := c)) j) \<inter> set (a # fr) = {}" if "j < n" for j
      using o d that a_cs by auto
    show "set ((cs(i := c)) j) \<inter> set ((cs(i := c)) k) = {}" if "j < n" "k < n" "j \<noteq> k" for j k
    proof -
      have "set (cs j) \<inter> set (cs k) = {}" using o that by blast
      moreover have "set c \<subseteq> set (cs i)" using Cons by auto
      ultimately show ?thesis by (cases "j = i"; cases "k = i") auto
    qed
  qed (use o used in \<open>simp_all add: s'_def\<close>)
  moreover have "NbrEntriesSize (MsgQ s' i) = NbrEntriesSize (MsgQ s i)" "\<forall>j. j \<noteq> i \<longrightarrow> MsgQ s' j = MsgQ s j"
    "\<forall>b. message_of (cells s' b) = message_of (cells s b)"
    by (simp_all add: s'_def q'_def h_def message_of_def)
  ultimately show ?thesis using get Cons by auto
qed

lemma free_all_result:
  assumes "owned n N fr cs s" and "i < n"
  shows "\<exists>s'. OS_MsgQFreeAll i s = Some (length (cs i), s')
      \<and> owned n N (cs i @ fr) (cs(i := [])) s' \<and> (\<forall>j. j \<noteq> i \<longrightarrow> MsgQ s' j = MsgQ s j)
      \<and> (\<forall>b. message_of (cells s' b) = message_of (cells s b))"
proof (cases "cs i = []")
  case True
  have "cs(i := []) = cs" using True by (simp add: fun_upd_idem)
  moreover have "OS_MsgQFreeAll i s = Some (0, s)"
    using assms True by (simp add: OS_MsgQFreeAll_def owned_def q_chain_def)
  ultimately show ?thesis using assms True by simp
next
  case False
  note o = assms(1) [unfolded owned_def]
  let ?c = "cs i"
  have c: "q_chain (cells s) (MsgQ s i) ?c" "distinct ?c" "set ?c \<inter> set fr = {}"
    using o assms(2) by auto
  then have q: "NbrEntries (MsgQ s i) = length ?c" "path (cells s) (OutPtr (MsgQ s i)) ?c"
    "InPtr (MsgQ s i) = Some (last ?c)" using False by (simp_all add: q_chain_def)
  define h where "h = (cells s)(last ?c := (cells s (last ?c))\<lparr>NextPtr := PoolNextPtr s\<rparr>)"
  define s' where "s' = s\<lparr>cells := h, PoolNextPtr := OutPtr (MsgQ s i),
      NbrUsed := NbrUsed s - length ?c, NbrFree := NbrFree s + length ?c,
      MsgQ := (MsgQ s)(i := (MsgQ s i)\<lparr>NbrEntries := 0, NbrEntriesMax := 0, InPtr := None, OutPtr := None\<rparr>)\<rparr>"
  have free: "OS_MsgQFreeAll i s = Some (length ?c, s')"
    using q False by (simp add: OS_MsgQFreeAll_def Let_def s'_def h_def)
  have last: "last ?c \<in> set ?c" using False by simp
  then have "last ?c \<notin> set fr" using c(3) by blast
  note last = last this
  have p: "path h (OutPtr (MsgQ s i)) (?c @ fr)"
    unfolding path_append h_def using q(2) c(2) False o last by (simp add: path_link)
  have l_cs: "last ?c \<notin> set (cs j)" if "j < n" "j \<noteq> i" for j
    using o that assms(2) last(1) by (metis disjoint_iff)
  have used: "(\<Sum>j < n. length ((cs(i := [])) j)) = NbrUsed s - length ?c" "length ?c \<le> NbrUsed s"
    using sum_upd [OF assms(2), of cs "[]"] o by simp_all
  have "owned n N (?c @ fr) (cs(i := [])) s'"
    unfolding owned_def
  proof (intro conjI allI impI)
    show "path (cells s') (PoolNextPtr s') (?c @ fr)" using p by (simp add: s'_def)
    show "q_chain (cells s') (MsgQ s' j) ((cs(i := [])) j)" if "j < n" for j
    proof (cases "j = i")
      case False
      then show ?thesis using o that l_cs [OF that False] by (simp add: s'_def h_def)
    qed (simp add: s'_def q_chain_def)
    show "distinct (?c @ fr)" using o c by simp
    show "distinct ((cs(i := [])) j)" if "j < n" for j using o that by simp
    show "set ((cs(i := [])) j) \<inter> set (?c @ fr) = {}" if "j < n" for j
    proof (cases "j = i")
      case False
      then have "set (cs j) \<inter> set ?c = {}" "set (cs j) \<inter> set fr = {}"
        using o that assms(2) by blast+
      then show ?thesis using False by (simp add: Int_Un_distrib)
    qed simp
    show "set ((cs(i := [])) j) \<inter> set ((cs(i := [])) k) = {}" if "j < n" "k < n" "j \<noteq> k" for j k
      using o that by simp
  qed (use o used in \<open>simp_all add: s'_def\<close>)
  then show ?thesis using free by (auto simp: s'_def h_def message_of_def)
qed

section \<open>The pool at start-up\<close>

lemma pool_loop_below: "a < p \<Longrightarrow> pool_loop k p h a = h a"
  by (induction k arbitrary: p h) auto

lemma pool_loop_path: "path (pool_loop k p h) (Some p) [p..<p + Suc k]"
proof (induction k arbitrary: p h)
  case (Suc k)
  have "[p..<p + Suc (Suc k)] = p # [Suc p..<Suc p + Suc k]" by (simp add: upt_conv_Cons del: upt_Suc)
  then show ?case using Suc.IH [of "Suc p"] by (simp add: pool_loop_below del: upt_Suc)
qed simp

section \<open>The abstract queues\<close>

definition queues :: "nat \<Rightarrow> os_msgs \<Rightarrow> message list list" where
  "queues n s = map (queued s) [0..<n]"

definition abs_put :: "nat \<Rightarrow> nat \<Rightarrow> nat \<Rightarrow> message \<Rightarrow> u16 \<Rightarrow> message list list \<Rightarrow> OS_ERR \<times> message list list" where
  "abs_put cap N i m opt qs =
     (if cap \<le> length (qs ! i) then (OS_ERR_Q_MAX, qs)
      else if sum_list (map length qs) = N then (OS_ERR_MSG_POOL_EMPTY, qs)
      else (OS_ERR_NONE, qs[i := linked opt m (qs ! i)]))"

definition abs_get :: "nat \<Rightarrow> message list list \<Rightarrow> OS_ERR \<times> message \<times> message list list" where
  "abs_get i qs = (case qs ! i of [] \<Rightarrow> (OS_ERR_Q_EMPTY, (0, 0, 0), qs)
                   | m # ms \<Rightarrow> (OS_ERR_NONE, m, qs[i := ms]))"

lemma queues_owned:
  "owned n N fr cs s \<Longrightarrow> queues n s = map (\<lambda>i. map (\<lambda>a. message_of (cells s a)) (cs i)) [0..<n]"
  unfolding queues_def owned_def by (auto intro!: queued_chain)

lemma queues_nth: "i < n \<Longrightarrow> queues n s ! i = queued s i"
  by (simp add: queues_def)

lemma length_queues [simp]: "length (queues n s) = n"
  by (simp add: queues_def)

lemma map_upt_update: "i < n \<Longrightarrow> map (f(i := x)) [0..<n] = (map f [0..<n])[i := x]"
  by (rule nth_equalityI) (auto simp: nth_list_update)

lemma sum_lengths: "sum_list (map length (map f [0..<n])) = (\<Sum>i < n. length (f i))"
  by (simp add: interv_sum_list_conv_sum_set_nat comp_def atLeast0LessThan)

lemma owned_counts:
  assumes "owned n N fr cs s"
  shows "sum_list (map length (queues n s)) = NbrUsed s" and "NbrUsed s = N \<longleftrightarrow> fr = []"
    and "i < n \<Longrightarrow> length (queues n s ! i) = length (cs i)"
proof -
  show "sum_list (map length (queues n s)) = NbrUsed s"
    using assms unfolding queues_owned [OF assms] sum_lengths by (simp add: owned_def)
  show "NbrUsed s = N \<longleftrightarrow> fr = []"
    using assms by (auto simp: owned_def)
  show "i < n \<Longrightarrow> length (queues n s ! i) = length (cs i)"
    by (simp add: queues_owned [OF assms])
qed

lemma put_refines:
  assumes "msgs_inv n N s" and "i < n"
  shows "\<exists>e s'. OS_MsgQPut i m opt s = Some (e, s') \<and> msgs_inv n N s'
    \<and> (e, queues n s') = abs_put (NbrEntriesSize (MsgQ s i)) N i m opt (queues n s)
    \<and> (\<forall>j. NbrEntriesSize (MsgQ s' j) = NbrEntriesSize (MsgQ s j))"
proof -
  from assms(1) obtain fr cs where o: "owned n N fr cs s" by (auto simp: msgs_inv_def)
  note put = put_result [OF o assms(2), of m opt]
  note counts = owned_counts [OF o]
  show ?thesis
  proof (cases "NbrEntriesSize (MsgQ s i) \<le> length (cs i) \<or> fr = []")
    case True
    then show ?thesis using put counts assms by (auto simp: abs_put_def)
  next
    case False
    then obtain s' where s': "OS_MsgQPut i m opt s = Some (OS_ERR_NONE, s')"
      and o': "owned n N (tl fr) (cs(i := linked opt (hd fr) (cs i))) s'"
      and sz: "NbrEntriesSize (MsgQ s' i) = NbrEntriesSize (MsgQ s i)" "\<forall>j. j \<noteq> i \<longrightarrow> MsgQ s' j = MsgQ s j"
      and m: "message_of (cells s' (hd fr)) = m"
      and old: "\<forall>b. b \<noteq> hd fr \<longrightarrow> message_of (cells s' b) = message_of (cells s b)"
      using put by auto
    have notin: "hd fr \<notin> set (cs j)" if "j < n" for j
    proof -
      have "set (cs j) \<inter> set fr = {}" using o that by (simp add: owned_def)
      moreover have "hd fr \<in> set fr" using False by simp
      ultimately show ?thesis by blast
    qed
    have same: "map (\<lambda>a. message_of (cells s' a)) (cs j) = map (\<lambda>a. message_of (cells s a)) (cs j)" if "j < n" for j
    proof (rule map_cong [OF refl])
      fix x assume "x \<in> set (cs j)"
      then have "x \<noteq> hd fr" using notin [OF that] by blast
      then show "message_of (cells s' x) = message_of (cells s x)" using old by simp
    qed
    have "queues n s' = map ((\<lambda>j. map (\<lambda>a. message_of (cells s a)) (cs j))(i := linked opt m (map (\<lambda>a. message_of (cells s a)) (cs i)))) [0..<n]"
      unfolding queues_owned [OF o']
    proof (rule map_cong [OF refl])
      fix j assume "j \<in> set [0..<n]"
      then have "j < n" by simp
      from same [OF this] same [OF assms(2)]
      show "map (\<lambda>a. message_of (cells s' a)) ((cs(i := linked opt (hd fr) (cs i))) j) =
          ((\<lambda>j. map (\<lambda>a. message_of (cells s a)) (cs j))(i := linked opt m (map (\<lambda>a. message_of (cells s a)) (cs i)))) j"
        by (cases "j = i") (simp_all only: fun_upd_same fun_upd_other linked_simps m not_False_eq_True)
    qed
    also have "\<dots> = (queues n s)[i := linked opt m (queues n s ! i)]"
      using assms(2) by (simp add: map_upt_update queues_owned [OF o])
    finally have qs: "queues n s' = (queues n s)[i := linked opt m (queues n s ! i)]" .
    have szs: "\<forall>j. NbrEntriesSize (MsgQ s' j) = NbrEntriesSize (MsgQ s j)"
    proof
      fix j show "NbrEntriesSize (MsgQ s' j) = NbrEntriesSize (MsgQ s j)"
        using sz by (cases "j = i") simp_all
    qed
    have "abs_put (NbrEntriesSize (MsgQ s i)) N i m opt (queues n s) =
        (OS_ERR_NONE, (queues n s)[i := linked opt m (queues n s ! i)])"
      using False counts assms(2) by (simp add: abs_put_def)
    moreover have "msgs_inv n N s'" using o' msgs_inv_def by blast
    ultimately show ?thesis using s' szs qs by metis
  qed
qed

lemma get_refines:
  assumes "msgs_inv n N s" and "i < n"
  shows "\<exists>e m s'. OS_MsgQGet i s = Some (e, m, s') \<and> msgs_inv n N s'
    \<and> (e, m, queues n s') = abs_get i (queues n s)
    \<and> (\<forall>j. NbrEntriesSize (MsgQ s' j) = NbrEntriesSize (MsgQ s j))"
proof -
  from assms(1) obtain fr cs where o: "owned n N fr cs s" by (auto simp: msgs_inv_def)
  note get = get_result [OF o assms(2)]
  have qi: "queues n s ! i = map (\<lambda>a. message_of (cells s a)) (cs i)"
    using assms(2) by (simp add: queues_owned [OF o])
  show ?thesis
  proof (cases "cs i")
    case Nil
    then show ?thesis using get qi assms by (simp add: abs_get_def)
  next
    case (Cons a c)
    then obtain s' where s': "OS_MsgQGet i s = Some (OS_ERR_NONE, message_of (cells s a), s')"
      and o': "owned n N (a # fr) (cs(i := c)) s'"
      and sz: "NbrEntriesSize (MsgQ s' i) = NbrEntriesSize (MsgQ s i)" "\<forall>j. j \<noteq> i \<longrightarrow> MsgQ s' j = MsgQ s j"
      and old: "\<forall>b. message_of (cells s' b) = message_of (cells s b)"
      using get by auto
    have "queues n s' = map ((\<lambda>j. map (\<lambda>a. message_of (cells s a)) (cs j))(i := map (\<lambda>a. message_of (cells s a)) c)) [0..<n]"
      unfolding queues_owned [OF o'] using old by (intro map_cong) auto
    also have "\<dots> = (queues n s)[i := map (\<lambda>a. message_of (cells s a)) c]"
      using assms(2) by (simp add: map_upt_update queues_owned [OF o])
    finally have qs: "queues n s' = (queues n s)[i := map (\<lambda>a. message_of (cells s a)) c]" .
    have szs: "\<forall>j. NbrEntriesSize (MsgQ s' j) = NbrEntriesSize (MsgQ s j)"
    proof
      fix j show "NbrEntriesSize (MsgQ s' j) = NbrEntriesSize (MsgQ s j)"
        using sz by (cases "j = i") simp_all
    qed
    have "abs_get i (queues n s) = (OS_ERR_NONE, message_of (cells s a),
        (queues n s)[i := map (\<lambda>a. message_of (cells s a)) c])"
      using qi Cons by (simp add: abs_get_def)
    moreover have "msgs_inv n N s'" using o' msgs_inv_def by blast
    ultimately show ?thesis using s' szs qs by metis
  qed
qed

section \<open>Interface: bounded FIFO queues\<close>

text \<open>What a task relies on when it posts to and pends on a message queue.\<close>

datatype 'm qop = Post 'm | Pend

text \<open>A run of operations: the accepted messages, the delivered ones, and the final state.\<close>

fun run_ops :: "('m \<Rightarrow> 's \<Rightarrow> 's option) \<Rightarrow> ('s \<Rightarrow> ('m \<times> 's) option) \<Rightarrow> 'm qop list \<Rightarrow> 's
    \<Rightarrow> 'm list \<times> 'm list \<times> 's" where
  "run_ops post pend [] s = ([], [], s)"
| "run_ops post pend (Post m # ops) s =
     (case post m s of None \<Rightarrow> run_ops post pend ops s
      | Some s' \<Rightarrow> (let (acc, del, t) = run_ops post pend ops s' in (m # acc, del, t)))"
| "run_ops post pend (Pend # ops) s =
     (case pend s of None \<Rightarrow> run_ops post pend ops s
      | Some (m, s') \<Rightarrow> (let (acc, del, t) = run_ops post pend ops s' in (acc, m # del, t)))"

locale bounded_fifo =
  fixes qinv :: "'s \<Rightarrow> bool" and contents :: "'s \<Rightarrow> 'm list" and cap :: "'s \<Rightarrow> nat"
    and post :: "'m \<Rightarrow> 's \<Rightarrow> 's option" and pend :: "'s \<Rightarrow> ('m \<times> 's) option"
  assumes post_room: "qinv s \<Longrightarrow> length (contents s) < cap s \<Longrightarrow>
      \<exists>s'. post m s = Some s' \<and> qinv s' \<and> contents s' = contents s @ [m] \<and> cap s' = cap s"
    and post_full: "qinv s \<Longrightarrow> cap s \<le> length (contents s) \<Longrightarrow> post m s = None"
    and pend_first: "qinv s \<Longrightarrow> contents s = m # ms \<Longrightarrow>
      \<exists>s'. pend s = Some (m, s') \<and> qinv s' \<and> contents s' = ms \<and> cap s' = cap s"
    and pend_empty: "qinv s \<Longrightarrow> contents s = [] \<Longrightarrow> pend s = None"
begin

lemma run_fifo:
  "qinv s \<Longrightarrow> run_ops post pend ops s = (acc, del, t) \<Longrightarrow> contents s @ acc = del @ contents t \<and> qinv t \<and> cap t = cap s"
proof (induction ops arbitrary: s acc del t)
  case (Cons a ops)
  show ?case
  proof (cases a)
    case (Post m)
    show ?thesis
    proof (cases "length (contents s) < cap s")
      case True
      with post_room [OF Cons.prems(1), of m] obtain s' where s': "post m s = Some s'" "qinv s'"
        "contents s' = contents s @ [m]" "cap s' = cap s" by auto
      obtain acc' where "run_ops post pend ops s' = (acc', del, t)" "acc = m # acc'"
        using Cons.prems(2) s'(1) Post by (auto split: prod.splits)
      with Cons.IH [OF s'(2)] s' show ?thesis by auto
    next
      case False
      with post_full [OF Cons.prems(1)] have "post m s = None" by simp
      with Cons.IH [OF Cons.prems(1)] Cons.prems(2) Post show ?thesis by simp
    qed
  next
    case Pend
    show ?thesis
    proof (cases "contents s")
      case Nil
      with pend_empty [OF Cons.prems(1)] Cons.IH [OF Cons.prems(1)] Cons.prems(2) Pend
      show ?thesis by simp
    next
      case head: (Cons m ms)
      with pend_first [OF Cons.prems(1)] obtain s' where s': "pend s = Some (m, s')" "qinv s'"
        "contents s' = ms" "cap s' = cap s" by auto
      obtain del' where "run_ops post pend ops s' = (acc, del', t)" "del = m # del'"
        using Cons.prems(2) s'(1) Pend by (auto split: prod.splits)
      with Cons.IH [OF s'(2)] s' head show ?thesis by auto
    qed
  qed
qed simp

lemma run_posts:
  "qinv s \<Longrightarrow> length (contents s) + length ms \<le> cap s \<Longrightarrow>
    \<exists>t. run_ops post pend (map Post ms) s = (ms, [], t) \<and> contents t = contents s @ ms \<and> qinv t"
proof (induction ms arbitrary: s)
  case (Cons m ms)
  then have "length (contents s) < cap s" by simp
  from post_room [OF Cons.prems(1) this, of m] obtain s' where s': "post m s = Some s'" "qinv s'"
    "contents s' = contents s @ [m]" "cap s' = cap s" by blast
  have "length (contents s') + length ms \<le> cap s'" using Cons.prems(2) s' by simp
  from Cons.IH [OF s'(2) this] obtain t where "run_ops post pend (map Post ms) s' = (ms, [], t)"
    "contents t = contents s' @ ms" "qinv t" by blast
  with s' show ?case by simp
qed simp

end

text \<open>The queue of task \<open>i\<close> in a system whose pool covers the capacities of all its queues.\<close>

definition q_sys :: "nat \<Rightarrow> nat \<Rightarrow> nat \<Rightarrow> os_msgs \<Rightarrow> bool" where
  "q_sys n N i s \<longleftrightarrow> msgs_inv n N s \<and> i < n \<and> (\<Sum>j < n. NbrEntriesSize (MsgQ s j)) \<le> N"

definition post_fifo :: "nat \<Rightarrow> message \<Rightarrow> os_msgs \<Rightarrow> os_msgs option" where
  "post_fifo i m s = (case OS_MsgQPut i m OS_OPT_POST_FIFO s of
     Some (OS_ERR_NONE, s') \<Rightarrow> Some s' | _ \<Rightarrow> None)"

definition pend_now :: "nat \<Rightarrow> os_msgs \<Rightarrow> (message \<times> os_msgs) option" where
  "pend_now i s = (case OS_MsgQGet i s of Some (OS_ERR_NONE, m, s') \<Rightarrow> Some (m, s') | _ \<Rightarrow> None)"

lemma inv_capacity:
  assumes "msgs_inv n N s" and "j < n"
  shows "length (queued s j) \<le> NbrEntriesSize (MsgQ s j)"
proof -
  from assms obtain cs where c: "q_chain (cells s) (MsgQ s j) (cs j)" by (auto simp: msgs_inv_def owned_def)
  then show ?thesis by (simp add: queued_chain [OF c]) (simp add: q_chain_def)
qed

lemma pool_never_short:
  assumes "q_sys n N i s" and "length (queued s i) < NbrEntriesSize (MsgQ s i)"
  shows "sum_list (map length (queues n s)) \<noteq> N"
proof -
  have i: "i \<in> {..<n}" using assms(1) by (simp add: q_sys_def)
  have "(\<Sum>j < n. length (queued s j)) < (\<Sum>j < n. NbrEntriesSize (MsgQ s j))"
    by (rule sum_strict_mono_ex1) (use assms i inv_capacity in \<open>auto simp: q_sys_def\<close>)
  moreover have "sum_list (map length (queues n s)) = (\<Sum>j < n. length (queued s j))"
    unfolding queues_def by (rule sum_lengths)
  ultimately show ?thesis using assms(1) by (simp add: q_sys_def)
qed

lemma post_fifo_room:
  assumes "q_sys n N i s" and "length (queued s i) < NbrEntriesSize (MsgQ s i)"
  shows "\<exists>s'. post_fifo i m s = Some s' \<and> q_sys n N i s' \<and> queues n s' = (queues n s)[i := queued s i @ [m]]
    \<and> (\<forall>j. NbrEntriesSize (MsgQ s' j) = NbrEntriesSize (MsgQ s j))"
proof -
  have inv: "msgs_inv n N s" "i < n" using assms(1) by (simp_all add: q_sys_def)
  obtain e s' where s': "OS_MsgQPut i m OS_OPT_POST_FIFO s = Some (e, s')" "msgs_inv n N s'"
    "(e, queues n s') = abs_put (NbrEntriesSize (MsgQ s i)) N i m OS_OPT_POST_FIFO (queues n s)"
    "\<forall>j. NbrEntriesSize (MsgQ s' j) = NbrEntriesSize (MsgQ s j)"
    using put_refines [OF inv, of m OS_OPT_POST_FIFO] by blast
  have "abs_put (NbrEntriesSize (MsgQ s i)) N i m OS_OPT_POST_FIFO (queues n s)
      = (OS_ERR_NONE, (queues n s)[i := queued s i @ [m]])"
    using assms(2) pool_never_short [OF assms] inv(2) by (simp add: abs_put_def queues_nth linked_def)
  then show ?thesis using s' assms(1) by (simp add: post_fifo_def q_sys_def)
qed

interpretation task_q: bounded_fifo "q_sys n N i" "\<lambda>s. queued s i" "\<lambda>s. NbrEntriesSize (MsgQ s i)"
  "post_fifo i" "pend_now i" for n N i
proof
  fix s m
  assume s: "q_sys n N i s"
  then have inv: "msgs_inv n N s" "i < n" by (simp_all add: q_sys_def)
  show "\<exists>s'. post_fifo i m s = Some s' \<and> q_sys n N i s' \<and> queued s' i = queued s i @ [m]
      \<and> NbrEntriesSize (MsgQ s' i) = NbrEntriesSize (MsgQ s i)"
    if "length (queued s i) < NbrEntriesSize (MsgQ s i)"
    using post_fifo_room [OF s that, of m] inv(2)
    by (metis length_queues nth_list_update_eq queues_nth)
  show "post_fifo i m s = None" if "NbrEntriesSize (MsgQ s i) \<le> length (queued s i)"
    using put_refines [OF inv, of m OS_OPT_POST_FIFO] that inv(2)
    by (auto simp: post_fifo_def abs_put_def queues_nth)
  show "\<exists>s'. pend_now i s = Some (m, s') \<and> q_sys n N i s' \<and> queued s' i = ms
      \<and> NbrEntriesSize (MsgQ s' i) = NbrEntriesSize (MsgQ s i)" if "queued s i = m # ms" for ms
    using get_refines [OF inv] that s inv(2)
    by (auto simp: pend_now_def abs_get_def queues_nth q_sys_def)
      (metis length_queues nth_list_update_eq queues_nth)
  show "pend_now i s = None" if "queued s i = []"
    using get_refines [OF inv] that inv(2) by (auto simp: pend_now_def abs_get_def queues_nth)
qed

section \<open>The queues of the firmware\<close>

lemma pool_init_inv:
  assumes "0 < N" and "\<forall>i < n. \<exists>cap t. MsgQ s i = MsgQ (OS_MsgQInit i cap t) i"
  shows "\<exists>s'. OS_MsgPoolInit (Some b) N s = (OS_ERR_NONE, s') \<and> msgs_inv n N s'
    \<and> queues n s' = replicate n []"
proof -
  define s' where "s' = s\<lparr>cells := OS_MsgPoolCreate b N (cells s), PoolNextPtr := Some b,
    NbrFree := N, NbrUsed := 0, NbrUsedMax := 0\<rparr>"
  have "b + Suc (N - 1) = b + N" using assms(1) by simp
  then have "path (OS_MsgPoolCreate b N (cells s)) (Some b) [b..<b + N]"
    using pool_loop_path [of "N - 1" b "cells s"] by (simp only: OS_MsgPoolCreate_def)
  moreover have "q_chain (cells s') (MsgQ s' i) []" if "i < n" for i
    using assms(2) that by (fastforce simp: s'_def q_chain_def OS_MsgQInit_def)
  ultimately have o: "owned n N [b..<b + N] (\<lambda>_. []) s'"
    by (simp add: owned_def s'_def)
  then have "queues n s' = replicate n []"
    by (simp add: queues_owned map_replicate_const)
  then show ?thesis
    using o assms(1) by (auto simp: OS_MsgPoolInit_def s'_def msgs_inv_def)
qed

text \<open>Zeroed memory, with the queues of the listed capacities initialised.\<close>

definition blank_msgs :: "nat list \<Rightarrow> os_msgs" where
  "blank_msgs caps = \<lparr>cells = (\<lambda>_. \<lparr>NextPtr = None, MsgPtr = 0, MsgSize = 0, MsgTS = 0\<rparr>),
     PoolNextPtr = None, NbrFree = 0, NbrUsed = 0, NbrUsedMax = 0,
     MsgQ = (\<lambda>i. \<lparr>InPtr = None, OutPtr = None,
               NbrEntriesSize = (if i < length caps then caps ! i else 0),
               NbrEntries = 0, NbrEntriesMax = 0\<rparr>)\<rparr>"

lemma blank_queue: "\<exists>cap t. MsgQ (blank_msgs caps) i = MsgQ (OS_MsgQInit i cap t) i"
  by (auto simp: blank_msgs_def OS_MsgQInit_def)

text \<open>
  The kernel as main.c starts it: a pool of 100 messages and the task queues of the CAN, scan,
  handle and meter tasks (10 entries each) and of the screen and PLC tasks (none).
\<close>

definition csu_msgs :: os_msgs where
  "csu_msgs = snd (OS_MsgPoolInit (Some 0) 100 (blank_msgs [10, 10, 10, 10, 0, 0]))"

lemma csu_msgs_inv: "msgs_inv 6 100 csu_msgs" "queues 6 csu_msgs = replicate 6 []"
proof -
  obtain s' where "OS_MsgPoolInit (Some 0) 100 (blank_msgs [10, 10, 10, 10, 0, 0]) = (OS_ERR_NONE, s')"
    "msgs_inv 6 100 s'" "queues 6 s' = replicate 6 []"
    using pool_init_inv [of 100 6 "blank_msgs [10, 10, 10, 10, 0, 0]" 0] blank_queue by auto
  then show "msgs_inv 6 100 csu_msgs" "queues 6 csu_msgs = replicate 6 []" by (simp_all add: csu_msgs_def)
qed

lemma csu_msgs_caps: "NbrEntriesSize (MsgQ csu_msgs i) = (if i < 6 then [10, 10, 10, 10, 0, 0] ! i else 0)"
  by (simp add: csu_msgs_def OS_MsgPoolInit_def blank_msgs_def)

lemma replicate_update: "(replicate n x)[i := x] = replicate n x"
  by (cases "i < n") (auto intro!: nth_equalityI simp: nth_list_update)

lemma csu_msgs_queued: "i < 6 \<Longrightarrow> queued csu_msgs i = []"
  using csu_msgs_inv(2) queues_nth [of i 6 csu_msgs] by simp

lemma csu_q_sys: "i < 6 \<Longrightarrow> q_sys 6 100 i csu_msgs"
  using csu_msgs_inv by (simp add: q_sys_def csu_msgs_caps eval_nat_numeral)

section \<open>Properties\<close>

text \<open>C24: A deposit on linked cells implements the abstract queues: it never follows a null pointer,
  keeps every cell in exactly one place, refuses a full queue, then an exhausted pool, and
  otherwise adds the message at the end (FIFO) or the front (LIFO) of that queue alone.\<close>

theorem OS_MsgQPut_refines:
  assumes "msgs_inv n N s" and "i < n"
  shows "\<exists>e s'. OS_MsgQPut i m opt s = Some (e, s') \<and> msgs_inv n N s'
    \<and> (e, queues n s') = abs_put (NbrEntriesSize (MsgQ s i)) N i m opt (queues n s)"
  using put_refines [OF assms, of m opt] by blast

theorem OS_MsgQPut_refines_witness:
  "\<exists>e s'. OS_MsgQPut 0 (7, 3, 0) OS_OPT_POST_FIFO csu_msgs = Some (e, s') \<and> msgs_inv 6 100 s'
    \<and> (e, queues 6 s') = abs_put 10 100 0 (7, 3, 0) OS_OPT_POST_FIFO (replicate 6 [])"
  using OS_MsgQPut_refines [OF csu_msgs_inv(1), of 0 "(7, 3, 0)" OS_OPT_POST_FIFO]
  by (simp add: csu_msgs_caps csu_msgs_inv(2))

text \<open>A retrieval takes the oldest message of its queue, or answers \<open>OS_ERR_Q_EMPTY\<close>, and keeps
  the invariant and all other queues, although the tail of a queue may point anywhere.\<close>

lemma OS_MsgQGet_refines:
  assumes "msgs_inv n N s" and "i < n"
  shows "\<exists>e m s'. OS_MsgQGet i s = Some (e, m, s') \<and> msgs_inv n N s'
    \<and> (e, m, queues n s') = abs_get i (queues n s)"
  using get_refines [OF assms] by blast

text \<open>Flushing a queue returns its length, empties it, and gives all its cells back.\<close>

lemma OS_MsgQFreeAll_refines:
  assumes "msgs_inv n N s" and "i < n"
  shows "\<exists>s'. OS_MsgQFreeAll i s = Some (length (queued s i), s') \<and> msgs_inv n N s'
    \<and> queues n s' = (queues n s)[i := []]"
proof -
  from assms(1) obtain fr cs where o: "owned n N fr cs s" by (auto simp: msgs_inv_def)
  obtain s' where s': "OS_MsgQFreeAll i s = Some (length (cs i), s')"
    "owned n N (cs i @ fr) (cs(i := [])) s'" "\<forall>b. message_of (cells s' b) = message_of (cells s b)"
    using free_all_result [OF o assms(2)] by blast
  have "queues n s' = map ((\<lambda>j. map (\<lambda>a. message_of (cells s a)) (cs j))(i := [])) [0..<n]"
    unfolding queues_owned [OF s'(2)] using s'(3) by (intro map_cong) auto
  also have "\<dots> = (queues n s)[i := []]"
    using assms(2) by (simp add: map_upt_update queues_owned [OF o])
  finally show ?thesis
    using s' owned_counts(3) [OF o assms(2)] assms(2) by (auto simp: msgs_inv_def queues_nth)
qed

text \<open>Start-up: the pool initialisation links the cells into one free list; with all queues
  initialised the invariant holds and every queue is empty.\<close>

lemma OS_MsgPoolInit_establishes:
  assumes "0 < N" and "\<forall>i < n. \<exists>cap t. MsgQ s i = MsgQ (OS_MsgQInit i cap t) i"
  shows "\<exists>s'. OS_MsgPoolInit (Some b) N s = (OS_ERR_NONE, s') \<and> msgs_inv n N s'
    \<and> queues n s' = replicate n []"
  using pool_init_inv [OF assms] .

text \<open>C25: However posts and retrievals on one task's queue are interleaved, with a pool that covers
  the capacities of all queues, the messages delivered are the ones queued before followed by the
  accepted ones, in order, the rest being still in the queue; nothing is lost or repeated.\<close>

theorem task_queue_fifo:
  assumes "q_sys n N i s" and "run_ops (post_fifo i) (pend_now i) ops s = (acc, del, t)"
  shows "queued s i @ acc = del @ queued t i \<and> q_sys n N i t"
  using task_q.run_fifo [OF assms] by blast

theorem task_queue_fifo_witness:
  "\<exists>acc del t. run_ops (post_fifo 0) (pend_now 0) [Post (1, 3, 0), Post (2, 3, 0), Pend] csu_msgs = (acc, del, t)
    \<and> acc = del @ queued t 0"
proof -
  obtain acc del t where r:
    "run_ops (post_fifo 0) (pend_now 0) [Post (1, 3, 0), Post (2, 3, 0), Pend] csu_msgs = (acc, del, t)"
    by (metis prod_cases3)
  have "0 < (6 :: nat)" by simp
  from task_queue_fifo [OF csu_q_sys [OF this] r] csu_msgs_queued [OF this] r show ?thesis by simp
qed

text \<open>A burst of messages that fits into the queue is accepted completely.\<close>

lemma task_queue_burst:
  assumes "q_sys n N i s" and "length (queued s i) + length ms \<le> NbrEntriesSize (MsgQ s i)"
  shows "\<exists>t. run_ops (post_fifo i) (pend_now i) (map Post ms) s = (ms, [], t)
    \<and> queued t i = queued s i @ ms"
  using task_q.run_posts [OF assms] by blast

end
