(* ===== verification/Os_Core.thy ===== *)
theory Os_Core
  imports Os_Msg
begin

text \<open>
  The scheduler of the kernel (UCOSIII/uCOS-III/Source): the table of ready priorities
  (os_prio.c), the ready lists, one doubly linked list of task control blocks per priority, and
  the choice of the next task (os_core.c).  Control blocks live at addresses; a null pointer is
  \<^const>\<open>None\<close>, and following one, or leaving a table, makes an operation return \<^const>\<open>None\<close>.
  The lengths of the ready lists are natural numbers: the control blocks are distinct objects in
  192 KB of memory, so the 16-bit counters of the code do not wrap.
\<close>

section \<open>State\<close>

record os_tcb =
  NextTcb :: ptr
  PrevTcb :: ptr
  TickNextPtr :: ptr
  TickPrevPtr :: ptr
  TickSpokePtr :: "nat option"
  PendOn :: u8
  PendStatus :: u8
  TaskState :: u8
  Prio :: u8
  TS :: u32
  TickCtrPrev :: u32
  TickCtrMatch :: u32
  TickRemain :: u32
  TimeQuanta :: u32
  TimeQuantaCtr :: u32
  TcbMsgPtr :: nat
  TcbMsgSize :: u16
  SemCtr :: u32
  SuspendCtr :: u8
  CtxSwCtr :: u32

record os_rdy_list =
  HeadPtr :: ptr
  TailPtr :: ptr
  RdyEntries :: nat

record os_tick_spoke =
  FirstPtr :: ptr
  SpokeEntries :: nat
  SpokeEntriesMax :: nat

text \<open>The kernel's globals; \<open>msgs\<close> is the message pool with the queue of every task.\<close>

record os_kernel =
  tcb :: "nat \<Rightarrow> os_tcb"
  OSRdyList :: "nat \<Rightarrow> os_rdy_list"
  OSPrioTbl :: "u32 list"
  OSCfg_TickWheel :: "nat \<Rightarrow> os_tick_spoke"
  OSTickCtr :: u32
  OSPrioCur :: u8
  OSPrioHighRdy :: u8
  OSTCBCurPtr :: nat
  OSTCBHighRdyPtr :: ptr
  OSIntNestingCtr :: u8
  OSSchedLockNestingCtr :: u8
  OSRunning :: bool
  OSSchedRoundRobinEn :: bool
  OSSchedRoundRobinDfltTimeQuanta :: u32
  OSTaskCtxSwCtr :: u32
  OSIdleTaskTCB :: nat
  OSTickTaskTCB :: nat
  OSTmrTaskTCB :: nat
  OSTmrUpdateCnt :: u32
  OSTmrUpdateCtr :: u32
  msgs :: os_msgs

abbreviation (input) OS_CFG_PRIO_MAX :: nat where "OS_CFG_PRIO_MAX \<equiv> 32"

definition upd_tcb :: "nat \<Rightarrow> (os_tcb \<Rightarrow> os_tcb) \<Rightarrow> os_kernel \<Rightarrow> os_kernel" where
  "upd_tcb p f k = k\<lparr>tcb := (tcb k)(p := f (tcb k p))\<rparr>"

definition upd_rdy :: "nat \<Rightarrow> (os_rdy_list \<Rightarrow> os_rdy_list) \<Rightarrow> os_kernel \<Rightarrow> os_kernel" where
  "upd_rdy i f k = k\<lparr>OSRdyList := (OSRdyList k)(i := f (OSRdyList k i))\<rparr>"

section \<open>The table of ready priorities (os_prio.c)\<close>

definition OS_PrioInit :: "os_kernel \<Rightarrow> os_kernel" where
  "OS_PrioInit k = k\<lparr>OSPrioTbl := map (\<lambda>_. 0) (OSPrioTbl k)\<rparr>"

text \<open>\<open>CLZ\<close>: the number of zero bits above the highest bit set.\<close>

primrec clz_bits :: "nat \<Rightarrow> u32 \<Rightarrow> nat" where
  "clz_bits 0 w = 0"
| "clz_bits (Suc n) w = (if bit w n then 0 else Suc (clz_bits n w))"

definition CPU_CntLeadZeros :: "u32 \<Rightarrow> u32" where
  "CPU_CntLeadZeros w = of_nat (clz_bits 32 w)"

text \<open>The search stops at the first word of the table that is not 0, and leaves a table of zeros.\<close>

primrec prio_search :: "u32 list \<Rightarrow> u8 \<Rightarrow> u8 option" where
  "prio_search [] prio = None"
| "prio_search (w # tbl) prio =
     (if w = 0 then prio_search tbl (prio + 32) else Some (prio + ucast (CPU_CntLeadZeros w)))"

definition OS_PrioGetHighest :: "os_kernel \<Rightarrow> u8 option" where
  "OS_PrioGetHighest k = prio_search (OSPrioTbl k) 0"

definition prio_mask :: "u8 \<Rightarrow> u32" where
  "prio_mask prio =
     (let bit_nbr = (ucast prio AND (32 - 1) :: u32) in push_bit (unat ((32 - 1) - bit_nbr)) 1)"

definition OS_PrioInsert :: "u8 \<Rightarrow> os_kernel \<Rightarrow> os_kernel option" where
  "OS_PrioInsert prio k =
     (let ix = unat (prio div 32)
      in if ix < length (OSPrioTbl k)
         then Some (k\<lparr>OSPrioTbl := (OSPrioTbl k)[ix := OSPrioTbl k ! ix OR prio_mask prio]\<rparr>)
         else None)"

definition OS_PrioRemove :: "u8 \<Rightarrow> os_kernel \<Rightarrow> os_kernel option" where
  "OS_PrioRemove prio k =
     (let ix = unat (prio div 32)
      in if ix < length (OSPrioTbl k)
         then Some (k\<lparr>OSPrioTbl := (OSPrioTbl k)[ix := OSPrioTbl k ! ix AND NOT (prio_mask prio)]\<rparr>)
         else None)"

section \<open>The ready lists (os_core.c)\<close>

text \<open>\<open>&OSRdyList[p_tcb->Prio]\<close>, with the bound of the table.\<close>

definition rdy_ix :: "nat \<Rightarrow> os_kernel \<Rightarrow> nat option" where
  "rdy_ix p k = (let i = unat (Prio (tcb k p)) in if i < OS_CFG_PRIO_MAX then Some i else None)"

definition OS_RdyListInit :: "os_kernel \<Rightarrow> os_kernel" where
  "OS_RdyListInit k =
     k\<lparr>OSRdyList := \<lambda>i. if i < OS_CFG_PRIO_MAX
        then \<lparr>HeadPtr = None, TailPtr = None, RdyEntries = 0\<rparr> else OSRdyList k i\<rparr>"

definition rdy_first :: "nat \<Rightarrow> nat \<Rightarrow> os_kernel \<Rightarrow> os_kernel" where
  "rdy_first p i k =
     upd_rdy i (\<lambda>_. \<lparr>HeadPtr = Some p, TailPtr = Some p, RdyEntries = 1\<rparr>)
       (upd_tcb p (\<lambda>t. t\<lparr>NextTcb := None, PrevTcb := None\<rparr>) k)"

definition OS_RdyListInsertHead :: "nat \<Rightarrow> os_kernel \<Rightarrow> os_kernel option" where
  "OS_RdyListInsertHead p k =
     do { i \<leftarrow> rdy_ix p k;
          if RdyEntries (OSRdyList k i) = 0 then Some (rdy_first p i k)
          else do {
            let k = upd_rdy i (\<lambda>r. r\<lparr>RdyEntries := RdyEntries r + 1\<rparr>) k;
            let k = upd_tcb p (\<lambda>t. t\<lparr>NextTcb := HeadPtr (OSRdyList k i), PrevTcb := None\<rparr>) k;
            p2 \<leftarrow> HeadPtr (OSRdyList k i);
            let k = upd_tcb p2 (\<lambda>t. t\<lparr>PrevTcb := Some p\<rparr>) k;
            Some (upd_rdy i (\<lambda>r. r\<lparr>HeadPtr := Some p\<rparr>) k) } }"

definition OS_RdyListInsertTail :: "nat \<Rightarrow> os_kernel \<Rightarrow> os_kernel option" where
  "OS_RdyListInsertTail p k =
     do { i \<leftarrow> rdy_ix p k;
          if RdyEntries (OSRdyList k i) = 0 then Some (rdy_first p i k)
          else do {
            let k = upd_rdy i (\<lambda>r. r\<lparr>RdyEntries := RdyEntries r + 1\<rparr>) k;
            let k = upd_tcb p (\<lambda>t. t\<lparr>NextTcb := None, PrevTcb := TailPtr (OSRdyList k i)\<rparr>) k;
            p2 \<leftarrow> TailPtr (OSRdyList k i);
            let k = upd_tcb p2 (\<lambda>t. t\<lparr>NextTcb := Some p\<rparr>) k;
            Some (upd_rdy i (\<lambda>r. r\<lparr>TailPtr := Some p\<rparr>) k) } }"

definition OS_RdyListInsert :: "nat \<Rightarrow> os_kernel \<Rightarrow> os_kernel option" where
  "OS_RdyListInsert p k =
     do { k \<leftarrow> OS_PrioInsert (Prio (tcb k p)) k;
          if Prio (tcb k p) = OSPrioCur k then OS_RdyListInsertTail p k
          else OS_RdyListInsertHead p k }"

definition OS_RdyListMoveHeadToTail :: "nat \<Rightarrow> os_kernel \<Rightarrow> os_kernel option" where
  "OS_RdyListMoveHeadToTail i k =
     (let r = OSRdyList k i
      in if RdyEntries r = 0 \<or> RdyEntries r = 1 then Some k
         else if RdyEntries r = 2 then
           do { p1 \<leftarrow> HeadPtr r; p2 \<leftarrow> TailPtr r;
                let k = upd_tcb p1 (\<lambda>t. t\<lparr>PrevTcb := Some p2, NextTcb := None\<rparr>) k;
                let k = upd_tcb p2 (\<lambda>t. t\<lparr>PrevTcb := None, NextTcb := Some p1\<rparr>) k;
                Some (upd_rdy i (\<lambda>r. r\<lparr>HeadPtr := Some p2, TailPtr := Some p1\<rparr>) k) }
         else
           do { p1 \<leftarrow> HeadPtr r; p2 \<leftarrow> TailPtr r; p3 \<leftarrow> NextTcb (tcb k p1);
                let k = upd_tcb p3 (\<lambda>t. t\<lparr>PrevTcb := None\<rparr>) k;
                let k = upd_tcb p1 (\<lambda>t. t\<lparr>NextTcb := None, PrevTcb := Some p2\<rparr>) k;
                let k = upd_tcb p2 (\<lambda>t. t\<lparr>NextTcb := Some p1\<rparr>) k;
                Some (upd_rdy i (\<lambda>r. r\<lparr>HeadPtr := Some p3, TailPtr := Some p1\<rparr>) k) })"

definition OS_RdyListRemove :: "nat \<Rightarrow> os_kernel \<Rightarrow> os_kernel option" where
  "OS_RdyListRemove p k =
     do { i \<leftarrow> rdy_ix p k;
          k \<leftarrow> (case PrevTcb (tcb k p) of
             None \<Rightarrow>
               (case NextTcb (tcb k p) of
                  None \<Rightarrow> OS_PrioRemove (Prio (tcb k p))
                    (upd_rdy i (\<lambda>_. \<lparr>HeadPtr = None, TailPtr = None, RdyEntries = 0\<rparr>) k)
                | Some p2 \<Rightarrow>
                    Some (upd_rdy i (\<lambda>r. r\<lparr>RdyEntries := RdyEntries r - 1, HeadPtr := Some p2\<rparr>)
                      (upd_tcb p2 (\<lambda>t. t\<lparr>PrevTcb := None\<rparr>) k)))
           | Some p1 \<Rightarrow>
               (let k = upd_rdy i (\<lambda>r. r\<lparr>RdyEntries := RdyEntries r - 1\<rparr>)
                          (upd_tcb p1 (\<lambda>t. t\<lparr>NextTcb := NextTcb (tcb k p)\<rparr>) k)
                in case NextTcb (tcb k p) of
                     None \<Rightarrow> Some (upd_rdy i (\<lambda>r. r\<lparr>TailPtr := Some p1\<rparr>) k)
                   | Some p2 \<Rightarrow> Some (upd_tcb p2 (\<lambda>t. t\<lparr>PrevTcb := Some p1\<rparr>) k)));
          Some (upd_tcb p (\<lambda>t. t\<lparr>PrevTcb := None, NextTcb := None\<rparr>) k) }"

section \<open>The choice of the next task\<close>

text \<open>
  \<open>OS_TASK_SW\<close> and \<open>OSIntCtxSw\<close> request the context switch of os_cpu_a.asm, which happens when
  interrupts are enabled again, as the last thing these routines do.
\<close>

definition context_switch :: "os_kernel \<Rightarrow> os_kernel option" where
  "context_switch k =
     map_option (\<lambda>p. k\<lparr>OSPrioCur := OSPrioHighRdy k, OSTCBCurPtr := p\<rparr>) (OSTCBHighRdyPtr k)"

definition switch_highest :: "os_kernel \<Rightarrow> os_kernel option" where
  "switch_highest k =
     do { pr \<leftarrow> OS_PrioGetHighest k;
          let k = k\<lparr>OSPrioHighRdy := pr, OSTCBHighRdyPtr := HeadPtr (OSRdyList k (unat pr))\<rparr>;
          if OSTCBHighRdyPtr k = Some (OSTCBCurPtr k) then Some k
          else do {
            p \<leftarrow> OSTCBHighRdyPtr k;
            let k = upd_tcb p (\<lambda>t. t\<lparr>CtxSwCtr := CtxSwCtr t + 1\<rparr>) k;
            context_switch (k\<lparr>OSTaskCtxSwCtr := OSTaskCtxSwCtr k + 1\<rparr>) } }"

definition OSSched :: "os_kernel \<Rightarrow> os_kernel option" where
  "OSSched k =
     (if 0 < OSIntNestingCtr k then Some k
      else if 0 < OSSchedLockNestingCtr k then Some k
      else switch_highest k)"

definition OSIntEnter :: "os_kernel \<Rightarrow> os_kernel" where
  "OSIntEnter k =
     (if \<not> OSRunning k then k
      else if 250 \<le> OSIntNestingCtr k then k
      else k\<lparr>OSIntNestingCtr := OSIntNestingCtr k + 1\<rparr>)"

definition OSIntExit :: "os_kernel \<Rightarrow> os_kernel option" where
  "OSIntExit k =
     (if \<not> OSRunning k then Some k
      else if OSIntNestingCtr k = 0 then Some k
      else let k = k\<lparr>OSIntNestingCtr := OSIntNestingCtr k - 1\<rparr>
           in if 0 < OSIntNestingCtr k then Some k
              else if 0 < OSSchedLockNestingCtr k then Some k
              else switch_highest k)"

text \<open>Locking the scheduler; the measurement of the lock time is left out.\<close>

definition OSSchedLock :: "os_kernel \<Rightarrow> OS_ERR \<times> os_kernel" where
  "OSSchedLock k =
     (if 0 < OSIntNestingCtr k then (OS_ERR_SCHED_LOCK_ISR, k)
      else if \<not> OSRunning k then (OS_ERR_OS_NOT_RUNNING, k)
      else if 250 \<le> OSSchedLockNestingCtr k then (OS_ERR_LOCK_NESTING_OVF, k)
      else (OS_ERR_NONE, k\<lparr>OSSchedLockNestingCtr := OSSchedLockNestingCtr k + 1\<rparr>))"

definition OSSchedUnlock :: "os_kernel \<Rightarrow> (OS_ERR \<times> os_kernel) option" where
  "OSSchedUnlock k =
     (if 0 < OSIntNestingCtr k then Some (OS_ERR_SCHED_UNLOCK_ISR, k)
      else if \<not> OSRunning k then Some (OS_ERR_OS_NOT_RUNNING, k)
      else if OSSchedLockNestingCtr k = 0 then Some (OS_ERR_SCHED_NOT_LOCKED, k)
      else let k = k\<lparr>OSSchedLockNestingCtr := OSSchedLockNestingCtr k - 1\<rparr>
           in if 0 < OSSchedLockNestingCtr k then Some (OS_ERR_SCHED_LOCKED, k)
              else map_option (Pair OS_ERR_NONE) (OSSched k))"

text \<open>Time slicing between the tasks of one priority.\<close>

definition fresh_quanta :: "nat \<Rightarrow> os_kernel \<Rightarrow> os_kernel option" where
  "fresh_quanta i k =
     do { p \<leftarrow> HeadPtr (OSRdyList k i);
          Some (upd_tcb p (\<lambda>t. t\<lparr>TimeQuantaCtr :=
            if TimeQuanta t = 0 then OSSchedRoundRobinDfltTimeQuanta k else TimeQuanta t\<rparr>) k) }"

definition OS_SchedRoundRobin :: "nat \<Rightarrow> os_kernel \<Rightarrow> os_kernel option" where
  "OS_SchedRoundRobin i k =
     (if \<not> OSSchedRoundRobinEn k then Some k
      else case HeadPtr (OSRdyList k i) of
        None \<Rightarrow> Some k
      | Some p \<Rightarrow>
          if p = OSIdleTaskTCB k then Some k
          else let k = (if 0 < TimeQuantaCtr (tcb k p)
                        then upd_tcb p (\<lambda>t. t\<lparr>TimeQuantaCtr := TimeQuantaCtr t - 1\<rparr>) k else k)
               in if 0 < TimeQuantaCtr (tcb k p) then Some k
                  else if RdyEntries (OSRdyList k i) < 2 then Some k
                  else if 0 < OSSchedLockNestingCtr k then Some k
                  else Option.bind (OS_RdyListMoveHeadToTail i k) (fresh_quanta i))"

definition OSSchedRoundRobinYield :: "os_kernel \<Rightarrow> (OS_ERR \<times> os_kernel) option" where
  "OSSchedRoundRobinYield k =
     (if 0 < OSIntNestingCtr k then Some (OS_ERR_YIELD_ISR, k)
      else if 0 < OSSchedLockNestingCtr k then Some (OS_ERR_SCHED_LOCKED, k)
      else if \<not> OSSchedRoundRobinEn k then Some (OS_ERR_ROUND_ROBIN_DISABLED, k)
      else let i = unat (OSPrioCur k)
           in if RdyEntries (OSRdyList k i) < 2 then Some (OS_ERR_ROUND_ROBIN_1, k)
              else do { k \<leftarrow> OS_RdyListMoveHeadToTail i k;
                        k \<leftarrow> fresh_quanta i k;
                        map_option (Pair OS_ERR_NONE) (OSSched k) })"

section \<open>The table of ready priorities as a set\<close>

lemma unat_ucast_8_32 [simp]: "unat (ucast (n :: u8) :: u32) = unat n"
proof -
  have "unat n < 2 ^ 32" using unsigned_less [of n, where ?'a = nat] by simp
  then show ?thesis by (simp add: unsigned_ucast_eq take_bit_nat_eq_self)
qed

lemma ucast_of_nat_32_8: "(ucast (of_nat i :: u32) :: u8) = of_nat i"
  by (rule bit_word_eqI) (simp add: bit_simps)

lemma bit_prio_mask:
  assumes "unat pr < 32"
  shows "bit (prio_mask pr) n \<longleftrightarrow> n = 31 - unat pr"
proof -
  have "(ucast pr :: u32) < 2 ^ 5" using assms by (simp add: word_less_nat_alt)
  then have "ucast pr AND (31 :: u32) = ucast pr"
    using less_mask_eq [of "ucast pr :: u32" 5] by (simp add: mask_eq_exp_minus_1)
  moreover have "unat (31 - ucast pr :: u32) = 31 - unat pr"
    using assms by (simp add: unat_sub word_le_nat_alt)
  ultimately show ?thesis using assms
    by (auto simp: prio_mask_def Let_def bit_exp_iff)
qed

lemma prio_table_index: "unat pr < 32 \<Longrightarrow> unat (pr div 32 :: u8) = 0"
  by (simp add: unat_div)

lemma PrioInsert_bits:
  assumes "unat pr < 32" and "length (OSPrioTbl k) = 1"
  shows "\<exists>t. OS_PrioInsert pr k = Some (k\<lparr>OSPrioTbl := [t]\<rparr>)
    \<and> (\<forall>i < 32. bit t (31 - i) \<longleftrightarrow> bit (OSPrioTbl k ! 0) (31 - i) \<or> i = unat pr)"
proof -
  obtain w where w: "OSPrioTbl k = [w]" using assms(2) by (cases "OSPrioTbl k") auto
  have "i = unat pr" if "i < 32" "31 - i = 31 - unat pr" for i
    using that assms(1) by linarith
  then have "\<forall>i < 32. bit (w OR prio_mask pr) (31 - i) \<longleftrightarrow> bit w (31 - i) \<or> i = unat pr"
    using assms(1) by (auto simp: bit_or_iff bit_prio_mask)
  then show ?thesis
    using assms(1) w by (intro exI [of _ "w OR prio_mask pr"]) (simp add: OS_PrioInsert_def prio_table_index)
qed

lemma PrioRemove_bits:
  assumes "unat pr < 32" and "length (OSPrioTbl k) = 1"
  shows "\<exists>t. OS_PrioRemove pr k = Some (k\<lparr>OSPrioTbl := [t]\<rparr>)
    \<and> (\<forall>i < 32. bit t (31 - i) \<longleftrightarrow> bit (OSPrioTbl k ! 0) (31 - i) \<and> i \<noteq> unat pr)"
proof -
  obtain w where w: "OSPrioTbl k = [w]" using assms(2) by (cases "OSPrioTbl k") auto
  have "i = unat pr" if "i < 32" "31 - i = 31 - unat pr" for i
    using that assms(1) by linarith
  then have "\<forall>i < 32. bit (w AND NOT (prio_mask pr)) (31 - i) \<longleftrightarrow> bit w (31 - i) \<and> i \<noteq> unat pr"
    using assms(1) by (auto simp: bit_and_iff bit_not_iff bit_prio_mask)
  then show ?thesis
    using assms(1) w by (intro exI [of _ "w AND NOT (prio_mask pr)"]) (simp add: OS_PrioRemove_def prio_table_index)
qed

lemma clz_bits_le: "clz_bits n w \<le> n"
  by (induction n) auto

lemma clz_bits_highest:
  assumes "i < n" and "bit w (n - 1 - i)" and "\<And>j. j < i \<Longrightarrow> \<not> bit w (n - 1 - j)"
  shows "clz_bits n w = i"
  using assms
proof (induction n arbitrary: i)
  case (Suc n)
  show ?case
  proof (cases i)
    case (Suc i')
    have "\<not> bit w n" using Suc.prems(3) [of 0] Suc by simp
    moreover have "clz_bits n w = i'"
      by (rule Suc.IH) (use Suc.prems Suc.prems(3) [of "Suc _"] Suc in auto)
    ultimately show ?thesis using Suc by simp
  qed (use Suc.prems in simp)
qed simp

lemma prio_highest:
  assumes "OSPrioTbl k = [w]" and "i < 32" and "bit w (31 - i)" and "\<And>j. j < i \<Longrightarrow> \<not> bit w (31 - j)"
  shows "OS_PrioGetHighest k = Some (of_nat i)"
proof -
  have "w \<noteq> 0" using assms(3) by auto
  moreover have "clz_bits 32 w = i" using assms(2-4) by (intro clz_bits_highest) simp_all
  ultimately show ?thesis using assms(1,2)
    by (simp add: OS_PrioGetHighest_def CPU_CntLeadZeros_def ucast_of_nat_32_8)
qed

section \<open>The ready lists as lists\<close>

abbreviation nxt :: "os_kernel \<Rightarrow> nat \<Rightarrow> ptr" where "nxt k x \<equiv> NextTcb (tcb k x)"
abbreviation prv :: "os_kernel \<Rightarrow> nat \<Rightarrow> ptr" where "prv k x \<equiv> PrevTcb (tcb k x)"

definition rdy_list_ok :: "os_kernel \<Rightarrow> nat \<Rightarrow> nat list \<Rightarrow> bool" where
  "rdy_list_ok k i xs \<longleftrightarrow> seg (nxt k) (prv k) None xs None \<and> distinct xs
     \<and> OSRdyList k i = \<lparr>HeadPtr = first_ptr xs None, TailPtr = last_ptr None xs, RdyEntries = length xs\<rparr>
     \<and> (\<forall>x \<in> set xs. unat (Prio (tcb k x)) = i)"

text \<open>\<open>Q i\<close> are the tasks that are ready at priority \<open>i\<close>, in the order they will run.\<close>

definition rdy_inv :: "os_kernel \<Rightarrow> (nat \<Rightarrow> nat list) \<Rightarrow> bool" where
  "rdy_inv k Q \<longleftrightarrow> length (OSPrioTbl k) = 1
     \<and> (\<forall>i < 32. rdy_list_ok k i (Q i) \<and> (bit (OSPrioTbl k ! 0) (31 - i) \<longleftrightarrow> Q i \<noteq> []))"

lemma rdy_list_frame:
  assumes "rdy_list_ok k i xs" and "\<And>x. x \<in> set xs \<Longrightarrow> nxt k' x = nxt k x \<and> prv k' x = prv k x"
    and "\<And>x. Prio (tcb k' x) = Prio (tcb k x)" and "OSRdyList k' i = OSRdyList k i"
  shows "rdy_list_ok k' i xs"
proof -
  have "seg (nxt k') (prv k') None xs None = seg (nxt k) (prv k) None xs None"
    by (rule seg_cong) (use assms(2) in auto)
  then show ?thesis using assms by (simp add: rdy_list_ok_def)
qed

lemma rdy_inv_change:
  assumes "rdy_inv k Q" and "i < 32" and "rdy_list_ok k' i ys"
    and "\<And>x. unat (Prio (tcb k x)) \<noteq> i \<Longrightarrow> nxt k' x = nxt k x \<and> prv k' x = prv k x"
    and "\<And>x. Prio (tcb k' x) = Prio (tcb k x)"
    and "\<And>j. j \<noteq> i \<Longrightarrow> OSRdyList k' j = OSRdyList k j"
    and "length (OSPrioTbl k') = 1"
    and "\<And>j. j < 32 \<Longrightarrow> bit (OSPrioTbl k' ! 0) (31 - j) \<longleftrightarrow>
          (if j = i then ys \<noteq> [] else bit (OSPrioTbl k ! 0) (31 - j))"
  shows "rdy_inv k' (Q(i := ys))"
proof -
  have "rdy_list_ok k' j (Q j)" if "j < 32" "j \<noteq> i" for j
  proof (rule rdy_list_frame)
    show ok: "rdy_list_ok k j (Q j)" using assms(1) that by (simp add: rdy_inv_def)
    show "nxt k' x = nxt k x \<and> prv k' x = prv k x" if "x \<in> set (Q j)" for x
      using ok that assms(4) \<open>j \<noteq> i\<close> by (simp add: rdy_list_ok_def)
  qed (use assms that in simp_all)
  then show ?thesis using assms(1,3,7,8) by (simp add: rdy_inv_def)
qed

lemma rdy_ix_Some: "unat (Prio (tcb k p)) < 32 \<Longrightarrow> rdy_ix p k = Some (unat (Prio (tcb k p)))"
  by (simp add: rdy_ix_def)

lemmas upd_defs = upd_tcb_def upd_rdy_def

text \<open>Only links and the list of priority \<open>i\<close> differ, and the table of priorities.\<close>

definition rdy_frame :: "nat \<Rightarrow> os_kernel \<Rightarrow> os_kernel \<Rightarrow> bool" where
  "rdy_frame i k k' \<longleftrightarrow> k' = k\<lparr>tcb := tcb k', OSRdyList := OSRdyList k', OSPrioTbl := OSPrioTbl k'\<rparr>
     \<and> (\<forall>x. tcb k' x = (tcb k x)\<lparr>NextTcb := nxt k' x, PrevTcb := prv k' x\<rparr>)
     \<and> (\<forall>x. unat (Prio (tcb k x)) \<noteq> i \<longrightarrow> tcb k' x = tcb k x)
     \<and> (\<forall>j. j \<noteq> i \<longrightarrow> OSRdyList k' j = OSRdyList k j)"

lemma rdy_frame_Prio: "rdy_frame i k k' \<Longrightarrow> Prio (tcb k' x) = Prio (tcb k x)"
  unfolding rdy_frame_def by (metis os_tcb.select_convs(9) os_tcb.surjective os_tcb.update_convs(1,2))

lemma rdy_inv_frame:
  assumes "rdy_inv k Q" and "i < 32" and "rdy_list_ok k' i ys" and "rdy_frame i k k'"
    and "length (OSPrioTbl k') = 1"
    and "\<And>j. j < 32 \<Longrightarrow> bit (OSPrioTbl k' ! 0) (31 - j) \<longleftrightarrow>
          (if j = i then ys \<noteq> [] else bit (OSPrioTbl k ! 0) (31 - j))"
  shows "rdy_inv k' (Q(i := ys))"
  by (rule rdy_inv_change [OF assms(1-3)])
    (use assms(4-6) rdy_frame_Prio [OF assms(4)] in \<open>auto simp: rdy_frame_def\<close>)

text \<open>The list operations, one lemma each: they return, and what the list is afterwards.\<close>

lemma InsertHead_list:
  assumes "rdy_list_ok k i xs" and "unat (Prio (tcb k p)) = i" and "i < 32" and "p \<notin> set xs"
  shows "\<exists>k'. OS_RdyListInsertHead p k = Some k' \<and> rdy_list_ok k' i (p # xs) \<and> rdy_frame i k k'
    \<and> OSPrioTbl k' = OSPrioTbl k"
proof (cases xs)
  case Nil
  then have "RdyEntries (OSRdyList k i) = 0" using assms(1) by (simp add: rdy_list_ok_def)
  then have "OS_RdyListInsertHead p k = Some (rdy_first p i k)"
    using assms(2,3) by (simp add: OS_RdyListInsertHead_def rdy_ix_Some)
  then show ?thesis
    using Nil assms by (auto simp: rdy_first_def rdy_list_ok_def rdy_frame_def upd_defs)
next
  case (Cons x ys)
  have r: "OSRdyList k i = \<lparr>HeadPtr = Some x, TailPtr = last_ptr None xs, RdyEntries = length xs\<rparr>"
    and s: "seg (nxt k) (prv k) None (x # ys) None" and d: "distinct (x # ys)" "p \<notin> set (x # ys)"
    using assms Cons by (simp_all add: rdy_list_ok_def)
  have px: "p \<noteq> x" using d by simp
  define k' where "k' = k\<lparr>tcb := (tcb k)(p := (tcb k p)\<lparr>NextTcb := Some x, PrevTcb := None\<rparr>,
      x := (tcb k x)\<lparr>PrevTcb := Some p\<rparr>),
    OSRdyList := (OSRdyList k)(i := \<lparr>HeadPtr = Some p, TailPtr = last_ptr None xs, RdyEntries = length xs + 1\<rparr>)\<rparr>"
  have "OS_RdyListInsertHead p k = Some k'"
    using assms(2,3) px Cons
    by (simp add: OS_RdyListInsertHead_def rdy_ix_Some r upd_defs k'_def)
  moreover have "seg (nxt k') (prv k') None (p # x # ys) None"
    by (rule seg_push [OF s d(2,1)]) (use px d in \<open>auto simp: k'_def\<close>)
  then have "rdy_list_ok k' i (p # xs)"
    using assms Cons px by (auto simp: rdy_list_ok_def k'_def last_ptr_def)
  moreover have "unat (Prio (tcb k x)) = i" using assms(1) Cons by (simp add: rdy_list_ok_def)
  then have "rdy_frame i k k'" using assms(2) by (auto simp: rdy_frame_def k'_def)
  ultimately show ?thesis by (auto simp: k'_def)
qed

lemma InsertTail_list:
  assumes "rdy_list_ok k i xs" and "unat (Prio (tcb k p)) = i" and "i < 32" and "p \<notin> set xs"
  shows "\<exists>k'. OS_RdyListInsertTail p k = Some k' \<and> rdy_list_ok k' i (xs @ [p]) \<and> rdy_frame i k k'
    \<and> OSPrioTbl k' = OSPrioTbl k"
proof (cases xs rule: rev_cases)
  case Nil
  then have "RdyEntries (OSRdyList k i) = 0" using assms(1) by (simp add: rdy_list_ok_def)
  then have "OS_RdyListInsertTail p k = Some (rdy_first p i k)"
    using assms(2,3) by (simp add: OS_RdyListInsertTail_def rdy_ix_Some)
  then show ?thesis
    using Nil assms by (auto simp: rdy_first_def rdy_list_ok_def rdy_frame_def upd_defs)
next
  case (snoc ys x)
  have r: "OSRdyList k i = \<lparr>HeadPtr = first_ptr xs None, TailPtr = Some x, RdyEntries = length xs\<rparr>"
    and s: "seg (nxt k) (prv k) None (ys @ [x]) None" and d: "distinct (ys @ [x])" "p \<notin> set (ys @ [x])"
    using assms snoc by (simp_all add: rdy_list_ok_def)
  have px: "p \<noteq> x" using d by simp
  define k' where "k' = k\<lparr>tcb := (tcb k)(p := (tcb k p)\<lparr>NextTcb := None, PrevTcb := Some x\<rparr>,
      x := (tcb k x)\<lparr>NextTcb := Some p\<rparr>),
    OSRdyList := (OSRdyList k)(i := \<lparr>HeadPtr = first_ptr xs None, TailPtr = Some p, RdyEntries = length xs + 1\<rparr>)\<rparr>"
  have "OS_RdyListInsertTail p k = Some k'"
    using assms(2,3) px snoc
    by (simp add: OS_RdyListInsertTail_def rdy_ix_Some r upd_defs k'_def)
  moreover have "seg (nxt k') (prv k') None (ys @ [x, p]) None"
    by (rule seg_snoc [OF s d(2,1)]) (use px d in \<open>auto simp: k'_def\<close>)
  then have "rdy_list_ok k' i (xs @ [p])"
    using assms snoc px by (auto simp: rdy_list_ok_def k'_def)
  moreover have "unat (Prio (tcb k x)) = i" using assms(1) snoc by (simp add: rdy_list_ok_def)
  then have "rdy_frame i k k'" using assms(2) by (auto simp: rdy_frame_def k'_def)
  ultimately show ?thesis by (auto simp: k'_def)
qed

lemma Remove_list:
  assumes "rdy_list_ok k i xs" and "i < 32" and "p \<in> set xs" and "length (OSPrioTbl k) = 1"
  shows "\<exists>k'. OS_RdyListRemove p k = Some k' \<and> rdy_list_ok k' i (remove1 p xs) \<and> rdy_frame i k k'
    \<and> (if xs = [p] then \<exists>t. OSPrioTbl k' = [t] \<and> (\<forall>j < 32. bit t (31 - j) \<longleftrightarrow> bit (OSPrioTbl k ! 0) (31 - j) \<and> j \<noteq> i)
       else OSPrioTbl k' = OSPrioTbl k)"
proof -
  have s: "seg (nxt k) (prv k) None xs None" and d: "distinct xs"
    and r: "OSRdyList k i = \<lparr>HeadPtr = first_ptr xs None, TailPtr = last_ptr None xs, RdyEntries = length xs\<rparr>"
    and pr: "\<And>x. x \<in> set xs \<Longrightarrow> unat (Prio (tcb k x)) = i"
    using assms(1) by (simp_all add: rdy_list_ok_def)
  obtain ys zs where xs: "xs = ys @ p # zs" "p \<notin> set ys" "p \<notin> set zs"
    "prv k p = last_ptr None ys" "nxt k p = first_ptr zs None"
    using seg_neighbours [OF s assms(3) d] by metis
  have ix: "rdy_ix p k = Some i" using pr [OF assms(3)] assms(2) by (simp add: rdy_ix_def)
  have rem: "remove1 p xs = ys @ zs" using xs by (simp add: remove1_append)
  show ?thesis
  proof (cases "ys = [] \<and> zs = []")
    case True
    let ?k = "upd_rdy i (\<lambda>_. \<lparr>HeadPtr = None, TailPtr = None, RdyEntries = 0\<rparr>) k"
    have "OSPrioTbl ?k = OSPrioTbl k" by (simp add: upd_defs)
    then obtain t where t: "OS_PrioRemove (Prio (tcb k p)) ?k = Some (?k\<lparr>OSPrioTbl := [t]\<rparr>)"
      "\<forall>j < 32. bit t (31 - j) \<longleftrightarrow> bit (OSPrioTbl k ! 0) (31 - j) \<and> j \<noteq> i"
      using PrioRemove_bits [of "Prio (tcb k p)" ?k] pr [OF assms(3)] assms(2,4) by auto
    define k' where "k' = upd_tcb p (\<lambda>t. t\<lparr>PrevTcb := None, NextTcb := None\<rparr>) (?k\<lparr>OSPrioTbl := [t]\<rparr>)"
    have "OS_RdyListRemove p k = Some k'"
      using True xs ix t(1) by (simp add: OS_RdyListRemove_def k'_def)
    moreover have "rdy_list_ok k' i (remove1 p xs)" using True rem by (simp add: rdy_list_ok_def k'_def upd_defs)
    moreover have "rdy_frame i k k'" using pr [OF assms(3)] by (auto simp: rdy_frame_def k'_def upd_defs)
    ultimately show ?thesis using t(2) True xs by (auto simp: k'_def upd_defs)
  next
    case False
    define h where "h = (\<lambda>x. if x = p then (tcb k x)\<lparr>NextTcb := None, PrevTcb := None\<rparr>
      else (tcb k x)\<lparr>NextTcb := (if last_ptr None ys = Some x then first_ptr zs None else nxt k x),
                     PrevTcb := (if first_ptr zs None = Some x then last_ptr None ys else prv k x)\<rparr>)"
    define k' where "k' = k\<lparr>tcb := h, OSRdyList := (OSRdyList k)(i :=
      \<lparr>HeadPtr = first_ptr (ys @ zs) None, TailPtr = last_ptr None (ys @ zs), RdyEntries = length xs - 1\<rparr>)\<rparr>"
    have "OS_RdyListRemove p k = Some k'"
    proof (cases ys rule: rev_cases)
      case Nil
      then obtain z zs' where z: "zs = z # zs'" using False by (cases zs) auto
      then have "h = (tcb k)(z := (tcb k z)\<lparr>PrevTcb := None\<rparr>, p := (tcb k p)\<lparr>PrevTcb := None, NextTcb := None\<rparr>)"
        using Nil xs by (auto simp: h_def fun_eq_iff)
      then show ?thesis
        using Nil z xs ix by (auto simp: OS_RdyListRemove_def upd_defs k'_def r)
    next
      case (snoc us u)
      show ?thesis
      proof (cases zs)
        case Nil
        then have "h = (tcb k)(u := (tcb k u)\<lparr>NextTcb := None\<rparr>, p := (tcb k p)\<lparr>PrevTcb := None, NextTcb := None\<rparr>)"
          using snoc xs by (auto simp: h_def fun_eq_iff)
        then show ?thesis
          using snoc Nil xs ix by (auto simp: OS_RdyListRemove_def upd_defs k'_def r)
      next
        case (Cons z zs')
        have uz: "u \<noteq> z" using snoc Cons xs d by auto
        then have "h = (tcb k)(u := (tcb k u)\<lparr>NextTcb := Some z\<rparr>, z := (tcb k z)\<lparr>PrevTcb := Some u\<rparr>,
            p := (tcb k p)\<lparr>PrevTcb := None, NextTcb := None\<rparr>)"
          using snoc Cons xs by (auto simp: h_def fun_eq_iff)
        then show ?thesis
          using snoc Cons xs ix uz by (auto simp: OS_RdyListRemove_def upd_defs k'_def r)
      qed
    qed
    moreover have "seg (nxt k') (prv k') None (ys @ zs) None"
      by (rule seg_remove [OF s [unfolded xs(1)] d [unfolded xs(1)]])
        (use xs d in \<open>auto simp: k'_def h_def dest: first_ptr_in last_ptr_in\<close>)
    then have "rdy_list_ok k' i (remove1 p xs)"
      unfolding rem using xs d pr by (auto simp: rdy_list_ok_def k'_def h_def)
    moreover have "rdy_frame i k k'"
      unfolding rdy_frame_def using xs(1) pr
      by (auto simp: k'_def h_def dest: first_ptr_in last_ptr_in)
    moreover have "xs \<noteq> [p]" using False xs(1) by (cases ys) auto
    ultimately show ?thesis by (auto simp: k'_def)
  qed
qed

lemma MoveHeadToTail_list:
  assumes "rdy_list_ok k i xs"
  shows "\<exists>k'. OS_RdyListMoveHeadToTail i k = Some k' \<and> rdy_list_ok k' i (rotate1 xs) \<and> rdy_frame i k k'
    \<and> OSPrioTbl k' = OSPrioTbl k"
proof -
  have s: "seg (nxt k) (prv k) None xs None" and d: "distinct xs"
    and r: "OSRdyList k i = \<lparr>HeadPtr = first_ptr xs None, TailPtr = last_ptr None xs, RdyEntries = length xs\<rparr>"
    and pr: "\<And>x. x \<in> set xs \<Longrightarrow> unat (Prio (tcb k x)) = i"
    using assms by (simp_all add: rdy_list_ok_def)
  consider "length xs \<le> 1" | a b where "xs = [a, b]" | a b c zs where "xs = a # b # c # zs"
    by (cases xs rule: remdups_adj.cases; cases "tl (tl xs)") auto
  then show ?thesis
  proof cases
    case 1
    then have "OS_RdyListMoveHeadToTail i k = Some k"
      by (cases xs) (auto simp: OS_RdyListMoveHeadToTail_def Let_def r)
    moreover have "rotate1 xs = xs" using 1 by (cases xs) auto
    ultimately show ?thesis using assms by (auto simp: rdy_frame_def)
  next
    case 2
    define k' where "k' = k\<lparr>tcb := (tcb k)(a := (tcb k a)\<lparr>PrevTcb := Some b, NextTcb := None\<rparr>,
        b := (tcb k b)\<lparr>PrevTcb := None, NextTcb := Some a\<rparr>),
      OSRdyList := (OSRdyList k)(i := \<lparr>HeadPtr = Some b, TailPtr = Some a, RdyEntries = length xs\<rparr>)\<rparr>"
    have "OS_RdyListMoveHeadToTail i k = Some k'"
      using 2 by (simp add: OS_RdyListMoveHeadToTail_def Let_def r upd_defs k'_def)
    moreover have "rdy_list_ok k' i (rotate1 xs)" using 2 d pr by (auto simp: rdy_list_ok_def k'_def)
    moreover have "rdy_frame i k k'" using 2 pr by (auto simp: rdy_frame_def k'_def)
    ultimately show ?thesis by (auto simp: k'_def)
  next
    case 3
    define us where "us = butlast (c # zs)"
    define u where "u = last (c # zs)"
    have cz: "c # zs = us @ [u]" by (simp add: us_def u_def)
    have len: "length zs = length us" using arg_cong [OF cz, of length] by simp
    have xs: "xs = a # b # us @ [u]" using 3 cz by simp
    have n: "nxt k a = Some b" using s 3 by simp
    have dd: "distinct (a # b # us @ [u])" using d xs by simp
    define k' where "k' = k\<lparr>tcb := (tcb k)(b := (tcb k b)\<lparr>PrevTcb := None\<rparr>,
        a := (tcb k a)\<lparr>NextTcb := None, PrevTcb := Some u\<rparr>, u := (tcb k u)\<lparr>NextTcb := Some a\<rparr>),
      OSRdyList := (OSRdyList k)(i := \<lparr>HeadPtr = Some b, TailPtr = Some a, RdyEntries = length xs\<rparr>)\<rparr>"
    have "OS_RdyListMoveHeadToTail i k = Some k'"
      using 3 dd n by (simp add: OS_RdyListMoveHeadToTail_def Let_def r upd_defs k'_def u_def last_ptr_def)
    moreover have "seg (nxt k') (prv k') None (b # us @ [u, a]) None"
    proof -
      have "seg (nxt k') (prv k') (Some b) us (Some u) = seg (nxt k) (prv k) (Some b) us (Some u)"
        by (rule seg_cong) (use dd in \<open>auto simp: k'_def\<close>)
      then show ?thesis using s dd unfolding xs by (auto simp: k'_def)
    qed
    then have "rdy_list_ok k' i (rotate1 xs)"
      using dd pr len unfolding rdy_list_ok_def xs by (auto simp: k'_def xs)
    moreover have "rdy_frame i k k'" using xs pr by (auto simp: rdy_frame_def k'_def)
    ultimately show ?thesis by (auto simp: k'_def)
  qed
qed

section \<open>The operations on the queues of ready tasks\<close>

lemma rdy_inv_list: "rdy_inv k Q \<Longrightarrow> i < 32 \<Longrightarrow> rdy_list_ok k i (Q i)"
  by (simp add: rdy_inv_def)

lemma rdy_inv_table: "rdy_inv k Q \<Longrightarrow> length (OSPrioTbl k) = 1"
  by (simp add: rdy_inv_def)

lemma rdy_list_tbl [simp]: "rdy_list_ok (k\<lparr>OSPrioTbl := t\<rparr>) i xs = rdy_list_ok k i xs"
  by (simp add: rdy_list_ok_def)

definition rdy_put :: "os_kernel \<Rightarrow> nat \<Rightarrow> nat list \<Rightarrow> nat list" where
  "rdy_put k p xs = (if Prio (tcb k p) = OSPrioCur k then xs @ [p] else p # xs)"

lemma Insert_refines:
  assumes inv: "rdy_inv k Q" and i: "unat (Prio (tcb k p)) = i" "i < 32" and new: "p \<notin> set (Q i)"
  shows "\<exists>k'. OS_RdyListInsert p k = Some k' \<and> rdy_inv k' (Q(i := rdy_put k p (Q i))) \<and> rdy_frame i k k'"
proof -
  obtain t where t: "OS_PrioInsert (Prio (tcb k p)) k = Some (k\<lparr>OSPrioTbl := [t]\<rparr>)"
    "\<And>j. j < 32 \<Longrightarrow> bit t (31 - j) \<longleftrightarrow> bit (OSPrioTbl k ! 0) (31 - j) \<or> j = i"
    using PrioInsert_bits [OF _ rdy_inv_table [OF inv]] i by metis
  let ?k = "k\<lparr>OSPrioTbl := [t]\<rparr>"
  have ok: "rdy_list_ok ?k i (Q i)" using rdy_inv_list [OF inv i(2)] by simp
  obtain k' where k': "(if Prio (tcb k p) = OSPrioCur k then OS_RdyListInsertTail p ?k
      else OS_RdyListInsertHead p ?k) = Some k'" "rdy_list_ok k' i (rdy_put k p (Q i))"
    "rdy_frame i ?k k'" "OSPrioTbl k' = [t]"
    using InsertTail_list [OF ok _ i(2) new] InsertHead_list [OF ok _ i(2) new] i(1)
    by (cases "Prio (tcb k p) = OSPrioCur k") (auto simp: rdy_put_def)
  have frame: "rdy_frame i k k'" using k'(3) unfolding rdy_frame_def by simp
  have "rdy_inv k' (Q(i := rdy_put k p (Q i)))"
    by (rule rdy_inv_frame [OF inv i(2) k'(2) frame]) (use k'(4) t(2) in \<open>auto simp: rdy_put_def\<close>)
  moreover have "OS_RdyListInsert p k = Some k'"
    using t(1) k'(1) by (simp add: OS_RdyListInsert_def)
  ultimately show ?thesis using frame by blast
qed

lemma Remove_refines:
  assumes inv: "rdy_inv k Q" and i: "i < 32" and mem: "p \<in> set (Q i)"
  shows "\<exists>k'. OS_RdyListRemove p k = Some k' \<and> rdy_inv k' (Q(i := remove1 p (Q i))) \<and> rdy_frame i k k'"
proof -
  obtain k' where k': "OS_RdyListRemove p k = Some k'" "rdy_list_ok k' i (remove1 p (Q i))" "rdy_frame i k k'"
    "if Q i = [p] then \<exists>t. OSPrioTbl k' = [t] \<and> (\<forall>j < 32. bit t (31 - j) \<longleftrightarrow> bit (OSPrioTbl k ! 0) (31 - j) \<and> j \<noteq> i)
     else OSPrioTbl k' = OSPrioTbl k"
    using Remove_list [OF rdy_inv_list [OF inv i] i mem rdy_inv_table [OF inv]] by blast
  have "rdy_inv k' (Q(i := remove1 p (Q i)))"
  proof (rule rdy_inv_frame [OF inv i k'(2,3)])
    show "length (OSPrioTbl k') = 1" using k'(4) rdy_inv_table [OF inv] by (auto split: if_splits)
    show "bit (OSPrioTbl k' ! 0) (31 - j) \<longleftrightarrow>
        (if j = i then remove1 p (Q i) \<noteq> [] else bit (OSPrioTbl k ! 0) (31 - j))" if "j < 32" for j
    proof (cases "Q i = [p]")
      case False
      moreover have "bit (OSPrioTbl k ! 0) (31 - i)" using inv i mem by (auto simp: rdy_inv_def)
      moreover have "remove1 p (Q i) \<noteq> []"
        using False mem by (cases "Q i"; cases "tl (Q i)") auto
      ultimately show ?thesis using k'(4) by simp
    qed (use k'(4) that in auto)
  qed
  then show ?thesis using k'(1,3) by blast
qed

lemma MoveHeadToTail_refines:
  assumes inv: "rdy_inv k Q" and i: "i < 32"
  shows "\<exists>k'. OS_RdyListMoveHeadToTail i k = Some k' \<and> rdy_inv k' (Q(i := rotate1 (Q i))) \<and> rdy_frame i k k'"
proof -
  obtain k' where k': "OS_RdyListMoveHeadToTail i k = Some k'" "rdy_list_ok k' i (rotate1 (Q i))"
    "rdy_frame i k k'" "OSPrioTbl k' = OSPrioTbl k"
    using MoveHeadToTail_list [OF rdy_inv_list [OF inv i]] by blast
  have "rdy_inv k' (Q(i := rotate1 (Q i)))"
    by (rule rdy_inv_frame [OF inv i k'(2,3)]) (use inv i in \<open>auto simp: k'(4) rdy_inv_def\<close>)
  then show ?thesis using k'(1,3) by blast
qed

section \<open>The task that runs next\<close>

definition top_prio :: "(nat \<Rightarrow> nat list) \<Rightarrow> nat option" where
  "top_prio Q = find (\<lambda>i. Q i \<noteq> []) [0..<32]"

lemma top_prio_Some:
  "top_prio Q = Some i \<longleftrightarrow> i < 32 \<and> Q i \<noteq> [] \<and> (\<forall>j < i. Q j = [])"
  by (auto simp: top_prio_def find_Some_iff)

lemma top_prio_None: "top_prio Q = None \<longleftrightarrow> (\<forall>i < 32. Q i = [])"
  by (auto simp: top_prio_def find_None_iff)

lemma top_prio_exists: "j < 32 \<Longrightarrow> Q j \<noteq> [] \<Longrightarrow> \<exists>i. top_prio Q = Some i \<and> i \<le> j"
  by (metis not_le_imp_less option.exhaust top_prio_None top_prio_Some)

lemma GetHighest_refines:
  assumes "rdy_inv k Q"
  shows "OS_PrioGetHighest k = map_option of_nat (top_prio Q)"
proof -
  obtain w where w: "OSPrioTbl k = [w]" using rdy_inv_table [OF assms] by (cases "OSPrioTbl k") auto
  have b: "bit w (31 - j) \<longleftrightarrow> Q j \<noteq> []" if "j < 32" for j
    using assms that w by (simp add: rdy_inv_def)
  show ?thesis
  proof (cases "top_prio Q")
    case None
    have "\<not> bit w n" if "n < 32" for n
      using b [of "31 - n"] None that by (simp add: top_prio_None)
    then have "w = 0" by (intro bit_word_eqI) simp
    then show ?thesis using w None by (simp add: OS_PrioGetHighest_def)
  next
    case (Some i)
    then have i: "i < 32" "Q i \<noteq> []" "\<And>j. j < i \<Longrightarrow> Q j = []" by (auto simp: top_prio_Some)
    have "bit w (31 - i)" using b i by simp
    moreover have "\<not> bit w (31 - j)" if "j < i" for j using b [of j] i that by simp
    ultimately show ?thesis using prio_highest [OF w i(1)] Some by simp
  qed
qed

lemma rdy_inv_other:
  assumes "tcb k' = tcb k" and "OSRdyList k' = OSRdyList k" and "OSPrioTbl k' = OSPrioTbl k"
  shows "rdy_inv k' Q = rdy_inv k Q"
  using assms by (simp add: rdy_inv_def rdy_list_ok_def)

lemma rdy_inv_tcb:
  assumes "rdy_inv k Q" and "\<And>x. nxt k' x = nxt k x" and "\<And>x. prv k' x = prv k x"
    and "\<And>x. Prio (tcb k' x) = Prio (tcb k x)"
    and "OSRdyList k' = OSRdyList k" and "OSPrioTbl k' = OSPrioTbl k"
  shows "rdy_inv k' Q"
  using assms by (simp add: rdy_inv_def rdy_list_ok_def)

text \<open>\<open>p\<close> is the task to run: the first of the highest priority that is ready.\<close>

definition next_task :: "(nat \<Rightarrow> nat list) \<Rightarrow> nat option" where
  "next_task Q = map_option (\<lambda>i. hd (Q i)) (top_prio Q)"

definition cur_ok :: "os_kernel \<Rightarrow> bool" where
  "cur_ok k \<longleftrightarrow> OSPrioCur k = Prio (tcb k (OSTCBCurPtr k))"

definition sched_frame :: "os_kernel \<Rightarrow> os_kernel \<Rightarrow> bool" where
  "sched_frame k k' \<longleftrightarrow> k' = k\<lparr>tcb := tcb k', OSPrioCur := OSPrioCur k', OSPrioHighRdy := OSPrioHighRdy k',
       OSTCBCurPtr := OSTCBCurPtr k', OSTCBHighRdyPtr := OSTCBHighRdyPtr k', OSTaskCtxSwCtr := OSTaskCtxSwCtr k'\<rparr>
     \<and> (\<forall>x. tcb k' x = (tcb k x)\<lparr>CtxSwCtr := CtxSwCtr (tcb k' x)\<rparr>)"

lemma switch_highest_runs:
  assumes inv: "rdy_inv k Q" and cur: "cur_ok k" and top: "next_task Q = Some p"
  shows "\<exists>k'. switch_highest k = Some k' \<and> OSTCBCurPtr k' = p \<and> cur_ok k' \<and> rdy_inv k' Q \<and> sched_frame k k'"
proof -
  obtain i where i: "top_prio Q = Some i" "p = hd (Q i)" using top by (auto simp: next_task_def)
  then have ne: "i < 32" "Q i \<noteq> []" by (auto simp: top_prio_Some)
  have ok: "rdy_list_ok k i (Q i)" by (rule rdy_inv_list [OF inv ne(1)])
  have "first_ptr (Q i) None = Some p" using ne i(2) by (cases "Q i") simp_all
  then have h: "HeadPtr (OSRdyList k i) = Some p" using ok by (simp add: rdy_list_ok_def)
  have "p \<in> set (Q i)" using ne i(2) by simp
  then have pr: "unat (Prio (tcb k p)) = i" using ok by (simp add: rdy_list_ok_def)
  then have pr': "Prio (tcb k p) = of_nat i" by (metis of_nat_unat ucast_id)
  have u: "unat (of_nat i :: u8) = i" using ne(1) by (simp add: unat_of_nat take_bit_nat_eq_self)
  have g: "OS_PrioGetHighest k = Some (of_nat i)" using GetHighest_refines [OF inv] i(1) by simp
  let ?k = "k\<lparr>OSPrioHighRdy := of_nat i, OSTCBHighRdyPtr := Some p\<rparr>"
  show ?thesis
  proof (cases "p = OSTCBCurPtr k")
    case True
    have "switch_highest k = Some ?k" using True by (simp add: switch_highest_def g u h)
    moreover have "rdy_inv ?k Q" using inv by (simp add: rdy_inv_other [of ?k k])
    moreover have "sched_frame k ?k" by (simp add: sched_frame_def)
    moreover have "cur_ok ?k" using cur by (simp add: cur_ok_def)
    ultimately show ?thesis using True by auto
  next
    case False
    define k' where "k' = (upd_tcb p (\<lambda>t. t\<lparr>CtxSwCtr := CtxSwCtr t + 1\<rparr>) ?k)
      \<lparr>OSTaskCtxSwCtr := OSTaskCtxSwCtr k + 1, OSPrioCur := of_nat i, OSTCBCurPtr := p\<rparr>"
    have "switch_highest k = Some k'"
      using False by (simp add: switch_highest_def context_switch_def g u h k'_def upd_defs)
    moreover have "rdy_inv k' Q" by (rule rdy_inv_tcb [OF inv]) (auto simp: k'_def upd_defs)
    moreover have "cur_ok k'" using pr' by (simp add: cur_ok_def k'_def upd_defs)
    moreover have "sched_frame k k'" by (auto simp: sched_frame_def k'_def upd_defs)
    moreover have "OSTCBCurPtr k' = p" by (simp add: k'_def)
    ultimately show ?thesis by blast
  qed
qed

lemma OSSched_runs:
  assumes "rdy_inv k Q" and "cur_ok k" and "next_task Q = Some p"
    and "OSIntNestingCtr k = 0" and "OSSchedLockNestingCtr k = 0"
  shows "\<exists>k'. OSSched k = Some k' \<and> OSTCBCurPtr k' = p \<and> cur_ok k' \<and> rdy_inv k' Q \<and> sched_frame k k'"
  using switch_highest_runs [OF assms(1-3)] assms(4,5) by (simp add: OSSched_def)

lemma sched_frame_simps [simp]:
  assumes "sched_frame k k'"
  shows "OSIntNestingCtr k' = OSIntNestingCtr k" "OSSchedLockNestingCtr k' = OSSchedLockNestingCtr k"
    "OSRunning k' = OSRunning k" "OSSchedRoundRobinEn k' = OSSchedRoundRobinEn k"
    "OSRdyList k' = OSRdyList k" "msgs k' = msgs k" "OSIdleTaskTCB k' = OSIdleTaskTCB k"
    "OSTickCtr k' = OSTickCtr k" "OSCfg_TickWheel k' = OSCfg_TickWheel k"
proof -
  have e: "k' = k\<lparr>tcb := tcb k', OSPrioCur := OSPrioCur k', OSPrioHighRdy := OSPrioHighRdy k',
       OSTCBCurPtr := OSTCBCurPtr k', OSTCBHighRdyPtr := OSTCBHighRdyPtr k', OSTaskCtxSwCtr := OSTaskCtxSwCtr k'\<rparr>"
    using assms by (simp add: sched_frame_def)
  show "OSIntNestingCtr k' = OSIntNestingCtr k" "OSSchedLockNestingCtr k' = OSSchedLockNestingCtr k"
    "OSRunning k' = OSRunning k" "OSSchedRoundRobinEn k' = OSSchedRoundRobinEn k"
    "OSRdyList k' = OSRdyList k" "msgs k' = msgs k" "OSIdleTaskTCB k' = OSIdleTaskTCB k"
    "OSTickCtr k' = OSTickCtr k" "OSCfg_TickWheel k' = OSCfg_TickWheel k"
    by (subst e, simp)+
qed

lemma sched_frame_tcb:
  assumes "sched_frame k k'"
  shows "Prio (tcb k' x) = Prio (tcb k x)" "TaskState (tcb k' x) = TaskState (tcb k x)"
    "PendOn (tcb k' x) = PendOn (tcb k x)" "PendStatus (tcb k' x) = PendStatus (tcb k x)"
    "TcbMsgPtr (tcb k' x) = TcbMsgPtr (tcb k x)" "TcbMsgSize (tcb k' x) = TcbMsgSize (tcb k x)"
    "TS (tcb k' x) = TS (tcb k x)" "TickSpokePtr (tcb k' x) = TickSpokePtr (tcb k x)"
    "TickNextPtr (tcb k' x) = TickNextPtr (tcb k x)" "TickPrevPtr (tcb k' x) = TickPrevPtr (tcb k x)"
    "TickCtrMatch (tcb k' x) = TickCtrMatch (tcb k x)" "SemCtr (tcb k' x) = SemCtr (tcb k x)"
    "SuspendCtr (tcb k' x) = SuspendCtr (tcb k x)" "TickCtrPrev (tcb k' x) = TickCtrPrev (tcb k x)"
proof -
  have e: "tcb k' x = (tcb k x)\<lparr>CtxSwCtr := CtxSwCtr (tcb k' x)\<rparr>"
    using assms unfolding sched_frame_def by blast
  show "Prio (tcb k' x) = Prio (tcb k x)" "TaskState (tcb k' x) = TaskState (tcb k x)"
    "PendOn (tcb k' x) = PendOn (tcb k x)" "PendStatus (tcb k' x) = PendStatus (tcb k x)"
    "TcbMsgPtr (tcb k' x) = TcbMsgPtr (tcb k x)" "TcbMsgSize (tcb k' x) = TcbMsgSize (tcb k x)"
    "TS (tcb k' x) = TS (tcb k x)" "TickSpokePtr (tcb k' x) = TickSpokePtr (tcb k x)"
    "TickNextPtr (tcb k' x) = TickNextPtr (tcb k x)" "TickPrevPtr (tcb k' x) = TickPrevPtr (tcb k x)"
    "TickCtrMatch (tcb k' x) = TickCtrMatch (tcb k x)" "SemCtr (tcb k' x) = SemCtr (tcb k x)"
    "SuspendCtr (tcb k' x) = SuspendCtr (tcb k x)" "TickCtrPrev (tcb k' x) = TickCtrPrev (tcb k x)"
    by (subst e, simp)+
qed

section \<open>Interface: a scheduler\<close>

text \<open>
  What the services that block and ready tasks rely on: \<open>ok s Q\<close> holds of a state whose ready
  tasks are \<open>Q\<close>; a task that becomes ready goes behind the others of its priority when this is
  the priority of the running task.
\<close>

locale scheduler =
  fixes ok :: "'s \<Rightarrow> (nat \<Rightarrow> nat list) \<Rightarrow> bool" and prio_of :: "'s \<Rightarrow> nat \<Rightarrow> nat"
    and running :: "'s \<Rightarrow> nat" and ready :: "nat \<Rightarrow> 's \<Rightarrow> 's option"
    and block :: "nat \<Rightarrow> 's \<Rightarrow> 's option" and sched :: "'s \<Rightarrow> 's option"
  assumes ready_law: "ok s Q \<Longrightarrow> prio_of s p = i \<Longrightarrow> i < 32 \<Longrightarrow> p \<notin> set (Q i) \<Longrightarrow>
      \<exists>s'. ready p s = Some s' \<and> running s' = running s \<and> prio_of s' = prio_of s
        \<and> ok s' (Q(i := if i = prio_of s (running s) then Q i @ [p] else p # Q i))"
    and block_law: "ok s Q \<Longrightarrow> i < 32 \<Longrightarrow> p \<in> set (Q i) \<Longrightarrow>
      \<exists>s'. block p s = Some s' \<and> running s' = running s \<and> prio_of s' = prio_of s
        \<and> ok s' (Q(i := remove1 p (Q i)))"
    and sched_law: "ok s Q \<Longrightarrow> next_task Q = Some p \<Longrightarrow>
      \<exists>s'. sched s = Some s' \<and> running s' = p \<and> prio_of s' = prio_of s \<and> ok s' Q"
    and prio_law: "ok s Q \<Longrightarrow> i < 32 \<Longrightarrow> p \<in> set (Q i) \<Longrightarrow> prio_of s p = i"
begin

text \<open>Making a task ready preempts the running one exactly when its priority is higher.\<close>

lemma ready_then_sched:
  assumes ok: "ok s Q" and run: "next_task Q = Some (running s)"
    and p: "prio_of s p = i" "i < 32" "p \<notin> set (Q i)"
  shows "\<exists>s1 s2. ready p s = Some s1 \<and> sched s1 = Some s2
    \<and> running s2 = (if i < prio_of s (running s) then p else running s)"
proof -
  obtain c where c: "top_prio Q = Some c" "running s = hd (Q c)" using run by (auto simp: next_task_def)
  then have ne: "c < 32" "Q c \<noteq> []" "\<And>j. j < c \<Longrightarrow> Q j = []" by (auto simp: top_prio_Some)
  have rc: "prio_of s (running s) = c" by (rule prio_law [OF ok]) (use ne c in simp_all)
  let ?Q = "Q(i := if i = c then Q i @ [p] else p # Q i)"
  obtain s1 where s1: "ready p s = Some s1" "ok s1 ?Q"
    using ready_law [OF ok p] rc by auto
  have "top_prio ?Q = Some (min i c)" using ne p(2) by (auto simp: top_prio_Some)
  then have "next_task ?Q = Some (if i < c then p else running s)"
    using ne c by (auto simp: next_task_def min_def)
  from sched_law [OF s1(2) this] s1(1) rc show ?thesis by auto
qed

text \<open>When the running task blocks, the next one of its priority runs, or the next priority.\<close>

lemma block_then_sched:
  assumes ok: "ok s Q" and c: "prio_of s (running s) = c" "c < 32" "Q c = running s # qs"
    and then_p: "next_task (Q(c := qs)) = Some p"
  shows "\<exists>s1 s2. block (running s) s = Some s1 \<and> sched s1 = Some s2 \<and> running s2 = p"
proof -
  obtain s1 where s1: "block (running s) s = Some s1" "ok s1 (Q(c := qs))"
    using block_law [OF ok c(2), of "running s"] c(3) by auto
  from sched_law [OF s1(2) then_p] s1(1) show ?thesis by auto
qed

end

text \<open>The kernel with no interrupt active and the scheduler not locked.\<close>

definition kernel_ok :: "os_kernel \<Rightarrow> (nat \<Rightarrow> nat list) \<Rightarrow> bool" where
  "kernel_ok k Q \<longleftrightarrow> rdy_inv k Q \<and> cur_ok k \<and> OSIntNestingCtr k = 0 \<and> OSSchedLockNestingCtr k = 0"

definition prio_ix :: "os_kernel \<Rightarrow> nat \<Rightarrow> nat" where
  "prio_ix k p = unat (Prio (tcb k p))"

lemma rdy_frame_simps:
  assumes "rdy_frame i k k'"
  shows "OSIntNestingCtr k' = OSIntNestingCtr k" "OSSchedLockNestingCtr k' = OSSchedLockNestingCtr k"
    "OSRunning k' = OSRunning k" "OSSchedRoundRobinEn k' = OSSchedRoundRobinEn k"
    "OSPrioCur k' = OSPrioCur k" "OSTCBCurPtr k' = OSTCBCurPtr k" "msgs k' = msgs k"
    "OSIdleTaskTCB k' = OSIdleTaskTCB k" "OSTickCtr k' = OSTickCtr k"
    "OSCfg_TickWheel k' = OSCfg_TickWheel k" "prio_ix k' = prio_ix k"
    "OSSchedRoundRobinDfltTimeQuanta k' = OSSchedRoundRobinDfltTimeQuanta k"
proof -
  have e: "k' = k\<lparr>tcb := tcb k', OSRdyList := OSRdyList k', OSPrioTbl := OSPrioTbl k'\<rparr>"
    using assms by (simp add: rdy_frame_def)
  show "OSIntNestingCtr k' = OSIntNestingCtr k" "OSSchedLockNestingCtr k' = OSSchedLockNestingCtr k"
    "OSRunning k' = OSRunning k" "OSSchedRoundRobinEn k' = OSSchedRoundRobinEn k"
    "OSPrioCur k' = OSPrioCur k" "OSTCBCurPtr k' = OSTCBCurPtr k" "msgs k' = msgs k"
    "OSIdleTaskTCB k' = OSIdleTaskTCB k" "OSTickCtr k' = OSTickCtr k"
    "OSCfg_TickWheel k' = OSCfg_TickWheel k"
    "OSSchedRoundRobinDfltTimeQuanta k' = OSSchedRoundRobinDfltTimeQuanta k"
    by (subst e, simp)+
  show "prio_ix k' = prio_ix k" by (simp add: fun_eq_iff prio_ix_def rdy_frame_Prio [OF assms])
qed

lemma kernel_ok_frame: "kernel_ok k Q \<Longrightarrow> rdy_inv k' Q' \<Longrightarrow> rdy_frame i k k' \<Longrightarrow> kernel_ok k' Q'"
  by (simp add: kernel_ok_def cur_ok_def rdy_frame_simps rdy_frame_Prio)

interpretation csu_sched: scheduler kernel_ok prio_ix OSTCBCurPtr OS_RdyListInsert OS_RdyListRemove OSSched
proof
  fix k Q p i
  assume ok: "kernel_ok k Q"
  then have inv: "rdy_inv k Q" and cur: "cur_ok k" by (simp_all add: kernel_ok_def)
  show "\<exists>k'. OS_RdyListInsert p k = Some k' \<and> OSTCBCurPtr k' = OSTCBCurPtr k \<and> prio_ix k' = prio_ix k
      \<and> kernel_ok k' (Q(i := if i = prio_ix k (OSTCBCurPtr k) then Q i @ [p] else p # Q i))"
    if c: "prio_ix k p = i" "i < 32" "p \<notin> set (Q i)"
  proof -
    have "rdy_put k p (Q i) = (if i = prio_ix k (OSTCBCurPtr k) then Q i @ [p] else p # Q i)"
      using cur c(1) by (auto simp: rdy_put_def cur_ok_def prio_ix_def word_unat_eq_iff)
    moreover obtain k' where k': "OS_RdyListInsert p k = Some k'"
      "rdy_inv k' (Q(i := rdy_put k p (Q i)))" "rdy_frame i k k'"
      using Insert_refines [OF inv _ c(2,3)] c(1) by (auto simp: prio_ix_def)
    ultimately show ?thesis
      using kernel_ok_frame [OF ok k'(2,3)] rdy_frame_simps(6,11) [OF k'(3)] by auto
  qed
  show "\<exists>k'. OS_RdyListRemove p k = Some k' \<and> OSTCBCurPtr k' = OSTCBCurPtr k \<and> prio_ix k' = prio_ix k
      \<and> kernel_ok k' (Q(i := remove1 p (Q i)))" if c: "i < 32" "p \<in> set (Q i)"
  proof -
    obtain k' where k': "OS_RdyListRemove p k = Some k'"
      "rdy_inv k' (Q(i := remove1 p (Q i)))" "rdy_frame i k k'"
      using Remove_refines [OF inv c] by blast
    then show ?thesis
      using kernel_ok_frame [OF ok k'(2,3)] rdy_frame_simps(6,11) [OF k'(3)] by auto
  qed
  show "prio_ix k p = i" if "i < 32" "p \<in> set (Q i)"
    using rdy_inv_list [OF inv that(1)] that(2) by (simp add: rdy_list_ok_def prio_ix_def)
  show "\<exists>k'. OSSched k = Some k' \<and> OSTCBCurPtr k' = p \<and> prio_ix k' = prio_ix k \<and> kernel_ok k' Q"
    if top: "next_task Q = Some p"
  proof -
    obtain k' where k': "OSSched k = Some k'" "OSTCBCurPtr k' = p" "cur_ok k'" "rdy_inv k' Q" "sched_frame k k'"
      using OSSched_runs [OF inv cur top] ok by (auto simp: kernel_ok_def)
    have "prio_ix k' = prio_ix k" by (simp add: fun_eq_iff prio_ix_def sched_frame_tcb [OF k'(5)])
    with k' ok show ?thesis by (simp add: kernel_ok_def)
  qed
qed

section \<open>A kernel with no task ready, as OSInit leaves it\<close>

definition boot_kernel :: "(nat \<Rightarrow> u8) \<Rightarrow> os_msgs \<Rightarrow> os_kernel" where
  "boot_kernel prios m = OS_RdyListInit (OS_PrioInit
     \<lparr>tcb = (\<lambda>p. \<lparr>NextTcb = None, PrevTcb = None, TickNextPtr = None, TickPrevPtr = None,
         TickSpokePtr = None, PendOn = 0, PendStatus = 0, TaskState = 0, Prio = prios p, TS = 0,
         TickCtrPrev = 0, TickCtrMatch = 0, TickRemain = 0, TimeQuanta = 0, TimeQuantaCtr = 0,
         TcbMsgPtr = 0, TcbMsgSize = 0, SemCtr = 0, SuspendCtr = 0, CtxSwCtr = 0\<rparr>),
       OSRdyList = (\<lambda>_. \<lparr>HeadPtr = None, TailPtr = None, RdyEntries = 0\<rparr>), OSPrioTbl = [0],
       OSCfg_TickWheel = (\<lambda>_. \<lparr>FirstPtr = None, SpokeEntries = 0, SpokeEntriesMax = 0\<rparr>),
       OSTickCtr = 0, OSPrioCur = prios 0, OSPrioHighRdy = 0, OSTCBCurPtr = 0, OSTCBHighRdyPtr = None,
       OSIntNestingCtr = 0, OSSchedLockNestingCtr = 0, OSRunning = True, OSSchedRoundRobinEn = True,
       OSSchedRoundRobinDfltTimeQuanta = 20, OSTaskCtxSwCtr = 0, OSIdleTaskTCB = 0,
       OSTickTaskTCB = 1, OSTmrTaskTCB = 1, OSTmrUpdateCnt = 20, OSTmrUpdateCtr = 20, msgs = m\<rparr>)"

lemma init_establishes:
  "length (OSPrioTbl k) = 1 \<Longrightarrow> rdy_inv (OS_RdyListInit (OS_PrioInit k)) (\<lambda>_. [])"
  by (auto simp: rdy_inv_def rdy_list_ok_def OS_RdyListInit_def OS_PrioInit_def length_Suc_conv)

lemma boot_kernel_ok: "kernel_ok (boot_kernel prios m) (\<lambda>_. [])"
  unfolding kernel_ok_def boot_kernel_def
  by (intro conjI init_establishes)
    (simp_all add: cur_ok_def OS_RdyListInit_def OS_PrioInit_def)

lemma boot_kernel_prio [simp]: "Prio (tcb (boot_kernel prios m) p) = prios p"
  by (simp add: boot_kernel_def OS_RdyListInit_def OS_PrioInit_def)

lemma boot_kernel_cur [simp]: "OSTCBCurPtr (boot_kernel prios m) = 0" "OSPrioCur (boot_kernel prios m) = prios 0"
  "OSSchedRoundRobinEn (boot_kernel prios m)" "OSRunning (boot_kernel prios m)"
  by (simp_all add: boot_kernel_def OS_RdyListInit_def OS_PrioInit_def)

text \<open>The idle task at priority 31 and a second task, not ready, at priority 5.\<close>

abbreviation (input) two_prios :: "nat \<Rightarrow> u8" where
  "two_prios \<equiv> (\<lambda>p. if p = 0 then 31 else 5)"

lemma idle_ready:
  assumes "unat (prios 0) < 32"
  obtains k where "OS_RdyListInsert 0 (boot_kernel prios m) = Some k"
    "kernel_ok k ((\<lambda>_. [])(unat (prios 0) := [0]))" "rdy_frame (unat (prios 0)) (boot_kernel prios m) k"
proof -
  have inv: "rdy_inv (boot_kernel prios m) (\<lambda>_. [])" using boot_kernel_ok by (simp add: kernel_ok_def)
  obtain k where "OS_RdyListInsert 0 (boot_kernel prios m) = Some k"
    "rdy_inv k ((\<lambda>_. [])(unat (prios 0) := [0]))" "rdy_frame (unat (prios 0)) (boot_kernel prios m) k"
    using Insert_refines [OF inv, of 0 "unat (prios 0)"] assms by (auto simp: rdy_put_def)
  with kernel_ok_frame [OF boot_kernel_ok] show thesis by (intro that) blast+
qed

section \<open>Taking turns\<close>

lemma fresh_quanta_ok:
  assumes "kernel_ok k Q" and "i < 32" and "Q i \<noteq> []"
  shows "\<exists>k'. fresh_quanta i k = Some k' \<and> kernel_ok k' Q \<and> OSTCBCurPtr k' = OSTCBCurPtr k
    \<and> prio_ix k' = prio_ix k \<and> OSSchedRoundRobinEn k' = OSSchedRoundRobinEn k"
proof -
  have inv: "rdy_inv k Q" using assms(1) by (simp add: kernel_ok_def)
  obtain p where "HeadPtr (OSRdyList k i) = Some p"
    using rdy_inv_list [OF inv assms(2)] assms(3) by (cases "Q i") (auto simp: rdy_list_ok_def)
  moreover have "rdy_inv (upd_tcb p (\<lambda>t. t\<lparr>TimeQuantaCtr := v t\<rparr>) k) Q" for v
    by (rule rdy_inv_tcb [OF inv]) (auto simp: upd_defs)
  ultimately show ?thesis using assms(1)
    by (auto simp: fresh_quanta_def kernel_ok_def cur_ok_def upd_defs prio_ix_def fun_eq_iff)
qed

lemma sched_keeps:
  assumes "kernel_ok k Q" and "next_task Q = Some p"
  shows "\<exists>k'. OSSched k = Some k' \<and> OSTCBCurPtr k' = p \<and> kernel_ok k' Q \<and> prio_ix k' = prio_ix k
    \<and> OSSchedRoundRobinEn k' = OSSchedRoundRobinEn k"
proof -
  have "rdy_inv k Q" "cur_ok k" "OSIntNestingCtr k = 0" "OSSchedLockNestingCtr k = 0"
    using assms(1) by (simp_all add: kernel_ok_def)
  then obtain k' where k': "OSSched k = Some k'" "OSTCBCurPtr k' = p" "cur_ok k'" "rdy_inv k' Q" "sched_frame k k'"
    using OSSched_runs assms(2) by blast
  have "prio_ix k' = prio_ix k" by (simp add: fun_eq_iff prio_ix_def sched_frame_tcb [OF k'(5)])
  with k' assms(1) show ?thesis by (auto simp: kernel_ok_def)
qed

lemma next_task_top: "top_prio Q = Some i \<Longrightarrow> next_task Q = Some (hd (Q i))"
  by (simp add: next_task_def)

text \<open>One yield passes the processor to the next task of the priority.\<close>

lemma yield_once:
  assumes ok: "kernel_ok k Q" and top: "top_prio Q = Some i" and run: "OSTCBCurPtr k = hd (Q i)"
    and en: "OSSchedRoundRobinEn k" and many: "2 \<le> length (Q i)"
  shows "\<exists>k'. OSSchedRoundRobinYield k = Some (OS_ERR_NONE, k') \<and> kernel_ok k' (Q(i := rotate1 (Q i)))
    \<and> OSTCBCurPtr k' = hd (rotate1 (Q i)) \<and> OSSchedRoundRobinEn k'"
proof -
  have i: "i < 32" "Q i \<noteq> []" using top by (auto simp: top_prio_Some)
  have inv: "rdy_inv k Q" and cur: "cur_ok k" using ok by (simp_all add: kernel_ok_def)
  have l: "rdy_list_ok k i (Q i)" by (rule rdy_inv_list [OF inv i(1)])
  then have pc: "unat (OSPrioCur k) = i" and n: "RdyEntries (OSRdyList k i) = length (Q i)"
    using cur run i(2) by (auto simp: cur_ok_def rdy_list_ok_def)
  let ?Q = "Q(i := rotate1 (Q i))"
  obtain k1 where k1: "OS_RdyListMoveHeadToTail i k = Some k1" "rdy_inv k1 ?Q" "rdy_frame i k k1"
    using MoveHeadToTail_refines [OF inv i(1)] by blast
  have ok1: "kernel_ok k1 ?Q" by (rule kernel_ok_frame [OF ok k1(2,3)])
  have ne: "?Q i \<noteq> []" using i(2) by simp
  obtain k2 where k2: "fresh_quanta i k1 = Some k2" "kernel_ok k2 ?Q" "OSSchedRoundRobinEn k2 = OSSchedRoundRobinEn k1"
    using fresh_quanta_ok [OF ok1 i(1) ne] by blast
  have top': "top_prio ?Q = Some i" using top by (simp add: top_prio_Some)
  obtain k3 where k3: "OSSched k2 = Some k3" "OSTCBCurPtr k3 = hd (?Q i)" "kernel_ok k3 ?Q"
    "OSSchedRoundRobinEn k3 = OSSchedRoundRobinEn k2"
    using sched_keeps [OF k2(2) next_task_top [OF top']] by blast
  have "OSSchedRoundRobinYield k = Some (OS_ERR_NONE, k3)"
    using ok en many k1(1) k2(1) k3(1)
    by (simp add: OSSchedRoundRobinYield_def kernel_ok_def Let_def pc n)
  then show ?thesis using k3 k2(3) rdy_frame_simps(4) [OF k1(3)] en by auto
qed

primrec yields :: "nat \<Rightarrow> os_kernel \<Rightarrow> os_kernel option" where
  "yields 0 k = Some k"
| "yields (Suc n) k = Option.bind (OSSchedRoundRobinYield k) (\<lambda>(_, k). yields n k)"

lemma yields_rotate:
  "kernel_ok k Q \<Longrightarrow> top_prio Q = Some i \<Longrightarrow> OSTCBCurPtr k = hd (Q i) \<Longrightarrow> OSSchedRoundRobinEn k \<Longrightarrow>
    2 \<le> length (Q i) \<Longrightarrow> \<exists>k'. yields n k = Some k' \<and> OSTCBCurPtr k' = hd (rotate n (Q i))"
proof (induction n arbitrary: k Q)
  case (Suc n)
  obtain k' where k': "OSSchedRoundRobinYield k = Some (OS_ERR_NONE, k')" "kernel_ok k' (Q(i := rotate1 (Q i)))"
    "OSTCBCurPtr k' = hd (rotate1 (Q i))" "OSSchedRoundRobinEn k'"
    using yield_once [OF Suc.prems] by blast
  have "top_prio (Q(i := rotate1 (Q i))) = Some i" using Suc.prems(2) by (simp add: top_prio_Some)
  from Suc.IH [OF k'(2) this] k' Suc.prems(5) show ?case
    by (auto simp: rotate1_rotate_swap)
qed simp

section \<open>Properties\<close>

text \<open>C10: The ready lists implement one list of tasks per priority: making a task ready puts it in
  front of its priority, or at the end when this is the priority that is running; removing takes
  it out wherever it is; the rotation moves the first one to the end.  No operation follows a null
  pointer, and links, counters and the priority table agree afterwards.\<close>

theorem OS_RdyList_refines:
  assumes "rdy_inv k Q" and "unat (Prio (tcb k p)) = i" and "i < 32"
  shows "(if p \<in> set (Q i)
      then \<exists>k'. OS_RdyListRemove p k = Some k' \<and> rdy_inv k' (Q(i := remove1 p (Q i)))
      else \<exists>k'. OS_RdyListInsert p k = Some k'
        \<and> rdy_inv k' (Q(i := if Prio (tcb k p) = OSPrioCur k then Q i @ [p] else p # Q i)))
    \<and> (\<exists>k'. OS_RdyListMoveHeadToTail i k = Some k' \<and> rdy_inv k' (Q(i := rotate1 (Q i))))"
proof -
  have "\<exists>k'. OS_RdyListMoveHeadToTail i k = Some k' \<and> rdy_inv k' (Q(i := rotate1 (Q i)))"
    using MoveHeadToTail_refines [OF assms(1,3)] by blast
  moreover have "\<exists>k'. OS_RdyListRemove p k = Some k' \<and> rdy_inv k' (Q(i := remove1 p (Q i)))"
    if "p \<in> set (Q i)" using Remove_refines [OF assms(1,3) that] by blast
  moreover have "\<exists>k'. OS_RdyListInsert p k = Some k'
      \<and> rdy_inv k' (Q(i := if Prio (tcb k p) = OSPrioCur k then Q i @ [p] else p # Q i))"
    if "p \<notin> set (Q i)" using Insert_refines [OF assms that] by (auto simp: rdy_put_def)
  ultimately show ?thesis by simp
qed

theorem OS_RdyList_refines_witness:
  "\<exists>k'. OS_RdyListInsert 1 (boot_kernel two_prios (blank_msgs [])) = Some k' \<and> rdy_inv k' ((\<lambda>_. [])(5 := [1]))"
proof -
  have "rdy_inv (boot_kernel two_prios (blank_msgs [])) (\<lambda>_. [])"
    using boot_kernel_ok by (simp add: kernel_ok_def)
  from OS_RdyList_refines [OF this, of 1 5] show ?thesis by simp
qed

text \<open>Scheduling is preemptive by priority: when a task becomes ready, the next scheduling runs it
  if its priority is higher (its number lower) than that of the running task, and leaves the running
  task on the processor otherwise.\<close>

lemma readied_task_preempts:
  assumes "kernel_ok k Q" and "next_task Q = Some (OSTCBCurPtr k)"
    and "unat (Prio (tcb k p)) = i" and "i < 32" and "p \<notin> set (Q i)"
  shows "\<exists>k1 k2. OS_RdyListInsert p k = Some k1 \<and> OSSched k1 = Some k2
    \<and> OSTCBCurPtr k2 = (if Prio (tcb k p) < Prio (tcb k (OSTCBCurPtr k)) then p else OSTCBCurPtr k)"
  using csu_sched.ready_then_sched [OF assms(1,2) _ assms(4,5)] assms(3)
  by (simp add: prio_ix_def word_less_nat_alt)

text \<open>C27: A receive interrupt that enters the kernel and does not leave it, as \<open>USART2_IRQHandler\<close>
  does when the idle flag is not set, stops multitasking for good: no later interrupt that is
  paired and no service that schedules changes the running task.\<close>

theorem unpaired_interrupt_freezes:
  assumes "OSRunning k" and "OSIntNestingCtr k < 249"
  shows "OSSched (OSIntEnter k) = Some (OSIntEnter k)
    \<and> OSIntExit (OSIntEnter (OSIntEnter k)) = Some (OSIntEnter k)
    \<and> OSSchedRoundRobinYield (OSIntEnter k) = Some (OS_ERR_YIELD_ISR, OSIntEnter k)"
proof -
  have "unat (OSIntNestingCtr k) < 249" using assms(2) by (simp add: word_less_nat_alt)
  then have "unat (OSIntNestingCtr k + 1) = unat (OSIntNestingCtr k) + 1"
    "unat (OSIntNestingCtr k + 2) = unat (OSIntNestingCtr k) + 2"
    by (simp_all add: unat_word_ariths)
  then have "0 < OSIntNestingCtr k + 1" "\<not> 250 \<le> OSIntNestingCtr k" "\<not> 250 \<le> OSIntNestingCtr k + 1"
    "OSIntNestingCtr k + 2 \<noteq> 0"
    using \<open>unat (OSIntNestingCtr k) < 249\<close>
    by (auto simp: word_less_nat_alt word_le_nat_alt word_unat_eq_iff)
  then show ?thesis using assms(1)
    by (simp add: OSIntEnter_def OSIntExit_def OSSched_def OSSchedRoundRobinYield_def Let_def add.commute)
qed

theorem unpaired_interrupt_freezes_witness:
  "OSSched (OSIntEnter (boot_kernel two_prios (blank_msgs [])))
     = Some (OSIntEnter (boot_kernel two_prios (blank_msgs [])))"
  using unpaired_interrupt_freezes [of "boot_kernel two_prios (blank_msgs [])"] boot_kernel_ok
  by (simp add: kernel_ok_def)

text \<open>C26: Tasks of the highest ready priority take turns: after \<open>n\<close> yields the running task is
  the one \<open>n\<close> places behind the first, cyclically, so within as many yields as there are tasks
  every one of them gets the processor.\<close>

theorem round_robin_turns:
  assumes "kernel_ok k Q" and "top_prio Q = Some i" and "OSTCBCurPtr k = hd (Q i)"
    and "OSSchedRoundRobinEn k" and "2 \<le> length (Q i)"
  shows "\<exists>k'. yields n k = Some k' \<and> OSTCBCurPtr k' = Q i ! (n mod length (Q i))"
proof -
  have "Q i \<noteq> []" using assms(5) by auto
  then have "hd (rotate n (Q i)) = Q i ! (n mod length (Q i))" by (rule hd_rotate_conv_nth)
  with yields_rotate [OF assms, of n] show ?thesis by simp
qed

theorem round_robin_turns_witness:
  "\<exists>k0 k k'. OS_RdyListInsert 0 (boot_kernel (\<lambda>_. 7) (blank_msgs [])) = Some k0
    \<and> OS_RdyListInsert 1 k0 = Some k \<and> yields 3 k = Some k' \<and> OSTCBCurPtr k' = 1"
proof -
  obtain k0 where k0: "OS_RdyListInsert 0 (boot_kernel (\<lambda>_. 7) (blank_msgs [])) = Some k0"
    "kernel_ok k0 ((\<lambda>_. [])(unat (7 :: u8) := [0]))"
    "rdy_frame (unat (7 :: u8)) (boot_kernel (\<lambda>_. 7) (blank_msgs [])) k0"
    by (rule idle_ready [of "\<lambda>_. 7" "blank_msgs []"]) simp
  have ok0: "kernel_ok k0 ((\<lambda>_. [])(7 := [0]))" using k0(2) by simp
  have pr: "prio_ix k0 p = 7" for p
    using rdy_frame_simps(11) [OF k0(3)] by (simp add: prio_ix_def)
  obtain k where k: "OS_RdyListInsert 1 k0 = Some k" "OSTCBCurPtr k = OSTCBCurPtr k0"
    "kernel_ok k ((\<lambda>_. [])(7 := [0, 1]))"
    using csu_sched.ready_law [OF ok0 pr [of 1]] pr by auto
  obtain k1 where "OS_RdyListInsert 1 k0 = Some k1" "rdy_frame 7 k0 k1"
    using Insert_refines [of k0 "(\<lambda>_. [])(7 := [0])" 1 7] ok0 pr [of 1]
    by (auto simp: kernel_ok_def prio_ix_def)
  then have "OSSchedRoundRobinEn k" using k(1) rdy_frame_simps(4) rdy_frame_simps(4) [OF k0(3)] by auto
  moreover have "top_prio ((\<lambda>_. [])(7 := [0 :: nat, 1])) = Some 7" by (auto simp: top_prio_Some)
  moreover have "OSTCBCurPtr k = 0" using k(2) rdy_frame_simps(6) [OF k0(3)] by simp
  moreover have "[0 :: nat, 1] ! (3 mod length [0 :: nat, 1]) = 1" by code_simp
  ultimately show ?thesis using round_robin_turns [OF k(3), of 7 3] k0(1) k(1) by auto
qed

end
