(* ===== verification/Os_Tick.thy ===== *)
theory Os_Tick
  imports Os_Core
begin

text \<open>
  The tick list of the kernel (os_tick.c): the tasks that wait for a time are kept in the spokes
  of a wheel, each spoke a doubly linked list ordered by the time that remains; every tick looks
  at one spoke and makes the tasks whose time has come ready.  Time is a 32-bit counter that wraps.
\<close>

section \<open>States of a task and options\<close>

abbreviation (input) OS_TASK_STATE_RDY :: u8 where "OS_TASK_STATE_RDY \<equiv> 0"
abbreviation (input) OS_TASK_STATE_DLY :: u8 where "OS_TASK_STATE_DLY \<equiv> 1"
abbreviation (input) OS_TASK_STATE_PEND :: u8 where "OS_TASK_STATE_PEND \<equiv> 2"
abbreviation (input) OS_TASK_STATE_PEND_TIMEOUT :: u8 where "OS_TASK_STATE_PEND_TIMEOUT \<equiv> 3"
abbreviation (input) OS_TASK_STATE_SUSPENDED :: u8 where "OS_TASK_STATE_SUSPENDED \<equiv> 4"
abbreviation (input) OS_TASK_STATE_DLY_SUSPENDED :: u8 where "OS_TASK_STATE_DLY_SUSPENDED \<equiv> 5"
abbreviation (input) OS_TASK_STATE_PEND_SUSPENDED :: u8 where "OS_TASK_STATE_PEND_SUSPENDED \<equiv> 6"
abbreviation (input) OS_TASK_STATE_PEND_TIMEOUT_SUSPENDED :: u8 where
  "OS_TASK_STATE_PEND_TIMEOUT_SUSPENDED \<equiv> 7"
abbreviation (input) OS_TASK_STATE_BIT_SUSPENDED :: u8 where "OS_TASK_STATE_BIT_SUSPENDED \<equiv> 4"
abbreviation (input) OS_STATUS_PEND_OK :: u8 where "OS_STATUS_PEND_OK \<equiv> 0"
abbreviation (input) OS_STATUS_PEND_ABORT :: u8 where "OS_STATUS_PEND_ABORT \<equiv> 1"
abbreviation (input) OS_STATUS_PEND_TIMEOUT :: u8 where "OS_STATUS_PEND_TIMEOUT \<equiv> 3"
abbreviation (input) OS_TASK_PEND_ON_NOTHING :: u8 where "OS_TASK_PEND_ON_NOTHING \<equiv> 0"
abbreviation (input) OS_TASK_PEND_ON_TASK_Q :: u8 where "OS_TASK_PEND_ON_TASK_Q \<equiv> 2"
abbreviation (input) OS_OPT_TIME_DLY :: u16 where "OS_OPT_TIME_DLY \<equiv> 0"
abbreviation (input) OS_OPT_TIME_TIMEOUT :: u16 where "OS_OPT_TIME_TIMEOUT \<equiv> 2"
abbreviation (input) OS_OPT_TIME_MATCH :: u16 where "OS_OPT_TIME_MATCH \<equiv> 4"
abbreviation (input) OS_OPT_TIME_PERIODIC :: u16 where "OS_OPT_TIME_PERIODIC \<equiv> 8"
abbreviation (input) OS_TICK_TH_RDY :: u32 where "OS_TICK_TH_RDY \<equiv> 0xFFFF0000"

text \<open>\<open>OSCfg_TickWheelSize\<close>, OS_CFG_TICK_WHEEL_SIZE of os_cfg_app.h.\<close>

abbreviation (input) WHEEL :: nat where "WHEEL \<equiv> 17"

definition spoke_of :: "u32 \<Rightarrow> nat" where
  "spoke_of t = unat (t mod 17)"

definition upd_spoke :: "nat \<Rightarrow> (os_tick_spoke \<Rightarrow> os_tick_spoke) \<Rightarrow> os_kernel \<Rightarrow> os_kernel" where
  "upd_spoke i f k = k\<lparr>OSCfg_TickWheel := (OSCfg_TickWheel k)(i := f (OSCfg_TickWheel k i))\<rparr>"

section \<open>Operations\<close>

definition OS_TickListInit :: "os_kernel \<Rightarrow> os_kernel" where
  "OS_TickListInit k =
     k\<lparr>OSCfg_TickWheel := \<lambda>i. if i < WHEEL
        then \<lparr>FirstPtr = None, SpokeEntries = 0, SpokeEntriesMax = 0\<rparr> else OSCfg_TickWheel k i\<rparr>"

text \<open>
  When the task will be woken: \<open>None\<close> if the time is 0 or has already passed.  For a periodic
  delay the time counts from the previous wake-up, as long as that lies in the future.
\<close>

definition set_match :: "nat \<Rightarrow> u32 \<Rightarrow> u16 \<Rightarrow> os_kernel \<Rightarrow> os_kernel option" where
  "set_match p time opt k =
     (if opt = OS_OPT_TIME_MATCH then
        (let tick_delta = time - OSTickCtr k - 1
         in if OS_TICK_TH_RDY < tick_delta then None
            else Some (upd_tcb p (\<lambda>t. t\<lparr>TickCtrMatch := time, TickRemain := tick_delta + 1\<rparr>) k))
      else if 0 < time then
        (if opt = OS_OPT_TIME_PERIODIC then
           (let tick_next = TickCtrPrev (tcb k p) + time;
                tick_delta = tick_next - OSTickCtr k - 1;
                m = (if tick_delta < time then tick_next else OSTickCtr k + time)
            in Some (upd_tcb p (\<lambda>t. t\<lparr>TickCtrMatch := m, TickRemain := m - OSTickCtr k, TickCtrPrev := m\<rparr>) k))
         else Some (upd_tcb p (\<lambda>t. t\<lparr>TickCtrMatch := OSTickCtr k + time, TickRemain := time\<rparr>) k))
      else None)"

text \<open>The walk along a spoke; every task passed gets its remaining time brought up to date.\<close>

partial_function (option) tick_walk :: "nat \<Rightarrow> nat \<Rightarrow> nat \<Rightarrow> os_kernel \<Rightarrow> os_kernel option" where
  "tick_walk s p p1 k =
     (let k = upd_tcb p1 (\<lambda>t. t\<lparr>TickRemain := TickCtrMatch t - OSTickCtr k\<rparr>) k
      in if TickRemain (tcb k p1) < TickRemain (tcb k p) then
           (case TickNextPtr (tcb k p1) of
              Some q \<Rightarrow> tick_walk s p q k
            | None \<Rightarrow> Some (upd_tcb p1 (\<lambda>t. t\<lparr>TickNextPtr := Some p\<rparr>)
                (upd_tcb p (\<lambda>t. t\<lparr>TickNextPtr := None, TickPrevPtr := Some p1\<rparr>) k)))
         else
           (case TickPrevPtr (tcb k p1) of
              None \<Rightarrow> Some (upd_spoke s (\<lambda>r. r\<lparr>FirstPtr := Some p\<rparr>)
                (upd_tcb p1 (\<lambda>t. t\<lparr>TickPrevPtr := Some p\<rparr>)
                  (upd_tcb p (\<lambda>t. t\<lparr>TickPrevPtr := None, TickNextPtr := Some p1\<rparr>) k)))
            | Some p0 \<Rightarrow> Some (upd_tcb p1 (\<lambda>t. t\<lparr>TickPrevPtr := Some p\<rparr>)
                (upd_tcb p0 (\<lambda>t. t\<lparr>TickNextPtr := Some p\<rparr>)
                  (upd_tcb p (\<lambda>t. t\<lparr>TickPrevPtr := Some p0, TickNextPtr := Some p1\<rparr>) k)))))"

definition OS_TickListInsert :: "nat \<Rightarrow> u32 \<Rightarrow> u16 \<Rightarrow> os_kernel \<Rightarrow> (OS_ERR \<times> os_kernel) option" where
  "OS_TickListInsert p time opt k =
     (case set_match p time opt k of
        None \<Rightarrow> Some (OS_ERR_TIME_ZERO_DLY,
          upd_tcb p (\<lambda>t. t\<lparr>TickCtrMatch := 0, TickRemain := 0, TickSpokePtr := None\<rparr>) k)
      | Some k \<Rightarrow>
          (let s = spoke_of (TickCtrMatch (tcb k p))
           in do {
             k \<leftarrow> (if SpokeEntries (OSCfg_TickWheel k s) = 0 then
                     Some (upd_spoke s (\<lambda>r. r\<lparr>FirstPtr := Some p, SpokeEntries := 1\<rparr>)
                       (upd_tcb p (\<lambda>t. t\<lparr>TickNextPtr := None, TickPrevPtr := None\<rparr>) k))
                   else do {
                     k \<leftarrow> (case FirstPtr (OSCfg_TickWheel k s) of
                             None \<Rightarrow> Some k | Some p1 \<Rightarrow> tick_walk s p p1 k);
                     Some (upd_spoke s (\<lambda>r. r\<lparr>SpokeEntries := SpokeEntries r + 1\<rparr>) k) });
             let k = upd_spoke s (\<lambda>r. if SpokeEntriesMax r < SpokeEntries r
                                      then r\<lparr>SpokeEntriesMax := SpokeEntries r\<rparr> else r) k;
             Some (OS_ERR_NONE, upd_tcb p (\<lambda>t. t\<lparr>TickSpokePtr := Some s\<rparr>) k) }))"

definition OS_TickListRemove :: "nat \<Rightarrow> os_kernel \<Rightarrow> os_kernel option" where
  "OS_TickListRemove p k =
     (case TickSpokePtr (tcb k p) of
        None \<Rightarrow> Some k
      | Some s \<Rightarrow>
          (let k = upd_tcb p (\<lambda>t. t\<lparr>TickRemain := 0\<rparr>) k
           in do {
             k \<leftarrow> (if FirstPtr (OSCfg_TickWheel k s) = Some p then
                     (let p1 = TickNextPtr (tcb k p);
                          k = upd_spoke s (\<lambda>r. r\<lparr>FirstPtr := p1\<rparr>) k
                      in case p1 of
                           None \<Rightarrow> Some k
                         | Some q \<Rightarrow> Some (upd_tcb q (\<lambda>t. t\<lparr>TickPrevPtr := None\<rparr>) k))
                   else do {
                     p1 \<leftarrow> TickPrevPtr (tcb k p);
                     let p2 = TickNextPtr (tcb k p);
                     let k = upd_tcb p1 (\<lambda>t. t\<lparr>TickNextPtr := p2\<rparr>) k;
                     case p2 of
                       None \<Rightarrow> Some k
                     | Some q \<Rightarrow> Some (upd_tcb q (\<lambda>t. t\<lparr>TickPrevPtr := Some p1\<rparr>) k) });
             let k = upd_tcb p (\<lambda>t. t\<lparr>TickNextPtr := None, TickPrevPtr := None,
                                     TickSpokePtr := None, TickCtrMatch := 0\<rparr>) k;
             Some (upd_spoke s (\<lambda>r. r\<lparr>SpokeEntries := SpokeEntries r - 1\<rparr>) k) }))"

definition OS_TaskRdy :: "nat \<Rightarrow> os_kernel \<Rightarrow> os_kernel option" where
  "OS_TaskRdy p k =
     do { k \<leftarrow> OS_TickListRemove p k;
          if TaskState (tcb k p) AND OS_TASK_STATE_BIT_SUSPENDED = 0
          then OS_RdyListInsert p k else Some k }"

text \<open>
  One task of the spoke whose turn it is: the result says whether the walk goes on.  \<open>stamp p\<close> is
  the time stamp counter when task \<open>p\<close> is looked at.  A task that waits for its own message
  queue is in no pend list, so \<open>OS_PendListRemove\<close> has nothing to do.
\<close>

definition tick_task :: "(nat \<Rightarrow> u32) \<Rightarrow> nat \<Rightarrow> os_kernel \<Rightarrow> (bool \<times> os_kernel) option" where
  "tick_task stamp p k =
     (let st = TaskState (tcb k p);
          now = upd_tcb p (\<lambda>t. t\<lparr>TickRemain := TickCtrMatch t - OSTickCtr k\<rparr>) k;
          due = (OSTickCtr k = TickCtrMatch (tcb k p));
          no_msg = (\<lambda>t. t\<lparr>TcbMsgPtr := 0, TcbMsgSize := 0, TS := stamp p\<rparr>);
          timed_out = (\<lambda>st t. t\<lparr>TaskState := st, PendStatus := OS_STATUS_PEND_TIMEOUT,
                                PendOn := OS_TASK_PEND_ON_NOTHING\<rparr>)
      in if st = OS_TASK_STATE_DLY then
           (if due then map_option (Pair True)
              (OS_TaskRdy p (upd_tcb p (\<lambda>t. t\<lparr>TaskState := OS_TASK_STATE_RDY\<rparr>) now))
            else Some (False, now))
         else if st = OS_TASK_STATE_PEND_TIMEOUT then
           (if due then map_option (\<lambda>k. (True, upd_tcb p (timed_out OS_TASK_STATE_RDY) k))
              (OS_TaskRdy p (upd_tcb p no_msg now))
            else Some (False, now))
         else if st = OS_TASK_STATE_DLY_SUSPENDED then
           (if due then map_option (Pair True)
              (OS_TickListRemove p (upd_tcb p (\<lambda>t. t\<lparr>TaskState := OS_TASK_STATE_SUSPENDED\<rparr>) now))
            else Some (False, now))
         else if st = OS_TASK_STATE_PEND_TIMEOUT_SUSPENDED then
           (if due then map_option (\<lambda>k. (True, upd_tcb p (timed_out OS_TASK_STATE_SUSPENDED) k))
              (OS_TickListRemove p (upd_tcb p no_msg now))
            else Some (False, now))
         else Some (True, k))"

text \<open>The next task of the spoke is read before the current one is taken out.\<close>

partial_function (option) tick_loop :: "(nat \<Rightarrow> u32) \<Rightarrow> ptr \<Rightarrow> os_kernel \<Rightarrow> os_kernel option" where
  "tick_loop stamp p k =
     (case p of
        None \<Rightarrow> Some k
      | Some p \<Rightarrow>
          (let p_tcb_next = TickNextPtr (tcb k p)
           in Option.bind (tick_task stamp p k) (\<lambda>(more, k).
                if more then tick_loop stamp p_tcb_next k else Some k)))"

definition OS_TickListUpdate :: "(nat \<Rightarrow> u32) \<Rightarrow> os_kernel \<Rightarrow> os_kernel option" where
  "OS_TickListUpdate stamp k =
     (let k = k\<lparr>OSTickCtr := OSTickCtr k + 1\<rparr>
      in tick_loop stamp (FirstPtr (OSCfg_TickWheel k (spoke_of (OSTickCtr k)))) k)"

section \<open>The spokes as ordered lists\<close>

abbreviation tn :: "os_kernel \<Rightarrow> nat \<Rightarrow> ptr" where "tn k x \<equiv> TickNextPtr (tcb k x)"
abbreviation tp :: "os_kernel \<Rightarrow> nat \<Rightarrow> ptr" where "tp k x \<equiv> TickPrevPtr (tcb k x)"

text \<open>How many ticks a task still waits.\<close>

definition dist :: "os_kernel \<Rightarrow> nat \<Rightarrow> u32" where
  "dist k x = TickCtrMatch (tcb k x) - OSTickCtr k"

definition spoke_ok :: "os_kernel \<Rightarrow> nat \<Rightarrow> nat list \<Rightarrow> bool" where
  "spoke_ok k s xs \<longleftrightarrow> seg (tn k) (tp k) None xs None \<and> distinct xs
     \<and> FirstPtr (OSCfg_TickWheel k s) = first_ptr xs None \<and> SpokeEntries (OSCfg_TickWheel k s) = length xs
     \<and> sorted (map (dist k) xs)
     \<and> (\<forall>x \<in> set xs. TickSpokePtr (tcb k x) = Some s \<and> spoke_of (TickCtrMatch (tcb k x)) = s)"

definition wheel_inv :: "os_kernel \<Rightarrow> (nat \<Rightarrow> nat list) \<Rightarrow> bool" where
  "wheel_inv k W \<longleftrightarrow> (\<forall>s < WHEEL. spoke_ok k s (W s))
     \<and> (\<forall>x. (\<forall>s < WHEEL. x \<notin> set (W s)) \<longrightarrow> TickSpokePtr (tcb k x) = None)"

lemma spoke_of_less: "spoke_of t < WHEEL"
  by (simp add: spoke_of_def unat_mod)

text \<open>Only the tick fields of the control blocks and the wheel differ.\<close>

definition tick_less :: "os_tcb \<Rightarrow> os_tcb" where
  "tick_less t = t\<lparr>TickNextPtr := None, TickPrevPtr := None, TickSpokePtr := None,
     TickCtrPrev := 0, TickCtrMatch := 0, TickRemain := 0\<rparr>"

lemma tick_less_upd [simp]:
  "tick_less (t\<lparr>TickNextPtr := a\<rparr>) = tick_less t" "tick_less (t\<lparr>TickPrevPtr := a\<rparr>) = tick_less t"
  "tick_less (t\<lparr>TickSpokePtr := b\<rparr>) = tick_less t" "tick_less (t\<lparr>TickCtrPrev := c\<rparr>) = tick_less t"
  "tick_less (t\<lparr>TickCtrMatch := c\<rparr>) = tick_less t" "tick_less (t\<lparr>TickRemain := c\<rparr>) = tick_less t"
  by (simp_all add: tick_less_def)

lemma tick_less_eqD:
  assumes "tick_less t = tick_less u"
  shows "Prio t = Prio u" "NextTcb t = NextTcb u" "PrevTcb t = PrevTcb u" "TaskState t = TaskState u"
    "PendOn t = PendOn u" "PendStatus t = PendStatus u" "TcbMsgPtr t = TcbMsgPtr u"
    "TcbMsgSize t = TcbMsgSize u" "TS t = TS u"
  using arg_cong [OF assms, of Prio] arg_cong [OF assms, of NextTcb] arg_cong [OF assms, of PrevTcb]
    arg_cong [OF assms, of TaskState] arg_cong [OF assms, of PendOn] arg_cong [OF assms, of PendStatus]
    arg_cong [OF assms, of TcbMsgPtr] arg_cong [OF assms, of TcbMsgSize] arg_cong [OF assms, of TS]
  by (simp_all add: tick_less_def)

definition tick_frame :: "os_kernel \<Rightarrow> os_kernel \<Rightarrow> bool" where
  "tick_frame k k' \<longleftrightarrow> (\<forall>x. tick_less (tcb k' x) = tick_less (tcb k x))
     \<and> k'\<lparr>tcb := tcb k, OSCfg_TickWheel := OSCfg_TickWheel k\<rparr> = k"

lemma tick_frame_refl [simp]: "tick_frame k k"
  by (simp add: tick_frame_def)

lemma tick_frame_trans:
  assumes "tick_frame k k1" and "tick_frame k1 k2"
  shows "tick_frame k k2"
proof -
  have "k2\<lparr>tcb := tcb k, OSCfg_TickWheel := OSCfg_TickWheel k\<rparr>
      = (k2\<lparr>tcb := tcb k1, OSCfg_TickWheel := OSCfg_TickWheel k1\<rparr>)\<lparr>tcb := tcb k, OSCfg_TickWheel := OSCfg_TickWheel k\<rparr>"
    by simp
  also have "\<dots> = k1\<lparr>tcb := tcb k, OSCfg_TickWheel := OSCfg_TickWheel k\<rparr>"
    using assms(2) by (simp only: tick_frame_def)
  also have "\<dots> = k" using assms(1) by (simp only: tick_frame_def)
  finally show ?thesis using assms by (simp only: tick_frame_def simp_thms)
qed

lemma tick_frame_upd:
  "(\<And>t. tick_less (f t) = tick_less t) \<Longrightarrow> tick_frame k (upd_tcb p f k)"
  by (simp add: tick_frame_def upd_tcb_def)

lemma tick_frame_spoke: "tick_frame k (upd_spoke s f k)"
  by (simp add: tick_frame_def upd_spoke_def)

lemmas tick_frame_steps = tick_frame_trans [OF _ tick_frame_upd] tick_frame_trans [OF _ tick_frame_spoke]

text \<open>What the walk along spoke \<open>s\<close> to place \<open>p\<close> leaves alone.\<close>

definition walk_frame :: "nat \<Rightarrow> nat set \<Rightarrow> os_kernel \<Rightarrow> os_kernel \<Rightarrow> bool" where
  "walk_frame s X k k' \<longleftrightarrow> tick_frame k k'
     \<and> (\<forall>x. TickCtrMatch (tcb k' x) = TickCtrMatch (tcb k x) \<and> TickSpokePtr (tcb k' x) = TickSpokePtr (tcb k x))
     \<and> (\<forall>x. x \<notin> X \<longrightarrow> tn k' x = tn k x \<and> tp k' x = tp k x)
     \<and> (\<exists>f. OSCfg_TickWheel k' = (OSCfg_TickWheel k)(s := (OSCfg_TickWheel k s)\<lparr>FirstPtr := f\<rparr>))"

definition passed :: "nat \<Rightarrow> os_kernel \<Rightarrow> os_kernel" where
  "passed p1 k = upd_tcb p1 (\<lambda>t. t\<lparr>TickRemain := TickCtrMatch t - OSTickCtr k\<rparr>) k"

lemma passed_simps [simp]:
  "tn (passed p1 k) x = tn k x" "tp (passed p1 k) x = tp k x" "dist (passed p1 k) x = dist k x"
  "TickRemain (tcb (passed p1 k) x) = (if x = p1 then dist k x else TickRemain (tcb k x))"
  "OSCfg_TickWheel (passed p1 k) = OSCfg_TickWheel k"
  by (simp_all add: passed_def upd_defs dist_def)

lemma passed_match:
  "TickCtrMatch (tcb (passed p1 k) x) = TickCtrMatch (tcb k x)"
  "TickSpokePtr (tcb (passed p1 k) x) = TickSpokePtr (tcb k x)"
  by (simp_all add: passed_def upd_defs)

lemma tick_frame_passed: "tick_frame k (passed p1 k)"
  by (simp add: passed_def tick_frame_upd)

lemma walk_frame_passed: "walk_frame s X (passed p1 k) k' \<Longrightarrow> walk_frame s X k k'"
  using tick_frame_trans [OF tick_frame_passed]
  unfolding walk_frame_def passed_simps passed_match by blast

lemma tick_walk_on:
  "p \<noteq> p1 \<Longrightarrow> dist k p1 < TickRemain (tcb k p) \<Longrightarrow> tn k p1 = Some q \<Longrightarrow>
    tick_walk s p p1 k = tick_walk s p q (passed p1 k)"
  by (subst tick_walk.simps) (simp add: passed_def [symmetric] Let_def)

lemma tick_walk_end:
  assumes "seg (tn k) (tp k) None (us @ [p1]) None" and "distinct (p # us @ [p1])"
    and "FirstPtr (OSCfg_TickWheel k s) = first_ptr (us @ [p1]) None"
    and "dist k p1 < TickRemain (tcb k p)"
  shows "\<exists>k'. tick_walk s p p1 k = Some k' \<and> seg (tn k') (tp k') None (us @ [p1, p]) None
    \<and> FirstPtr (OSCfg_TickWheel k' s) = first_ptr (us @ [p1, p]) None
    \<and> walk_frame s (insert p (set (us @ [p1]))) k k'"
proof -
  define k' where "k' = upd_tcb p1 (\<lambda>t. t\<lparr>TickNextPtr := Some p\<rparr>)
    (upd_tcb p (\<lambda>t. t\<lparr>TickNextPtr := None, TickPrevPtr := Some p1\<rparr>) (passed p1 k))"
  have "tn k p1 = None" using assms(1) by simp
  then have "tick_walk s p p1 k = Some k'" using assms(2,4)
    by (subst tick_walk.simps) (simp add: passed_def [symmetric] Let_def k'_def)
  moreover have "seg (tn k') (tp k') None ((us @ [p1]) @ p # []) None"
    by (rule seg_insert [where nx = "tn k" and pv = "tp k"]) (use assms in \<open>auto simp: k'_def upd_defs\<close>)
  moreover have "walk_frame s (insert p (set (us @ [p1]))) (passed p1 k) k'"
    unfolding walk_frame_def
    by (intro conjI; (unfold k'_def, intro tick_frame_steps tick_frame_refl; simp)?)
      (auto simp: k'_def upd_defs intro!: exI [of _ "FirstPtr (OSCfg_TickWheel k s)"])
  moreover have "FirstPtr (OSCfg_TickWheel k' s) = FirstPtr (OSCfg_TickWheel k s)"
    by (simp add: k'_def upd_defs passed_def)
  ultimately show ?thesis using assms(3) walk_frame_passed by fastforce
qed

lemma tick_walk_before:
  assumes "seg (tn k) (tp k) None (us @ p1 # vs) None" and "distinct (p # us @ p1 # vs)"
    and "FirstPtr (OSCfg_TickWheel k s) = first_ptr (us @ p1 # vs) None"
    and "\<not> dist k p1 < TickRemain (tcb k p)"
  shows "\<exists>k'. tick_walk s p p1 k = Some k' \<and> seg (tn k') (tp k') None (us @ p # p1 # vs) None
    \<and> FirstPtr (OSCfg_TickWheel k' s) = first_ptr (us @ p # p1 # vs) None
    \<and> walk_frame s (insert p (set (us @ p1 # vs))) k k'"
proof (cases us rule: rev_cases)
  case Nil
  define k' where "k' = upd_spoke s (\<lambda>r. r\<lparr>FirstPtr := Some p\<rparr>)
    (upd_tcb p1 (\<lambda>t. t\<lparr>TickPrevPtr := Some p\<rparr>)
      (upd_tcb p (\<lambda>t. t\<lparr>TickPrevPtr := None, TickNextPtr := Some p1\<rparr>) (passed p1 k)))"
  have "tp k p1 = None" using assms(1) Nil by simp
  then have "tick_walk s p p1 k = Some k'" using assms(2,4)
    by (subst tick_walk.simps) (simp add: passed_def [symmetric] Let_def k'_def)
  moreover have "seg (tn k') (tp k') None ([] @ p # p1 # vs) None"
    by (rule seg_insert [where nx = "tn k" and pv = "tp k"])
      (use assms Nil in \<open>auto simp: k'_def upd_defs upd_spoke_def\<close>)
  moreover have "walk_frame s (insert p (set (us @ p1 # vs))) (passed p1 k) k'"
    unfolding walk_frame_def
    by (intro conjI; (unfold k'_def, intro tick_frame_steps tick_frame_refl; simp)?)
      (auto simp: k'_def upd_defs upd_spoke_def)
  moreover have "FirstPtr (OSCfg_TickWheel k' s) = Some p"
    by (simp add: k'_def upd_defs upd_spoke_def)
  ultimately show ?thesis using Nil walk_frame_passed by fastforce
next
  case (snoc ws w)
  define k' where "k' = upd_tcb p1 (\<lambda>t. t\<lparr>TickPrevPtr := Some p\<rparr>) (upd_tcb w (\<lambda>t. t\<lparr>TickNextPtr := Some p\<rparr>)
    (upd_tcb p (\<lambda>t. t\<lparr>TickPrevPtr := Some w, TickNextPtr := Some p1\<rparr>) (passed p1 k)))"
  have "tp k p1 = Some w" using assms(1) snoc by simp
  then have "tick_walk s p p1 k = Some k'" using assms(2,4)
    by (subst tick_walk.simps) (simp add: passed_def [symmetric] Let_def k'_def)
  moreover have "seg (tn k') (tp k') None (us @ p # p1 # vs) None"
    by (rule seg_insert [where nx = "tn k" and pv = "tp k"])
      (use assms snoc in \<open>auto simp: k'_def upd_defs\<close>)
  moreover have "walk_frame s (insert p (set (us @ p1 # vs))) (passed p1 k) k'"
    unfolding walk_frame_def
    by (intro conjI; (unfold k'_def, intro tick_frame_steps tick_frame_refl; simp)?)
      (use snoc in \<open>auto simp: k'_def upd_defs intro!: exI [of _ "FirstPtr (OSCfg_TickWheel k s)"]\<close>)
  moreover have "FirstPtr (OSCfg_TickWheel k' s) = FirstPtr (OSCfg_TickWheel k s)"
    by (simp add: k'_def upd_defs passed_def)
  ultimately show ?thesis using assms(3) snoc walk_frame_passed by fastforce
qed

lemma tick_walk_places:
  assumes "seg (tn k) (tp k) None (us @ p1 # vs) None" and "distinct (p # us @ p1 # vs)"
    and "FirstPtr (OSCfg_TickWheel k s) = first_ptr (us @ p1 # vs) None"
    and "TickRemain (tcb k p) = d" and "\<And>u. u \<in> set us \<Longrightarrow> dist k u < d"
  shows "\<exists>k'. tick_walk s p p1 k = Some k'
    \<and> seg (tn k') (tp k') None (placed (dist k) d p (us @ p1 # vs)) None
    \<and> FirstPtr (OSCfg_TickWheel k' s) = first_ptr (placed (dist k) d p (us @ p1 # vs)) None
    \<and> walk_frame s (insert p (set (us @ p1 # vs))) k k'"
  using assms
proof (induction vs arbitrary: us p1 k)
  case Nil
  show ?case
  proof (cases "dist k p1 < d")
    case True
    then have "placed (dist k) d p (us @ [p1]) = us @ [p1, p]" using Nil.prems(5) by (simp add: placed_def)
    with tick_walk_end [OF Nil.prems(1-3)] True Nil.prems(4) show ?thesis by simp
  next
    case False
    then have "placed (dist k) d p (us @ [p1]) = us @ [p, p1]" using Nil.prems(5) by (simp add: placed_def)
    with tick_walk_before [OF Nil.prems(1-3)] False Nil.prems(4) show ?thesis by simp
  qed
next
  case (Cons v vs)
  show ?case
  proof (cases "dist k p1 < d")
    case True
    have n: "tn k p1 = Some v" "p \<noteq> p1" using Cons.prems(1,2) by simp_all
    have walk: "tick_walk s p p1 k = tick_walk s p v (passed p1 k)"
      using tick_walk_on [OF n(2) _ n(1)] True Cons.prems(4) by simp
    have eq: "dist (passed p1 k) = dist k" by (simp add: fun_eq_iff)
    have "\<exists>k'. tick_walk s p v (passed p1 k) = Some k'
      \<and> seg (tn k') (tp k') None (placed (dist (passed p1 k)) d p ((us @ [p1]) @ v # vs)) None
      \<and> FirstPtr (OSCfg_TickWheel k' s) = first_ptr (placed (dist (passed p1 k)) d p ((us @ [p1]) @ v # vs)) None
      \<and> walk_frame s (insert p (set ((us @ [p1]) @ v # vs))) (passed p1 k) k'"
      by (rule Cons.IH) (use Cons.prems True n in auto)
    then show ?thesis unfolding walk eq using walk_frame_passed by auto
  next
    case False
    then have "placed (dist k) d p (us @ p1 # v # vs) = us @ p # p1 # v # vs"
      using Cons.prems(5) by (simp add: placed_def)
    with tick_walk_before [OF Cons.prems(1-3)] False Cons.prems(4) show ?thesis by simp
  qed
qed

lemma spoke_ok_cong:
  assumes "spoke_ok k s xs"
    and "\<And>x. x \<in> set xs \<Longrightarrow> tn k' x = tn k x \<and> tp k' x = tp k x
      \<and> TickCtrMatch (tcb k' x) = TickCtrMatch (tcb k x) \<and> TickSpokePtr (tcb k' x) = TickSpokePtr (tcb k x)"
    and "FirstPtr (OSCfg_TickWheel k' s) = FirstPtr (OSCfg_TickWheel k s)"
    and "SpokeEntries (OSCfg_TickWheel k' s) = SpokeEntries (OSCfg_TickWheel k s)"
    and "OSTickCtr k' = OSTickCtr k"
  shows "spoke_ok k' s xs"
proof -
  have "seg (tn k') (tp k') None xs None = seg (tn k) (tp k) None xs None"
    by (rule seg_cong) (use assms(2) in auto)
  moreover have "map (dist k') xs = map (dist k) xs" using assms(2,5) by (simp add: dist_def)
  then have "sorted (map (dist k') xs)" using assms(1) by (simp only: spoke_ok_def)
  ultimately show ?thesis using assms by (simp add: spoke_ok_def)
qed

text \<open>Setting the time to wake concerns the task alone, and leaves it in its place.\<close>

lemma set_match_frame:
  "set_match p time opt k = Some k1 \<Longrightarrow> tick_frame k k1"
  unfolding set_match_def Let_def by (auto split: if_splits intro!: tick_frame_upd)

lemma set_match_Some:
  assumes "set_match p time opt k = Some k1"
  shows "\<And>x. x \<noteq> p \<Longrightarrow> tcb k1 x = tcb k x"
    and "OSCfg_TickWheel k1 = OSCfg_TickWheel k" and "OSTickCtr k1 = OSTickCtr k"
    and "TickSpokePtr (tcb k1 p) = TickSpokePtr (tcb k p)"
    and "TickRemain (tcb k1 p) = dist k1 p"
  using assms unfolding set_match_def Let_def
  by (auto split: if_splits simp: upd_defs dist_def)

lemma tick_frame_simps:
  assumes "tick_frame k k'"
  shows "OSTickCtr k' = OSTickCtr k" "OSRdyList k' = OSRdyList k" "OSPrioTbl k' = OSPrioTbl k"
    "OSPrioCur k' = OSPrioCur k" "OSTCBCurPtr k' = OSTCBCurPtr k" "OSIntNestingCtr k' = OSIntNestingCtr k"
    "OSSchedLockNestingCtr k' = OSSchedLockNestingCtr k" "msgs k' = msgs k" "OSRunning k' = OSRunning k"
proof -
  have e: "k'\<lparr>tcb := tcb k, OSCfg_TickWheel := OSCfg_TickWheel k\<rparr> = k"
    using assms unfolding tick_frame_def by (rule conjunct2)
  show "OSTickCtr k' = OSTickCtr k" using arg_cong [OF e, of OSTickCtr] by simp
  show "OSRdyList k' = OSRdyList k" using arg_cong [OF e, of OSRdyList] by simp
  show "OSPrioTbl k' = OSPrioTbl k" using arg_cong [OF e, of OSPrioTbl] by simp
  show "OSPrioCur k' = OSPrioCur k" using arg_cong [OF e, of OSPrioCur] by simp
  show "OSTCBCurPtr k' = OSTCBCurPtr k" using arg_cong [OF e, of OSTCBCurPtr] by simp
  show "OSIntNestingCtr k' = OSIntNestingCtr k" using arg_cong [OF e, of OSIntNestingCtr] by simp
  show "OSSchedLockNestingCtr k' = OSSchedLockNestingCtr k" using arg_cong [OF e, of OSSchedLockNestingCtr] by simp
  show "msgs k' = msgs k" using arg_cong [OF e, of msgs] by simp
  show "OSRunning k' = OSRunning k" using arg_cong [OF e, of OSRunning] by simp
qed

lemma tick_frame_tcb: "tick_frame k k' \<Longrightarrow> tick_less (tcb k' x) = tick_less (tcb k x)"
  by (simp only: tick_frame_def)

lemmas tick_frame_fields = tick_less_eqD [OF tick_frame_tcb]

lemma tick_frame_rdy: "tick_frame k k' \<Longrightarrow> rdy_inv k Q \<Longrightarrow> rdy_inv k' Q"
  by (rule rdy_inv_tcb) (simp_all add: tick_frame_simps tick_frame_fields)

text \<open>Putting a task into the wheel.\<close>

lemma TickListInsert_refines:
  assumes inv: "wheel_inv k W" and new: "\<forall>s < WHEEL. p \<notin> set (W s)"
    and m: "set_match p time opt k = Some k1" and s: "s = spoke_of (TickCtrMatch (tcb k1 p))"
  shows "\<exists>k'. OS_TickListInsert p time opt k = Some (OS_ERR_NONE, k') \<and> tick_frame k k'
    \<and> wheel_inv k' (W(s := placed (dist k) (dist k1 p) p (W s)))
    \<and> (\<forall>x. TickCtrMatch (tcb k' x) = TickCtrMatch (tcb k1 x))"
proof -
  have f1: "tick_frame k k1" by (rule set_match_frame [OF m])
  note m1 = set_match_Some [OF m]
  have sp: "spoke_ok k1 j (W j)" if "j < WHEEL" for j
  proof (rule spoke_ok_cong [of k])
    show "spoke_ok k j (W j)" using inv that by (simp add: wheel_inv_def)
    show "tn k1 x = tn k x \<and> tp k1 x = tp k x \<and> TickCtrMatch (tcb k1 x) = TickCtrMatch (tcb k x)
        \<and> TickSpokePtr (tcb k1 x) = TickSpokePtr (tcb k x)" if "x \<in> set (W j)" for x
    proof -
      have "x \<noteq> p" using new that \<open>j < WHEEL\<close> by auto
      then show ?thesis using m1(1) by simp
    qed
  qed (simp_all add: m1)
  have s17: "s < WHEEL" using s spoke_of_less by simp
  have ps: "p \<notin> set (W s)" using new s17 by simp
  note ok = sp [OF s17]
  have none: "TickSpokePtr (tcb k1 p) = None" using inv new m1(4) by (simp add: wheel_inv_def)
  let ?ys = "placed (dist k1) (dist k1 p) p (W s)"
  obtain k2 where k2: "(if SpokeEntries (OSCfg_TickWheel k1 s) = 0 then
         Some (upd_spoke s (\<lambda>r. r\<lparr>FirstPtr := Some p, SpokeEntries := 1\<rparr>)
           (upd_tcb p (\<lambda>t. t\<lparr>TickNextPtr := None, TickPrevPtr := None\<rparr>) k1))
       else do {
         k \<leftarrow> (case FirstPtr (OSCfg_TickWheel k1 s) of None \<Rightarrow> Some k1 | Some p1 \<Rightarrow> tick_walk s p p1 k1);
         Some (upd_spoke s (\<lambda>r. r\<lparr>SpokeEntries := SpokeEntries r + 1\<rparr>) k) }) = Some k2"
     "tick_frame k1 k2" "seg (tn k2) (tp k2) None ?ys None"
     "FirstPtr (OSCfg_TickWheel k2 s) = first_ptr ?ys None"
     "SpokeEntries (OSCfg_TickWheel k2 s) = length ?ys"
     "\<And>x. TickCtrMatch (tcb k2 x) = TickCtrMatch (tcb k1 x)"
     "\<And>x. TickSpokePtr (tcb k2 x) = TickSpokePtr (tcb k1 x)"
     "\<And>x. x \<notin> insert p (set (W s)) \<Longrightarrow> tn k2 x = tn k1 x \<and> tp k2 x = tp k1 x"
     "\<And>j. j \<noteq> s \<Longrightarrow> OSCfg_TickWheel k2 j = OSCfg_TickWheel k1 j"
  proof (cases "W s")
    case Nil
    let ?k = "upd_spoke s (\<lambda>r. r\<lparr>FirstPtr := Some p, SpokeEntries := 1\<rparr>)
           (upd_tcb p (\<lambda>t. t\<lparr>TickNextPtr := None, TickPrevPtr := None\<rparr>) k1)"
    have "tick_frame k1 ?k" by (intro tick_frame_steps tick_frame_refl) simp
    then show thesis
      by (intro that [of ?k]) (use ok Nil in \<open>auto simp: spoke_ok_def upd_defs upd_spoke_def\<close>)
  next
    case (Cons p1 vs)
    have d: "distinct (p # [] @ p1 # vs)" using ok ps Cons by (simp add: spoke_ok_def)
    have sg: "seg (tn k1) (tp k1) None ([] @ p1 # vs) None"
      "FirstPtr (OSCfg_TickWheel k1 s) = first_ptr ([] @ p1 # vs) None"
      "SpokeEntries (OSCfg_TickWheel k1 s) = Suc (length vs)"
      using ok Cons by (simp_all add: spoke_ok_def)
    obtain k2 where k2: "tick_walk s p p1 k1 = Some k2"
      "seg (tn k2) (tp k2) None ?ys None" "FirstPtr (OSCfg_TickWheel k2 s) = first_ptr ?ys None"
      "walk_frame s (insert p (set (p1 # vs))) k1 k2"
      using tick_walk_places [OF sg(1) d sg(2) m1(5)] Cons by auto
    let ?k = "upd_spoke s (\<lambda>r. r\<lparr>SpokeEntries := SpokeEntries r + 1\<rparr>) k2"
    have w: "tick_frame k1 k2" "\<And>x. TickCtrMatch (tcb k2 x) = TickCtrMatch (tcb k1 x)"
      "\<And>x. TickSpokePtr (tcb k2 x) = TickSpokePtr (tcb k1 x)"
      "\<And>x. x \<notin> insert p (set (p1 # vs)) \<Longrightarrow> tn k2 x = tn k1 x \<and> tp k2 x = tp k1 x"
      "SpokeEntries (OSCfg_TickWheel k2 s) = SpokeEntries (OSCfg_TickWheel k1 s)"
      "\<And>j. j \<noteq> s \<Longrightarrow> OSCfg_TickWheel k2 j = OSCfg_TickWheel k1 j"
      using k2(4) unfolding walk_frame_def by auto
    have "tick_frame k1 ?k" using w(1) by (intro tick_frame_steps)
    then show thesis
      by (intro that [of ?k]) (use k2 w sg(2,3) Cons in \<open>simp_all add: upd_spoke_def\<close>)
  qed
  define k3 where "k3 = upd_tcb p (\<lambda>t. t\<lparr>TickSpokePtr := Some s\<rparr>)
    (upd_spoke s (\<lambda>r. if SpokeEntriesMax r < SpokeEntries r then r\<lparr>SpokeEntriesMax := SpokeEntries r\<rparr> else r) k2)"
  have res: "OS_TickListInsert p time opt k = Some (OS_ERR_NONE, k3)"
    by (simp only: OS_TickListInsert_def m option.case Let_def s [symmetric] k2(1) bind.bind_lunit k3_def)
  have f3: "tick_frame k1 k3" unfolding k3_def by (intro tick_frame_steps k2(2)) simp
  have fields: "tn k3 x = tn k2 x" "tp k3 x = tp k2 x" "TickCtrMatch (tcb k3 x) = TickCtrMatch (tcb k1 x)"
    "TickSpokePtr (tcb k3 x) = (if x = p then Some s else TickSpokePtr (tcb k1 x))"
    "FirstPtr (OSCfg_TickWheel k3 j) = FirstPtr (OSCfg_TickWheel k2 j)"
    "SpokeEntries (OSCfg_TickWheel k3 j) = SpokeEntries (OSCfg_TickWheel k2 j)" for x j
    using k2(6,7) by (simp_all add: k3_def upd_defs upd_spoke_def)
  have ctr: "OSTickCtr k3 = OSTickCtr k" "OSTickCtr k3 = OSTickCtr k1"
    using tick_frame_simps(1) [OF f3] m1(3) by simp_all
  have dk: "dist k3 = dist k1" using fields(3) ctr by (simp add: dist_def fun_eq_iff)
  have dk1: "dist k x = dist k1 x" if "x \<in> set (W s)" for x
  proof -
    have "x \<noteq> p" using that ps by auto
    then show ?thesis using m1(1,3) by (simp add: dist_def)
  qed
  have pl: "placed (dist k) (dist k1 p) p (W s) = ?ys" by (rule placed_cong) (rule dk1)
  have "spoke_ok k3 s ?ys"
  proof -
    have "seg (tn k3) (tp k3) None ?ys None = seg (tn k2) (tp k2) None ?ys None"
      by (rule seg_cong) (simp_all add: fields)
    moreover have "sorted (map (dist k3) ?ys)"
      by (rule sorted_placed) (use ok dk in \<open>simp_all add: spoke_ok_def\<close>)
    moreover have "distinct ?ys" using ok ps by (simp add: distinct_placed spoke_ok_def)
    ultimately show ?thesis using k2(3-5) ok s by (auto simp: spoke_ok_def fields)
  qed
  moreover have "spoke_ok k3 j (W j)" if "j < WHEEL" "j \<noteq> s" for j
  proof (rule spoke_ok_cong [OF sp [OF that(1)]])
    show "tn k3 x = tn k1 x \<and> tp k3 x = tp k1 x \<and> TickCtrMatch (tcb k3 x) = TickCtrMatch (tcb k1 x)
        \<and> TickSpokePtr (tcb k3 x) = TickSpokePtr (tcb k1 x)" if "x \<in> set (W j)" for x
    proof -
      have "x \<noteq> p" using new that \<open>j < WHEEL\<close> by auto
      moreover have "x \<notin> set (W s)"
        using ok sp [OF \<open>j < WHEEL\<close>] that \<open>j \<noteq> s\<close> by (auto simp: spoke_ok_def)
      ultimately show ?thesis using k2(8) by (simp add: fields)
    qed
  qed (use k2(9) that ctr in \<open>simp_all add: fields\<close>)
  moreover have "TickSpokePtr (tcb k3 x) = None"
    if "\<forall>j < WHEEL. x \<notin> set ((W(s := ?ys)) j)" for x
  proof -
    have "x \<noteq> p" "\<forall>j < WHEEL. x \<notin> set (W j)" using that s17 by (auto split: if_splits)
    then show ?thesis using inv m1(1) by (simp add: fields wheel_inv_def)
  qed
  ultimately have "wheel_inv k3 (W(s := ?ys))" by (simp add: wheel_inv_def)
  then show ?thesis using res tick_frame_trans [OF f1 f3] fields(3) unfolding pl by blast
qed

text \<open>Taking a task out of the wheel.\<close>

lemma upd_sel:
  "OSCfg_TickWheel (upd_tcb p f k) = OSCfg_TickWheel k" "tcb (upd_spoke s g k) = tcb k"
  "tcb (upd_tcb p f k) x = (if x = p then f (tcb k p) else tcb k x)"
  by (simp_all add: upd_tcb_def upd_spoke_def)

lemma wheel_inv_spoke: "wheel_inv k W \<Longrightarrow> s < WHEEL \<Longrightarrow> spoke_ok k s (W s)"
  by (simp add: wheel_inv_def)

lemma wheel_inv_in:
  "wheel_inv k W \<Longrightarrow> s < WHEEL \<Longrightarrow> p \<in> set (W s) \<Longrightarrow>
    TickSpokePtr (tcb k p) = Some s \<and> spoke_of (TickCtrMatch (tcb k p)) = s"
  by (simp add: wheel_inv_def spoke_ok_def)

lemma TickListRemove_out:
  "wheel_inv k W \<Longrightarrow> \<forall>s < WHEEL. p \<notin> set (W s) \<Longrightarrow> OS_TickListRemove p k = Some k"
  by (simp add: OS_TickListRemove_def wheel_inv_def)

lemma TickListRemove_refines:
  assumes inv: "wheel_inv k W" and s: "s < WHEEL" and mem: "p \<in> set (W s)"
  shows "\<exists>k'. OS_TickListRemove p k = Some k' \<and> tick_frame k k'
    \<and> wheel_inv k' (W(s := remove1 p (W s)))
    \<and> (\<forall>x. x \<noteq> p \<longrightarrow> TickCtrMatch (tcb k' x) = TickCtrMatch (tcb k x))"
proof -
  note ok = wheel_inv_spoke [OF inv s]
  have d: "distinct (W s)" and sg: "seg (tn k) (tp k) None (W s) None"
    using ok by (simp_all add: spoke_ok_def)
  obtain ys zs where xs: "W s = ys @ p # zs" "p \<notin> set ys" "p \<notin> set zs"
    "tp k p = last_ptr None ys" "tn k p = first_ptr zs None"
    using seg_neighbours [OF sg mem d] by metis
  have dis: "x \<notin> set ys \<or> x \<notin> set zs" for x using d xs(1) by auto
  have rem: "remove1 p (W s) = ys @ zs" using xs by (simp add: remove1_append)
  have sp: "TickSpokePtr (tcb k p) = Some s" using wheel_inv_in [OF inv s mem] by simp
  have fp: "FirstPtr (OSCfg_TickWheel k s) = first_ptr (ys @ p # zs) None"
    "SpokeEntries (OSCfg_TickWheel k s) = Suc (length ys + length zs)"
    using ok xs(1) by (simp_all add: spoke_ok_def)
  have head: "FirstPtr (OSCfg_TickWheel k s) = Some p \<longleftrightarrow> ys = []"
    using fp xs(2) by (cases ys) auto
  obtain k1 where k1: "(if ys = [] then
        (let k = upd_spoke s (\<lambda>r. r\<lparr>FirstPtr := first_ptr zs None\<rparr>) (upd_tcb p (\<lambda>t. t\<lparr>TickRemain := 0\<rparr>) k)
         in case first_ptr zs None of None \<Rightarrow> Some k
              | Some q \<Rightarrow> Some (upd_tcb q (\<lambda>t. t\<lparr>TickPrevPtr := None\<rparr>) k))
      else
        (let k = upd_tcb (last ys) (\<lambda>t. t\<lparr>TickNextPtr := first_ptr zs None\<rparr>) (upd_tcb p (\<lambda>t. t\<lparr>TickRemain := 0\<rparr>) k)
         in case first_ptr zs None of None \<Rightarrow> Some k
              | Some q \<Rightarrow> Some (upd_tcb q (\<lambda>t. t\<lparr>TickPrevPtr := Some (last ys)\<rparr>) k))) = Some k1"
    "tick_frame k k1"
    "\<And>x. tn k1 x = (if last_ptr None ys = Some x then first_ptr zs None else tn k x)"
    "\<And>x. tp k1 x = (if first_ptr zs None = Some x then last_ptr None ys else tp k x)"
    "\<And>x. TickCtrMatch (tcb k1 x) = TickCtrMatch (tcb k x)"
    "\<And>x. TickSpokePtr (tcb k1 x) = TickSpokePtr (tcb k x)"
    "FirstPtr (OSCfg_TickWheel k1 s) = first_ptr (ys @ zs) None"
    "SpokeEntries (OSCfg_TickWheel k1 s) = SpokeEntries (OSCfg_TickWheel k s)"
    "\<And>j. j \<noteq> s \<Longrightarrow> OSCfg_TickWheel k1 j = OSCfg_TickWheel k j"
  proof (cases ys rule: rev_cases)
    case Nil
    show thesis
    proof (cases zs)
      case Nil
      let ?k = "upd_spoke s (\<lambda>r. r\<lparr>FirstPtr := None\<rparr>) (upd_tcb p (\<lambda>t. t\<lparr>TickRemain := 0\<rparr>) k)"
      have "tick_frame k ?k" by (intro tick_frame_steps tick_frame_refl) simp
      with \<open>ys = []\<close> Nil show thesis
        by (intro that [of ?k]) (simp_all add: upd_defs upd_spoke_def)
    next
      case (Cons z zs')
      let ?k = "upd_tcb z (\<lambda>t. t\<lparr>TickPrevPtr := None\<rparr>)
        (upd_spoke s (\<lambda>r. r\<lparr>FirstPtr := Some z\<rparr>) (upd_tcb p (\<lambda>t. t\<lparr>TickRemain := 0\<rparr>) k))"
      have "tick_frame k ?k" by (intro tick_frame_steps tick_frame_refl) simp_all
      with \<open>ys = []\<close> Cons show thesis
        by (intro that [of ?k]) (simp_all add: upd_defs upd_spoke_def)
    qed
  next
    case (snoc us u)
    show thesis
    proof (cases zs)
      case Nil
      let ?k = "upd_tcb u (\<lambda>t. t\<lparr>TickNextPtr := None\<rparr>) (upd_tcb p (\<lambda>t. t\<lparr>TickRemain := 0\<rparr>) k)"
      have "tick_frame k ?k" by (intro tick_frame_steps tick_frame_refl) simp_all
      with snoc Nil fp show thesis
        by (intro that [of ?k]) (simp_all add: upd_defs)
    next
      case (Cons z zs')
      let ?k = "upd_tcb z (\<lambda>t. t\<lparr>TickPrevPtr := Some u\<rparr>)
        (upd_tcb u (\<lambda>t. t\<lparr>TickNextPtr := Some z\<rparr>) (upd_tcb p (\<lambda>t. t\<lparr>TickRemain := 0\<rparr>) k))"
      have "tick_frame k ?k" by (intro tick_frame_steps tick_frame_refl) simp_all
      with snoc Cons fp show thesis
        by (intro that [of ?k]) (simp_all add: upd_defs)
    qed
  qed
  define k2 where "k2 = upd_spoke s (\<lambda>r. r\<lparr>SpokeEntries := SpokeEntries r - 1\<rparr>)
    (upd_tcb p (\<lambda>t. t\<lparr>TickNextPtr := None, TickPrevPtr := None, TickSpokePtr := None, TickCtrMatch := 0\<rparr>) k1)"
  have "OS_TickListRemove p k = map_option (\<lambda>k. upd_spoke s (\<lambda>r. r\<lparr>SpokeEntries := SpokeEntries r - 1\<rparr>)
      (upd_tcb p (\<lambda>t. t\<lparr>TickNextPtr := None, TickPrevPtr := None, TickSpokePtr := None, TickCtrMatch := 0\<rparr>) k)) (Some k1)"
    unfolding k1(1) [symmetric]
    by (cases "ys = []"; cases "first_ptr zs None")
      (simp_all add: OS_TickListRemove_def sp head xs(4,5) Let_def upd_sel last_ptr_def)
  then have res: "OS_TickListRemove p k = Some k2" by (simp add: k2_def)
  have f2: "tick_frame k k2" unfolding k2_def by (intro tick_frame_steps k1(2)) simp
  have fields: "x \<noteq> p \<Longrightarrow> tn k2 x = tn k1 x" "x \<noteq> p \<Longrightarrow> tp k2 x = tp k1 x"
    "x \<noteq> p \<Longrightarrow> TickCtrMatch (tcb k2 x) = TickCtrMatch (tcb k x)"
    "TickSpokePtr (tcb k2 x) = (if x = p then None else TickSpokePtr (tcb k x))"
    "FirstPtr (OSCfg_TickWheel k2 j) = FirstPtr (OSCfg_TickWheel k1 j)"
    "SpokeEntries (OSCfg_TickWheel k2 j) = (if j = s then length (ys @ zs) else SpokeEntries (OSCfg_TickWheel k1 j))"
    for x j
    using k1(5,6,8) fp(2) by (simp_all add: k2_def upd_defs upd_spoke_def)
  have ctr: "OSTickCtr k2 = OSTickCtr k" by (rule tick_frame_simps [OF f2])
  have "spoke_ok k2 s (ys @ zs)"
  proof -
    have links: "tn k2 x = (if last_ptr None ys = Some x then first_ptr zs None else tn k x)"
      "tp k2 x = (if first_ptr zs None = Some x then last_ptr None ys else tp k x)"
      if "x \<in> set ys \<or> x \<in> set zs" for x
    proof -
      have "x \<noteq> p" using that xs(2,3) by auto
      then show "tn k2 x = (if last_ptr None ys = Some x then first_ptr zs None else tn k x)"
        "tp k2 x = (if first_ptr zs None = Some x then last_ptr None ys else tp k x)"
        by (simp_all add: fields k1(3,4))
    qed
    have "x \<in> set ys \<Longrightarrow> first_ptr zs None \<noteq> Some x" "x \<in> set zs \<Longrightarrow> last_ptr None ys \<noteq> Some x" for x
      using dis [of x] by (auto dest: first_ptr_in last_ptr_in)
    then have "seg (tn k2) (tp k2) None (ys @ zs) None"
      by (intro seg_remove [OF sg [unfolded xs(1)] d [unfolded xs(1)]])
        (simp_all add: links first_ptr_in last_ptr_in)
    moreover have match: "TickCtrMatch (tcb k2 x) = TickCtrMatch (tcb k x)" "x \<noteq> p"
      if "x \<in> set (ys @ zs)" for x
      using that xs(2,3) fields(3) [of x] by auto
    then have "map (dist k2) (ys @ zs) = map (dist k) (ys @ zs)"
      by (intro map_cong refl) (simp add: dist_def ctr)
    moreover have "sorted (map (dist k) (ys @ zs))"
      using ok xs(1) by (auto simp: spoke_ok_def sorted_append)
    ultimately have "sorted (map (dist k2) (ys @ zs))" by (simp only:)
    moreover have "TickSpokePtr (tcb k2 x) = Some s \<and> spoke_of (TickCtrMatch (tcb k2 x)) = s"
      if "x \<in> set (ys @ zs)" for x
      using ok that match [OF that] unfolding spoke_ok_def xs(1) by (auto simp: fields)
    moreover note \<open>seg (tn k2) (tp k2) None (ys @ zs) None\<close>
    ultimately show ?thesis using d xs(1) k1(7) by (simp add: spoke_ok_def fields)
  qed
  moreover have "spoke_ok k2 j (W j)" if "j < WHEEL" "j \<noteq> s" for j
  proof (rule spoke_ok_cong [OF wheel_inv_spoke [OF inv that(1)]])
    show "tn k2 x = tn k x \<and> tp k2 x = tp k x \<and> TickCtrMatch (tcb k2 x) = TickCtrMatch (tcb k x)
        \<and> TickSpokePtr (tcb k2 x) = TickSpokePtr (tcb k x)" if "x \<in> set (W j)" for x
    proof -
      have "x \<notin> set (W s)" using wheel_inv_in [OF inv s, of x] wheel_inv_in [OF inv \<open>j < WHEEL\<close> that] \<open>j \<noteq> s\<close> by auto
      then have "x \<noteq> p" "last_ptr None ys \<noteq> Some x" "first_ptr zs None \<noteq> Some x"
        using xs(1) by (auto dest: first_ptr_in last_ptr_in)
      then show ?thesis by (simp add: fields k1(3,4))
    qed
  qed (use k1(9) that ctr in \<open>simp_all add: fields\<close>)
  moreover have "TickSpokePtr (tcb k2 x) = None"
    if "\<forall>j < WHEEL. x \<notin> set ((W(s := ys @ zs)) j)" for x
  proof (cases "x = p")
    case False
    have "x \<notin> set (W j)" if j: "j < WHEEL" for j
    proof (cases "j = s")
      case True
      have "x \<notin> set (ys @ zs)" using \<open>\<forall>j < WHEEL. x \<notin> set ((W(s := ys @ zs)) j)\<close> s by (metis fun_upd_same)
      then show ?thesis using True False xs(1) by simp
    next
      case False
      then show ?thesis using \<open>\<forall>j < WHEEL. x \<notin> set ((W(s := ys @ zs)) j)\<close> j by (metis fun_upd_other)
    qed
    then show ?thesis using inv False by (simp add: fields wheel_inv_def)
  qed (simp add: fields)
  ultimately have "wheel_inv k2 (W(s := ys @ zs))" by (simp add: wheel_inv_def)
  then show ?thesis using res f2 fields(3) unfolding rem by blast
qed

end
