(* ===== verification/Os_Update.thy ===== *)
theory Os_Update
  imports Os_Tick
begin

text \<open>
  What a tick does to the tasks in the wheel (\<open>OS_TickListUpdate\<close> of os_tick.c): those whose time has
  come leave the wheel, and those that are not suspended become ready, in the order of the spoke.
\<close>

section \<open>Making a task ready\<close>

text \<open>The part of a control block that the services read and write, and the rest of it.\<close>

definition svc_of :: "os_tcb \<Rightarrow> u8 \<times> u8 \<times> u8 \<times> nat \<times> u16 \<times> u32 \<times> u32 \<times> u8" where
  "svc_of t = (TaskState t, PendOn t, PendStatus t, TcbMsgPtr t, TcbMsgSize t, TS t, SemCtr t, SuspendCtr t)"

definition unsvc :: "os_tcb \<Rightarrow> os_tcb" where
  "unsvc t = t\<lparr>TaskState := 0, PendOn := 0, PendStatus := 0, TcbMsgPtr := 0, TcbMsgSize := 0, TS := 0,
     SemCtr := 0, SuspendCtr := 0\<rparr>"

lemma svc_of_eqD:
  assumes "svc_of t = svc_of u"
  shows "TaskState t = TaskState u" "PendOn t = PendOn u" "PendStatus t = PendStatus u"
    "TcbMsgPtr t = TcbMsgPtr u" "TcbMsgSize t = TcbMsgSize u" "TS t = TS u" "SemCtr t = SemCtr u"
    "SuspendCtr t = SuspendCtr u"
  using assms by (simp_all add: svc_of_def)

text \<open>An update of the service part.\<close>

definition svc_upd :: "(os_tcb \<Rightarrow> os_tcb) \<Rightarrow> bool" where
  "svc_upd f \<longleftrightarrow> (\<forall>t. unsvc (f t) = unsvc t) \<and> (\<forall>t u. svc_of t = svc_of u \<longrightarrow> svc_of (f t) = svc_of (f u))"

lemma svc_updD:
  assumes "svc_upd f"
  shows "NextTcb (f t) = NextTcb t" "PrevTcb (f t) = PrevTcb t" "Prio (f t) = Prio t"
    "TickNextPtr (f t) = TickNextPtr t" "TickPrevPtr (f t) = TickPrevPtr t" "TickSpokePtr (f t) = TickSpokePtr t"
    "TickCtrMatch (f t) = TickCtrMatch t" "TickCtrPrev (f t) = TickCtrPrev t"
proof -
  have e: "unsvc (f t) = unsvc t" using assms by (simp add: svc_upd_def)
  show "NextTcb (f t) = NextTcb t" "PrevTcb (f t) = PrevTcb t" "Prio (f t) = Prio t"
    "TickNextPtr (f t) = TickNextPtr t" "TickPrevPtr (f t) = TickPrevPtr t" "TickSpokePtr (f t) = TickSpokePtr t"
    "TickCtrMatch (f t) = TickCtrMatch t" "TickCtrPrev (f t) = TickCtrPrev t"
    using arg_cong [OF e, of NextTcb] arg_cong [OF e, of PrevTcb] arg_cong [OF e, of Prio]
      arg_cong [OF e, of TickNextPtr] arg_cong [OF e, of TickPrevPtr] arg_cong [OF e, of TickSpokePtr]
      arg_cong [OF e, of TickCtrMatch] arg_cong [OF e, of TickCtrPrev]
    by (simp_all add: unsvc_def)
qed

text \<open>The tasks with a role in the kernel.\<close>

definition roles :: "os_kernel \<Rightarrow> nat \<times> nat \<times> nat" where
  "roles k = (OSIdleTaskTCB k, OSTickTaskTCB k, OSTmrTaskTCB k)"

lemma roles_upd [simp]: "roles (upd_tcb p f k) = roles k" "roles (k\<lparr>OSTickCtr := c\<rparr>) = roles k"
  "roles (k\<lparr>msgs := m\<rparr>) = roles k" "roles (k\<lparr>OSIntNestingCtr := n\<rparr>) = roles k"
  "roles (k\<lparr>OSSchedLockNestingCtr := n\<rparr>) = roles k" "roles (k\<lparr>OSTmrUpdateCtr := c\<rparr>) = roles k"
  by (simp_all add: roles_def upd_tcb_def)

lemma roles_tick:
  assumes "tick_frame k k'"
  shows "roles k' = roles k"
proof -
  have e: "k'\<lparr>tcb := tcb k, OSCfg_TickWheel := OSCfg_TickWheel k\<rparr> = k"
    using assms unfolding tick_frame_def by (rule conjunct2)
  show ?thesis using arg_cong [OF e, of roles] by (simp add: roles_def)
qed

lemma roles_rdy:
  assumes "rdy_frame i k k'"
  shows "roles k' = roles k"
proof -
  have e: "k' = k\<lparr>tcb := tcb k', OSRdyList := OSRdyList k', OSPrioTbl := OSPrioTbl k'\<rparr>"
    using assms unfolding rdy_frame_def by (rule conjunct1)
  show ?thesis by (subst e) (simp add: roles_def)
qed

text \<open>What the list operations leave alone.\<close>

definition svc_frame :: "os_kernel \<Rightarrow> os_kernel \<Rightarrow> bool" where
  "svc_frame k k' \<longleftrightarrow> (\<forall>x. Prio (tcb k' x) = Prio (tcb k x) \<and> svc_of (tcb k' x) = svc_of (tcb k x))
     \<and> OSTickCtr k' = OSTickCtr k \<and> OSPrioCur k' = OSPrioCur k \<and> OSTCBCurPtr k' = OSTCBCurPtr k
     \<and> OSIntNestingCtr k' = OSIntNestingCtr k \<and> OSSchedLockNestingCtr k' = OSSchedLockNestingCtr k
     \<and> msgs k' = msgs k \<and> OSRunning k' = OSRunning k \<and> roles k' = roles k"

lemma svc_frame_refl [simp]: "svc_frame k k"
  by (simp add: svc_frame_def)

lemma svc_frame_trans: "svc_frame k k1 \<Longrightarrow> svc_frame k1 k2 \<Longrightarrow> svc_frame k k2"
  by (simp add: svc_frame_def)

lemma svc_frame_tcb: "svc_frame k k' \<Longrightarrow> svc_of (tcb k' x) = svc_of (tcb k x)"
  by (simp add: svc_frame_def)

lemma svc_of_tick_less: "svc_of (tick_less t) = svc_of t"
  by (simp add: svc_of_def tick_less_def)

lemma svc_of_links:
  "svc_of (t\<lparr>NextTcb := a, PrevTcb := b\<rparr>) = svc_of t" "svc_of (t\<lparr>CtxSwCtr := c\<rparr>) = svc_of t"
  "svc_of (t\<lparr>TickRemain := d\<rparr>) = svc_of t"
  by (simp_all add: svc_of_def)

lemma tick_frame_svc: "tick_frame k k' \<Longrightarrow> svc_frame k k'"
proof -
  assume f: "tick_frame k k'"
  have "svc_of (tcb k' x) = svc_of (tcb k x)" for x
    using arg_cong [OF tick_frame_tcb [OF f, of x], of svc_of] by (simp only: svc_of_tick_less)
  then show ?thesis by (simp add: svc_frame_def tick_frame_simps [OF f] tick_frame_fields [OF f] roles_tick [OF f])
qed

lemma rdy_frame_tcb:
  assumes "rdy_frame i k k'"
  shows "TaskState (tcb k' x) = TaskState (tcb k x)" "PendOn (tcb k' x) = PendOn (tcb k x)"
    "PendStatus (tcb k' x) = PendStatus (tcb k x)" "TcbMsgPtr (tcb k' x) = TcbMsgPtr (tcb k x)"
    "TcbMsgSize (tcb k' x) = TcbMsgSize (tcb k x)" "TS (tcb k' x) = TS (tcb k x)"
    "tn k' x = tn k x" "tp k' x = tp k x" "TickSpokePtr (tcb k' x) = TickSpokePtr (tcb k x)"
    "TickCtrMatch (tcb k' x) = TickCtrMatch (tcb k x)" "SemCtr (tcb k' x) = SemCtr (tcb k x)"
    "TickCtrPrev (tcb k' x) = TickCtrPrev (tcb k x)"
proof -
  have e: "tcb k' x = (tcb k x)\<lparr>NextTcb := nxt k' x, PrevTcb := prv k' x\<rparr>"
    using assms unfolding rdy_frame_def by blast
  show "TaskState (tcb k' x) = TaskState (tcb k x)" "PendOn (tcb k' x) = PendOn (tcb k x)"
    "PendStatus (tcb k' x) = PendStatus (tcb k x)" "TcbMsgPtr (tcb k' x) = TcbMsgPtr (tcb k x)"
    "TcbMsgSize (tcb k' x) = TcbMsgSize (tcb k x)" "TS (tcb k' x) = TS (tcb k x)"
    "tn k' x = tn k x" "tp k' x = tp k x" "TickSpokePtr (tcb k' x) = TickSpokePtr (tcb k x)"
    "TickCtrMatch (tcb k' x) = TickCtrMatch (tcb k x)" "SemCtr (tcb k' x) = SemCtr (tcb k x)"
    "TickCtrPrev (tcb k' x) = TickCtrPrev (tcb k x)"
    by (subst e, simp)+
qed

lemma rdy_frame_svc: "rdy_frame i k k' \<Longrightarrow> svc_frame k k'"
proof -
  assume f: "rdy_frame i k k'"
  have "svc_of (tcb k' x) = svc_of (tcb k x)" for x
  proof -
    have "tcb k' x = (tcb k x)\<lparr>NextTcb := nxt k' x, PrevTcb := prv k' x\<rparr>"
      using f unfolding rdy_frame_def by blast
    then have "svc_of (tcb k' x) = svc_of ((tcb k x)\<lparr>NextTcb := nxt k' x, PrevTcb := prv k' x\<rparr>)" by (rule arg_cong)
    then show ?thesis by (simp only: svc_of_links)
  qed
  then show ?thesis by (simp add: svc_frame_def rdy_frame_simps [OF f] rdy_frame_Prio [OF f] roles_rdy [OF f])
qed

lemma wheel_inv_same:
  assumes "wheel_inv k W" and "\<And>x. tn k' x = tn k x" and "\<And>x. tp k' x = tp k x"
    and "\<And>x. TickSpokePtr (tcb k' x) = TickSpokePtr (tcb k x)"
    and "\<And>x. TickCtrMatch (tcb k' x) = TickCtrMatch (tcb k x)"
    and "OSCfg_TickWheel k' = OSCfg_TickWheel k" and "OSTickCtr k' = OSTickCtr k"
  shows "wheel_inv k' W"
proof -
  have "spoke_ok k' s (W s)" if "s < WHEEL" for s
    by (rule spoke_ok_cong [OF wheel_inv_spoke [OF assms(1) that]]) (simp_all add: assms(2-7))
  then show ?thesis using assms(1,4) by (simp add: wheel_inv_def)
qed

lemma rdy_frame_wheel: "rdy_frame i k k' \<Longrightarrow> wheel_inv k W \<Longrightarrow> wheel_inv k' W"
  by (rule wheel_inv_same) (simp_all add: rdy_frame_tcb rdy_frame_simps)

lemma rdy_put_frame: "svc_frame k k' \<Longrightarrow> rdy_put k' = rdy_put k"
  by (simp add: rdy_put_def fun_eq_iff svc_frame_def)

lemma prio_ix_frame: "svc_frame k k' \<Longrightarrow> prio_ix k' = prio_ix k"
  by (simp add: prio_ix_def fun_eq_iff svc_frame_def)

definition wake :: "os_kernel \<Rightarrow> nat \<Rightarrow> (nat \<Rightarrow> nat list) \<Rightarrow> nat \<Rightarrow> nat list" where
  "wake k p Q = Q(prio_ix k p := rdy_put k p (Q (prio_ix k p)))"

lemma wake_frame: "svc_frame k k' \<Longrightarrow> wake k' = wake k"
  by (simp add: wake_def fun_eq_iff rdy_put_frame prio_ix_frame)

lemma set_wake: "x \<in> set (wake k p Q i) \<longleftrightarrow> x \<in> set (Q i) \<or> x = p \<and> i = prio_ix k p"
  by (auto simp: wake_def rdy_put_def)

lemma TaskRdy_refines:
  assumes q: "rdy_inv k Q" and w: "wheel_inv k W" and s: "s < WHEEL" "p \<in> set (W s)"
    and p: "prio_ix k p < 32" "p \<notin> set (Q (prio_ix k p))"
    and st: "TaskState (tcb k p) AND OS_TASK_STATE_BIT_SUSPENDED = 0"
  shows "\<exists>k'. OS_TaskRdy p k = Some k' \<and> rdy_inv k' (wake k p Q) \<and> wheel_inv k' (W(s := remove1 p (W s)))
    \<and> svc_frame k k' \<and> (\<forall>x. x \<noteq> p \<longrightarrow> TickCtrMatch (tcb k' x) = TickCtrMatch (tcb k x))"
proof -
  obtain k1 where k1: "OS_TickListRemove p k = Some k1" "tick_frame k k1"
    "wheel_inv k1 (W(s := remove1 p (W s)))" "\<forall>x. x \<noteq> p \<longrightarrow> TickCtrMatch (tcb k1 x) = TickCtrMatch (tcb k x)"
    using TickListRemove_refines [OF w s] by blast
  note f1 = tick_frame_svc [OF k1(2)]
  have q1: "rdy_inv k1 Q" by (rule tick_frame_rdy [OF k1(2) q])
  have ix: "unat (Prio (tcb k1 p)) = prio_ix k p"
    using prio_ix_frame [OF f1] by (simp add: prio_ix_def fun_eq_iff)
  obtain k2 where k2: "OS_RdyListInsert p k1 = Some k2"
    "rdy_inv k2 (Q(prio_ix k p := rdy_put k1 p (Q (prio_ix k p))))" "rdy_frame (prio_ix k p) k1 k2"
    using Insert_refines [OF q1 ix p] by blast
  have "OS_TaskRdy p k = Some k2"
    using k1(1) k2(1) st f1 by (simp add: OS_TaskRdy_def svc_of_eqD(1) [OF svc_frame_tcb [OF f1]])
  moreover have "rdy_inv k2 (wake k p Q)" using k2(2) by (simp add: wake_def rdy_put_frame [OF f1])
  moreover have "wheel_inv k2 (W(s := remove1 p (W s)))" by (rule rdy_frame_wheel [OF k2(3) k1(3)])
  moreover have "svc_frame k k2" by (rule svc_frame_trans [OF f1 rdy_frame_svc [OF k2(3)]])
  ultimately show ?thesis using k1(4) rdy_frame_tcb(10) [OF k2(3)] by auto
qed

lemma wheel_inv_upd:
  assumes "wheel_inv k W" and "\<And>t. TickNextPtr (f t) = TickNextPtr t" and "\<And>t. TickPrevPtr (f t) = TickPrevPtr t"
    and "\<And>t. TickSpokePtr (f t) = TickSpokePtr t" and "\<And>t. TickCtrMatch (f t) = TickCtrMatch t"
  shows "wheel_inv (upd_tcb p f k) W"
  by (rule wheel_inv_same [OF assms(1)]) (simp_all add: upd_defs assms(2-5))

lemma rdy_inv_upd:
  assumes "rdy_inv k Q" and "\<And>t. NextTcb (f t) = NextTcb t" and "\<And>t. PrevTcb (f t) = PrevTcb t"
    and "\<And>t. Prio (f t) = Prio t"
  shows "rdy_inv (upd_tcb p f k) Q"
  by (rule rdy_inv_tcb [OF assms(1)]) (simp_all add: upd_defs assms(2-4))

text \<open>The running task, the locks and the priorities are as before.\<close>

definition cpu_frame :: "os_kernel \<Rightarrow> os_kernel \<Rightarrow> bool" where
  "cpu_frame k k' \<longleftrightarrow> prio_ix k' = prio_ix k \<and> OSPrioCur k' = OSPrioCur k \<and> OSTCBCurPtr k' = OSTCBCurPtr k
     \<and> OSIntNestingCtr k' = OSIntNestingCtr k \<and> OSSchedLockNestingCtr k' = OSSchedLockNestingCtr k
     \<and> msgs k' = msgs k \<and> OSRunning k' = OSRunning k \<and> roles k' = roles k"

lemma cpu_frame_refl [simp]: "cpu_frame k k"
  by (simp add: cpu_frame_def)

lemma svc_frame_cpu: "svc_frame k k' \<Longrightarrow> cpu_frame k k'"
  by (simp add: cpu_frame_def prio_ix_frame) (simp add: svc_frame_def)

lemma cpu_frame_trans: "cpu_frame k k1 \<Longrightarrow> cpu_frame k1 k2 \<Longrightarrow> cpu_frame k k2"
  by (simp add: cpu_frame_def)

lemma cpu_frame_upd: "(\<And>t. Prio (f t) = Prio t) \<Longrightarrow> cpu_frame k (upd_tcb p f k)"
  by (simp add: cpu_frame_def) (simp add: upd_defs prio_ix_def fun_eq_iff)


section \<open>A task whose time has come\<close>

lemma unsvc_upd [simp]:
  "unsvc (t\<lparr>TaskState := a\<rparr>) = unsvc t" "unsvc (t\<lparr>PendOn := a\<rparr>) = unsvc t" "unsvc (t\<lparr>PendStatus := a\<rparr>) = unsvc t"
  "unsvc (t\<lparr>TcbMsgPtr := b\<rparr>) = unsvc t" "unsvc (t\<lparr>TcbMsgSize := c\<rparr>) = unsvc t" "unsvc (t\<lparr>TS := d\<rparr>) = unsvc t"
  "unsvc (t\<lparr>SemCtr := d\<rparr>) = unsvc t" "unsvc (t\<lparr>SuspendCtr := a\<rparr>) = unsvc t"
  by (simp_all add: unsvc_def)

lemma rdy_inv_svc: "svc_upd f \<Longrightarrow> rdy_inv k Q \<Longrightarrow> rdy_inv (upd_tcb p f k) Q"
  by (rule rdy_inv_upd) (simp_all add: svc_updD)

lemma wheel_inv_svc: "svc_upd f \<Longrightarrow> wheel_inv k W \<Longrightarrow> wheel_inv (upd_tcb p f k) W"
  by (rule wheel_inv_upd) (simp_all add: svc_updD)

lemma rdy_put_upd: "svc_upd f \<Longrightarrow> rdy_put (upd_tcb p f k) = rdy_put k"
  by (simp add: rdy_put_def fun_eq_iff upd_defs svc_updD)

lemma wake_upd: "svc_upd f \<Longrightarrow> wake (upd_tcb p f k) = wake k"
  by (simp add: wake_def fun_eq_iff rdy_put_upd prio_ix_def) (simp add: upd_defs svc_updD)

lemma sel_upd:
  "OSTickCtr (upd_tcb p f k) = OSTickCtr k" "tcb (upd_tcb p f k) x = (if x = p then f (tcb k p) else tcb k x)"
  by (simp_all add: upd_defs)

text \<open>Out of the wheel, and to the ready lists or not, between two changes of its service part.\<close>

lemma due_task:
  assumes q: "rdy_inv k Q" and w: "wheel_inv k W" and s: "s < WHEEL" "W s = p # xs"
    and p: "prio_ix k p < 32" "p \<notin> set (Q (prio_ix k p))" and g: "svc_upd g" and h: "svc_upd h"
    and b: "if b then TaskState (g (tcb k p)) AND OS_TASK_STATE_BIT_SUSPENDED = 0 else True"
  shows "\<exists>k'. (if b then OS_TaskRdy p (upd_tcb p g (upd_tcb p (\<lambda>t. t\<lparr>TickRemain := r t\<rparr>) k))
      else OS_TickListRemove p (upd_tcb p g (upd_tcb p (\<lambda>t. t\<lparr>TickRemain := r t\<rparr>) k))) = Some k'
    \<and> rdy_inv (upd_tcb p h k') (if b then wake k p Q else Q) \<and> wheel_inv (upd_tcb p h k') (W(s := xs))
    \<and> wake (upd_tcb p h k') = wake k \<and> cpu_frame k (upd_tcb p h k') \<and> OSTickCtr (upd_tcb p h k') = OSTickCtr k
    \<and> (\<forall>x. x \<noteq> p \<longrightarrow> svc_of (tcb (upd_tcb p h k') x) = svc_of (tcb k x)
        \<and> TickCtrMatch (tcb (upd_tcb p h k') x) = TickCtrMatch (tcb k x))
    \<and> svc_of (tcb (upd_tcb p h k') p) = svc_of (h (g (tcb k p)))"
proof -
  define k1 where "k1 = upd_tcb p (\<lambda>t. t\<lparr>TickRemain := r t\<rparr>) k"
  define k0 where "k0 = upd_tcb p g k1"
  have "rdy_inv k1 Q" unfolding k1_def by (intro rdy_inv_upd q) simp_all
  then have q0: "rdy_inv k0 Q" unfolding k0_def by (rule rdy_inv_svc [OF g])
  have "wheel_inv k1 W" unfolding k1_def by (intro wheel_inv_upd w) simp_all
  then have w0: "wheel_inv k0 W" unfolding k0_def by (rule wheel_inv_svc [OF g])
  have gt: "svc_of (g ((tcb k p)\<lparr>TickRemain := r (tcb k p)\<rparr>)) = svc_of (g (tcb k p))"
    using g svc_of_links(3) unfolding svc_upd_def by blast
  have sel: "svc_of (tcb k0 x) = (if x = p then svc_of (g (tcb k p)) else svc_of (tcb k x))"
    "TickCtrMatch (tcb k0 x) = TickCtrMatch (tcb k x)" "Prio (tcb k0 x) = Prio (tcb k x)" for x
    by (simp_all add: k0_def k1_def sel_upd gt svc_updD [OF g])
  have "cpu_frame k k1" unfolding k1_def by (rule cpu_frame_upd) simp
  moreover have "cpu_frame k1 k0" unfolding k0_def by (rule cpu_frame_upd) (rule svc_updD(3) [OF g])
  ultimately have c0: "cpu_frame k k0" "OSTickCtr k0 = OSTickCtr k"
    by (rule cpu_frame_trans) (simp add: k0_def k1_def upd_defs)
  have ix: "prio_ix k0 = prio_ix k" using c0(1) by (simp add: cpu_frame_def)
  have "rdy_put k0 = rdy_put k" using c0(1) by (simp add: rdy_put_def fun_eq_iff sel(3) cpu_frame_def)
  then have wk: "wake k0 = wake k" by (simp add: wake_def fun_eq_iff ix)
  have mem: "p \<in> set (W s)" using s(2) by simp
  have "\<exists>k'. (if b then OS_TaskRdy p k0 else OS_TickListRemove p k0) = Some k'
      \<and> rdy_inv k' (if b then wake k p Q else Q) \<and> wheel_inv k' (W(s := xs)) \<and> svc_frame k0 k'
      \<and> (\<forall>x. x \<noteq> p \<longrightarrow> TickCtrMatch (tcb k' x) = TickCtrMatch (tcb k0 x))"
  proof (cases b)
    case True
    have "TaskState (tcb k0 p) AND OS_TASK_STATE_BIT_SUSPENDED = 0"
      using b True svc_of_eqD(1) [of "tcb k0 p" "g (tcb k p)"] sel(1) [of p] by simp
    then show ?thesis using TaskRdy_refines [OF q0 w0 s(1) mem] p True s(2) by (simp add: ix wk)
  next
    case False
    obtain k' where "OS_TickListRemove p k0 = Some k'" "tick_frame k0 k'" "wheel_inv k' (W(s := remove1 p (W s)))"
      "\<forall>x. x \<noteq> p \<longrightarrow> TickCtrMatch (tcb k' x) = TickCtrMatch (tcb k0 x)"
      using TickListRemove_refines [OF w0 s(1) mem] by blast
    then show ?thesis using False s(2) tick_frame_rdy [OF _ q0] tick_frame_svc by auto
  qed
  then obtain k' where k': "(if b then OS_TaskRdy p k0 else OS_TickListRemove p k0) = Some k'"
    "rdy_inv k' (if b then wake k p Q else Q)" "wheel_inv k' (W(s := xs))" "svc_frame k0 k'"
    "\<And>x. x \<noteq> p \<Longrightarrow> TickCtrMatch (tcb k' x) = TickCtrMatch (tcb k0 x)" by blast
  have "svc_of (h (tcb k' p)) = svc_of (h (g (tcb k p)))"
  proof -
    have "svc_of (tcb k' p) = svc_of (g (tcb k p))" using svc_frame_tcb [OF k'(4), of p] sel(1) [of p] by simp
    then show ?thesis using h unfolding svc_upd_def by blast
  qed
  moreover have "cpu_frame k (upd_tcb p h k')"
    by (intro cpu_frame_trans [OF cpu_frame_trans [OF c0(1) svc_frame_cpu [OF k'(4)]]] cpu_frame_upd svc_updD(3) [OF h])
  moreover have "OSTickCtr k' = OSTickCtr k" using k'(4) c0(2) by (simp add: svc_frame_def)
  moreover have "wake (upd_tcb p h k') = wake k" by (simp add: wake_upd [OF h] wake_frame [OF k'(4)] wk)
  moreover have "svc_of (tcb k' x) = svc_of (tcb k x)" if "x \<noteq> p" for x
    using svc_frame_tcb [OF k'(4), of x] sel(1) [of x] that by simp
  ultimately show ?thesis
    using k'(1) rdy_inv_svc [OF h k'(2)] wheel_inv_svc [OF h k'(3)] k'(5) sel(2)
    unfolding k0_def k1_def sel_upd by auto
qed


text \<open>The states of a task that is in the wheel, and those in which it becomes ready when its time comes.\<close>

definition timed :: "u8 \<Rightarrow> bool" where
  "timed st \<longleftrightarrow> st = OS_TASK_STATE_DLY \<or> st = OS_TASK_STATE_PEND_TIMEOUT
     \<or> st = OS_TASK_STATE_DLY_SUSPENDED \<or> st = OS_TASK_STATE_PEND_TIMEOUT_SUSPENDED"

definition rouses :: "u8 \<Rightarrow> bool" where
  "rouses st \<longleftrightarrow> st = OS_TASK_STATE_DLY \<or> st = OS_TASK_STATE_PEND_TIMEOUT"

definition rouse :: "os_kernel \<Rightarrow> nat \<Rightarrow> (nat \<Rightarrow> nat list) \<Rightarrow> nat \<Rightarrow> nat list" where
  "rouse k p Q = (if rouses (TaskState (tcb k p)) then wake k p Q else Q)"

definition rung :: "u32 \<Rightarrow> os_tcb \<Rightarrow> os_tcb" where
  "rung ts t =
     (let expired = t\<lparr>PendStatus := OS_STATUS_PEND_TIMEOUT, PendOn := OS_TASK_PEND_ON_NOTHING,
                      TcbMsgPtr := 0, TcbMsgSize := 0, TS := ts\<rparr>
      in if TaskState t = OS_TASK_STATE_DLY then t\<lparr>TaskState := OS_TASK_STATE_RDY\<rparr>
         else if TaskState t = OS_TASK_STATE_PEND_TIMEOUT then expired\<lparr>TaskState := OS_TASK_STATE_RDY\<rparr>
         else if TaskState t = OS_TASK_STATE_DLY_SUSPENDED then t\<lparr>TaskState := OS_TASK_STATE_SUSPENDED\<rparr>
         else if TaskState t = OS_TASK_STATE_PEND_TIMEOUT_SUSPENDED
           then expired\<lparr>TaskState := OS_TASK_STATE_SUSPENDED\<rparr>
         else t)"

text \<open>Every task in the wheel waits for a time, and is not ready.\<close>

definition asleep :: "os_kernel \<Rightarrow> (nat \<Rightarrow> nat list) \<Rightarrow> nat list \<Rightarrow> bool" where
  "asleep k Q xs \<longleftrightarrow> (\<forall>x \<in> set xs. timed (TaskState (tcb k x)) \<and> prio_ix k x < 32
     \<and> x \<notin> set (Q (prio_ix k x)))"

lemma svc_upds:
  "svc_upd (\<lambda>t. t)" "svc_upd (\<lambda>t. t\<lparr>TaskState := a\<rparr>)"
  "svc_upd (\<lambda>t. t\<lparr>TaskState := a, PendStatus := b, PendOn := c\<rparr>)"
  "svc_upd (\<lambda>t. t\<lparr>TcbMsgPtr := m, TcbMsgSize := n, TS := u\<rparr>)"
  by (simp_all add: svc_upd_def svc_of_def)

lemma upd_tcb_id: "upd_tcb p (\<lambda>t. t) k = k"
  by (simp add: upd_tcb_def)

lemma tick_task_due:
  assumes q: "rdy_inv k Q" and w: "wheel_inv k W" and s: "s < WHEEL" "W s = p # xs"
    and a: "asleep k Q (p # xs)" and due: "dist k p = 0"
  shows "\<exists>k'. tick_task stamp p k = Some (True, k') \<and> rdy_inv k' (rouse k p Q) \<and> wheel_inv k' (W(s := xs))
    \<and> wake k' = wake k \<and> cpu_frame k k' \<and> OSTickCtr k' = OSTickCtr k
    \<and> (\<forall>x. x \<noteq> p \<longrightarrow> svc_of (tcb k' x) = svc_of (tcb k x) \<and> TickCtrMatch (tcb k' x) = TickCtrMatch (tcb k x))
    \<and> svc_of (tcb k' p) = svc_of (rung (stamp p) (tcb k p))"
proof -
  have st: "timed (TaskState (tcb k p))" and p: "prio_ix k p < 32" "p \<notin> set (Q (prio_ix k p))"
    using a by (simp_all add: asleep_def)
  have now: "OSTickCtr k = TickCtrMatch (tcb k p)" using due by (simp add: dist_def)
  note task = due_task [OF q w s p, of _ _ _ "\<lambda>t. TickCtrMatch t - OSTickCtr k"]
  let ?no_msg = "\<lambda>t. t\<lparr>TcbMsgPtr := 0, TcbMsgSize := 0, TS := stamp p\<rparr>"
  let ?out = "\<lambda>st t. t\<lparr>TaskState := st, PendStatus := OS_STATUS_PEND_TIMEOUT, PendOn := OS_TASK_PEND_ON_NOTHING\<rparr>"
  note ext = svc_of_def
  consider (dly) "TaskState (tcb k p) = 1" | (pend) "TaskState (tcb k p) = 3"
    | (dlys) "TaskState (tcb k p) = 5" | (pends) "TaskState (tcb k p) = 7"
    using st by (auto simp: timed_def)
  then show ?thesis
  proof cases
    case dly
    then show ?thesis
      using task [of "\<lambda>t. t\<lparr>TaskState := 0\<rparr>" "\<lambda>t. t" True, OF svc_upds(2,1)] now
      by (auto simp: tick_task_def Let_def upd_tcb_id rouse_def rouses_def rung_def)
  next
    case pend
    then show ?thesis
      using task [of ?no_msg "?out 0" True, OF svc_upds(4,3)] now
      by (auto simp: tick_task_def Let_def rouse_def rouses_def rung_def ext)
  next
    case dlys
    then show ?thesis
      using task [of "\<lambda>t. t\<lparr>TaskState := 4\<rparr>" "\<lambda>t. t" False, OF svc_upds(2,1)] now
      by (auto simp: tick_task_def Let_def upd_tcb_id rouse_def rouses_def rung_def)
  next
    case pends
    then show ?thesis
      using task [of ?no_msg "?out 4" False, OF svc_upds(4,3)] now
      by (auto simp: tick_task_def Let_def rouse_def rouses_def rung_def ext)
  qed
qed

lemma tick_task_early:
  assumes q: "rdy_inv k Q" and w: "wheel_inv k W" and a: "asleep k Q [p]" and late: "dist k p \<noteq> 0"
  shows "\<exists>k'. tick_task stamp p k = Some (False, k') \<and> rdy_inv k' Q \<and> wheel_inv k' W \<and> svc_frame k k'
    \<and> (\<forall>x. TickCtrMatch (tcb k' x) = TickCtrMatch (tcb k x))"
proof -
  let ?k = "upd_tcb p (\<lambda>t. t\<lparr>TickRemain := TickCtrMatch t - OSTickCtr k\<rparr>) k"
  have "OSTickCtr k \<noteq> TickCtrMatch (tcb k p)" using late by (auto simp: dist_def)
  moreover have "timed (TaskState (tcb k p))" using a by (simp add: asleep_def)
  ultimately have "tick_task stamp p k = Some (False, ?k)" by (auto simp: tick_task_def timed_def Let_def)
  moreover have "rdy_inv ?k Q" by (intro rdy_inv_upd q) simp_all
  moreover have "wheel_inv ?k W" by (intro wheel_inv_upd w) simp_all
  moreover have "svc_frame k ?k" by (simp add: svc_frame_def) (simp add: upd_defs svc_of_links)
  ultimately show ?thesis by (auto simp: upd_defs)
qed


section \<open>One tick\<close>

text \<open>The walk over the spoke takes out the tasks at its front that are due.\<close>

definition done_tcb :: "(nat \<Rightarrow> u32) \<Rightarrow> nat set \<Rightarrow> os_kernel \<Rightarrow> nat \<Rightarrow> os_tcb" where
  "done_tcb stamp X k x = (if x \<in> X then rung (stamp x) (tcb k x) else tcb k x)"

lemma rouse_cong:
  assumes "wake k1 = wake k" and "svc_of (tcb k1 p) = svc_of (tcb k p)"
  shows "rouse k1 p = rouse k p"
  by (simp add: rouse_def fun_eq_iff svc_of_eqD(1) [OF assms(2)] assms(1))

lemma set_rouse: "x \<in> set (rouse k p Q i) \<longleftrightarrow>
    x \<in> set (Q i) \<or> x = p \<and> i = prio_ix k p \<and> rouses (TaskState (tcb k p))"
  by (auto simp: rouse_def set_wake)

lemma rung_cong:
  assumes "svc_of t = svc_of u"
  shows "svc_of (rung ts t) = svc_of (rung ts u)"
  by (simp add: rung_def svc_of_def Let_def svc_of_eqD [OF assms])

lemma tick_loop_wakes:
  assumes "rdy_inv k Q" and "wheel_inv k W" and "s < WHEEL" and "W s = xs" and "asleep k Q xs"
  shows "\<exists>k'. tick_loop stamp (first_ptr xs None) k = Some k'
    \<and> rdy_inv k' (fold (rouse k) (takeWhile (\<lambda>x. dist k x = 0) xs) Q)
    \<and> wheel_inv k' (W(s := dropWhile (\<lambda>x. dist k x = 0) xs))
    \<and> cpu_frame k k' \<and> OSTickCtr k' = OSTickCtr k
    \<and> (\<forall>x. x \<notin> set xs \<or> dist k x \<noteq> 0 \<longrightarrow> TickCtrMatch (tcb k' x) = TickCtrMatch (tcb k x))
    \<and> (\<forall>x. svc_of (tcb k' x) = svc_of (done_tcb stamp (set (takeWhile (\<lambda>x. dist k x = 0) xs)) k x))"
  using assms
proof (induction xs arbitrary: k Q W)
  case Nil
  have "tick_loop stamp None k = Some k" by (subst tick_loop.simps) simp
  moreover have "W(s := []) = W" using Nil.prems(4) by auto
  ultimately show ?case using Nil.prems(1,2) by (simp add: done_tcb_def)
next
  case (Cons p xs)
  have ok: "spoke_ok k s (p # xs)" using wheel_inv_spoke [OF Cons.prems(2,3)] Cons.prems(4) by simp
  then have tn: "tn k p = first_ptr xs None" and px: "p \<notin> set xs" by (simp_all add: spoke_ok_def)
  show ?case
  proof (cases "dist k p = 0")
    case True
    obtain k1 where k1: "tick_task stamp p k = Some (True, k1)" "rdy_inv k1 (rouse k p Q)"
      "wheel_inv k1 (W(s := xs))" "wake k1 = wake k" "cpu_frame k k1" "OSTickCtr k1 = OSTickCtr k"
      "\<And>x. x \<noteq> p \<Longrightarrow> svc_of (tcb k1 x) = svc_of (tcb k x)"
      "\<And>x. x \<noteq> p \<Longrightarrow> TickCtrMatch (tcb k1 x) = TickCtrMatch (tcb k x)"
      "svc_of (tcb k1 p) = svc_of (rung (stamp p) (tcb k p))"
      using tick_task_due [OF Cons.prems(1-5) True, of stamp] by blast
    have np: "x \<noteq> p" if "x \<in> set xs" for x using that px by auto
    have d1: "dist k1 x = dist k x" if "x \<noteq> p" for x using that k1(6,8) by (simp add: dist_def)
    have "asleep k1 (rouse k p Q) xs"
      using Cons.prems(5) np k1(5) svc_of_eqD(1) [OF k1(7)] by (auto simp: asleep_def cpu_frame_def set_rouse)
    note ih = Cons.IH [OF k1(2,3) Cons.prems(3) fun_upd_same this]
    let ?due = "takeWhile (\<lambda>x. dist k x = 0) xs"
    have tw: "takeWhile (\<lambda>x. dist k1 x = 0) xs = ?due"
      "dropWhile (\<lambda>x. dist k1 x = 0) xs = dropWhile (\<lambda>x. dist k x = 0) xs"
      using d1 np by (simp_all cong: takeWhile_cong dropWhile_cong)
    have sub: "x \<in> set xs" if "x \<in> set ?due" for x using that by (rule set_takeWhileD [THEN conjunct1])
    have fl: "fold (rouse k1) ?due R = fold (rouse k) ?due R" for R
      by (rule fold_cong) (use rouse_cong [OF k1(4) k1(7)] sub np in auto)
    obtain k' where k':
      "tick_loop stamp (first_ptr xs None) k1 = Some k'"
      "rdy_inv k' (fold (rouse k) ?due (rouse k p Q))"
      "wheel_inv k' (W(s := dropWhile (\<lambda>x. dist k x = 0) xs))"
      "cpu_frame k1 k'" "OSTickCtr k' = OSTickCtr k1"
      "\<And>x. x \<notin> set xs \<or> dist k1 x \<noteq> 0 \<Longrightarrow> TickCtrMatch (tcb k' x) = TickCtrMatch (tcb k1 x)"
      "\<And>x. svc_of (tcb k' x) = svc_of (done_tcb stamp (set ?due) k1 x)"
      using ih unfolding fun_upd_upd tw fl by blast
    have "tick_loop stamp (first_ptr (p # xs) None) k = Some k'"
      using k'(1) by (subst tick_loop.simps) (simp add: k1(1) tn)
    moreover have "svc_of (tcb k' x) = svc_of (done_tcb stamp (set (takeWhile (\<lambda>x. dist k x = 0) (p # xs))) k x)" for x
    proof (cases "x = p")
      case True
      then have "x \<notin> set ?due" using sub px by auto
      then show ?thesis using True k'(7) [of x] k1(9) \<open>dist k p = 0\<close> by (simp add: done_tcb_def)
    next
      case False
      then show ?thesis using k'(7) [of x] k1(7) [OF False] rung_cong [OF k1(7) [OF False]] \<open>dist k p = 0\<close>
        by (simp add: done_tcb_def)
    qed
    moreover have "TickCtrMatch (tcb k' x) = TickCtrMatch (tcb k x)"
      if "x \<notin> set (p # xs) \<or> dist k x \<noteq> 0" for x
    proof -
      have "x \<noteq> p" using that True by auto
      then show ?thesis using that k'(6) [of x] k1(8) [of x] d1 by auto
    qed
    ultimately show ?thesis using k'(2,3,5) k1(6) cpu_frame_trans [OF k1(5) k'(4)] True
      by (simp add: fun_upd_def)
  next
    case False
    obtain k1 where k1: "tick_task stamp p k = Some (False, k1)" "rdy_inv k1 Q" "wheel_inv k1 W" "svc_frame k k1"
      "\<forall>x. TickCtrMatch (tcb k1 x) = TickCtrMatch (tcb k x)"
      using tick_task_early [OF Cons.prems(1,2) _ False, of stamp] Cons.prems(5) by (auto simp: asleep_def)
    have "tick_loop stamp (first_ptr (p # xs) None) k = Some k1"
      by (subst tick_loop.simps) (simp add: k1(1))
    moreover have "W(s := p # xs) = W" using Cons.prems(4) by auto
    ultimately show ?thesis using k1 False svc_frame_cpu [OF k1(4)] by (simp add: svc_frame_def done_tcb_def)
  qed
qed

text \<open>The state between two ticks: every task in the wheel waits for at least one more tick.\<close>

definition time_inv :: "os_kernel \<Rightarrow> (nat \<Rightarrow> nat list) \<Rightarrow> (nat \<Rightarrow> nat list) \<Rightarrow> bool" where
  "time_inv k Q W \<longleftrightarrow> rdy_inv k Q \<and> wheel_inv k W
     \<and> (\<forall>s < WHEEL. asleep k Q (W s) \<and> (\<forall>x \<in> set (W s). dist k x \<noteq> 0))"

text \<open>The tasks whose time comes with the next tick.\<close>

definition due :: "os_kernel \<Rightarrow> (nat \<Rightarrow> nat list) \<Rightarrow> nat list" where
  "due k W = takeWhile (\<lambda>x. dist k x = 1) (W (spoke_of (OSTickCtr k + 1)))"

definition still :: "os_kernel \<Rightarrow> (nat \<Rightarrow> nat list) \<Rightarrow> nat \<Rightarrow> nat list" where
  "still k W = W(spoke_of (OSTickCtr k + 1) :=
     dropWhile (\<lambda>x. dist k x = 1) (W (spoke_of (OSTickCtr k + 1))))"

lemma set_rouses: "x \<in> set (fold (rouse k) ps Q i) \<longleftrightarrow>
    x \<in> set (Q i) \<or> x \<in> set ps \<and> i = prio_ix k x \<and> rouses (TaskState (tcb k x))"
  by (induction ps arbitrary: Q) (auto simp: set_rouse)

lemma dec_mono: "(a :: u32) \<noteq> 0 \<Longrightarrow> a \<le> b \<Longrightarrow> a - 1 \<le> b - 1"
  by unat_arith

lemma sorted_dec:
  "sorted xs \<Longrightarrow> (\<And>a. a \<in> set xs \<Longrightarrow> a \<noteq> 0) \<Longrightarrow> sorted (map (\<lambda>a. a - (1 :: u32)) xs)"
  by (induction xs) (auto intro: dec_mono)

text \<open>In an ordered spoke of waiting tasks, those who wait for one tick are the first.\<close>

lemma due_prefix:
  assumes "sorted (map f xs)" and "\<And>x. x \<in> set xs \<Longrightarrow> f x \<noteq> (0 :: u32)"
  shows "set (takeWhile (\<lambda>x. f x = 1) xs) = {x \<in> set xs. f x = 1}
    \<and> set (dropWhile (\<lambda>x. f x = 1) xs) = {x \<in> set xs. f x \<noteq> 1}"
  using assms
proof (induction xs)
  case (Cons x xs)
  note le = Cons.prems
  have "f y \<noteq> 1" if y: "f x \<noteq> 1" "y \<in> set xs" for y
  proof -
    have "f x \<le> f y" "f x \<noteq> 0" using le y(2) by auto
    then show ?thesis using y(1) by unat_arith
  qed
  moreover have "sorted (map f xs)" "\<And>y. y \<in> set xs \<Longrightarrow> f y \<noteq> 0" using Cons.prems by auto
  note ih = Cons.IH [OF this]
  ultimately show ?case using ih by (cases "f x = 1") auto
qed simp


lemma time_inv_spoke:
  "time_inv k Q W \<Longrightarrow> s < WHEEL \<Longrightarrow> spoke_ok k s (W s) \<and> asleep k Q (W s)"
  by (simp add: time_inv_def wheel_inv_def)

lemma due_still:
  assumes "time_inv k Q W"
  shows "set (due k W) = {x \<in> set (W (spoke_of (OSTickCtr k + 1))). dist k x = 1}"
    and "s < WHEEL \<Longrightarrow> set (still k W s) = {x \<in> set (W s). dist k x \<noteq> 1}"
proof -
  let ?s = "spoke_of (OSTickCtr k + 1)"
  have "sorted (map (dist k) (W ?s))" "\<And>x. x \<in> set (W ?s) \<Longrightarrow> dist k x \<noteq> 0"
    using assms spoke_of_less [of "OSTickCtr k + 1"] by (simp_all add: time_inv_def wheel_inv_def spoke_ok_def)
  note pre = due_prefix [OF this]
  show "set (due k W) = {x \<in> set (W ?s). dist k x = 1}" using pre by (simp add: due_def)
  show "set (still k W s) = {x \<in> set (W s). dist k x \<noteq> 1}" if "s < WHEEL"
  proof (cases "s = ?s")
    case False
    have "dist k x \<noteq> 1" if x: "x \<in> set (W s)" for x
    proof
      assume "dist k x = 1"
      then have "TickCtrMatch (tcb k x) = OSTickCtr k + 1" by (simp add: dist_def diff_eq_eq add.commute)
      moreover have "spoke_of (TickCtrMatch (tcb k x)) = s"
        using time_inv_spoke [OF assms \<open>s < WHEEL\<close>] x by (simp add: spoke_ok_def)
      ultimately show False using False by simp
    qed
    then show ?thesis using False by (auto simp: still_def)
  qed (use pre in \<open>simp add: still_def\<close>)
qed

text \<open>One tick takes exactly the tasks that are due out of the wheel, and brings the others nearer.\<close>

lemma OS_TickListUpdate_wakes:
  assumes inv: "time_inv k Q W"
  shows "\<exists>k'. OS_TickListUpdate stamp k = Some k' \<and> time_inv k' (fold (rouse k) (due k W) Q) (still k W)
    \<and> OSTickCtr k' = OSTickCtr k + 1 \<and> cpu_frame k k'
    \<and> (\<forall>s < WHEEL. \<forall>x \<in> set (still k W s). dist k' x = dist k x - 1)
    \<and> (\<forall>x. svc_of (tcb k' x) = svc_of (done_tcb stamp (set (due k W)) k x))"
proof -
  define k0 where "k0 = k\<lparr>OSTickCtr := OSTickCtr k + 1\<rparr>"
  let ?s = "spoke_of (OSTickCtr k + 1)"
  have s: "?s < WHEEL" by (rule spoke_of_less)
  have d0: "dist k0 x = dist k x - 1" for x by (simp add: k0_def dist_def diff_diff_eq)
  have nz: "dist k x \<noteq> 0" if "j < WHEEL" "x \<in> set (W j)" for j x using inv that by (auto simp: time_inv_def)
  have q0: "rdy_inv k0 Q" by (rule rdy_inv_tcb [of k]) (use inv in \<open>simp_all add: k0_def time_inv_def\<close>)
  have "spoke_ok k0 j (W j)" if j: "j < WHEEL" for j
  proof -
    have ok: "spoke_ok k j (W j)" using time_inv_spoke [OF inv j] by simp
    have "map (dist k0) (W j) = map (\<lambda>a. a - 1) (map (dist k) (W j))" by (simp add: d0)
    moreover have "sorted (map (\<lambda>a. a - 1) (map (dist k) (W j)))"
      by (rule sorted_dec) (use ok nz [OF j] in \<open>auto simp: spoke_ok_def\<close>)
    ultimately have "sorted (map (dist k0) (W j))" by (simp only:)
    then show ?thesis using ok by (simp add: spoke_ok_def k0_def)
  qed
  then have w0: "wheel_inv k0 W" using inv by (simp add: time_inv_def wheel_inv_def k0_def)
  have a0: "asleep k0 Q (W ?s)" using time_inv_spoke [OF inv s] by (simp add: asleep_def k0_def prio_ix_def)
  have cf: "cpu_frame k k0" by (simp add: k0_def cpu_frame_def) (simp add: prio_ix_def fun_eq_iff)
  have wk: "wake k0 = wake k" by (simp add: k0_def wake_def rdy_put_def prio_ix_def fun_eq_iff)
  have rs: "rouse k0 = rouse k" by (simp add: rouse_def fun_eq_iff wk) (simp add: k0_def)
  have dn: "done_tcb stamp X k0 = done_tcb stamp X k" for X by (simp add: done_tcb_def fun_eq_iff k0_def)
  have one: "dist k0 x = 0 \<longleftrightarrow> dist k x = 1" for x by (simp add: d0)
  obtain k' where k': "tick_loop stamp (first_ptr (W ?s) None) k0 = Some k'"
    "rdy_inv k' (fold (rouse k) (due k W) Q)" "wheel_inv k' (still k W)"
    "cpu_frame k0 k'" "OSTickCtr k' = OSTickCtr k0"
    "\<And>x. x \<notin> set (W ?s) \<or> dist k x \<noteq> 1 \<Longrightarrow> TickCtrMatch (tcb k' x) = TickCtrMatch (tcb k0 x)"
    "\<And>x. svc_of (tcb k' x) = svc_of (done_tcb stamp (set (due k W)) k x)"
    using tick_loop_wakes [OF q0 w0 s refl a0, of stamp] unfolding one rs dn due_def still_def by blast
  have cf': "cpu_frame k k'" by (rule cpu_frame_trans [OF cf k'(4)])
  then have px: "prio_ix k' = prio_ix k" by (simp add: cpu_frame_def)
  have "FirstPtr (OSCfg_TickWheel k0 ?s) = first_ptr (W ?s) None"
    using wheel_inv_spoke [OF w0 s] by (simp add: spoke_ok_def)
  then have "OS_TickListUpdate stamp k = Some k'"
    using k'(1) by (simp add: OS_TickListUpdate_def k0_def [symmetric]) (simp add: k0_def)
  moreover have dk: "dist k' x = dist k x - 1" if "j < WHEEL" "x \<in> set (still k W j)" for j x
  proof -
    have "dist k x \<noteq> 1" using due_still(2) [OF inv that(1)] that(2) by simp
    then have "TickCtrMatch (tcb k' x) = TickCtrMatch (tcb k x)" using k'(6) [of x] by (simp add: k0_def)
    then show ?thesis using k'(5) d0 [of x] by (simp add: dist_def k0_def)
  qed
  moreover have "asleep k' (fold (rouse k) (due k W) Q) (still k W j)
      \<and> (\<forall>x \<in> set (still k W j). dist k' x \<noteq> 0)" if j: "j < WHEEL" for j
  proof -
    have st: "x \<in> set (W j) \<and> dist k x \<noteq> 1 \<and> x \<notin> set (due k W)" if "x \<in> set (still k W j)" for x
      using that due_still [OF inv] j by simp
    have "TaskState (tcb k' x) = TaskState (tcb k x)" if "x \<in> set (still k W j)" for x
      using svc_of_eqD(1) [OF k'(7) [of x]] st [OF that] by (simp add: done_tcb_def)
    then have "asleep k' (fold (rouse k) (due k W) Q) (still k W j)"
      using st time_inv_spoke [OF inv j] unfolding asleep_def px set_rouses by simp
    moreover have "dist k' x \<noteq> 0" if "x \<in> set (still k W j)" for x using dk [OF j that] st [OF that] by simp
    ultimately show ?thesis by blast
  qed
  ultimately show ?thesis using k'(2,3,5,7) cf' by (simp add: time_inv_def k0_def)
qed

end
