(* ===== verification/Os_Inv.thy ===== *)
theory Os_Inv
  imports Os_Update
begin

text \<open>
  The invariant of the kernel: the ready lists, the wheel and the states of the tasks agree.  A
  service takes one task through a few moves (into and out of a list, a change of its state); between
  the moves the task is excepted from the invariant, and at the end it has to satisfy it again.
\<close>

section \<open>The invariant\<close>

definition in_wheel :: "(nat \<Rightarrow> nat list) \<Rightarrow> nat \<Rightarrow> bool" where
  "in_wheel W x \<longleftrightarrow> (\<exists>s < WHEEL. x \<in> set (W s))"

definition in_ready :: "(nat \<Rightarrow> nat list) \<Rightarrow> nat \<Rightarrow> bool" where
  "in_ready Q x \<longleftrightarrow> (\<exists>i < 32. x \<in> set (Q i))"

text \<open>
  \<open>A\<close> is the set of the tasks that have been created.  A task is ready exactly in the ready state,
  and in the wheel exactly in the four states that wait for a time.
\<close>

definition state_ok :: "nat set \<Rightarrow> os_kernel \<Rightarrow> (nat \<Rightarrow> nat list) \<Rightarrow> (nat \<Rightarrow> nat list) \<Rightarrow> nat \<Rightarrow> bool" where
  "state_ok A k Q W x \<longleftrightarrow> (in_ready Q x \<longleftrightarrow> x \<in> A \<and> TaskState (tcb k x) = OS_TASK_STATE_RDY)
     \<and> (in_wheel W x \<longleftrightarrow> x \<in> A \<and> timed (TaskState (tcb k x)))
     \<and> (x \<in> A \<longrightarrow> prio_ix k x < 32 \<and> TaskState (tcb k x) \<le> OS_TASK_STATE_PEND_TIMEOUT_SUSPENDED)"

definition inv_except ::
  "nat set \<Rightarrow> nat set \<Rightarrow> nat \<Rightarrow> os_kernel \<Rightarrow> (nat \<Rightarrow> nat list) \<Rightarrow> (nat \<Rightarrow> nat list) \<Rightarrow> bool" where
  "inv_except E A idle k Q W \<longleftrightarrow> rdy_inv k Q \<and> cur_ok k \<and> wheel_inv k W \<and> (\<forall>x. in_wheel W x \<longrightarrow> dist k x \<noteq> 0)
     \<and> (\<forall>x. x \<notin> E \<longrightarrow> state_ok A k Q W x) \<and> idle \<notin> E \<and> idle \<in> set (Q 31)"

abbreviation kinv where "kinv \<equiv> inv_except {}"

text \<open>
  The running task is ready as well, except while a service blocks it.  \<open>sys_inv\<close> is the state in
  which a task runs: no interrupt is being served and the scheduler is not locked.
\<close>

definition run_inv :: "nat set \<Rightarrow> nat \<Rightarrow> os_kernel \<Rightarrow> (nat \<Rightarrow> nat list) \<Rightarrow> (nat \<Rightarrow> nat list) \<Rightarrow> bool" where
  "run_inv A idle k Q W \<longleftrightarrow> kinv A idle k Q W \<and> in_ready Q (OSTCBCurPtr k)"

definition sys_inv :: "nat set \<Rightarrow> nat \<Rightarrow> os_kernel \<Rightarrow> (nat \<Rightarrow> nat list) \<Rightarrow> (nat \<Rightarrow> nat list) \<Rightarrow> bool" where
  "sys_inv A idle k Q W \<longleftrightarrow> run_inv A idle k Q W \<and> OSIntNestingCtr k = 0 \<and> OSSchedLockNestingCtr k = 0"

lemma in_ready_prio: "rdy_inv k Q \<Longrightarrow> in_ready Q x \<Longrightarrow> prio_ix k x < 32 \<and> x \<in> set (Q (prio_ix k x))"
  unfolding in_ready_def by (auto dest: rdy_inv_list simp: rdy_list_ok_def prio_ix_def)

lemma in_readyI: "x \<in> set (Q i) \<Longrightarrow> i < 32 \<Longrightarrow> in_ready Q x"
  by (auto simp: in_ready_def)

lemma inv_exceptD:
  assumes "inv_except E A idle k Q W"
  shows "cur_ok k" "rdy_inv k Q" "wheel_inv k W" "in_wheel W x \<Longrightarrow> dist k x \<noteq> 0"
    "x \<notin> E \<Longrightarrow> state_ok A k Q W x" "idle \<notin> E" "idle \<in> set (Q 31)"
  using assms by (simp_all add: inv_except_def)

lemma sys_invD:
  assumes "sys_inv A idle k Q W"
  shows "kinv A idle k Q W" "in_ready Q (OSTCBCurPtr k)"
    "OSIntNestingCtr k = 0" "OSSchedLockNestingCtr k = 0" "state_ok A k Q W x"
  using assms by (simp_all add: sys_inv_def run_inv_def inv_except_def)

text \<open>Without exceptions, the invariant of the wheel follows.\<close>

lemma kinv_time:
  assumes inv: "kinv A idle k Q W"
  shows "time_inv k Q W"
proof -
  have "asleep k Q (W s) \<and> (\<forall>x \<in> set (W s). dist k x \<noteq> 0)" if "s < WHEEL" for s
  proof -
    have w: "in_wheel W x" if "x \<in> set (W s)" for x using that \<open>s < WHEEL\<close> by (auto simp: in_wheel_def)
    have "timed (TaskState (tcb k x)) \<and> prio_ix k x < 32 \<and> x \<notin> set (Q (prio_ix k x))" if "x \<in> set (W s)" for x
    proof -
      have ok: "state_ok A k Q W x" using inv_exceptD(5) [OF inv] by simp
      then have t: "timed (TaskState (tcb k x))" "x \<in> A" "prio_ix k x < 32"
        using w [OF that] by (simp_all add: state_ok_def)
      then have "\<not> in_ready Q x" using ok by (auto simp: state_ok_def timed_def)
      then show ?thesis using t in_readyI by blast
    qed
    then show ?thesis using inv_exceptD(4) [OF inv] w by (auto simp: asleep_def)
  qed
  then show ?thesis using inv_exceptD(2,3) [OF inv] by (simp add: time_inv_def)
qed

section \<open>Moves of one task\<close>

text \<open>Only the task \<open>p\<close> is touched.\<close>

definition only :: "nat \<Rightarrow> os_kernel \<Rightarrow> os_kernel \<Rightarrow> bool" where
  "only p k k' \<longleftrightarrow> cpu_frame k k' \<and> OSTickCtr k' = OSTickCtr k
     \<and> (\<forall>x. x \<noteq> p \<longrightarrow> svc_of (tcb k' x) = svc_of (tcb k x) \<and> dist k' x = dist k x)"

lemma only_refl [simp]: "only p k k"
  by (simp add: only_def)

lemma only_trans: "only p k k1 \<Longrightarrow> only p k1 k2 \<Longrightarrow> only p k k2"
  by (auto simp: only_def intro: cpu_frame_trans)

lemma state_ok_cong:
  assumes "state_ok A k Q W x" and "in_ready Q' x = in_ready Q x" and "in_wheel W' x = in_wheel W x"
    and "svc_of (tcb k' x) = svc_of (tcb k x)" and "prio_ix k' x = prio_ix k x"
  shows "state_ok A k' Q' W' x"
  using assms(1) by (simp add: state_ok_def assms(2,3,5) svc_of_eqD(1) [OF assms(4)])

lemma cur_ok_cpu:
  assumes "cur_ok k" and "cpu_frame k k'"
  shows "cur_ok k'"
proof -
  have c: "prio_ix k' = prio_ix k" "OSPrioCur k' = OSPrioCur k" "OSTCBCurPtr k' = OSTCBCurPtr k"
    using assms(2) by (simp_all add: cpu_frame_def)
  have "Prio (tcb k' (OSTCBCurPtr k)) = Prio (tcb k (OSTCBCurPtr k))"
    using fun_cong [OF c(1), of "OSTCBCurPtr k"] by (simp add: prio_ix_def word_unat_eq_iff)
  then show ?thesis using assms(1) by (simp add: cur_ok_def c(2,3))
qed

text \<open>The general step: new lists that differ from the old ones in \<open>p\<close> only.\<close>

lemma move:
  assumes inv: "inv_except {p} A idle k Q W" and o: "only p k k'"
    and q: "rdy_inv k' Q'" "\<And>x. x \<noteq> p \<Longrightarrow> in_ready Q' x = in_ready Q x"
    and w: "wheel_inv k' W'" "\<And>x. x \<noteq> p \<Longrightarrow> in_wheel W' x = in_wheel W x"
    and d: "in_wheel W' p \<Longrightarrow> dist k' p \<noteq> 0"
  shows "inv_except {p} A idle k' Q' W'"
proof -
  have ip: "idle \<noteq> p" using inv_exceptD(6) [OF inv] by simp
  have px: "prio_ix k' = prio_ix k" using o by (simp add: only_def cpu_frame_def)
  have "in_ready Q' idle" using q(2) [OF ip] in_readyI [of idle Q 31] inv_exceptD(7) [OF inv] by simp
  moreover have "prio_ix k idle = 31"
    using rdy_inv_list [OF inv_exceptD(2) [OF inv], of 31] inv_exceptD(7) [OF inv]
    by (simp add: rdy_list_ok_def prio_ix_def)
  ultimately have "idle \<in> set (Q' 31)" using in_ready_prio [OF q(1), of idle] by (simp add: px)
  moreover have "state_ok A k' Q' W' x" if "x \<noteq> p" for x
  proof -
    have "svc_of (tcb k' x) = svc_of (tcb k x)" using o that by (simp add: only_def)
    moreover have "state_ok A k Q W x" using inv_exceptD(5) [OF inv] that by simp
    ultimately show ?thesis
      using state_ok_cong [OF _ q(2) [OF that] w(2) [OF that] _ fun_cong [OF px]] by blast
  qed
  moreover have "dist k' x \<noteq> 0" if "in_wheel W' x" for x
    using d inv_exceptD(4) [OF inv, of x] w(2) [of x] o that by (cases "x = p") (simp_all add: only_def)
  moreover have "cur_ok k'" using o by (intro cur_ok_cpu [OF inv_exceptD(1) [OF inv]]) (simp add: only_def)
  ultimately show ?thesis using q(1) w(1) ip by (simp add: inv_except_def)
qed


lemma only_upd: "svc_upd f \<Longrightarrow> only p k (upd_tcb p f k)"
  by (simp add: only_def cpu_frame_upd svc_updD sel_upd dist_def)

lemma dist_upd: "svc_upd f \<Longrightarrow> dist (upd_tcb p f k) = dist k"
  by (simp add: dist_def fun_eq_iff sel_upd svc_updD)

lemma mv_svc:
  assumes inv: "inv_except {p} A idle k Q W" and f: "svc_upd f"
  shows "inv_except {p} A idle (upd_tcb p f k) Q W"
proof (rule move [OF inv only_upd [OF f]])
  show "rdy_inv (upd_tcb p f k) Q" by (rule rdy_inv_svc [OF f inv_exceptD(2) [OF inv]])
  show "wheel_inv (upd_tcb p f k) W" by (rule wheel_inv_svc [OF f inv_exceptD(3) [OF inv]])
qed (simp_all add: dist_upd [OF f] inv_exceptD(4) [OF inv])

lemma only_svc:
  assumes "svc_frame k k'" and "\<And>x. x \<noteq> p \<Longrightarrow> TickCtrMatch (tcb k' x) = TickCtrMatch (tcb k x)"
  shows "only p k k'"
  using assms by (simp add: only_def svc_frame_cpu svc_frame_tcb dist_def) (simp add: svc_frame_def)

lemma svc_dist:
  "svc_frame k k' \<Longrightarrow> TickCtrMatch (tcb k' x) = TickCtrMatch (tcb k x) \<Longrightarrow> dist k' x = dist k x"
  by (simp add: svc_frame_def dist_def)

lemma mv_rdy_remove:
  assumes inv: "inv_except {p} A idle k Q W" and p: "in_ready Q p"
  shows "\<exists>k' Q'. OS_RdyListRemove p k = Some k' \<and> inv_except {p} A idle k' Q' W \<and> only p k k'
    \<and> svc_of (tcb k' p) = svc_of (tcb k p) \<and> dist k' p = dist k p \<and> \<not> in_ready Q' p"
proof -
  let ?i = "prio_ix k p"
  have i: "?i < 32" "p \<in> set (Q ?i)" using in_ready_prio [OF inv_exceptD(2) [OF inv] p] by simp_all
  let ?Q = "Q(?i := remove1 p (Q ?i))"
  obtain k' where k': "OS_RdyListRemove p k = Some k'" "rdy_inv k' ?Q" "rdy_frame ?i k k'"
    using Remove_refines [OF inv_exceptD(2) [OF inv] i] by blast
  note f = rdy_frame_svc [OF k'(3)] and m = rdy_frame_tcb(10) [OF k'(3)]
  have d: "distinct (Q j)" if "j < 32" for j
    using rdy_inv_list [OF inv_exceptD(2) [OF inv] that] by (simp add: rdy_list_ok_def)
  have "in_ready ?Q x = in_ready Q x" if "x \<noteq> p" for x
    unfolding in_ready_def using that by (metis fun_upd_apply in_set_remove1)
  moreover have o: "only p k k'" by (rule only_svc [OF f m])
  moreover have "wheel_inv k' W" by (rule rdy_frame_wheel [OF k'(3) inv_exceptD(3) [OF inv]])
  moreover have "in_wheel W p \<Longrightarrow> dist k' p \<noteq> 0"
    using inv_exceptD(4) [OF inv, of p] svc_dist [OF f m] by simp
  ultimately have "inv_except {p} A idle k' ?Q W" by (intro move [OF inv o k'(2)]) simp_all
  moreover have "\<not> in_ready ?Q p"
  proof
    assume "in_ready ?Q p"
    from in_ready_prio [OF k'(2) this] have "p \<in> set (?Q ?i)" using f by (simp add: prio_ix_frame)
    then show False using d [OF i(1)] by simp
  qed
  ultimately show ?thesis using k'(1) o svc_frame_tcb [OF f, of p] svc_dist [OF f m, of p] by blast
qed

lemma mv_rdy_insert:
  assumes inv: "inv_except {p} A idle k Q W" and p: "\<not> in_ready Q p" "prio_ix k p < 32"
  shows "\<exists>k' Q'. OS_RdyListInsert p k = Some k' \<and> inv_except {p} A idle k' Q' W \<and> only p k k'
    \<and> svc_of (tcb k' p) = svc_of (tcb k p) \<and> dist k' p = dist k p \<and> in_ready Q' p"
proof -
  let ?i = "prio_ix k p"
  have new: "p \<notin> set (Q ?i)" using p in_readyI by blast
  obtain k' where k': "OS_RdyListInsert p k = Some k'" "rdy_inv k' (wake k p Q)" "rdy_frame ?i k k'"
    using Insert_refines [OF inv_exceptD(2) [OF inv] _ p(2) new] unfolding wake_def prio_ix_def by blast
  note f = rdy_frame_svc [OF k'(3)] and m = rdy_frame_tcb(10) [OF k'(3)]
  have "in_ready (wake k p Q) x = in_ready Q x" if "x \<noteq> p" for x
    using that by (simp add: in_ready_def set_wake)
  moreover have o: "only p k k'" by (rule only_svc [OF f m])
  moreover have "wheel_inv k' W" by (rule rdy_frame_wheel [OF k'(3) inv_exceptD(3) [OF inv]])
  moreover have "in_wheel W p \<Longrightarrow> dist k' p \<noteq> 0"
    using inv_exceptD(4) [OF inv, of p] svc_dist [OF f m] by simp
  ultimately have "inv_except {p} A idle k' (wake k p Q) W" by (intro move [OF inv o k'(2)]) simp_all
  moreover have "in_ready (wake k p Q) p" using p(2) by (auto simp: in_ready_def set_wake)
  ultimately show ?thesis using k'(1) o svc_frame_tcb [OF f, of p] svc_dist [OF f m, of p] by blast
qed

lemma mv_tick_insert:
  assumes inv: "inv_except {p} A idle k Q W" and new: "\<not> in_wheel W p"
    and m: "set_match p time opt k = Some k1" and nz: "dist k1 p \<noteq> 0"
  shows "\<exists>k' W'. OS_TickListInsert p time opt k = Some (OS_ERR_NONE, k') \<and> inv_except {p} A idle k' Q W'
    \<and> only p k k' \<and> svc_of (tcb k' p) = svc_of (tcb k p) \<and> dist k' p = dist k1 p
    \<and> (\<forall>x. in_wheel W' x \<longleftrightarrow> x = p \<or> in_wheel W x)"
proof -
  let ?s = "spoke_of (TickCtrMatch (tcb k1 p))"
  have s: "?s < WHEEL" by (rule spoke_of_less)
  let ?W = "W(?s := placed (dist k) (dist k1 p) p (W ?s))"
  have "\<forall>s < WHEEL. p \<notin> set (W s)" using new by (simp add: in_wheel_def)
  then obtain k' where k': "OS_TickListInsert p time opt k = Some (OS_ERR_NONE, k')" "tick_frame k k'"
    "wheel_inv k' ?W" "\<And>x. TickCtrMatch (tcb k' x) = TickCtrMatch (tcb k1 x)"
    using TickListInsert_refines [OF inv_exceptD(3) [OF inv] _ m refl] by blast
  note f = tick_frame_svc [OF k'(2)]
  have o: "only p k k'" by (rule only_svc [OF f]) (simp add: k'(4) set_match_Some(1) [OF m])
  have dp: "dist k' p = dist k1 p"
    using k'(4) set_match_Some(3) [OF m] f by (simp add: dist_def svc_frame_def)
  have mem: "in_wheel ?W x \<longleftrightarrow> x = p \<or> in_wheel W x" for x
    unfolding in_wheel_def by (rule ex_fun_upd [OF s])
  have "inv_except {p} A idle k' Q ?W"
    by (rule move [OF inv o tick_frame_rdy [OF k'(2) inv_exceptD(2) [OF inv]] _ k'(3)]) (simp_all add: mem dp nz)
  then show ?thesis using k'(1) o svc_frame_tcb [OF f] dp mem by blast
qed

lemma mv_tick_remove:
  assumes inv: "inv_except {p} A idle k Q W"
  shows "\<exists>k' W'. OS_TickListRemove p k = Some k' \<and> inv_except {p} A idle k' Q W' \<and> only p k k'
    \<and> svc_of (tcb k' p) = svc_of (tcb k p) \<and> (\<forall>x. in_wheel W' x \<longleftrightarrow> x \<noteq> p \<and> in_wheel W x)"
proof (cases "in_wheel W p")
  case False
  then have "OS_TickListRemove p k = Some k"
    by (intro TickListRemove_out [OF inv_exceptD(3) [OF inv]]) (simp add: in_wheel_def)
  then show ?thesis using False inv by (intro exI [of _ k] exI [of _ W]) auto
next
  case True
  then obtain s where s: "s < WHEEL" "p \<in> set (W s)" by (auto simp: in_wheel_def)
  let ?W = "W(s := remove1 p (W s))"
  obtain k' where k': "OS_TickListRemove p k = Some k'" "tick_frame k k'" "wheel_inv k' ?W"
    "\<And>x. x \<noteq> p \<Longrightarrow> TickCtrMatch (tcb k' x) = TickCtrMatch (tcb k x)"
    using TickListRemove_refines [OF inv_exceptD(3) [OF inv] s] by blast
  note f = tick_frame_svc [OF k'(2)]
  have o: "only p k k'" by (rule only_svc [OF f k'(4)])
  have d: "distinct (W s)" using wheel_inv_spoke [OF inv_exceptD(3) [OF inv] s(1)] by (simp add: spoke_ok_def)
  have uniq: "j = s" if "j < WHEEL" "p \<in> set (W j)" for j
    using wheel_inv_in [OF inv_exceptD(3) [OF inv] s] wheel_inv_in [OF inv_exceptD(3) [OF inv] that] by simp
  have mem: "in_wheel ?W x \<longleftrightarrow> x \<noteq> p \<and> in_wheel W x" for x
  proof (cases "x = p")
    case True
    then show ?thesis using uniq d by (auto simp: in_wheel_def split: if_splits)
  next
    case False
    then show ?thesis unfolding in_wheel_def by (metis fun_upd_apply in_set_remove1)
  qed
  have "inv_except {p} A idle k' Q ?W"
    by (rule move [OF inv o tick_frame_rdy [OF k'(2) inv_exceptD(2) [OF inv]] _ k'(3)]) (simp_all add: mem)
  then show ?thesis using k'(1) o svc_frame_tcb [OF f] mem by blast
qed

text \<open>The first move and the last.\<close>

lemma mv_open: "kinv A idle k Q W \<Longrightarrow> p \<noteq> idle \<Longrightarrow> inv_except {p} A idle k Q W"
  by (simp add: inv_except_def)

lemma mv_close: "inv_except {p} A idle k Q W \<Longrightarrow> state_ok A k Q W p \<Longrightarrow> kinv A idle k Q W"
  by (auto simp: inv_except_def)


lemma mv_task_rdy:
  assumes inv: "inv_except {p} A idle k Q W" and p: "\<not> in_ready Q p" "prio_ix k p < 32"
    and st: "TaskState (tcb k p) AND OS_TASK_STATE_BIT_SUSPENDED = 0"
  shows "\<exists>k' Q' W'. OS_TaskRdy p k = Some k' \<and> inv_except {p} A idle k' Q' W' \<and> only p k k'
    \<and> svc_of (tcb k' p) = svc_of (tcb k p) \<and> in_ready Q' p \<and> \<not> in_wheel W' p"
proof -
  obtain k1 W1 where k1: "OS_TickListRemove p k = Some k1" "inv_except {p} A idle k1 Q W1" "only p k k1"
    "svc_of (tcb k1 p) = svc_of (tcb k p)" "\<not> in_wheel W1 p"
    using mv_tick_remove [OF inv] by blast
  have "prio_ix k1 p < 32" using k1(3) p(2) by (simp add: only_def cpu_frame_def)
  then obtain k2 Q2 where k2: "OS_RdyListInsert p k1 = Some k2" "inv_except {p} A idle k2 Q2 W1" "only p k1 k2"
    "svc_of (tcb k2 p) = svc_of (tcb k1 p)" "in_ready Q2 p"
    using mv_rdy_insert [OF k1(2) p(1)] by blast
  have "OS_TaskRdy p k = Some k2"
    using k1(1) k2(1) st by (simp add: OS_TaskRdy_def svc_of_eqD(1) [OF k1(4)])
  then show ?thesis using k2 k1(4,5) only_trans [OF k1(3) k2(3)] by (intro exI [of _ k2] exI [of _ Q2] exI [of _ W1]) simp
qed

section \<open>Scheduling\<close>

text \<open>No task is touched; the running task may be another one.\<close>

definition same_tasks :: "os_kernel \<Rightarrow> os_kernel \<Rightarrow> bool" where
  "same_tasks k k' \<longleftrightarrow> (\<forall>x. svc_of (tcb k' x) = svc_of (tcb k x)) \<and> dist k' = dist k \<and> prio_ix k' = prio_ix k
     \<and> msgs k' = msgs k \<and> OSRunning k' = OSRunning k \<and> OSTickCtr k' = OSTickCtr k
     \<and> OSIntNestingCtr k' = OSIntNestingCtr k \<and> OSSchedLockNestingCtr k' = OSSchedLockNestingCtr k
     \<and> roles k' = roles k"

lemma roles_sched:
  assumes "sched_frame k k'"
  shows "roles k' = roles k"
proof -
  have e: "k' = k\<lparr>tcb := tcb k', OSPrioCur := OSPrioCur k', OSPrioHighRdy := OSPrioHighRdy k',
       OSTCBCurPtr := OSTCBCurPtr k', OSTCBHighRdyPtr := OSTCBHighRdyPtr k', OSTaskCtxSwCtr := OSTaskCtxSwCtr k'\<rparr>"
    using assms unfolding sched_frame_def by (rule conjunct1)
  show ?thesis by (subst e) (simp add: roles_def)
qed

lemma next_task_exists: "p \<in> set (Q i) \<Longrightarrow> i < 32 \<Longrightarrow> \<exists>q. next_task Q = Some q"
  by (metis emptyE list.set(1) map_option_eq_Some next_task_def top_prio_exists)

lemma next_task_ready: "next_task Q = Some q \<Longrightarrow> in_ready Q q"
  by (auto simp: next_task_def top_prio_Some in_ready_def)

lemma sched_sys:
  assumes inv: "kinv A idle k Q W" and task: "OSIntNestingCtr k = 0" "OSSchedLockNestingCtr k = 0"
  shows "\<exists>k'. OSSched k = Some k' \<and> sys_inv A idle k' Q W \<and> same_tasks k k' \<and> next_task Q = Some (OSTCBCurPtr k')"
proof -
  obtain q where q: "next_task Q = Some q" using next_task_exists [of idle Q 31] inv_exceptD(7) [OF inv] by auto
  obtain k' where k': "OSSched k = Some k'" "OSTCBCurPtr k' = q" "cur_ok k'" "rdy_inv k' Q" "sched_frame k k'"
    using OSSched_runs [OF inv_exceptD(2,1) [OF inv] q task] by blast
  note f = sched_frame_tcb [OF k'(5)] sched_frame_simps [OF k'(5)]
  have px: "prio_ix k' = prio_ix k" by (simp add: fun_eq_iff prio_ix_def f)
  have sv: "svc_of (tcb k' x) = svc_of (tcb k x)" for x unfolding svc_of_def f by simp
  have d: "dist k' = dist k" by (simp add: fun_eq_iff dist_def f)
  have "wheel_inv k' W" by (rule wheel_inv_same [OF inv_exceptD(3) [OF inv]]) (simp_all add: f)
  moreover have "state_ok A k' Q W x" for x
    using inv_exceptD(5) [OF inv, of x] by (rule state_ok_cong) (simp_all add: sv px)
  ultimately have "kinv A idle k' Q W" using inv k'(3,4) by (simp add: inv_except_def d)
  then show ?thesis using k'(1,2) q next_task_ready [OF q] sv d px f task
      roles_sched [OF k'(5)] by (auto simp: sys_inv_def run_inv_def same_tasks_def)
qed

section \<open>A tick\<close>

lemma in_ready_rouses:
  "in_ready (fold (rouse k) ps Q) x \<longleftrightarrow>
    in_ready Q x \<or> x \<in> set ps \<and> prio_ix k x < 32 \<and> rouses (TaskState (tcb k x))"
  by (auto simp: in_ready_def set_rouses)

lemma rung_state:
  "timed (TaskState t) \<Longrightarrow> TaskState (rung ts t) = (if rouses (TaskState t) then OS_TASK_STATE_RDY else OS_TASK_STATE_SUSPENDED)"
  by (auto simp: timed_def rouses_def rung_def Let_def)

lemma due_in_wheel:
  assumes "time_inv k Q W"
  shows "x \<in> set (due k W) \<longleftrightarrow> in_wheel W x \<and> dist k x = 1"
    and "in_wheel (still k W) x \<longleftrightarrow> in_wheel W x \<and> dist k x \<noteq> 1"
proof -
  have m: "s = spoke_of (OSTickCtr k + 1)" if "s < WHEEL" "x \<in> set (W s)" "dist k x = 1" for s
  proof -
    have "TickCtrMatch (tcb k x) = OSTickCtr k + 1" using that(3) by (simp add: dist_def diff_eq_eq add.commute)
    then show ?thesis using time_inv_spoke [OF assms that(1)] that(2) by (auto simp: spoke_ok_def)
  qed
  show "x \<in> set (due k W) \<longleftrightarrow> in_wheel W x \<and> dist k x = 1"
    unfolding due_still(1) [OF assms] in_wheel_def using m spoke_of_less by blast
  show "in_wheel (still k W) x \<longleftrightarrow> in_wheel W x \<and> dist k x \<noteq> 1"
    unfolding in_wheel_def using due_still(2) [OF assms] by blast
qed

text \<open>A tick in any state of the invariant: what becomes of the tasks.\<close>

lemma tick_run:
  assumes inv: "run_inv A idle k Q W"
  shows "\<exists>k'. OS_TickListUpdate stamp k = Some k'
    \<and> run_inv A idle k' (fold (rouse k) (due k W) Q) (still k W) \<and> cpu_frame k k' \<and> OSTickCtr k' = OSTickCtr k + 1
    \<and> (\<forall>x. if in_wheel W x \<and> dist k x = 1 then svc_of (tcb k' x) = svc_of (rung (stamp x) (tcb k x))
        else svc_of (tcb k' x) = svc_of (tcb k x))
    \<and> (\<forall>x. in_wheel W x \<and> dist k x \<noteq> 1 \<longrightarrow> dist k' x = dist k x - 1)"
proof -
  let ?Q = "fold (rouse k) (due k W) Q" and ?W = "still k W"
  have kv: "kinv A idle k Q W" and cur: "in_ready Q (OSTCBCurPtr k)" using inv by (simp_all add: run_inv_def)
  have ti: "time_inv k Q W" by (rule kinv_time [OF kv])
  note mem = due_in_wheel [OF ti]
  obtain k' where k': "OS_TickListUpdate stamp k = Some k'" "time_inv k' ?Q ?W" "OSTickCtr k' = OSTickCtr k + 1"
    "cpu_frame k k'" "\<And>s x. s < WHEEL \<Longrightarrow> x \<in> set (?W s) \<Longrightarrow> dist k' x = dist k x - 1"
    "\<And>x. svc_of (tcb k' x) = svc_of (done_tcb stamp (set (due k W)) k x)"
    using OS_TickListUpdate_wakes [OF ti, of stamp] by blast
  have sv: "svc_of (tcb k' x) = (if in_wheel W x \<and> dist k x = 1 then svc_of (rung (stamp x) (tcb k x)) else svc_of (tcb k x))"
    for x using k'(6) [of x] by (simp add: done_tcb_def mem(1))
  have px: "prio_ix k' = prio_ix k" "OSTCBCurPtr k' = OSTCBCurPtr k" using k'(4) by (simp_all add: cpu_frame_def)
  have "state_ok A k' ?Q ?W x" for x
  proof -
    have ok: "state_ok A k Q W x" using inv_exceptD(5) [OF kv] by simp
    show ?thesis
    proof (cases "in_wheel W x \<and> dist k x = 1")
      case True
      then have x: "x \<in> A" "timed (TaskState (tcb k x))" "prio_ix k x < 32" "\<not> in_ready Q x"
        using ok by (auto simp: state_ok_def timed_def)
      have "TaskState (tcb k' x) = (if rouses (TaskState (tcb k x)) then 0 else 4)"
        using svc_of_eqD(1) [of "tcb k' x" "rung (stamp x) (tcb k x)"] sv [of x] True rung_state [OF x(2)] by simp
      then show ?thesis using x True
        by (simp add: state_ok_def in_ready_rouses mem px timed_def)
    next
      case False
      have "svc_of (tcb k' x) = svc_of (tcb k x)" by (simp only: sv False if_False)
      moreover have "in_ready ?Q x = in_ready Q x" "in_wheel ?W x = in_wheel W x"
        using False by (auto simp: in_ready_rouses mem)
      ultimately show ?thesis by (intro state_ok_cong [OF ok]) (simp_all add: px)
    qed
  qed
  moreover have "cur_ok k'" by (rule cur_ok_cpu [OF inv_exceptD(1) [OF kv] k'(4)])
  moreover have "in_wheel ?W x \<Longrightarrow> dist k' x \<noteq> 0" for x
    using k'(2) by (auto simp: time_inv_def in_wheel_def)
  moreover have "idle \<in> set (?Q 31)" using inv_exceptD(7) [OF kv] by (simp add: set_rouses)
  ultimately have "run_inv A idle k' ?Q ?W"
    using k'(2) cur by (simp add: run_inv_def inv_except_def time_inv_def px in_ready_rouses)
  moreover have "dist k' x = dist k x - 1" if "in_wheel W x" "dist k x \<noteq> 1" for x
    using mem(2) [of x] that k'(5) unfolding in_wheel_def by blast
  ultimately show ?thesis using k'(1,3,4) sv by simp
qed


section \<open>The invariant without the lists\<close>

text \<open>Where a task is follows from its state, so that the services need not speak of the lists.\<close>

definition kin :: "nat set \<Rightarrow> nat \<Rightarrow> os_kernel \<Rightarrow> bool" where
  "kin A idle k \<longleftrightarrow> (\<exists>Q W. kinv A idle k Q W)"

definition run :: "nat set \<Rightarrow> nat \<Rightarrow> os_kernel \<Rightarrow> bool" where
  "run A idle k \<longleftrightarrow> kin A idle k \<and> OSTCBCurPtr k \<in> A \<and> TaskState (tcb k (OSTCBCurPtr k)) = OS_TASK_STATE_RDY"

definition sys :: "nat set \<Rightarrow> nat \<Rightarrow> os_kernel \<Rightarrow> bool" where
  "sys A idle k \<longleftrightarrow> run A idle k \<and> OSIntNestingCtr k = 0 \<and> OSSchedLockNestingCtr k = 0"

lemma kinv_ready: "kinv A idle k Q W \<Longrightarrow> in_ready Q x \<longleftrightarrow> x \<in> A \<and> TaskState (tcb k x) = OS_TASK_STATE_RDY"
  and kinv_wheel: "kinv A idle k Q W \<Longrightarrow> in_wheel W x \<longleftrightarrow> x \<in> A \<and> timed (TaskState (tcb k x))"
  and kinv_prio: "kinv A idle k Q W \<Longrightarrow> x \<in> A \<Longrightarrow> prio_ix k x < 32"
  and kinv_state: "kinv A idle k Q W \<Longrightarrow> x \<in> A \<Longrightarrow> TaskState (tcb k x) \<le> OS_TASK_STATE_PEND_TIMEOUT_SUSPENDED"
  by (auto simp: state_ok_def dest!: inv_exceptD(5) [of "{}" _ _ _ _ _ x])

lemma run_iff: "run A idle k \<longleftrightarrow> (\<exists>Q W. run_inv A idle k Q W)"
  unfolding run_def kin_def run_inv_def using kinv_ready by blast

lemma sys_iff: "sys A idle k \<longleftrightarrow> (\<exists>Q W. sys_inv A idle k Q W)"
  by (auto simp: sys_def sys_inv_def run_iff)

lemma run_kin: "run A idle k \<Longrightarrow> kin A idle k"
  by (simp add: run_def)

text \<open>
  Between two moves: \<open>p\<close> is in the ready lists if \<open>r\<close>, in the wheel if \<open>w\<close>; all other tasks are where
  their states say.
\<close>

definition at :: "nat set \<Rightarrow> nat \<Rightarrow> nat \<Rightarrow> bool \<Rightarrow> bool \<Rightarrow> os_kernel \<Rightarrow> bool" where
  "at A idle p r w k \<longleftrightarrow> p \<in> A \<and> prio_ix k p < 32
     \<and> (\<exists>Q W. inv_except {p} A idle k Q W \<and> in_ready Q p = r \<and> in_wheel W p = w)"

text \<open>Only the links of \<open>p\<close> are touched.\<close>

definition keeps :: "nat \<Rightarrow> os_kernel \<Rightarrow> os_kernel \<Rightarrow> bool" where
  "keeps p k k' \<longleftrightarrow> only p k k' \<and> svc_of (tcb k' p) = svc_of (tcb k p)"

lemma only_prio: "only p k k' \<Longrightarrow> prio_ix k' = prio_ix k"
  by (simp add: only_def cpu_frame_def)

lemma at_open:
  assumes "kin A idle k" and "p \<in> A" and "p \<noteq> idle"
  shows "at A idle p (TaskState (tcb k p) = OS_TASK_STATE_RDY) (timed (TaskState (tcb k p))) k"
proof -
  obtain Q W where inv: "kinv A idle k Q W" using assms(1) by (auto simp: kin_def)
  have "inv_except {p} A idle k Q W" by (rule mv_open [OF inv assms(3)])
  then show ?thesis using assms(2) kinv_ready [OF inv, of p] kinv_wheel [OF inv, of p] kinv_prio [OF inv assms(2)]
    unfolding at_def by blast
qed

lemma at_close:
  assumes "at A idle p r w k" and "r \<longleftrightarrow> TaskState (tcb k p) = OS_TASK_STATE_RDY" and "w \<longleftrightarrow> timed (TaskState (tcb k p))"
    and "TaskState (tcb k p) \<le> OS_TASK_STATE_PEND_TIMEOUT_SUSPENDED"
  shows "kin A idle k"
proof -
  obtain Q W where inv: "inv_except {p} A idle k Q W" "in_ready Q p = r" "in_wheel W p = w" "p \<in> A" "prio_ix k p < 32"
    using assms(1) by (auto simp: at_def)
  then have "state_ok A k Q W p" using assms(2-4) by (simp add: state_ok_def)
  then show ?thesis using mv_close [OF inv(1)] unfolding kin_def by blast
qed

lemma at_svc:
  assumes "at A idle p r w k" and f: "svc_upd f"
  shows "at A idle p r w (upd_tcb p f k)"
proof -
  obtain Q W where inv: "inv_except {p} A idle k Q W" "in_ready Q p = r" "in_wheel W p = w" "p \<in> A" "prio_ix k p < 32"
    using assms(1) by (auto simp: at_def)
  have "prio_ix (upd_tcb p f k) p < 32" using only_prio [OF only_upd [OF f]] inv(5) by simp
  then show ?thesis using mv_svc [OF inv(1) f] inv(2-4) unfolding at_def by blast
qed

lemma at_rdy_remove:
  assumes "at A idle p True w k"
  shows "\<exists>k'. OS_RdyListRemove p k = Some k' \<and> at A idle p False w k' \<and> keeps p k k' \<and> dist k' p = dist k p"
proof -
  obtain Q W where inv: "inv_except {p} A idle k Q W" "in_ready Q p" "in_wheel W p = w" "p \<in> A" "prio_ix k p < 32"
    using assms by (auto simp: at_def)
  then show ?thesis using mv_rdy_remove [OF inv(1,2)] only_prio unfolding at_def keeps_def by metis
qed

lemma at_tick_insert:
  assumes "at A idle p r False k" and m: "set_match p time opt k = Some k1" "dist k1 p \<noteq> 0"
  shows "\<exists>k'. OS_TickListInsert p time opt k = Some (OS_ERR_NONE, k') \<and> at A idle p r True k' \<and> keeps p k k'
    \<and> dist k' p = dist k1 p"
proof -
  obtain Q W where inv: "inv_except {p} A idle k Q W" "in_ready Q p = r" "\<not> in_wheel W p" "p \<in> A" "prio_ix k p < 32"
    using assms(1) by (auto simp: at_def)
  then show ?thesis using mv_tick_insert [OF inv(1,3) m] only_prio unfolding at_def keeps_def by metis
qed

lemma at_tick_remove:
  assumes "at A idle p r w k"
  shows "\<exists>k'. OS_TickListRemove p k = Some k' \<and> at A idle p r False k' \<and> keeps p k k'"
proof -
  obtain Q W where inv: "inv_except {p} A idle k Q W" "in_ready Q p = r" "p \<in> A" "prio_ix k p < 32"
    using assms by (auto simp: at_def)
  then show ?thesis using mv_tick_remove [OF inv(1)] only_prio unfolding at_def keeps_def by metis
qed

lemma at_rdy_insert:
  assumes "at A idle p False w k"
  shows "\<exists>k'. OS_RdyListInsert p k = Some k' \<and> at A idle p True w k' \<and> keeps p k k'"
proof -
  obtain Q W where inv: "inv_except {p} A idle k Q W" "\<not> in_ready Q p" "in_wheel W p = w" "p \<in> A" "prio_ix k p < 32"
    using assms by (auto simp: at_def)
  then show ?thesis using mv_rdy_insert [OF inv(1,2,5)] only_prio unfolding at_def keeps_def by metis
qed

lemma at_task_rdy:
  assumes "at A idle p False w k" and "TaskState (tcb k p) AND OS_TASK_STATE_BIT_SUSPENDED = 0"
  shows "\<exists>k'. OS_TaskRdy p k = Some k' \<and> at A idle p True False k' \<and> keeps p k k'"
proof -
  obtain Q W where inv: "inv_except {p} A idle k Q W" "\<not> in_ready Q p" "p \<in> A" "prio_ix k p < 32"
    using assms(1) by (auto simp: at_def)
  then show ?thesis using mv_task_rdy [OF inv(1,2,4) assms(2)] only_prio unfolding at_def keeps_def by metis
qed

lemma keeps_only: "keeps p k k' \<Longrightarrow> only p k k'"
  by (simp add: keeps_def)

lemma keeps_trans: "keeps p k k1 \<Longrightarrow> keeps p k1 k2 \<Longrightarrow> keeps p k k2"
  by (auto simp: keeps_def intro: only_trans)

lemma keeps_state: "keeps p k k' \<Longrightarrow> TaskState (tcb k' p) = TaskState (tcb k p)"
  unfolding keeps_def using svc_of_eqD(1) by blast

lemma svc_of_upd: "svc_upd f \<Longrightarrow> svc_of t = svc_of u \<Longrightarrow> svc_of (f t) = svc_of (f u)"
  unfolding svc_upd_def by blast

lemma tcb_upd: "tcb (upd_tcb p f k) p = f (tcb k p)"
  by (simp add: sel_upd)

lemma run_cur_at:
  assumes "run A idle k" and "OSTCBCurPtr k = p" and "p \<noteq> idle"
  shows "at A idle p True False k"
  using at_open [OF run_kin [OF assms(1)] _ assms(3)] assms(1,2) by (simp add: run_def timed_def)

text \<open>A service that does not touch the running task leaves it ready.\<close>

lemma run_other:
  assumes "run A idle k" and "kin A idle k'" and "only p k k'" and "OSTCBCurPtr k \<noteq> p"
  shows "run A idle k'"
proof -
  have c: "OSTCBCurPtr k' = OSTCBCurPtr k" and s: "svc_of (tcb k' (OSTCBCurPtr k)) = svc_of (tcb k (OSTCBCurPtr k))"
    using assms(3,4) by (simp_all add: only_def cpu_frame_def)
  show ?thesis using assms(1,2) by (simp add: run_def c svc_of_eqD(1) [OF s])
qed

lemma sched_kin:
  assumes "kin A idle k" and "OSIntNestingCtr k = 0" and "OSSchedLockNestingCtr k = 0"
  shows "\<exists>k'. OSSched k = Some k' \<and> sys A idle k' \<and> same_tasks k k'"
  using assms sched_sys unfolding kin_def sys_iff by blast

lemma same_tasks_refl [simp]: "same_tasks k k"
  by (simp add: same_tasks_def)

lemma sched_run:
  assumes "run A idle k"
  shows "\<exists>k'. OSSched k = Some k' \<and> run A idle k' \<and> same_tasks k k'"
proof (cases "OSIntNestingCtr k = 0 \<and> OSSchedLockNestingCtr k = 0")
  case True
  then show ?thesis using sched_kin [OF run_kin [OF assms]] by (auto simp: sys_def)
next
  case False
  then have "OSSched k = Some k" by (auto simp: OSSched_def word_gt_0)
  then show ?thesis using assms by auto
qed


text \<open>Only the task \<open>p\<close> is touched; another one may run.\<close>

definition touches :: "nat \<Rightarrow> os_kernel \<Rightarrow> os_kernel \<Rightarrow> bool" where
  "touches p k k' \<longleftrightarrow> prio_ix k' = prio_ix k \<and> OSTickCtr k' = OSTickCtr k \<and> OSRunning k' = OSRunning k \<and> roles k' = roles k
     \<and> (\<forall>x. x \<noteq> p \<longrightarrow> svc_of (tcb k' x) = svc_of (tcb k x) \<and> dist k' x = dist k x)"

lemma touches_refl [simp]: "touches p k k"
  by (simp add: touches_def)

lemma touches_trans: "touches p k k1 \<Longrightarrow> touches p k1 k2 \<Longrightarrow> touches p k k2"
  by (simp add: touches_def)

lemma only_touches: "only p k k' \<Longrightarrow> touches p k k'"
  by (simp add: only_def touches_def cpu_frame_def)

lemma same_touches: "same_tasks k k' \<Longrightarrow> touches p k k'"
  by (simp add: same_tasks_def touches_def)

lemma only_msgs: "only p k k' \<Longrightarrow> msgs k' = msgs k"
  by (simp add: only_def cpu_frame_def)

lemma only_levels: "only p k k' \<Longrightarrow> OSIntNestingCtr k' = OSIntNestingCtr k \<and> OSSchedLockNestingCtr k' = OSSchedLockNestingCtr k"
  by (simp add: only_def cpu_frame_def)

text \<open>The end of a service that has blocked the running task, and of one that has not.\<close>

lemma blocked_sched:
  assumes "kin A idle k1" and "only p k k1" and "OSIntNestingCtr k = 0" and "OSSchedLockNestingCtr k = 0"
  shows "\<exists>k'. OSSched k1 = Some k' \<and> sys A idle k' \<and> touches p k k' \<and> msgs k' = msgs k
    \<and> svc_of (tcb k' p) = svc_of (tcb k1 p) \<and> dist k' p = dist k1 p"
proof -
  obtain k' where k': "OSSched k1 = Some k'" "sys A idle k'" "same_tasks k1 k'"
    using sched_kin [OF assms(1)] only_levels [OF assms(2)] assms(3,4) by auto
  have "touches p k k'" by (rule touches_trans [OF only_touches [OF assms(2)] same_touches [OF k'(3)]])
  moreover have "msgs k' = msgs k" "svc_of (tcb k' p) = svc_of (tcb k1 p)" "dist k' p = dist k1 p"
    using k'(3) only_msgs [OF assms(2)] by (simp_all add: same_tasks_def)
  ultimately show ?thesis using k'(1,2) by blast
qed

lemma ready_sched:
  assumes "run A idle k1" and "touches p k k1" and "msgs k1 = msgs k"
  shows "\<exists>k'. OSSched k1 = Some k' \<and> run A idle k' \<and> touches p k k' \<and> msgs k' = msgs k
    \<and> svc_of (tcb k' p) = svc_of (tcb k1 p) \<and> dist k' p = dist k1 p"
proof -
  obtain k' where k': "OSSched k1 = Some k'" "run A idle k'" "same_tasks k1 k'"
    using sched_run [OF assms(1)] by blast
  have "touches p k k'" by (rule touches_trans [OF assms(2) same_touches [OF k'(3)]])
  moreover have "msgs k' = msgs k" "svc_of (tcb k' p) = svc_of (tcb k1 p)" "dist k' p = dist k1 p"
    using k'(3) assms(3) by (simp_all add: same_tasks_def)
  ultimately show ?thesis using k'(1,2) by blast
qed

end
