(* ===== verification/Os_Time.thy ===== *)
theory Os_Time
  imports Os_Inv
begin

text \<open>
  Delays: the time services of the kernel (os_time.c) and the delay routines of the board
  (SYSTEM/delay/delay.c), which the drivers use.  A service that blocks ends with the scheduling of
  another task; what it returns is what its caller sees when it runs again.
\<close>

section \<open>The services (os_time.c)\<close>

abbreviation (input) OS_OPT_TIME_HMSM_NON_STRICT :: u16 where "OS_OPT_TIME_HMSM_NON_STRICT \<equiv> 16"
abbreviation (input) OS_OPT_TIME_MASK :: u16 where "OS_OPT_TIME_MASK \<equiv> 14"
abbreviation (input) OS_OPT_TIME_OPTS_MASK :: u16 where "OS_OPT_TIME_OPTS_MASK \<equiv> 30"
abbreviation (input) OSCfg_TickRate_Hz :: u32 where "OSCfg_TickRate_Hz \<equiv> 200"

text \<open>The part that \<open>OSTimeDly\<close> and \<open>OSTimeDlyHMSM\<close> have in common.\<close>

definition delay_current :: "u32 \<Rightarrow> u16 \<Rightarrow> os_kernel \<Rightarrow> (OS_ERR \<times> os_kernel) option" where
  "delay_current time opt k =
     (let p = OSTCBCurPtr k;
          k = upd_tcb p (\<lambda>t. t\<lparr>TaskState := OS_TASK_STATE_DLY\<rparr>) k
      in do { (err, k) \<leftarrow> OS_TickListInsert p time opt k;
              if err \<noteq> OS_ERR_NONE then Some (err, k)
              else do { k \<leftarrow> OS_RdyListRemove p k;
                        map_option (Pair OS_ERR_NONE) (OSSched k) } })"

definition OSTimeDly :: "u32 \<Rightarrow> u16 \<Rightarrow> os_kernel \<Rightarrow> (OS_ERR \<times> os_kernel) option" where
  "OSTimeDly dly opt k =
     (if 0 < OSIntNestingCtr k then Some (OS_ERR_TIME_DLY_ISR, k)
      else if 0 < OSSchedLockNestingCtr k then Some (OS_ERR_SCHED_LOCKED, k)
      else if opt \<in> {OS_OPT_TIME_DLY, OS_OPT_TIME_TIMEOUT, OS_OPT_TIME_PERIODIC} then
        (if dly = 0 then Some (OS_ERR_TIME_ZERO_DLY, k) else delay_current dly opt k)
      else if opt = OS_OPT_TIME_MATCH then delay_current dly opt k
      else Some (OS_ERR_OPT_INVALID, k))"

definition hmsm_ticks :: "u16 \<Rightarrow> u16 \<Rightarrow> u16 \<Rightarrow> u32 \<Rightarrow> u32" where
  "hmsm_ticks hours minutes seconds milli =
     (ucast hours * 3600 + ucast minutes * 60 + ucast seconds) * OSCfg_TickRate_Hz
     + (OSCfg_TickRate_Hz * (milli + 500 div OSCfg_TickRate_Hz)) div 1000"

text \<open>The range checks of the strict and of the lenient form.\<close>

definition hmsm_range :: "u16 \<Rightarrow> u16 \<Rightarrow> u16 \<Rightarrow> u32 \<Rightarrow> u16 \<Rightarrow> OS_ERR" where
  "hmsm_range hours minutes seconds milli opt =
     (if opt AND OS_OPT_TIME_HMSM_NON_STRICT \<noteq> OS_OPT_TIME_HMSM_NON_STRICT then
        (if 999 < milli then OS_ERR_TIME_INVALID_MILLISECONDS
         else if 59 < seconds then OS_ERR_TIME_INVALID_SECONDS
         else if 59 < minutes then OS_ERR_TIME_INVALID_MINUTES
         else if 99 < hours then OS_ERR_TIME_INVALID_HOURS else OS_ERR_NONE)
      else
        (if 9999 < minutes then OS_ERR_TIME_INVALID_MINUTES
         else if 999 < hours then OS_ERR_TIME_INVALID_HOURS else OS_ERR_NONE))"

definition OSTimeDlyHMSM ::
  "u16 \<Rightarrow> u16 \<Rightarrow> u16 \<Rightarrow> u32 \<Rightarrow> u16 \<Rightarrow> os_kernel \<Rightarrow> (OS_ERR \<times> os_kernel) option" where
  "OSTimeDlyHMSM hours minutes seconds milli opt k =
     (let opt_time = opt AND OS_OPT_TIME_MASK;
          timed = (opt_time \<in> {OS_OPT_TIME_DLY, OS_OPT_TIME_TIMEOUT, OS_OPT_TIME_PERIODIC});
          ticks = hmsm_ticks hours minutes seconds milli
      in if 0 < OSIntNestingCtr k then Some (OS_ERR_TIME_DLY_ISR, k)
         else if 0 < OSSchedLockNestingCtr k then Some (OS_ERR_SCHED_LOCKED, k)
         else if timed \<and> milli = 0 \<and> seconds = 0 \<and> minutes = 0 \<and> hours = 0
           then Some (OS_ERR_TIME_ZERO_DLY, k)
         else if \<not> timed \<and> opt_time \<noteq> OS_OPT_TIME_MATCH then Some (OS_ERR_OPT_INVALID, k)
         else if opt AND NOT OS_OPT_TIME_OPTS_MASK \<noteq> 0 then Some (OS_ERR_OPT_INVALID, k)
         else if hmsm_range hours minutes seconds milli opt \<noteq> OS_ERR_NONE
           then Some (hmsm_range hours minutes seconds milli opt, k)
         else if 0 < ticks then delay_current ticks opt_time k
         else Some (OS_ERR_TIME_ZERO_DLY, k))"

definition OSTimeDlyResume :: "ptr \<Rightarrow> os_kernel \<Rightarrow> (OS_ERR \<times> os_kernel) option" where
  "OSTimeDlyResume p_tcb k =
     (if 0 < OSIntNestingCtr k then Some (OS_ERR_TIME_DLY_RESUME_ISR, k)
      else case p_tcb of
        None \<Rightarrow> Some (OS_ERR_TASK_NOT_DLY, k)
      | Some p \<Rightarrow>
          if p = OSTCBCurPtr k then Some (OS_ERR_TASK_NOT_DLY, k)
          else do {
            (err, k) \<leftarrow>
              (let st = TaskState (tcb k p)
               in if st = OS_TASK_STATE_DLY then
                    map_option (Pair OS_ERR_NONE)
                      (Option.bind (OS_TickListRemove p (upd_tcb p (\<lambda>t. t\<lparr>TaskState := OS_TASK_STATE_RDY\<rparr>) k))
                        (OS_RdyListInsert p))
                  else if st = OS_TASK_STATE_DLY_SUSPENDED then
                    map_option (Pair OS_ERR_TASK_SUSPENDED)
                      (OS_TickListRemove p (upd_tcb p (\<lambda>t. t\<lparr>TaskState := OS_TASK_STATE_SUSPENDED\<rparr>) k))
                  else if st \<le> OS_TASK_STATE_PEND_TIMEOUT_SUSPENDED then Some (OS_ERR_TASK_NOT_DLY, k)
                  else Some (OS_ERR_STATE_INVALID, k));
            map_option (Pair err) (OSSched k) })"

definition OSTimeGet :: "os_kernel \<Rightarrow> u32" where
  "OSTimeGet k = OSTickCtr k"

definition OSTimeSet :: "u32 \<Rightarrow> os_kernel \<Rightarrow> os_kernel" where
  "OSTimeSet ticks k = k\<lparr>OSTickCtr := ticks\<rparr>"

section \<open>The delays of the board (delay.c)\<close>

abbreviation (input) fac_us :: u32 where "fac_us \<equiv> 21"
abbreviation (input) fac_ms :: u16 where "fac_ms \<equiv> 5"

definition delay_schedlock :: "os_kernel \<Rightarrow> os_kernel" where
  "delay_schedlock k = snd (OSSchedLock k)"

definition delay_schedunlock :: "os_kernel \<Rightarrow> os_kernel option" where
  "delay_schedunlock k = map_option snd (OSSchedUnlock k)"

definition delay_ostimedly :: "u32 \<Rightarrow> os_kernel \<Rightarrow> os_kernel option" where
  "delay_ostimedly ticks k = map_option snd (OSTimeDly ticks OS_OPT_TIME_PERIODIC k)"

text \<open>
  The busy wait: \<open>val n\<close> is the \<open>n\<close>-th value read from the down counter \<open>SysTick->VAL\<close>, which is
  reloaded with \<open>reload\<close>.  The loop returns the number of the reading that ends it.
\<close>

partial_function (option) us_loop ::
  "(nat \<Rightarrow> u32) \<Rightarrow> u32 \<Rightarrow> u32 \<Rightarrow> u32 \<Rightarrow> u32 \<Rightarrow> nat \<Rightarrow> nat option" where
  "us_loop val reload ticks told tcnt n =
     (let tnow = val n
      in if tnow \<noteq> told then
           (let tcnt = (if tnow < told then tcnt + (told - tnow) else tcnt + (reload - tnow + told))
            in if ticks \<le> tcnt then Some n else us_loop val reload ticks tnow tcnt (n + 1))
         else us_loop val reload ticks told tcnt (n + 1))"

definition delay_us :: "(nat \<Rightarrow> u32) \<Rightarrow> u32 \<Rightarrow> u32 \<Rightarrow> os_kernel \<Rightarrow> os_kernel option" where
  "delay_us val reload nus k =
     (let ticks = nus * fac_us; k = delay_schedlock k
      in Option.bind (us_loop val reload ticks (val 0) 0 1) (\<lambda>_. delay_schedunlock k))"

text \<open>
  \<open>delay_ms\<close> in two parts, the wait for ticks and the busy wait that follows when the task runs
  again; the first gives the milliseconds that are left.  Before the kernel runs and in interrupts
  the whole time is spent in the busy wait.
\<close>

definition delay_ms_ticks :: "u16 \<Rightarrow> os_kernel \<Rightarrow> (u16 \<times> os_kernel) option" where
  "delay_ms_ticks nms k =
     (if OSRunning k \<and> OSIntNestingCtr k = 0 then
        map_option (Pair (nms mod fac_ms))
          (if fac_ms \<le> nms then delay_ostimedly (ucast (nms div fac_ms)) k else Some k)
      else Some (nms, k))"

definition delay_ms_rest :: "(nat \<Rightarrow> u32) \<Rightarrow> u32 \<Rightarrow> u16 \<Rightarrow> os_kernel \<Rightarrow> os_kernel option" where
  "delay_ms_rest val reload nms k = delay_us val reload (ucast nms * 1000) k"


section \<open>Delayed tasks\<close>

lemma set_match_waits: "set_match p time opt k = Some k1 \<Longrightarrow> dist k1 p \<noteq> 0"
proof -
  have suc: "a + 1 \<noteq> 0" if "a < b" for a b :: u32
    using that by unat_arith
  have top: "\<not> (- 1 :: u32) \<le> OS_TICK_TH_RDY" by code_simp
  assume "set_match p time opt k = Some k1"
  then show ?thesis using top
    unfolding set_match_def Let_def
    by (auto split: if_splits simp: upd_defs dist_def diff_diff_eq not_less
        dest: suc [of "time - (1 + OSTickCtr k)"])
qed

text \<open>The running task is put into the wheel, out of the ready list, and another one runs.\<close>

lemma delay_current_run:
  assumes r: "run A idle k" and p: "OSTCBCurPtr k = p" "p \<noteq> idle"
    and n: "OSIntNestingCtr k = 0" "OSSchedLockNestingCtr k = 0"
    and m: "set_match p time opt (upd_tcb p (\<lambda>t. t\<lparr>TaskState := OS_TASK_STATE_DLY\<rparr>) k) = Some k1"
  shows "\<exists>k'. delay_current time opt k = Some (OS_ERR_NONE, k') \<and> sys A idle k'
    \<and> touches p k k' \<and> msgs k' = msgs k \<and> dist k' p = dist k1 p
    \<and> svc_of (tcb k' p) = svc_of ((tcb k p)\<lparr>TaskState := OS_TASK_STATE_DLY\<rparr>)"
proof -
  define k0 where "k0 = upd_tcb p (\<lambda>t. t\<lparr>TaskState := OS_TASK_STATE_DLY\<rparr>) k"
  have a0: "at A idle p True False k0" unfolding k0_def by (rule at_svc [OF run_cur_at [OF r p] svc_upds(2)])
  have o0: "only p k k0" unfolding k0_def by (rule only_upd [OF svc_upds(2)])
  have m0: "set_match p time opt k0 = Some k1" using m by (simp add: k0_def)
  obtain k2 where k2: "OS_TickListInsert p time opt k0 = Some (OS_ERR_NONE, k2)" "at A idle p True True k2"
    "keeps p k0 k2" "dist k2 p = dist k1 p"
    using at_tick_insert [OF a0 m0 set_match_waits [OF m0]] by blast
  obtain k3 where k3: "OS_RdyListRemove p k2 = Some k3" "at A idle p False True k3" "keeps p k2 k3" "dist k3 p = dist k2 p"
    using at_rdy_remove [OF k2(2)] by blast
  note kp = keeps_trans [OF k2(3) k3(3)]
  have st: "TaskState (tcb k3 p) = OS_TASK_STATE_DLY" by (simp add: keeps_state [OF kp] k0_def tcb_upd)
  have "kin A idle k3" by (rule at_close [OF k3(2)]) (simp_all add: st timed_def)
  from blocked_sched [OF this only_trans [OF o0 keeps_only [OF kp]] n]
  obtain k4 where k4: "OSSched k3 = Some k4" "sys A idle k4" "touches p k k4" "msgs k4 = msgs k"
    "svc_of (tcb k4 p) = svc_of (tcb k3 p)" "dist k4 p = dist k3 p" by blast
  have "svc_of (tcb k3 p) = svc_of ((tcb k p)\<lparr>TaskState := OS_TASK_STATE_DLY\<rparr>)"
    using kp by (simp add: keeps_def k0_def tcb_upd)
  moreover have "delay_current time opt k = Some (OS_ERR_NONE, k4)"
    using k2(1) k3(1) k4(1) p(1) by (simp add: delay_current_def k0_def Let_def)
  ultimately show ?thesis using k4(2-6) k2(4) k3(4) by auto
qed

lemma OSTimeDly_current:
  "sys A idle k \<Longrightarrow> OSTimeDly dly opt k = Some (OS_ERR_NONE, k') \<Longrightarrow>
    delay_current dly opt k = Some (OS_ERR_NONE, k')"
  by (auto simp: OSTimeDly_def sys_def split: if_splits)

lemma delay_current_match:
  "delay_current time opt k = Some (OS_ERR_NONE, k') \<Longrightarrow>
    \<exists>k1. set_match (OSTCBCurPtr k) time opt
      (upd_tcb (OSTCBCurPtr k) (\<lambda>t. t\<lparr>TaskState := OS_TASK_STATE_DLY\<rparr>) k) = Some k1"
  by (cases "set_match (OSTCBCurPtr k) time opt (upd_tcb (OSTCBCurPtr k) (\<lambda>t. t\<lparr>TaskState := OS_TASK_STATE_DLY\<rparr>) k)")
    (auto simp: delay_current_def Let_def OS_TickListInsert_def)

text \<open>\<open>p\<close> is delayed and has to wait for \<open>d\<close> more ticks.\<close>

definition waits :: "nat set \<Rightarrow> nat \<Rightarrow> nat \<Rightarrow> nat \<Rightarrow> os_kernel \<Rightarrow> bool" where
  "waits A idle p d k \<longleftrightarrow> run A idle k \<and> p \<in> A \<and> TaskState (tcb k p) = OS_TASK_STATE_DLY \<and> unat (dist k p) = d"

section \<open>How long a delay takes\<close>

lemma wrapped_less: "0 < t \<Longrightarrow> t - e - 1 < t \<longleftrightarrow> e < t" for t e :: u32
  using unsigned_less [of t, where ?'a = nat] unsigned_less [of e, where ?'a = nat]
  by (simp add: word_less_nat_alt unat_sub_if') arith

text \<open>The remaining time that each option sets.\<close>

lemma set_match_dist:
  assumes "0 < time"
  shows "opt = OS_OPT_TIME_DLY \<or> opt = OS_OPT_TIME_TIMEOUT \<Longrightarrow>
      \<exists>k1. set_match p time opt k = Some k1 \<and> dist k1 p = time"
    and "\<exists>k1. set_match p time OS_OPT_TIME_PERIODIC k = Some k1
      \<and> dist k1 p = (let e = OSTickCtr k - TickCtrPrev (tcb k p) in if e < time then time - e else time)"
proof -
  show "\<exists>k1. set_match p time opt k = Some k1 \<and> dist k1 p = time"
    if "opt = OS_OPT_TIME_DLY \<or> opt = OS_OPT_TIME_TIMEOUT"
    using that assms by (auto simp: set_match_def dist_def upd_defs)
  let ?e = "OSTickCtr k - TickCtrPrev (tcb k p)"
  have e: "TickCtrPrev (tcb k p) + time - OSTickCtr k = time - ?e" by simp
  have iff: "TickCtrPrev (tcb k p) + time - OSTickCtr k - 1 < time \<longleftrightarrow> ?e < time"
    using wrapped_less [OF assms, of ?e] by (simp only: e)
  define m where "m = (if ?e < time then TickCtrPrev (tcb k p) + time else OSTickCtr k + time)"
  have "set_match p time OS_OPT_TIME_PERIODIC k = Some (upd_tcb p
      (\<lambda>t. t\<lparr>TickCtrMatch := m, TickRemain := m - OSTickCtr k, TickCtrPrev := m\<rparr>) k)"
    unfolding set_match_def Let_def iff m_def [symmetric] using assms by simp
  moreover have "m - OSTickCtr k = (if ?e < time then time - ?e else time)" by (simp add: m_def)
  ultimately show "\<exists>k1. set_match p time OS_OPT_TIME_PERIODIC k = Some k1
      \<and> dist k1 p = (let e = ?e in if e < time then time - e else time)"
    by (simp add: dist_def upd_defs Let_def)
qed

lemma OSTimeDly_sys:
  assumes inv: "sys A idle k" and p: "OSTCBCurPtr k = p" "p \<noteq> idle" and t: "0 < dly"
    and opt: "opt = OS_OPT_TIME_DLY \<or> opt = OS_OPT_TIME_PERIODIC"
  shows "\<exists>k'. OSTimeDly dly opt k = Some (OS_ERR_NONE, k') \<and> waits A idle p
    (if opt = OS_OPT_TIME_DLY \<or> dly \<le> OSTickCtr k - TickCtrPrev (tcb k p) then unat dly
     else unat (dly - (OSTickCtr k - TickCtrPrev (tcb k p)))) k'"
proof -
  define k0 where "k0 = upd_tcb p (\<lambda>t. t\<lparr>TaskState := OS_TASK_STATE_DLY\<rparr>) k"
  have k0: "OSTickCtr k0 = OSTickCtr k" "TickCtrPrev (tcb k0 p) = TickCtrPrev (tcb k p)"
    by (simp_all add: k0_def upd_defs)
  have "\<exists>k1. set_match p dly opt k0 = Some k1 \<and> dist k1 p =
      (if opt = OS_OPT_TIME_DLY \<or> dly \<le> OSTickCtr k - TickCtrPrev (tcb k p) then dly
       else dly - (OSTickCtr k - TickCtrPrev (tcb k p)))"
  proof (cases "opt = OS_OPT_TIME_DLY")
    case False
    then have "opt = OS_OPT_TIME_PERIODIC" using opt by simp
    then show ?thesis using set_match_dist(2) [OF t, of p k0]
      by (cases "OSTickCtr k - TickCtrPrev (tcb k p) < dly") (simp_all add: k0 Let_def not_less [symmetric])
  qed (use set_match_dist(1) [OF t, of opt p k0] in simp)
  then obtain k1 where m: "set_match p dly opt k0 = Some k1" and d: "dist k1 p =
      (if opt = OS_OPT_TIME_DLY \<or> dly \<le> OSTickCtr k - TickCtrPrev (tcb k p) then dly
       else dly - (OSTickCtr k - TickCtrPrev (tcb k p)))" by blast
  have r: "run A idle k" "OSIntNestingCtr k = 0" "OSSchedLockNestingCtr k = 0" using inv by (simp_all add: sys_def)
  obtain k' where k': "delay_current dly opt k = Some (OS_ERR_NONE, k')" "sys A idle k'" "dist k' p = dist k1 p"
    and sv: "svc_of (tcb k' p) = svc_of ((tcb k p)\<lparr>TaskState := OS_TASK_STATE_DLY\<rparr>)"
    using delay_current_run [OF r(1) p r(2,3) m [unfolded k0_def]] by blast
  have pA: "p \<in> A" using r(1) p(1) by (simp add: run_def)
  have st: "TaskState (tcb k' p) = OS_TASK_STATE_DLY" using svc_of_eqD(1) [OF sv] by simp
  have "dly \<noteq> 0" using t by (simp add: word_gt_0)
  then have "OSTimeDly dly opt k = Some (OS_ERR_NONE, k')" using k'(1) opt r(2,3) by (auto simp: OSTimeDly_def)
  moreover have "unat (dist k' p) = (if opt = OS_OPT_TIME_DLY \<or> dly \<le> OSTickCtr k - TickCtrPrev (tcb k p)
      then unat dly else unat (dly - (OSTickCtr k - TickCtrPrev (tcb k p))))"
    unfolding k'(3) d by (rule if_distrib)
  ultimately show ?thesis using k'(2) st pA unfolding waits_def sys_def by blast
qed

lemma waits_not_ready:
  "waits A idle p d k \<Longrightarrow> TaskState (tcb k p) = OS_TASK_STATE_DLY
    \<and> (\<exists>Q. rdy_inv k Q \<and> p \<notin> set (Q (prio_ix k p)))"
proof -
  assume w: "waits A idle p d k"
  then obtain Q W where inv: "kinv A idle k Q W" unfolding waits_def run_def kin_def by blast
  have "\<not> in_ready Q p" using w kinv_ready [OF inv, of p] by (simp add: waits_def)
  moreover have "prio_ix k p < 32" using w kinv_prio [OF inv] by (simp add: waits_def)
  ultimately have "p \<notin> set (Q (prio_ix k p))" using in_readyI by blast
  then show ?thesis using w inv_exceptD(2) [OF inv] unfolding waits_def by blast
qed

text \<open>A delay that is not possible leaves the state of the task changed, though the task stays ready.\<close>

lemma OSTimeDly_failed_state:
  assumes "OSIntNestingCtr k = 0" and "OSSchedLockNestingCtr k = 0" and "dly = OSTickCtr k"
  shows "\<exists>k'. OSTimeDly dly OS_OPT_TIME_MATCH k = Some (OS_ERR_TIME_ZERO_DLY, k')
    \<and> TaskState (tcb k' (OSTCBCurPtr k)) = OS_TASK_STATE_DLY \<and> OSRdyList k' = OSRdyList k"
proof -
  have "OS_TICK_TH_RDY < (- 1 :: u32)" by code_simp
  then show ?thesis using assms
    by (simp add: OSTimeDly_def delay_current_def OS_TickListInsert_def set_match_def Let_def upd_defs)
qed

lemma sys_inv_tick:
  assumes "sys_inv A idle k Q (\<lambda>_. [])"
  shows "sys_inv A idle (k\<lparr>OSTickCtr := c\<rparr>) Q (\<lambda>_. [])"
proof -
  have r: "rdy_inv (k\<lparr>OSTickCtr := c\<rparr>) Q"
    by (rule rdy_inv_tcb [OF inv_exceptD(2) [OF sys_invD(1) [OF assms]]]) simp_all
  moreover have "cur_ok (k\<lparr>OSTickCtr := c\<rparr>)"
    using inv_exceptD(1) [OF sys_invD(1) [OF assms]] by (simp add: cur_ok_def)
  moreover have "wheel_inv (k\<lparr>OSTickCtr := c\<rparr>) (\<lambda>_. [])"
    using inv_exceptD(3) [OF sys_invD(1) [OF assms]] by (simp add: wheel_inv_def spoke_ok_def)
  moreover have "state_ok A (k\<lparr>OSTickCtr := c\<rparr>) Q (\<lambda>_. []) x" for x
    using sys_invD(5) [OF assms, of x] by (simp add: state_ok_def prio_ix_def)
  ultimately show ?thesis using assms by (simp add: sys_inv_def run_inv_def inv_except_def in_wheel_def)
qed

text \<open>The ticks of a time in hours, minutes, seconds and milliseconds.\<close>

lemma hmsm_ticks_nat:
  assumes "h \<le> 99" and "m \<le> 59" and "s \<le> 59" and "ms \<le> 999"
    and t: "t = ((unat h * 60 + unat m) * 60 + unat s) * 1000 + unat ms"
  shows "unat (hmsm_ticks h m s ms) = (t + 2) div 5"
proof -
  define H M S L where "H = unat h" and "M = unat m" and "S = unat s" and "L = unat ms"
  have b: "H \<le> 99" "M \<le> 59" "S \<le> 59" "L \<le> 999"
    using assms(1-4) by (simp_all add: word_le_nat_alt H_def M_def S_def L_def)
  have w: "unat (of_nat n :: u32) = n" if "n < 2 ^ 32" for n
    using that by (simp add: unat_of_nat take_bit_nat_eq_self)
  have u: "(ucast h :: u32) = of_nat H" "(ucast m :: u32) = of_nat M" "(ucast s :: u32) = of_nat S" "ms = of_nat L"
    by (simp_all add: H_def M_def S_def L_def word_unat_eq_iff w unsigned_less less_trans [OF unsigned_less])
  have e: "(200 :: u32) * (ms + 500 div 200) = of_nat (200 * (L + 2))" by (simp add: u)
  have "unat (of_nat (200 * (L + 2)) :: u32) = 200 * (L + 2)" by (rule w) (use b in simp)
  moreover have "unat (of_nat ((L + 2) div 5) :: u32) = (L + 2) div 5" by (rule w) (use b in simp)
  ultimately have d: "(200 * (ms + 500 div 200)) div 1000 = of_nat ((L + 2) div 5)"
    unfolding e by (simp only: word_unat_eq_iff unat_div) simp
  have "hmsm_ticks h m s ms = of_nat ((H * 3600 + M * 60 + S) * 200 + (L + 2) div 5)"
    unfolding hmsm_ticks_def d by (simp add: u)
  then have "unat (hmsm_ticks h m s ms) = (H * 3600 + M * 60 + S) * 200 + (L + 2) div 5"
    using w [of "(H * 3600 + M * 60 + S) * 200 + (L + 2) div 5"] b by simp
  also have "\<dots> = (t + 2) div 5" unfolding t by (simp add: H_def M_def S_def L_def)
  finally show ?thesis .
qed

section \<open>The busy wait\<close>













section \<open>A kernel that runs one task\<close>

text \<open>The idle task and a second task at priority 5 are ready; the second one runs.\<close>

lemma boot_wheel: "wheel_inv (boot_kernel prios m) (\<lambda>_. [])"
  by (simp add: wheel_inv_def spoke_ok_def boot_kernel_def OS_RdyListInit_def OS_PrioInit_def)

lemma two_tasks_run:
  obtains k0 k1 k Q where "OS_RdyListInsert 0 (boot_kernel two_prios m) = Some k0"
    "OS_RdyListInsert 1 k0 = Some k1" "OSSched k1 = Some k" "sys_inv {0, 1} 0 k Q (\<lambda>_. [])" "OSTCBCurPtr k = 1"
    "OSRunning k" "TickCtrPrev (tcb k 1) = 0" "msgs k = m" "roles k = (0, 1, 1)"
proof -
  obtain k0 where k0: "OS_RdyListInsert 0 (boot_kernel two_prios m) = Some k0"
    "kernel_ok k0 ((\<lambda>_. [])(unat (two_prios 0) := [0]))"
    "rdy_frame (unat (two_prios 0)) (boot_kernel two_prios m) k0"
    by (rule idle_ready [of two_prios m]) simp
  have ok0: "kernel_ok k0 ((\<lambda>_. [])(31 := [0]))" using k0(2) by simp
  note f0 = rdy_frame_simps [OF k0(3)] rdy_frame_tcb [OF k0(3)] rdy_frame_Prio [OF k0(3)]
  have inv0: "rdy_inv k0 ((\<lambda>_. [])(31 := [0]))" and "unat (Prio (tcb k0 1)) = 5"
    using ok0 by (simp_all add: kernel_ok_def f0)
  moreover have "rdy_put k0 1 [] = [1]" by (simp add: rdy_put_def)
  ultimately obtain k1 where k1: "OS_RdyListInsert 1 k0 = Some k1" "rdy_frame 5 k0 k1"
    "rdy_inv k1 ((\<lambda>_. [])(31 := [0], 5 := [1]))"
    using Insert_refines [OF inv0, of 1 5] by auto
  note f1 = rdy_frame_simps [OF k1(2)] rdy_frame_tcb [OF k1(2)] rdy_frame_Prio [OF k1(2)]
  let ?Q = "(\<lambda>_. [])(31 := [0 :: nat], 5 := [1])"
  have ok1: "kernel_ok k1 ?Q" by (rule kernel_ok_frame [OF ok0 k1(3,2)])
  have w1: "wheel_inv k1 (\<lambda>_. [])"
    by (rule rdy_frame_wheel [OF k1(2) rdy_frame_wheel [OF k0(3) boot_wheel]])
  have "TaskState (tcb k1 x) = 0" "prio_ix k1 x = unat (two_prios x)" for x
    by (simp_all add: f1 f0 prio_ix_def) (simp add: boot_kernel_def OS_RdyListInit_def OS_PrioInit_def)
  moreover have "in_ready ?Q x \<longleftrightarrow> x \<in> {0, 1}" for x
    by (auto simp: in_ready_def intro: exI [of _ 31] exI [of _ 5])
  ultimately have "state_ok {0, 1} k1 ?Q (\<lambda>_. []) x" for x
    by (simp add: state_ok_def in_wheel_def timed_def)
  then have kv: "kinv {0, 1} 0 k1 ?Q (\<lambda>_. [])" using ok1 w1 by (simp add: inv_except_def in_wheel_def kernel_ok_def)
  obtain k where k: "OSSched k1 = Some k" "sys_inv {0, 1} 0 k ?Q (\<lambda>_. [])"
    using sched_sys [OF kv] ok1 by (auto simp: kernel_ok_def)
  have "top_prio ?Q = Some 5" by (auto simp: top_prio_Some)
  then have "next_task ?Q = Some 1" by (simp add: next_task_def)
  then have sk: "OSTCBCurPtr k = 1" "sched_frame k1 k"
    using OSSched_runs [of k1 ?Q 1] ok1 k(1) by (auto simp: kernel_ok_def)
  note f = sched_frame_simps [OF sk(2)] sched_frame_tcb [OF sk(2)]
  have "TickCtrPrev (tcb (boot_kernel two_prios m) 1) = 0"
    by (simp add: boot_kernel_def OS_RdyListInit_def OS_PrioInit_def)
  then have "OSRunning k" "TickCtrPrev (tcb k 1) = 0" by (simp_all add: f f1 f0)
  moreover have "msgs (boot_kernel two_prios m) = m" "roles (boot_kernel two_prios m) = (0, 1, 1)"
    by (simp_all add: boot_kernel_def OS_RdyListInit_def OS_PrioInit_def roles_def)
  then have "msgs k = m" "roles k = (0, 1, 1)"
    using roles_sched [OF sk(2)] roles_rdy [OF k1(2)] roles_rdy [OF k0(3)] by (simp_all add: f f1 f0)
  ultimately show thesis using k0(1) k1(1) k sk(1) by (intro that)
qed


section \<open>Properties\<close>

text \<open>C38: The delay of the drivers counts from the end of the previous one: \<open>delay_ms\<close> waits for
  ticks with the periodic option, so when \<open>e\<close> ticks have passed since the last periodic delay of the
  task ended, and \<open>e\<close> is less than the time asked for, the task sleeps \<open>e\<close> ticks less.\<close>

theorem delay_ms_shortened:
  assumes "sys A idle k" and "OSTCBCurPtr k = p" and "p \<noteq> idle" and "OSRunning k" and "5 \<le> nms"
    and "e = OSTickCtr k - TickCtrPrev (tcb k p)"
  shows "\<exists>k1. delay_ms_ticks nms k = Some (nms mod 5, k1) \<and> TaskState (tcb k1 p) = OS_TASK_STATE_DLY
    \<and> dist k1 p = (if e < ucast (nms div 5) then ucast (nms div 5) - e else ucast (nms div 5))"
proof -
  let ?t = "ucast (nms div 5) :: u32"
  have "0 < unat (nms div 5)" using assms(5) by (simp add: unat_div word_le_nat_alt div_greater_zero_iff)
  moreover have "unat ?t = unat (nms div 5)" by (rule unat_ucast_16_32)
  ultimately have "?t \<noteq> 0" by (metis less_irrefl unsigned_0)
  then have t: "0 < ?t" by (simp add: word_gt_0)
  have n: "OSIntNestingCtr k = 0" using assms(1) by (simp add: sys_def)
  obtain k1 where k1: "OSTimeDly ?t OS_OPT_TIME_PERIODIC k = Some (OS_ERR_NONE, k1)"
    and w: "waits A idle p (if ?t \<le> e then unat ?t else unat (?t - e)) k1"
    using OSTimeDly_sys [OF assms(1-3) t, of 8] unfolding assms(6) by auto
  have "delay_ms_ticks nms k = Some (nms mod 5, k1)"
    using n assms(4,5) k1 by (simp add: delay_ms_ticks_def delay_ostimedly_def)
  moreover have "dist k1 p = (if e < ?t then ?t - e else ?t)"
    using w by (simp add: waits_def word_unat_eq_iff not_less [symmetric] split: if_splits)
  ultimately show ?thesis using w by (simp add: waits_def)
qed

theorem delay_ms_shortened_witness:
  "\<exists>k k1. OSTCBCurPtr k = 1 \<and> delay_ms_ticks 20 k = Some (0, k1) \<and> dist k1 1 = 1"
proof -
  obtain k Q where k: "sys_inv {0, 1} 0 k Q (\<lambda>_. [])" "OSTCBCurPtr k = 1" "TickCtrPrev (tcb k 1) = 0" "OSRunning k"
    by (rule two_tasks_run [of "blank_msgs []"]) blast
  let ?k = "k\<lparr>OSTickCtr := 3\<rparr>"
  have "sys {0, 1} 0 ?k" unfolding sys_iff using sys_inv_tick [OF k(1)] by blast
  then obtain k1 where k1: "delay_ms_ticks 20 ?k = Some (20 mod 5, k1)" "dist k1 1 =
      (if (3 :: u32) < ucast (20 div 5 :: u16) then ucast (20 div 5 :: u16) - 3 else ucast (20 div 5 :: u16))"
    using delay_ms_shortened [of "{0, 1}" 0 ?k 1 20 3] k by auto
  moreover have "(20 :: u16) mod 5 = 0" "(3 :: u32) < ucast (20 div 5 :: u16)" "ucast (20 div 5 :: u16) - 3 = (1 :: u32)"
    by code_simp+
  ultimately show ?thesis using k(2) by (intro exI [of _ ?k] exI [of _ k1]) simp
qed

text \<open>C39: \<open>OSTimeDlyHMSM\<close> with strict ranges rounds the time to the nearest tick of 5 ms, halves up,
  without overflow; 1 or 2 ms are refused as a delay of zero.\<close>

theorem OSTimeDlyHMSM_rounds:
  assumes "sys A idle k" and "OSTCBCurPtr k = p" and "p \<noteq> idle"
    and "h \<le> 99" and "m \<le> 59" and "s \<le> 59" and "ms \<le> 999"
    and "t = ((unat h * 60 + unat m) * 60 + unat s) * 1000 + unat ms"
  shows "if t \<le> 2 then OSTimeDlyHMSM h m s ms OS_OPT_TIME_DLY k = Some (OS_ERR_TIME_ZERO_DLY, k)
    else \<exists>k1. OSTimeDlyHMSM h m s ms OS_OPT_TIME_DLY k = Some (OS_ERR_NONE, k1) \<and> waits A idle p ((t + 2) div 5) k1"
proof -
  have tk: "unat (hmsm_ticks h m s ms) = (t + 2) div 5" by (rule hmsm_ticks_nat [OF assms(4-8)])
  have n: "OSIntNestingCtr k = 0" "OSSchedLockNestingCtr k = 0" using assms(1) by (simp_all add: sys_def)
  have r: "hmsm_range h m s ms 0 = OS_ERR_NONE" using assms(4-7) by (simp add: hmsm_range_def not_less)
  show ?thesis
  proof (cases "t \<le> 2")
    case True
    then have "hmsm_ticks h m s ms = 0" using tk by (simp add: word_unat_eq_iff)
    then show ?thesis using True n r by (simp add: OSTimeDlyHMSM_def Let_def)
  next
    case False
    then have pos: "0 < hmsm_ticks h m s ms" using tk by (simp add: word_less_nat_alt div_greater_zero_iff)
    have nz: "\<not> (ms = 0 \<and> s = 0 \<and> m = 0 \<and> h = 0)" using False assms(8) by auto
    obtain k1 where k1: "OSTimeDly (hmsm_ticks h m s ms) 0 k = Some (OS_ERR_NONE, k1)"
      "waits A idle p ((t + 2) div 5) k1"
      using OSTimeDly_sys [OF assms(1-3) pos, of 0] tk by auto
    have "delay_current (hmsm_ticks h m s ms) 0 k = Some (OS_ERR_NONE, k1)"
      by (rule OSTimeDly_current [OF assms(1) k1(1)])
    then show ?thesis using False n r nz pos k1(2) by (auto simp: OSTimeDlyHMSM_def Let_def)
  qed
qed

theorem OSTimeDlyHMSM_rounds_witness:
  "\<exists>k k1. OSTCBCurPtr k = 1 \<and> OSTimeDlyHMSM 0 0 0 50 OS_OPT_TIME_DLY k = Some (OS_ERR_NONE, k1)
    \<and> waits {0, 1} 0 1 10 k1"
proof -
  obtain k Q where k: "sys_inv {0, 1} 0 k Q (\<lambda>_. [])" "OSTCBCurPtr k = 1" by (rule two_tasks_run [of "blank_msgs []"]) blast
  have "sys {0, 1} 0 k" "(1 :: nat) \<noteq> 0" using k(1) by (auto simp: sys_iff)
  from OSTimeDlyHMSM_rounds [OF this(1) k(2) this(2), of 0 0 0 50 50] k(2) show ?thesis by auto
qed




end
