(* ===== verification/Os_Task.thy ===== *)
theory Os_Task
  imports Os_Time
begin

text \<open>
  The services of a task's own message queue and semaphore, and suspension (os_task.c), with the
  blocking and readying of tasks below them (os_core.c).  A service that blocks is in two parts: the
  first ends with the scheduling of another task, the second runs when its caller runs again.  The
  time stamp of a call is the parameter \<open>ts\<close>.  No task waits for several objects
  (OS_CFG_PEND_MULTI_EN is 0), so \<open>PendOn\<close> is never OS_TASK_PEND_ON_MULTI.
\<close>

abbreviation (input) OS_TASK_PEND_ON_TASK_SEM :: u8 where "OS_TASK_PEND_ON_TASK_SEM \<equiv> 7"
abbreviation (input) OS_OPT_PEND_BLOCKING :: u16 where "OS_OPT_PEND_BLOCKING \<equiv> 0"
abbreviation (input) OS_OPT_PEND_NON_BLOCKING :: u16 where "OS_OPT_PEND_NON_BLOCKING \<equiv> 0x8000"
abbreviation (input) OS_OPT_POST_NONE :: u16 where "OS_OPT_POST_NONE \<equiv> 0"

section \<open>Blocking and readying (os_core.c)\<close>

definition OS_TaskBlock :: "nat \<Rightarrow> u32 \<Rightarrow> os_kernel \<Rightarrow> os_kernel option" where
  "OS_TaskBlock p timeout k =
     do { k \<leftarrow> (if 0 < timeout then
                 do { (err, k) \<leftarrow> OS_TickListInsert p timeout OS_OPT_TIME_TIMEOUT k;
                      Some (upd_tcb p (\<lambda>t. t\<lparr>TaskState := if err = OS_ERR_NONE
                        then OS_TASK_STATE_PEND_TIMEOUT else OS_TASK_STATE_PEND\<rparr>) k) }
               else Some (upd_tcb p (\<lambda>t. t\<lparr>TaskState := OS_TASK_STATE_PEND\<rparr>) k));
          OS_RdyListRemove p k }"

text \<open>\<open>OS_Pend\<close> without an object: what a task waits for is its own.\<close>

definition OS_Pend :: "u8 \<Rightarrow> u32 \<Rightarrow> os_kernel \<Rightarrow> os_kernel option" where
  "OS_Pend pending_on timeout k =
     (let p = OSTCBCurPtr k
      in OS_TaskBlock p timeout
           (upd_tcb p (\<lambda>t. t\<lparr>PendOn := pending_on, PendStatus := OS_STATUS_PEND_OK\<rparr>) k))"

text \<open>What \<open>OS_Post\<close> and \<open>OS_PendAbort\<close> have in common: the task is given a message and a status.\<close>

definition end_pend :: "nat \<Rightarrow> nat \<Rightarrow> u16 \<Rightarrow> u32 \<Rightarrow> u8 \<Rightarrow> os_kernel \<Rightarrow> os_kernel option" where
  "end_pend p p_void msg_size ts status k =
     (let st = TaskState (tcb k p);
          given = upd_tcb p (\<lambda>t. t\<lparr>TcbMsgPtr := p_void, TcbMsgSize := msg_size, TS := ts\<rparr>) k;
          ended = (\<lambda>st. upd_tcb p (\<lambda>t. t\<lparr>TaskState := st, PendStatus := status,
                                       PendOn := OS_TASK_PEND_ON_NOTHING\<rparr>))
      in if st = OS_TASK_STATE_PEND \<or> st = OS_TASK_STATE_PEND_TIMEOUT then
           map_option (ended OS_TASK_STATE_RDY) (OS_TaskRdy p given)
         else if st = OS_TASK_STATE_PEND_SUSPENDED \<or> st = OS_TASK_STATE_PEND_TIMEOUT_SUSPENDED then
           map_option (ended OS_TASK_STATE_SUSPENDED) (OS_TickListRemove p given)
         else Some k)"

definition OS_Post :: "nat \<Rightarrow> nat \<Rightarrow> u16 \<Rightarrow> u32 \<Rightarrow> os_kernel \<Rightarrow> os_kernel option" where
  "OS_Post p p_void msg_size ts k = end_pend p p_void msg_size ts OS_STATUS_PEND_OK k"

definition OS_PendAbort :: "nat \<Rightarrow> u32 \<Rightarrow> os_kernel \<Rightarrow> os_kernel option" where
  "OS_PendAbort p ts k = end_pend p 0 0 ts OS_STATUS_PEND_ABORT k"

definition sched_unless :: "u16 \<Rightarrow> os_kernel \<Rightarrow> os_kernel option" where
  "sched_unless opt k = (if opt AND OS_OPT_POST_NO_SCHED = 0 then OSSched k else Some k)"

section \<open>The message queue of a task\<close>

text \<open>A null pointer stands for the running task.\<close>

definition target :: "ptr \<Rightarrow> os_kernel \<Rightarrow> nat" where
  "target p_tcb k = (case p_tcb of None \<Rightarrow> OSTCBCurPtr k | Some p \<Rightarrow> p)"

definition OSTaskQFlush :: "ptr \<Rightarrow> os_kernel \<Rightarrow> (OS_ERR \<times> nat \<times> os_kernel) option" where
  "OSTaskQFlush p_tcb k =
     (if 0 < OSIntNestingCtr k then Some (OS_ERR_FLUSH_ISR, 0, k)
      else map_option (\<lambda>(entries, m). (OS_ERR_NONE, entries, k\<lparr>msgs := m\<rparr>))
             (OS_MsgQFreeAll (target p_tcb k) (msgs k)))"

text \<open>
  What a pend does at once: it returns an error and a message (pointer, size, time stamp, where the
  last two are \<^const>\<open>None\<close> when the variables of the caller are not written), or blocks the caller.
\<close>

datatype pend_result = Returned OS_ERR nat "(u16 \<times> u32) option" | Blocked

definition OSTaskQPend :: "bool \<Rightarrow> u32 \<Rightarrow> u16 \<Rightarrow> os_kernel \<Rightarrow> (pend_result \<times> os_kernel) option" where
  "OSTaskQPend size_null timeout opt k =
     (if 0 < OSIntNestingCtr k then Some (Returned OS_ERR_PEND_ISR 0 None, k)
      else if size_null then Some (Returned OS_ERR_PTR_INVALID 0 None, k)
      else if opt \<noteq> OS_OPT_PEND_BLOCKING \<and> opt \<noteq> OS_OPT_PEND_NON_BLOCKING
        then Some (Returned OS_ERR_OPT_INVALID 0 None, k)
      else do {
        (err, (p_void, size, ts), m) \<leftarrow> OS_MsgQGet (OSTCBCurPtr k) (msgs k);
        let k = k\<lparr>msgs := m\<rparr>;
        if err = OS_ERR_NONE then Some (Returned OS_ERR_NONE p_void (Some (size, ts)), k)
        else if opt AND OS_OPT_PEND_NON_BLOCKING \<noteq> 0
          then Some (Returned OS_ERR_PEND_WOULD_BLOCK 0 (Some (0, 0)), k)
        else if 0 < OSSchedLockNestingCtr k then Some (Returned OS_ERR_SCHED_LOCKED 0 (Some (0, 0)), k)
        else do { k \<leftarrow> OS_Pend OS_TASK_PEND_ON_TASK_Q timeout k;
                  map_option (Pair Blocked) (OSSched k) } })"

text \<open>The second part: the caller is the running task again.\<close>

definition OSTaskQPend_resume :: "os_kernel \<Rightarrow> pend_result" where
  "OSTaskQPend_resume k =
     (let t = tcb k (OSTCBCurPtr k)
      in if PendStatus t = OS_STATUS_PEND_OK then Returned OS_ERR_NONE (TcbMsgPtr t) (Some (TcbMsgSize t, TS t))
         else if PendStatus t = OS_STATUS_PEND_ABORT then Returned OS_ERR_PEND_ABORT 0 (Some (0, 0))
         else Returned OS_ERR_TIMEOUT 0 (Some (0, TS t)))"

definition pend_abort :: "u8 \<Rightarrow> ptr \<Rightarrow> u16 \<Rightarrow> u32 \<Rightarrow> os_kernel \<Rightarrow> (OS_ERR \<times> bool \<times> os_kernel) option" where
  "pend_abort on p_tcb opt ts k =
     (if 0 < OSIntNestingCtr k then Some (OS_ERR_PEND_ABORT_ISR, False, k)
      else if opt \<noteq> OS_OPT_POST_NONE \<and> opt \<noteq> OS_OPT_POST_NO_SCHED then Some (OS_ERR_OPT_INVALID, False, k)
      else case p_tcb of
        None \<Rightarrow> Some (OS_ERR_PEND_ABORT_SELF, False, k)
      | Some p \<Rightarrow>
          if p = OSTCBCurPtr k then Some (OS_ERR_PEND_ABORT_SELF, False, k)
          else if PendOn (tcb k p) \<noteq> on then Some (OS_ERR_PEND_ABORT_NONE, False, k)
          else do { k \<leftarrow> OS_PendAbort p ts k;
                    k \<leftarrow> sched_unless opt k;
                    Some (OS_ERR_NONE, True, k) })"

definition OSTaskQPendAbort :: "ptr \<Rightarrow> u16 \<Rightarrow> u32 \<Rightarrow> os_kernel \<Rightarrow> (OS_ERR \<times> bool \<times> os_kernel) option" where
  "OSTaskQPendAbort = pend_abort OS_TASK_PEND_ON_TASK_Q"

definition queue_msg :: "nat \<Rightarrow> message \<Rightarrow> u16 \<Rightarrow> os_kernel \<Rightarrow> (OS_ERR \<times> os_kernel) option" where
  "queue_msg p m opt k = map_option (\<lambda>(err, ms). (err, k\<lparr>msgs := ms\<rparr>)) (OS_MsgQPut p m opt (msgs k))"

definition OS_TaskQPost :: "ptr \<Rightarrow> nat \<Rightarrow> u16 \<Rightarrow> u16 \<Rightarrow> u32 \<Rightarrow> os_kernel \<Rightarrow> (OS_ERR \<times> os_kernel) option" where
  "OS_TaskQPost p_tcb p_void msg_size opt ts k =
     (let p = target p_tcb k; st = TaskState (tcb k p)
      in if st \<in> {OS_TASK_STATE_RDY, OS_TASK_STATE_DLY, OS_TASK_STATE_SUSPENDED, OS_TASK_STATE_DLY_SUSPENDED}
           then queue_msg p (p_void, msg_size, ts) opt k
         else if st \<in> {OS_TASK_STATE_PEND, OS_TASK_STATE_PEND_TIMEOUT, OS_TASK_STATE_PEND_SUSPENDED,
                       OS_TASK_STATE_PEND_TIMEOUT_SUSPENDED} then
           (if PendOn (tcb k p) = OS_TASK_PEND_ON_TASK_Q then
              do { k \<leftarrow> OS_Post p p_void msg_size ts k;
                   map_option (Pair OS_ERR_NONE) (sched_unless opt k) }
            else queue_msg p (p_void, msg_size, ts) opt k)
         else Some (OS_ERR_STATE_INVALID, k))"

definition OSTaskQPost :: "ptr \<Rightarrow> nat \<Rightarrow> u16 \<Rightarrow> u16 \<Rightarrow> u32 \<Rightarrow> os_kernel \<Rightarrow> (OS_ERR \<times> os_kernel) option" where
  "OSTaskQPost p_tcb p_void msg_size opt ts k =
     (if opt \<notin> {OS_OPT_POST_FIFO, OS_OPT_POST_LIFO, OS_OPT_POST_FIFO OR OS_OPT_POST_NO_SCHED,
                OS_OPT_POST_LIFO OR OS_OPT_POST_NO_SCHED} then Some (OS_ERR_OPT_INVALID, k)
      else OS_TaskQPost p_tcb p_void msg_size opt ts k)"

section \<open>The semaphore of a task\<close>

text \<open>A pend on the semaphore returns the count and the time stamp.\<close>

definition OSTaskSemPend :: "u32 \<Rightarrow> u16 \<Rightarrow> os_kernel \<Rightarrow> (pend_result \<times> u32 \<times> os_kernel) option" where
  "OSTaskSemPend timeout opt k =
     (let p = OSTCBCurPtr k
      in if 0 < OSIntNestingCtr k then Some (Returned OS_ERR_PEND_ISR 0 None, 0, k)
         else if opt \<noteq> OS_OPT_PEND_BLOCKING \<and> opt \<noteq> OS_OPT_PEND_NON_BLOCKING
           then Some (Returned OS_ERR_OPT_INVALID 0 None, 0, k)
         else if 0 < SemCtr (tcb k p) then
           (let k = upd_tcb p (\<lambda>t. t\<lparr>SemCtr := SemCtr t - 1\<rparr>) k
            in Some (Returned OS_ERR_NONE 0 (Some (0, TS (tcb k p))), SemCtr (tcb k p), k))
         else if opt AND OS_OPT_PEND_NON_BLOCKING \<noteq> 0
           then Some (Returned OS_ERR_PEND_WOULD_BLOCK 0 (Some (0, 0)), 0, k)
         else if 0 < OSSchedLockNestingCtr k then Some (Returned OS_ERR_SCHED_LOCKED 0 (Some (0, 0)), 0, k)
         else do { k \<leftarrow> OS_Pend OS_TASK_PEND_ON_TASK_SEM timeout k;
                   k \<leftarrow> OSSched k;
                   Some (Blocked, 0, k) })"

definition OSTaskSemPend_resume :: "os_kernel \<Rightarrow> pend_result \<times> u32" where
  "OSTaskSemPend_resume k =
     (let t = tcb k (OSTCBCurPtr k)
      in (if PendStatus t = OS_STATUS_PEND_OK then Returned OS_ERR_NONE 0 (Some (0, TS t))
          else if PendStatus t = OS_STATUS_PEND_ABORT then Returned OS_ERR_PEND_ABORT 0 (Some (0, TS t))
          else if PendStatus t = OS_STATUS_PEND_TIMEOUT then Returned OS_ERR_TIMEOUT 0 (Some (0, 0))
          else Returned OS_ERR_STATUS_INVALID 0 None, SemCtr t))"

definition OSTaskSemPendAbort :: "ptr \<Rightarrow> u16 \<Rightarrow> u32 \<Rightarrow> os_kernel \<Rightarrow> (OS_ERR \<times> bool \<times> os_kernel) option" where
  "OSTaskSemPendAbort = pend_abort OS_TASK_PEND_ON_TASK_SEM"

definition count_signal :: "nat \<Rightarrow> os_kernel \<Rightarrow> OS_ERR \<times> u32 \<times> os_kernel" where
  "count_signal p k =
     (if SemCtr (tcb k p) = 0xFFFFFFFF then (OS_ERR_SEM_OVF, 0, k)
      else let k = upd_tcb p (\<lambda>t. t\<lparr>SemCtr := SemCtr t + 1\<rparr>) k in (OS_ERR_NONE, SemCtr (tcb k p), k))"

definition OS_TaskSemPost :: "ptr \<Rightarrow> u16 \<Rightarrow> u32 \<Rightarrow> os_kernel \<Rightarrow> (OS_ERR \<times> u32 \<times> os_kernel) option" where
  "OS_TaskSemPost p_tcb opt ts k =
     (let p = target p_tcb k;
          k = upd_tcb p (\<lambda>t. t\<lparr>TS := ts\<rparr>) k;
          st = TaskState (tcb k p)
      in if st \<in> {OS_TASK_STATE_RDY, OS_TASK_STATE_DLY, OS_TASK_STATE_SUSPENDED, OS_TASK_STATE_DLY_SUSPENDED}
           then Some (count_signal p k)
         else if st \<in> {OS_TASK_STATE_PEND, OS_TASK_STATE_PEND_TIMEOUT, OS_TASK_STATE_PEND_SUSPENDED,
                       OS_TASK_STATE_PEND_TIMEOUT_SUSPENDED} then
           (if PendOn (tcb k p) = OS_TASK_PEND_ON_TASK_SEM then
              do { k \<leftarrow> OS_Post p 0 0 ts k;
                   let ctr = SemCtr (tcb k p);
                   k \<leftarrow> sched_unless opt k;
                   Some (OS_ERR_NONE, ctr, k) }
            else Some (count_signal p k))
         else Some (OS_ERR_STATE_INVALID, 0, k))"

definition OSTaskSemPost :: "ptr \<Rightarrow> u16 \<Rightarrow> u32 \<Rightarrow> os_kernel \<Rightarrow> (OS_ERR \<times> u32 \<times> os_kernel) option" where
  "OSTaskSemPost p_tcb opt ts k =
     (if opt \<noteq> OS_OPT_POST_NONE \<and> opt \<noteq> OS_OPT_POST_NO_SCHED then Some (OS_ERR_OPT_INVALID, 0, k)
      else OS_TaskSemPost p_tcb opt ts k)"

definition OSTaskSemSet :: "ptr \<Rightarrow> u32 \<Rightarrow> os_kernel \<Rightarrow> OS_ERR \<times> u32 \<times> os_kernel" where
  "OSTaskSemSet p_tcb cnt k =
     (if 0 < OSIntNestingCtr k then (OS_ERR_SET_ISR, 0, k)
      else let p = target p_tcb k
           in (OS_ERR_NONE, SemCtr (tcb k p), upd_tcb p (\<lambda>t. t\<lparr>SemCtr := cnt\<rparr>) k))"

section \<open>Suspension\<close>

definition OS_TaskSuspend :: "ptr \<Rightarrow> os_kernel \<Rightarrow> (OS_ERR \<times> os_kernel) option" where
  "OS_TaskSuspend p_tcb k =
     (let p = target p_tcb k; st = TaskState (tcb k p);
          first = (\<lambda>st. upd_tcb p (\<lambda>t. t\<lparr>TaskState := st, SuspendCtr := 1\<rparr>) k);
          sched = (\<lambda>k. map_option (Pair OS_ERR_NONE) (OSSched k))
      in if p = OSTCBCurPtr k \<and> 0 < OSSchedLockNestingCtr k then Some (OS_ERR_SCHED_LOCKED, k)
         else if st = OS_TASK_STATE_RDY then
           Option.bind (OS_RdyListRemove p (first OS_TASK_STATE_SUSPENDED)) sched
         else if st = OS_TASK_STATE_DLY then sched (first OS_TASK_STATE_DLY_SUSPENDED)
         else if st = OS_TASK_STATE_PEND then sched (first OS_TASK_STATE_PEND_SUSPENDED)
         else if st = OS_TASK_STATE_PEND_TIMEOUT then sched (first OS_TASK_STATE_PEND_TIMEOUT_SUSPENDED)
         else if st \<le> OS_TASK_STATE_PEND_TIMEOUT_SUSPENDED then
           sched (upd_tcb p (\<lambda>t. t\<lparr>SuspendCtr := SuspendCtr t + 1\<rparr>) k)
         else Some (OS_ERR_STATE_INVALID, k))"

definition OSTaskSuspend :: "ptr \<Rightarrow> os_kernel \<Rightarrow> (OS_ERR \<times> os_kernel) option" where
  "OSTaskSuspend p_tcb k =
     (if 0 < OSIntNestingCtr k then Some (OS_ERR_TASK_SUSPEND_ISR, k)
      else if p_tcb = Some (OSIdleTaskTCB k) then Some (OS_ERR_TASK_SUSPEND_IDLE, k)
      else OS_TaskSuspend p_tcb k)"

definition OS_TaskResume :: "nat \<Rightarrow> os_kernel \<Rightarrow> (OS_ERR \<times> os_kernel) option" where
  "OS_TaskResume p k =
     (let st = TaskState (tcb k p);
          k' = upd_tcb p (\<lambda>t. t\<lparr>SuspendCtr := SuspendCtr t - 1\<rparr>) k;
          last = (SuspendCtr (tcb k' p) = 0);
          to = (\<lambda>st. if last then upd_tcb p (\<lambda>t. t\<lparr>TaskState := st\<rparr>) k' else k');
          sched = (\<lambda>err k. map_option (Pair err) (OSSched k))
      in if st \<le> OS_TASK_STATE_PEND_TIMEOUT then sched OS_ERR_TASK_NOT_SUSPENDED k
         else if st = OS_TASK_STATE_SUSPENDED then
           Option.bind (if last then OS_TaskRdy p (to OS_TASK_STATE_RDY) else Some k') (sched OS_ERR_NONE)
         else if st = OS_TASK_STATE_DLY_SUSPENDED then sched OS_ERR_NONE (to OS_TASK_STATE_DLY)
         else if st = OS_TASK_STATE_PEND_SUSPENDED then sched OS_ERR_NONE (to OS_TASK_STATE_PEND)
         else if st = OS_TASK_STATE_PEND_TIMEOUT_SUSPENDED then sched OS_ERR_NONE (to OS_TASK_STATE_PEND_TIMEOUT)
         else Some (OS_ERR_STATE_INVALID, k))"

definition OSTaskResume :: "ptr \<Rightarrow> os_kernel \<Rightarrow> (OS_ERR \<times> os_kernel) option" where
  "OSTaskResume p_tcb k =
     (if 0 < OSIntNestingCtr k then Some (OS_ERR_TASK_RESUME_ISR, k)
      else case p_tcb of
        None \<Rightarrow> Some (OS_ERR_TASK_RESUME_SELF, k)
      | Some p \<Rightarrow> if p = OSTCBCurPtr k then Some (OS_ERR_TASK_RESUME_SELF, k) else OS_TaskResume p k)"


section \<open>The tick interrupt and the tick task\<close>

text \<open>The part of \<open>OSTimeTick\<close> for the software timers: a counter, and a signal to their task.\<close>

definition tick_timers :: "u32 \<Rightarrow> os_kernel \<Rightarrow> os_kernel option" where
  "tick_timers ts k =
     (let k = k\<lparr>OSTmrUpdateCtr := OSTmrUpdateCtr k - 1\<rparr>
      in if OSTmrUpdateCtr k = 0 then
           map_option (\<lambda>(_, _, k). k)
             (OSTaskSemPost (Some (OSTmrTaskTCB k)) OS_OPT_POST_NONE ts (k\<lparr>OSTmrUpdateCtr := OSTmrUpdateCnt k\<rparr>))
         else Some k)"

definition OSTimeTick :: "u32 \<Rightarrow> os_kernel \<Rightarrow> os_kernel option" where
  "OSTimeTick ts k =
     do { (_, _, k) \<leftarrow> OSTaskSemPost (Some (OSTickTaskTCB k)) OS_OPT_POST_NONE ts k;
          k \<leftarrow> OS_SchedRoundRobin (unat (OSPrioCur k)) k;
          tick_timers ts k }"

definition SysTick_Handler :: "u32 \<Rightarrow> os_kernel \<Rightarrow> os_kernel option" where
  "SysTick_Handler ts k =
     (if OSRunning k then Option.bind (OSTimeTick ts (OSIntEnter k)) OSIntExit else Some k)"

text \<open>
  A pass of \<open>OS_TickTask\<close> in two parts: up to its wait for the signal, which may be there already, and
  from the end of the wait on.
\<close>

definition signalled :: "(nat \<Rightarrow> u32) \<Rightarrow> pend_result \<Rightarrow> os_kernel \<Rightarrow> os_kernel option" where
  "signalled stamp r k =
     (case r of Returned OS_ERR_NONE _ _ \<Rightarrow> if OSRunning k then OS_TickListUpdate stamp k else Some k
      | _ \<Rightarrow> Some k)"

definition OS_TickTask :: "(nat \<Rightarrow> u32) \<Rightarrow> os_kernel \<Rightarrow> os_kernel option" where
  "OS_TickTask stamp k =
     Option.bind (OSTaskSemPend 0 OS_OPT_PEND_BLOCKING k) (\<lambda>(r, _, k). signalled stamp r k)"

definition OS_TickTask_resume :: "(nat \<Rightarrow> u32) \<Rightarrow> os_kernel \<Rightarrow> os_kernel option" where
  "OS_TickTask_resume stamp k = signalled stamp (fst (OSTaskSemPend_resume k)) k"

section \<open>Blocking the running task\<close>

lemma svc_upds_task:
  "svc_upd (\<lambda>t. t\<lparr>PendOn := a, PendStatus := b\<rparr>)" "svc_upd (\<lambda>t. t\<lparr>SemCtr := c\<rparr>)"
  "svc_upd (\<lambda>t. t\<lparr>SemCtr := SemCtr t + d\<rparr>)" "svc_upd (\<lambda>t. t\<lparr>SemCtr := SemCtr t - d\<rparr>)"
  "svc_upd (\<lambda>t. t\<lparr>TS := c\<rparr>)" "svc_upd (\<lambda>t. t\<lparr>TaskState := a, SuspendCtr := b\<rparr>)"
  "svc_upd (\<lambda>t. t\<lparr>SuspendCtr := SuspendCtr t + b\<rparr>)" "svc_upd (\<lambda>t. t\<lparr>SuspendCtr := SuspendCtr t - b\<rparr>)"
  by (simp_all add: svc_upd_def svc_of_def)

lemma OS_TaskBlock_kin:
  assumes at: "at A idle p True False k"
  shows "\<exists>k'. OS_TaskBlock p timeout k = Some k' \<and> kin A idle k' \<and> only p k k'
    \<and> svc_of (tcb k' p) = svc_of ((tcb k p)\<lparr>TaskState := if timeout = 0 then OS_TASK_STATE_PEND else OS_TASK_STATE_PEND_TIMEOUT\<rparr>)
    \<and> (timeout \<noteq> 0 \<longrightarrow> dist k' p = timeout)"
proof -
  define st :: u8 where "st = (if timeout = 0 then OS_TASK_STATE_PEND else OS_TASK_STATE_PEND_TIMEOUT)"
  have "\<exists>k1 k2. OS_TaskBlock p timeout k = OS_RdyListRemove p k2 \<and> k2 = upd_tcb p (\<lambda>t. t\<lparr>TaskState := st\<rparr>) k1
      \<and> at A idle p True (timeout \<noteq> 0) k1 \<and> keeps p k k1 \<and> (timeout \<noteq> 0 \<longrightarrow> dist k1 p = timeout)"
  proof (cases "timeout = 0")
    case True
    then show ?thesis using at
      by (intro exI [of _ k] exI [of _ "upd_tcb p (\<lambda>t. t\<lparr>TaskState := st\<rparr>) k"])
        (simp add: OS_TaskBlock_def keeps_def st_def)
  next
    case False
    then have pos: "0 < timeout" by (simp add: word_gt_0)
    obtain k0 where m: "set_match p timeout OS_OPT_TIME_TIMEOUT k = Some k0" "dist k0 p = timeout"
      using set_match_dist(1) [OF pos, of OS_OPT_TIME_TIMEOUT p k] by auto
    obtain k1 where k1: "OS_TickListInsert p timeout OS_OPT_TIME_TIMEOUT k = Some (OS_ERR_NONE, k1)"
      "at A idle p True True k1" "keeps p k k1" "dist k1 p = dist k0 p"
      using at_tick_insert [OF at m(1)] m(2) False by blast
    then show ?thesis using False pos m(2)
      by (intro exI [of _ k1] exI [of _ "upd_tcb p (\<lambda>t. t\<lparr>TaskState := st\<rparr>) k1"])
        (simp add: OS_TaskBlock_def st_def)
  qed
  then obtain k1 k2 where k1: "OS_TaskBlock p timeout k = OS_RdyListRemove p k2"
    "k2 = upd_tcb p (\<lambda>t. t\<lparr>TaskState := st\<rparr>) k1" "at A idle p True (timeout \<noteq> 0) k1" "keeps p k k1"
    "timeout \<noteq> 0 \<longrightarrow> dist k1 p = timeout" by blast
  have a2: "at A idle p True (timeout \<noteq> 0) k2" unfolding k1(2) by (rule at_svc [OF k1(3) svc_upds(2)])
  obtain k3 where k3: "OS_RdyListRemove p k2 = Some k3" "at A idle p False (timeout \<noteq> 0) k3" "keeps p k2 k3"
    "dist k3 p = dist k2 p"
    using at_rdy_remove [OF a2] by blast
  have st3: "TaskState (tcb k3 p) = st" by (simp add: keeps_state [OF k3(3)] k1(2) tcb_upd)
  then have "kin A idle k3" by (intro at_close [OF k3(2)]) (auto simp: st_def timed_def)
  moreover have "only p k k3" using only_upd [OF svc_upds(2)] k1(2)
    by (metis only_trans keeps_only [OF k1(4)] keeps_only [OF k3(3)])
  moreover have "svc_of (tcb k3 p) = svc_of ((tcb k p)\<lparr>TaskState := st\<rparr>)"
    using k3(3) k1(4) svc_of_upd [OF svc_upds(2), of "tcb k1 p" "tcb k p"] by (simp add: keeps_def k1(2) tcb_upd)
  moreover have "dist k2 p = dist k1 p" by (simp add: k1(2) dist_upd [OF svc_upds(2)])
  ultimately show ?thesis using k1(1,5) k3(1,4) st_def by auto
qed

lemma OS_Pend_kin:
  assumes r: "run A idle k" and p: "OSTCBCurPtr k = p" "p \<noteq> idle"
  shows "\<exists>k'. OS_Pend on timeout k = Some k' \<and> kin A idle k' \<and> only p k k'
    \<and> svc_of (tcb k' p) = svc_of ((tcb k p)\<lparr>PendOn := on, PendStatus := OS_STATUS_PEND_OK,
        TaskState := if timeout = 0 then OS_TASK_STATE_PEND else OS_TASK_STATE_PEND_TIMEOUT\<rparr>)
    \<and> (timeout \<noteq> 0 \<longrightarrow> dist k' p = timeout)"
proof -
  let ?f = "\<lambda>t. t\<lparr>PendOn := on, PendStatus := OS_STATUS_PEND_OK\<rparr>"
  have "at A idle p True False (upd_tcb p ?f k)" by (rule at_svc [OF run_cur_at [OF r p] svc_upds_task(1)])
  from OS_TaskBlock_kin [OF this, of timeout] show ?thesis
    using only_trans [OF only_upd [OF svc_upds_task(1)]] p(1) by (auto simp: OS_Pend_def Let_def tcb_upd)
qed


section \<open>Ending a wait\<close>

definition pends :: "u8 \<Rightarrow> bool" where
  "pends st \<longleftrightarrow> st = OS_TASK_STATE_PEND \<or> st = OS_TASK_STATE_PEND_TIMEOUT
     \<or> st = OS_TASK_STATE_PEND_SUSPENDED \<or> st = OS_TASK_STATE_PEND_TIMEOUT_SUSPENDED"

text \<open>The control block of a task that has been given a message.\<close>

definition ended_tcb :: "nat \<Rightarrow> u16 \<Rightarrow> u32 \<Rightarrow> u8 \<Rightarrow> os_tcb \<Rightarrow> os_tcb" where
  "ended_tcb m sz ts status t = t\<lparr>TcbMsgPtr := m, TcbMsgSize := sz, TS := ts,
     TaskState := if TaskState t = OS_TASK_STATE_PEND \<or> TaskState t = OS_TASK_STATE_PEND_TIMEOUT
       then OS_TASK_STATE_RDY else OS_TASK_STATE_SUSPENDED,
     PendStatus := status, PendOn := OS_TASK_PEND_ON_NOTHING\<rparr>"

lemma svc_of_ended:
  "svc_of t = svc_of ((u)\<lparr>TcbMsgPtr := m, TcbMsgSize := sz, TS := ts\<rparr>) \<Longrightarrow>
    (if TaskState u = OS_TASK_STATE_PEND \<or> TaskState u = OS_TASK_STATE_PEND_TIMEOUT
       then st = OS_TASK_STATE_RDY else st = OS_TASK_STATE_SUSPENDED) \<Longrightarrow>
    svc_of (t\<lparr>TaskState := st, PendStatus := status, PendOn := OS_TASK_PEND_ON_NOTHING\<rparr>)
      = svc_of (ended_tcb m sz ts status u)"
  by (auto simp: svc_of_def ended_tcb_def split: if_splits)

lemma idle_ready_state: "kin A idle k \<Longrightarrow> TaskState (tcb k idle) = OS_TASK_STATE_RDY"
  unfolding kin_def using in_readyI [of idle _ 31] inv_exceptD(7) kinv_ready by fastforce

lemma end_pend_kin:
  assumes kn: "kin A idle k" and p: "p \<in> A" and st: "pends (TaskState (tcb k p))"
  shows "\<exists>k'. end_pend p m sz ts status k = Some k' \<and> kin A idle k' \<and> only p k k'
    \<and> svc_of (tcb k' p) = svc_of (ended_tcb m sz ts status (tcb k p))"
proof -
  let ?st = "TaskState (tcb k p)"
  let ?fin = "\<lambda>a t. t\<lparr>TaskState := a, PendStatus := status, PendOn := OS_TASK_PEND_ON_NOTHING\<rparr>"
  define g where "g = upd_tcb p (\<lambda>t. t\<lparr>TcbMsgPtr := m, TcbMsgSize := sz, TS := ts\<rparr>) k"
  have gp: "tcb g p = (tcb k p)\<lparr>TcbMsgPtr := m, TcbMsgSize := sz, TS := ts\<rparr>" by (simp add: g_def tcb_upd)
  have "p \<noteq> idle" using idle_ready_state [OF kn] st by (auto simp: pends_def)
  then have "at A idle p (?st = OS_TASK_STATE_RDY) (timed ?st) k" by (rule at_open [OF kn p])
  then have a: "at A idle p False (timed ?st) g"
    using st at_svc [OF _ svc_upds(4)] unfolding g_def by (auto simp: pends_def)
  have og: "only p k g" unfolding g_def by (rule only_upd [OF svc_upds(4)])
  have close: "kin A idle (upd_tcb p (?fin b) k1) \<and> only p k (upd_tcb p (?fin b) k1)
      \<and> svc_of (tcb (upd_tcb p (?fin b) k1) p) = svc_of (ended_tcb m sz ts status (tcb k p))"
    if "at A idle p (b = OS_TASK_STATE_RDY) False k1" "keeps p g k1"
      "if ?st = OS_TASK_STATE_PEND \<or> ?st = OS_TASK_STATE_PEND_TIMEOUT then b = OS_TASK_STATE_RDY else b = OS_TASK_STATE_SUSPENDED"
    for b k1
  proof (intro conjI)
    have "at A idle p (b = OS_TASK_STATE_RDY) False (upd_tcb p (?fin b) k1)" by (rule at_svc [OF that(1) svc_upds(3)])
    then show "kin A idle (upd_tcb p (?fin b) k1)"
      by (rule at_close) (use that(3) in \<open>auto simp: tcb_upd timed_def split: if_splits\<close>)
    show "only p k (upd_tcb p (?fin b) k1)"
      by (rule only_trans [OF only_trans [OF og keeps_only [OF that(2)]] only_upd [OF svc_upds(3)]])
    show "svc_of (tcb (upd_tcb p (?fin b) k1) p) = svc_of (ended_tcb m sz ts status (tcb k p))"
      unfolding tcb_upd by (rule svc_of_ended [OF _ that(3)]) (use that(2) in \<open>simp add: keeps_def gp\<close>)
  qed
  show ?thesis
  proof (cases "?st = OS_TASK_STATE_PEND \<or> ?st = OS_TASK_STATE_PEND_TIMEOUT")
    case True
    then have "TaskState (tcb g p) AND OS_TASK_STATE_BIT_SUSPENDED = 0" by (auto simp: gp)
    from at_task_rdy [OF a this] obtain k1 where k1: "OS_TaskRdy p g = Some k1" "at A idle p True False k1" "keeps p g k1"
      by blast
    have "end_pend p m sz ts status k = Some (upd_tcb p (?fin OS_TASK_STATE_RDY) k1)"
      using True k1(1) by (simp add: end_pend_def Let_def g_def)
    then show ?thesis using close [of 0 k1] k1(2,3) True by auto
  next
    case False
    from at_tick_remove [OF a] obtain k1 where k1: "OS_TickListRemove p g = Some k1" "at A idle p False False k1" "keeps p g k1"
      by blast
    have "end_pend p m sz ts status k = Some (upd_tcb p (?fin OS_TASK_STATE_SUSPENDED) k1)"
      using False st k1(1) by (auto simp: end_pend_def Let_def g_def pends_def)
    then show ?thesis using close [of 4 k1] k1(2,3) False by auto
  qed
qed

text \<open>The running task does not wait, so a task whose wait ends is another one.\<close>

lemma end_pend_run:
  assumes r: "run A idle k" and p: "p \<in> A" and st: "pends (TaskState (tcb k p))"
  shows "\<exists>k'. end_pend p m sz ts status k = Some k' \<and> run A idle k' \<and> touches p k k' \<and> msgs k' = msgs k
    \<and> svc_of (tcb k' p) = svc_of (ended_tcb m sz ts status (tcb k p))"
proof -
  obtain k' where k': "end_pend p m sz ts status k = Some k'" "kin A idle k'" "only p k k'"
    "svc_of (tcb k' p) = svc_of (ended_tcb m sz ts status (tcb k p))"
    using end_pend_kin [OF run_kin [OF r] p st] by blast
  have "OSTCBCurPtr k \<noteq> p" using r st by (auto simp: run_def pends_def)
  from run_other [OF r k'(2,3) this] show ?thesis using k' only_touches [OF k'(3)] only_msgs [OF k'(3)] by blast
qed

lemma sched_unless_run:
  assumes "run A idle k1" and "touches p k k1" and "msgs k1 = msgs k"
  shows "\<exists>k'. sched_unless opt k1 = Some k' \<and> run A idle k' \<and> touches p k k' \<and> msgs k' = msgs k
    \<and> svc_of (tcb k' p) = svc_of (tcb k1 p) \<and> dist k' p = dist k1 p"
  using ready_sched [OF assms] assms by (simp add: sched_unless_def)

end
