(* ===== verification/Os_Service.thy ===== *)
theory Os_Service
  imports Os_Task
begin

text \<open>
  The contract of the services: called in a safe state, a service returns, in a safe state again, and
  disturbs only the tasks it is meant for.  The services of os_task.c, os_time.c and os_core.c are
  shown to keep it one by one.
\<close>

section \<open>The contract\<close>

text \<open>
  Safe: the lists agree with the states of the tasks, the running task is ready, the cells of the
  message pool are each in one place (\<open>N\<close> cells, queues \<open>0 \<dots> n - 1\<close>, which belong to the tasks), and
  the tick and timer tasks exist.
\<close>

definition kernel_safe :: "nat set \<Rightarrow> nat \<Rightarrow> nat \<Rightarrow> nat \<Rightarrow> os_kernel \<Rightarrow> bool" where
  "kernel_safe A idle n N k \<longleftrightarrow> run A idle k \<and> A \<subseteq> {..<n} \<and> msgs_inv n N (msgs k)
     \<and> OSIdleTaskTCB k = idle \<and> OSTickTaskTCB k \<in> A \<and> OSTmrTaskTCB k \<in> A"

definition undisturbed :: "nat \<Rightarrow> os_kernel \<Rightarrow> os_kernel \<Rightarrow> bool" where
  "undisturbed x k k' \<longleftrightarrow> TaskState (tcb k' x) = TaskState (tcb k x) \<and> PendOn (tcb k' x) = PendOn (tcb k x)
     \<and> PendStatus (tcb k' x) = PendStatus (tcb k x) \<and> TcbMsgPtr (tcb k' x) = TcbMsgPtr (tcb k x)
     \<and> TcbMsgSize (tcb k' x) = TcbMsgSize (tcb k x) \<and> dist k' x = dist k x"

text \<open>The service has returned \<open>r\<close> and has disturbed no tasks but those of \<open>D\<close>.\<close>

definition goes :: "nat set \<Rightarrow> nat \<Rightarrow> nat \<Rightarrow> nat \<Rightarrow> nat set \<Rightarrow> os_kernel \<Rightarrow> os_kernel option \<Rightarrow> bool" where
  "goes A idle n N D k r \<longleftrightarrow> (\<exists>k'. r = Some k' \<and> kernel_safe A idle n N k' \<and> OSTickCtr k' = OSTickCtr k
     \<and> roles k' = roles k \<and> (\<forall>x. x \<notin> D \<longrightarrow> undisturbed x k k'))"

lemma undisturbed_refl [simp]: "undisturbed x k k"
  by (simp add: undisturbed_def)

lemma undisturbed_trans: "undisturbed x k k1 \<Longrightarrow> undisturbed x k1 k2 \<Longrightarrow> undisturbed x k k2"
  by (simp add: undisturbed_def)

lemma undisturbed_svc: "svc_of (tcb k' x) = svc_of (tcb k x) \<Longrightarrow> dist k' x = dist k x \<Longrightarrow> undisturbed x k k'"
  unfolding undisturbed_def using svc_of_eqD by blast

lemma touches_undisturbed: "touches p k k' \<Longrightarrow> x \<noteq> p \<Longrightarrow> undisturbed x k k'"
  by (simp add: touches_def undisturbed_svc)

lemma safe_run: "kernel_safe A idle n N k \<Longrightarrow> run A idle k"
  and safe_queue: "kernel_safe A idle n N k \<Longrightarrow> p \<in> A \<Longrightarrow> p < n"
  and safe_msgs: "kernel_safe A idle n N k \<Longrightarrow> msgs_inv n N (msgs k)"
  and safe_cur: "kernel_safe A idle n N k \<Longrightarrow> OSTCBCurPtr k \<in> A"
  by (auto simp: kernel_safe_def run_def)

lemma safe_keep: "kernel_safe A idle n N k \<Longrightarrow> run A idle k' \<Longrightarrow> msgs_inv n N (msgs k') \<Longrightarrow> roles k' = roles k \<Longrightarrow> kernel_safe A idle n N k'"
  by (simp add: kernel_safe_def roles_def)

lemma goes_id: "kernel_safe A idle n N k \<Longrightarrow> goes A idle n N D k (Some k)"
  by (simp add: goes_def)

lemma goes_touches:
  assumes "kernel_safe A idle n N k" and "run A idle k'" and "touches p k k'" and "msgs k' = msgs k"
    and "p \<in> D \<or> undisturbed p k k'"
  shows "goes A idle n N D k (Some k')"
proof -
  have "kernel_safe A idle n N k'"
    by (rule safe_keep [OF assms(1,2)]) (use assms(3,4) safe_msgs [OF assms(1)] in \<open>simp_all add: touches_def\<close>)
  moreover have "undisturbed x k k'" if "x \<notin> D" for x
    using touches_undisturbed [OF assms(3)] assms(5) that by (cases "x = p") auto
  ultimately show ?thesis using assms(3) by (simp add: goes_def touches_def)
qed

lemma goes_then:
  assumes "goes A idle n N D k r"
    and "\<And>k1. r = Some k1 \<Longrightarrow> kernel_safe A idle n N k1 \<Longrightarrow> roles k1 = roles k \<Longrightarrow>
      (\<And>x. x \<notin> D \<Longrightarrow> undisturbed x k k1) \<Longrightarrow> goes A idle n N D k1 (f k1)"
  shows "goes A idle n N D k (Option.bind r f)"
proof -
  obtain k1 where k1: "r = Some k1" "kernel_safe A idle n N k1" "OSTickCtr k1 = OSTickCtr k" "roles k1 = roles k"
    "\<And>x. x \<notin> D \<Longrightarrow> undisturbed x k k1"
    using assms(1) by (auto simp: goes_def)
  obtain k2 where k2: "f k1 = Some k2" "kernel_safe A idle n N k2" "OSTickCtr k2 = OSTickCtr k1" "roles k2 = roles k1"
    "\<And>x. x \<notin> D \<Longrightarrow> undisturbed x k1 k2"
    using assms(2) [OF k1(1,2,4,5)] by (auto simp: goes_def)
  have "undisturbed x k k2" if "x \<notin> D" for x by (rule undisturbed_trans [OF k1(5) [OF that] k2(5) [OF that]])
  then show ?thesis using k1(1,3,4) k2(1-4) by (simp add: goes_def)
qed

lemma goes_bind:
  assumes "goes A idle n N D k r" and "\<And>k1. r = Some k1 \<Longrightarrow> kernel_safe A idle n N k1 \<Longrightarrow> goes A idle n N D k1 (f k1)"
  shows "goes A idle n N D k (Option.bind r f)"
  by (rule goes_then [OF assms])

lemma goes_mono: "goes A idle n N D k r \<Longrightarrow> D \<subseteq> D' \<Longrightarrow> goes A idle n N D' k r"
  by (auto simp: goes_def)

section \<open>Changes that move no task\<close>

lemma inv_other:
  assumes "kinv A idle k Q W" and "svc_frame k k'" and "\<And>x. TickCtrMatch (tcb k' x) = TickCtrMatch (tcb k x)"
    and "rdy_inv k' Q'" and "\<And>i. i < 32 \<Longrightarrow> set (Q' i) = set (Q i)" and "wheel_inv k' W"
  shows "kinv A idle k' Q' W"
proof -
  have r: "in_ready Q' x = in_ready Q x" for x using assms(5) by (auto simp: in_ready_def)
  have d: "dist k' x = dist k x" for x by (rule svc_dist [OF assms(2,3)])
  have "state_ok A k' Q' W x" for x
    by (rule state_ok_cong [OF inv_exceptD(5) [OF assms(1)]])
      (use svc_frame_tcb [OF assms(2)] prio_ix_frame [OF assms(2)] r in simp_all)
  moreover have "cur_ok k'" by (rule cur_ok_cpu [OF inv_exceptD(1) [OF assms(1)] svc_frame_cpu [OF assms(2)]])
  ultimately show ?thesis using assms(1,4-6) by (simp add: inv_except_def d)
qed

text \<open>A change of the service part that keeps the state.\<close>

lemma kin_svc:
  assumes "kin A idle k" and f: "svc_upd f" and st: "\<And>t. TaskState (f t) = TaskState t"
  shows "kin A idle (upd_tcb p f k)"
proof -
  obtain Q W where inv: "kinv A idle k Q W" using assms(1) by (auto simp: kin_def)
  let ?k = "upd_tcb p f k"
  have o: "only p k ?k" by (rule only_upd [OF f])
  have "state_ok A ?k Q W x" for x
    using inv_exceptD(5) [OF inv, of x] only_prio [OF o] st by (cases "x = p") (simp_all add: state_ok_def sel_upd)
  moreover have "cur_ok ?k" using o by (intro cur_ok_cpu [OF inv_exceptD(1) [OF inv]]) (simp add: only_def)
  ultimately have "kinv A idle ?k Q W"
    using rdy_inv_svc [OF f inv_exceptD(2) [OF inv]] wheel_inv_svc [OF f inv_exceptD(3) [OF inv]] inv
    by (simp add: inv_except_def dist_upd [OF f])
  then show ?thesis by (auto simp: kin_def)
qed

lemma run_svc:
  assumes "run A idle k" and "svc_upd f" and "\<And>t. TaskState (f t) = TaskState t"
  shows "run A idle (upd_tcb p f k) \<and> touches p k (upd_tcb p f k) \<and> msgs (upd_tcb p f k) = msgs k"
proof -
  note o = only_upd [OF assms(2), of p k]
  have "OSTCBCurPtr (upd_tcb p f k) = OSTCBCurPtr k" by (simp add: upd_tcb_def)
  then have "run A idle (upd_tcb p f k)"
    using assms(1,3) kin_svc [OF run_kin [OF assms(1)] assms(2,3)] by (cases "OSTCBCurPtr k = p") (simp_all add: run_def sel_upd)
  then show ?thesis using only_touches [OF o] only_msgs [OF o] by simp
qed

lemma kinv_state_upd:
  assumes "kinv A idle k Q W" and "tcb k' = tcb k" and "OSRdyList k' = OSRdyList k" and "OSPrioTbl k' = OSPrioTbl k"
    and "OSCfg_TickWheel k' = OSCfg_TickWheel k" and "OSTickCtr k' = OSTickCtr k" and "OSPrioCur k' = OSPrioCur k"
    and "OSTCBCurPtr k' = OSTCBCurPtr k"
  shows "kinv A idle k' Q W"
proof -
  have "rdy_inv k' Q" using inv_exceptD(2) [OF assms(1)] rdy_inv_other [OF assms(2-4)] by simp
  moreover have "wheel_inv k' W" by (rule wheel_inv_same [OF inv_exceptD(3) [OF assms(1)]]) (simp_all add: assms)
  moreover have "state_ok A k' Q W x" for x
    using inv_exceptD(5) [OF assms(1), of x] by (simp add: state_ok_def prio_ix_def assms(2))
  ultimately show ?thesis using assms(1,7,8) by (simp add: inv_except_def cur_ok_def dist_def assms(2,6))
qed

text \<open>Neither the messages nor the levels of interrupts and locks matter.\<close>

lemma kin_other [simp]:
  "kin A idle (k\<lparr>msgs := m\<rparr>) = kin A idle k" "kin A idle (k\<lparr>OSIntNestingCtr := c\<rparr>) = kin A idle k"
  "kin A idle (k\<lparr>OSSchedLockNestingCtr := c\<rparr>) = kin A idle k" "kin A idle (k\<lparr>OSTmrUpdateCtr := d\<rparr>) = kin A idle k"
  unfolding kin_def by (safe; (rule exI)+; erule kinv_state_upd; simp)+

lemma run_other_upd [simp]:
  "run A idle (k\<lparr>msgs := m\<rparr>) = run A idle k" "run A idle (k\<lparr>OSIntNestingCtr := c\<rparr>) = run A idle k"
  "run A idle (k\<lparr>OSSchedLockNestingCtr := c\<rparr>) = run A idle k" "run A idle (k\<lparr>OSTmrUpdateCtr := d\<rparr>) = run A idle k"
  by (simp_all add: run_def)

lemma undisturbed_other [simp]:
  "undisturbed x k (k\<lparr>msgs := m\<rparr>)" "undisturbed x k (k\<lparr>OSIntNestingCtr := c\<rparr>)"
  "undisturbed x k (k\<lparr>OSSchedLockNestingCtr := c\<rparr>)" "undisturbed x k (k\<lparr>OSTmrUpdateCtr := d\<rparr>)"
  by (simp_all add: undisturbed_def dist_def)

lemma goes_msgs:
  assumes "kernel_safe A idle n N k" and "msgs_inv n N m"
  shows "goes A idle n N D k (Some (k\<lparr>msgs := m\<rparr>))"
  using assms by (simp add: goes_def kernel_safe_def)

lemma goes_sched:
  assumes "kernel_safe A idle n N k"
  shows "goes A idle n N D k (OSSched k)"
proof -
  obtain k' where k': "OSSched k = Some k'" "run A idle k'" "same_tasks k k'"
    using sched_run [OF safe_run [OF assms]] by blast
  have "undisturbed 0 k k'" using k'(3) by (simp add: same_tasks_def undisturbed_svc)
  then show ?thesis
    using goes_touches [OF assms k'(2) same_touches [OF k'(3), of 0]] k'(1,3) by (simp add: same_tasks_def)
qed

lemma goes_sched_unless: "kernel_safe A idle n N k \<Longrightarrow> goes A idle n N D k (sched_unless opt k)"
  by (simp add: sched_unless_def goes_sched goes_id)


lemma goes_blocked:
  assumes "kernel_safe A idle n N k" and "kin A idle k1" and "only p k k1"
    and "OSIntNestingCtr k = 0" and "OSSchedLockNestingCtr k = 0" and "p \<in> D"
  shows "goes A idle n N D k (OSSched k1)"
proof -
  obtain k' where k': "OSSched k1 = Some k'" "sys A idle k'" "touches p k k'" "msgs k' = msgs k"
    using blocked_sched [OF assms(2-5)] by blast
  then show ?thesis using goes_touches [OF assms(1) _ k'(3,4)] assms(6) by (simp add: sys_def)
qed

lemma goes_touched:
  assumes "kernel_safe A idle n N k" and "kin A idle k1" and "only p k k1" and "OSTCBCurPtr k \<noteq> p" and "p \<in> D"
  shows "goes A idle n N D k (Some k1)"
  using goes_touches [OF assms(1) run_other [OF safe_run [OF assms(1)] assms(2-4)] only_touches [OF assms(3)]
      only_msgs [OF assms(3)]] assms(5) by blast

lemma goes_svc:
  assumes "kernel_safe A idle n N k" and "svc_upd f" and "\<And>t. TaskState (f t) = TaskState t"
    and "p \<in> D \<or> (\<forall>t. svc_of (f t) = svc_of t) \<or> (\<forall>t. PendOn (f t) = PendOn t \<and> PendStatus (f t) = PendStatus t
      \<and> TcbMsgPtr (f t) = TcbMsgPtr t \<and> TcbMsgSize (f t) = TcbMsgSize t)"
  shows "goes A idle n N D k (Some (upd_tcb p f k))"
proof -
  note r = run_svc [OF safe_run [OF assms(1)] assms(2,3), of p]
  have "p \<in> D \<or> undisturbed p k (upd_tcb p f k)"
    using assms(3,4) by (auto simp: undisturbed_def sel_upd dist_upd [OF assms(2)] dest: svc_of_eqD(2-5))
  then show ?thesis using goes_touches [OF assms(1)] r by blast
qed


section \<open>Message queues and semaphores\<close>

lemma bind_Some_pair [simp]:
  "map_option snd (map_option (Pair x) r) = r" "map_option (snd \<circ> snd) (map_option (Pair x \<circ> Pair y) r) = r"
  by (cases r; simp)+

lemma map_snd_bind [simp]:
  "map_option snd (Option.bind r (\<lambda>k. map_option (Pair x) (f k))) = Option.bind r f"
  "map_option (\<lambda>(_, _, k). k) (Option.bind r (\<lambda>k. Some (x, y, k))) = r"
  by (cases r; simp)+

lemma map_snd_bind2 [simp]:
  "map_option snd (Option.bind r (\<lambda>k. Option.bind (f k) (\<lambda>k. map_option (Pair x) (h k)))) = Option.bind r (\<lambda>k. Option.bind (f k) h)"
  by (cases r) simp_all

lemma map_result_bind [simp]:
  "map_option (\<lambda>(_, _, k). k) (Option.bind r (\<lambda>k. Option.bind (f k) (\<lambda>k'. Some (x, g k, k')))) = Option.bind r f"
  by (cases r) simp_all

lemma map_result_Some: "map_option (\<lambda>(_, _, k). k) (Some r) = Some (snd (snd r))"
  by (simp add: case_prod_beta)

lemma goes_pend:
  assumes "kernel_safe A idle n N k" and "OSTCBCurPtr k = p" and "p \<noteq> idle"
    and "OSIntNestingCtr k = 0" and "OSSchedLockNestingCtr k = 0"
  shows "goes A idle n N {p} k (Option.bind (OS_Pend on timeout k) OSSched)"
proof -
  obtain k1 where "OS_Pend on timeout k = Some k1" "kin A idle k1" "only p k k1"
    using OS_Pend_kin [OF safe_run [OF assms(1)] assms(2,3)] by blast
  then show ?thesis using goes_blocked [OF assms(1) _ _ assms(4,5), of k1 p "{p}"] by simp
qed

lemma not_pos [simp]: "\<not> 0 < (c :: 'a :: len word) \<longleftrightarrow> c = 0"
  by (simp add: word_gt_0)

lemma OSTaskQPend_goes:
  assumes s: "kernel_safe A idle n N k" and p: "OSTCBCurPtr k = p" "p \<noteq> idle"
  shows "goes A idle n N {p} k (map_option snd (OSTaskQPend size_null timeout opt k))"
proof -
  have "p < n" using safe_queue [OF s] safe_cur [OF s] p(1) by simp
  then obtain e m ms where g: "OS_MsgQGet p (msgs k) = Some (e, m, ms)" "msgs_inv n N ms"
    using get_refines [OF safe_msgs [OF s]] by blast
  obtain p_void sz ts where m: "m = (p_void, sz, ts)" by (cases m)
  note sm = goes_msgs [OF s g(2), of "{p}"]
  then have s1: "kernel_safe A idle n N (k\<lparr>msgs := ms\<rparr>)" by (simp add: goes_def)
  show ?thesis
  proof (cases "OSIntNestingCtr k = 0 \<and> OSSchedLockNestingCtr k = 0")
    case True
    have "goes A idle n N {p} (k\<lparr>msgs := ms\<rparr>) (Option.bind (OS_Pend OS_TASK_PEND_ON_TASK_Q timeout (k\<lparr>msgs := ms\<rparr>)) OSSched)"
      by (rule goes_pend [OF s1]) (use p True in simp_all)
    then have "goes A idle n N {p} k (Option.bind (Some (k\<lparr>msgs := ms\<rparr>))
        (\<lambda>k. Option.bind (OS_Pend OS_TASK_PEND_ON_TASK_Q timeout k) OSSched))"
      by (intro goes_bind [OF sm]) auto
    then show ?thesis using True sm goes_id [OF s] g(1) p(1) by (simp add: OSTaskQPend_def Let_def m)
  next
    case False
    then show ?thesis using sm goes_id [OF s] g(1) p(1) by (auto simp: OSTaskQPend_def Let_def m word_gt_0)
  qed
qed

lemma OSTaskQFlush_goes:
  assumes s: "kernel_safe A idle n N k" and p: "target ptr k \<in> A"
  shows "goes A idle n N {} k (map_option (\<lambda>(_, _, k). k) (OSTaskQFlush ptr k))"
proof -
  obtain m where m: "OS_MsgQFreeAll (target ptr k) (msgs k) = Some (length (queued (msgs k) (target ptr k)), m)" "msgs_inv n N m"
    using OS_MsgQFreeAll_refines [OF safe_msgs [OF s] safe_queue [OF s p]] by blast
  then show ?thesis using goes_id [OF s] goes_msgs [OF s m(2)] by (simp add: OSTaskQFlush_def)
qed

lemma queue_msg_goes:
  assumes s: "kernel_safe A idle n N k" and p: "p \<in> A"
  shows "goes A idle n N D k (map_option snd (queue_msg p m opt k))"
proof -
  obtain e ms where m: "OS_MsgQPut p m opt (msgs k) = Some (e, ms)" "msgs_inv n N ms"
    using put_refines [OF safe_msgs [OF s] safe_queue [OF s p], of m opt] by blast
  then show ?thesis using goes_msgs [OF s m(2)] by (simp add: queue_msg_def)
qed

text \<open>A post disturbs its receiver only if that is waiting.\<close>

lemma OS_Post_goes:
  assumes s: "kernel_safe A idle n N k" and p: "p \<in> A" "pends (TaskState (tcb k p))"
  shows "goes A idle n N {p} k (OS_Post p m sz ts k)"
proof -
  obtain k' where "end_pend p m sz ts OS_STATUS_PEND_OK k = Some k'" "run A idle k'" "touches p k k'" "msgs k' = msgs k"
    using end_pend_run [OF safe_run [OF s] p] by blast
  then show ?thesis using goes_touches [OF s] by (simp add: OS_Post_def)
qed

definition receivers :: "nat \<Rightarrow> os_kernel \<Rightarrow> nat set" where
  "receivers p k = (if pends (TaskState (tcb k p)) then {p} else {})"

lemma OSTaskQPost_goes:
  assumes s: "kernel_safe A idle n N k" and p: "target ptr k = p" "p \<in> A"
  shows "goes A idle n N (receivers p k) k (map_option snd (OSTaskQPost ptr m sz opt ts k))"
proof -
  have "goes A idle n N {p} k (Option.bind (OS_Post p m sz ts k) (sched_unless opt))" if "pends (TaskState (tcb k p))"
    by (rule goes_bind [OF OS_Post_goes [OF s p(2) that] goes_sched_unless])
  then show ?thesis using queue_msg_goes [OF s p(2)] goes_id [OF s]
    by (auto simp: OSTaskQPost_def OS_TaskQPost_def Let_def p(1) receivers_def pends_def)
qed

lemma pend_abort_goes:
  assumes s: "kernel_safe A idle n N k" and p: "\<forall>p. ptr = Some p \<longrightarrow> p \<in> A"
  shows "goes A idle n N (case ptr of None \<Rightarrow> {} | Some p \<Rightarrow> receivers p k) k
    (map_option (\<lambda>(_, _, k). k) (pend_abort on ptr opt ts k))"
proof (cases ptr)
  case None
  then show ?thesis using goes_id [OF s] by (simp add: pend_abort_def)
next
  case (Some q)
  then have q: "q \<in> A" using p by simp
  have "goes A idle n N (receivers q k) k (OS_PendAbort q ts k)"
  proof (cases "pends (TaskState (tcb k q))")
    case True
    obtain k' where "end_pend q 0 0 ts OS_STATUS_PEND_ABORT k = Some k'" "run A idle k'" "touches q k k'" "msgs k' = msgs k"
      using end_pend_run [OF safe_run [OF s] q True] by blast
    then show ?thesis using goes_touches [OF s] True by (simp add: OS_PendAbort_def receivers_def)
  next
    case False
    then have "OS_PendAbort q ts k = Some k" by (simp add: OS_PendAbort_def end_pend_def pends_def)
    then show ?thesis using goes_id [OF s] by simp
  qed
  then have g: "goes A idle n N (receivers q k) k (Option.bind (OS_PendAbort q ts k) (sched_unless opt))" for opt
    by (rule goes_bind [OF _ goes_sched_unless])
  then show ?thesis using g goes_id [OF s] Some by (simp add: pend_abort_def)
qed

lemma OSTaskSemPend_goes:
  assumes s: "kernel_safe A idle n N k" and p: "OSTCBCurPtr k = p" "p \<noteq> idle"
  shows "goes A idle n N {p} k (map_option (\<lambda>(_, _, k). k) (OSTaskSemPend timeout opt k))"
proof -
  have "goes A idle n N {p} k (Some (upd_tcb p (\<lambda>t. t\<lparr>SemCtr := SemCtr t - 1\<rparr>) k))"
    by (rule goes_svc [OF s svc_upds_task(4)]) simp_all
  then show ?thesis using goes_id [OF s] goes_pend [OF s p] p(1)
    by (auto simp: OSTaskSemPend_def Let_def word_gt_0)
qed

lemma count_signal_goes:
  assumes "kernel_safe A idle n N k"
  shows "goes A idle n N D k (Some (snd (snd (count_signal p k))))"
  using goes_id [OF assms] goes_svc [OF assms svc_upds_task(3) [of 1], where p = p and D = D] by (simp add: count_signal_def Let_def)

lemma OSTaskSemPost_goes:
  assumes s: "kernel_safe A idle n N k" and p: "target ptr k = p" "p \<in> A"
  shows "goes A idle n N (receivers p k) k (map_option (\<lambda>(_, _, k). k) (OSTaskSemPost ptr opt ts k))"
proof -
  define k0 where "k0 = upd_tcb p (\<lambda>t. t\<lparr>TS := ts\<rparr>) k"
  have g0: "goes A idle n N {} k (Some k0)" unfolding k0_def by (rule goes_svc [OF s svc_upds_task(5)]) simp_all
  then have s0: "kernel_safe A idle n N k0" by (simp add: goes_def)
  have st: "TaskState (tcb k0 p) = TaskState (tcb k p)" "PendOn (tcb k0 p) = PendOn (tcb k p)"
    by (simp_all add: k0_def tcb_upd)
  have post: "goes A idle n N {p} k0 (Option.bind (OS_Post p 0 0 ts k0) (sched_unless opt))" if "pends (TaskState (tcb k p))"
    by (rule goes_bind [OF OS_Post_goes [OF s0 p(2)] goes_sched_unless]) (simp_all add: st that)
  define body where "body =
      (if TaskState (tcb k p) \<in> {OS_TASK_STATE_RDY, OS_TASK_STATE_DLY, OS_TASK_STATE_SUSPENDED, OS_TASK_STATE_DLY_SUSPENDED}
       then Some (count_signal p k0)
       else if TaskState (tcb k p) \<in> {OS_TASK_STATE_PEND, OS_TASK_STATE_PEND_TIMEOUT, OS_TASK_STATE_PEND_SUSPENDED,
                       OS_TASK_STATE_PEND_TIMEOUT_SUSPENDED} then
         (if PendOn (tcb k p) = OS_TASK_PEND_ON_TASK_SEM then
            Option.bind (OS_Post p 0 0 ts k0) (\<lambda>k. Option.bind (sched_unless opt k) (\<lambda>k'. Some (OS_ERR_NONE, SemCtr (tcb k p), k')))
          else Some (count_signal p k0))
       else Some (OS_ERR_STATE_INVALID, 0, k0))"
  have "goes A idle n N (receivers p k) k0 (map_option (\<lambda>(_, _, k). k) body)"
    using post count_signal_goes [OF s0] goes_id [OF s0]
    unfolding body_def receivers_def if_distrib [of "map_option _"] map_result_bind map_result_Some by (auto simp: pends_def)
  then have "goes A idle n N (receivers p k) k (Option.bind (Some k0) (\<lambda>_. map_option (\<lambda>(_, _, k). k) body))"
    by (intro goes_bind [OF goes_mono [OF g0]]) auto
  moreover have "OS_TaskSemPost ptr opt ts k = body"
    by (simp only: OS_TaskSemPost_def Let_def p(1) k0_def [symmetric] st body_def)
  ultimately show ?thesis using goes_id [OF s] by (simp add: OSTaskSemPost_def)
qed

lemma OSTaskSemSet_goes:
  assumes "kernel_safe A idle n N k"
  shows "goes A idle n N {} k (Some (snd (snd (OSTaskSemSet ptr c k))))"
  using goes_id [OF assms] goes_svc [OF assms svc_upds_task(2) [of c], where p = "target ptr k" and D = "{}"]
  by (simp add: OSTaskSemSet_def Let_def)

section \<open>Suspension\<close>

text \<open>A task other than the running one, or the running one when tasks may be switched.\<close>

lemma goes_moved:
  assumes "kernel_safe A idle n N k" and "kin A idle k1" and "only p k k1" and "p \<in> D"
    and "OSTCBCurPtr k = p \<longrightarrow> OSIntNestingCtr k = 0 \<and> OSSchedLockNestingCtr k = 0"
  shows "goes A idle n N D k (OSSched k1)"
proof (cases "OSTCBCurPtr k = p")
  case True
  then show ?thesis using goes_blocked [OF assms(1-3)] assms(4,5) by blast
next
  case False
  have "goes A idle n N D k (Option.bind (Some k1) OSSched)"
    by (rule goes_bind [OF goes_touched [OF assms(1-3) False assms(4)] goes_sched])
  then show ?thesis by simp
qed

lemma kin_state_change:
  assumes "kin A idle k" and "p \<in> A" and "p \<noteq> idle" and "svc_upd f"
    and "TaskState (f (tcb k p)) = OS_TASK_STATE_RDY \<longleftrightarrow> TaskState (tcb k p) = OS_TASK_STATE_RDY"
    and "timed (TaskState (f (tcb k p))) \<longleftrightarrow> timed (TaskState (tcb k p))"
    and "TaskState (f (tcb k p)) \<le> OS_TASK_STATE_PEND_TIMEOUT_SUSPENDED"
  shows "kin A idle (upd_tcb p f k)"
  by (rule at_close [OF at_svc [OF at_open [OF assms(1-3)] assms(4)]]) (use assms(5-7) in \<open>simp_all add: tcb_upd\<close>)

lemma suspend_ready:
  assumes "kin A idle k" and "p \<in> A" and "p \<noteq> idle" and "TaskState (tcb k p) = OS_TASK_STATE_RDY"
  shows "\<exists>k1. OS_RdyListRemove p (upd_tcb p (\<lambda>t. t\<lparr>TaskState := OS_TASK_STATE_SUSPENDED, SuspendCtr := c\<rparr>) k) = Some k1
    \<and> kin A idle k1 \<and> only p k k1"
proof -
  let ?k = "upd_tcb p (\<lambda>t. t\<lparr>TaskState := OS_TASK_STATE_SUSPENDED, SuspendCtr := c\<rparr>) k"
  have "at A idle p True False ?k"
    using at_svc [OF at_open [OF assms(1-3)] svc_upds_task(6)] assms(4) by (simp add: timed_def)
  then obtain k1 where k1: "OS_RdyListRemove p ?k = Some k1" "at A idle p False False k1" "keeps p ?k k1"
    using at_rdy_remove by blast
  have "TaskState (tcb k1 p) = OS_TASK_STATE_SUSPENDED" using keeps_state [OF k1(3)] by (simp add: tcb_upd)
  then have "kin A idle k1" by (intro at_close [OF k1(2)]) (simp_all add: timed_def)
  then show ?thesis using k1(1) only_trans [OF only_upd [OF svc_upds_task(6)] keeps_only [OF k1(3)]] by blast
qed

lemma OSTaskSuspend_goes:
  assumes s: "kernel_safe A idle n N k" and p: "target ptr k = p" "p \<in> A" and i: "ptr = None \<longrightarrow> p \<noteq> idle"
  shows "goes A idle n N {p} k (map_option snd (OSTaskSuspend ptr k))"
proof (cases "0 < OSIntNestingCtr k \<or> p = idle \<or> p = OSTCBCurPtr k \<and> 0 < OSSchedLockNestingCtr k")
  case True
  have "ptr = Some (OSIdleTaskTCB k)" if "p = idle"
    using that i p(1) s by (cases ptr) (simp_all add: target_def kernel_safe_def)
  moreover have "OS_TaskSuspend ptr k = Some (OS_ERR_SCHED_LOCKED, k)" if "p = OSTCBCurPtr k \<and> 0 < OSSchedLockNestingCtr k"
    unfolding OS_TaskSuspend_def Let_def p(1) if_P [OF that] ..
  ultimately have "map_option snd (OSTaskSuspend ptr k) = Some k"
    using True unfolding OSTaskSuspend_def by (simp only: split: if_split) fastforce
  then show ?thesis by (simp only: goes_id [OF s])
next
  case False
  then have free: "OSTCBCurPtr k = p \<longrightarrow> OSIntNestingCtr k = 0 \<and> OSSchedLockNestingCtr k = 0" by auto
  have ni: "p \<noteq> idle" "ptr \<noteq> Some idle" using False p(1) by (auto simp: target_def)
  note kn = run_kin [OF safe_run [OF s]]
  let ?st = "TaskState (tcb k p)"
  let ?up = "\<lambda>b. upd_tcb p (\<lambda>t. t\<lparr>TaskState := b, SuspendCtr := 1\<rparr>) k"
  have ready: "goes A idle n N {p} k (Option.bind (OS_RdyListRemove p (?up OS_TASK_STATE_SUSPENDED)) OSSched)" if "?st = OS_TASK_STATE_RDY"
    using suspend_ready [OF kn p(2) ni(1) that, of 1] goes_moved [OF s _ _ _ free, of _ "{p}"] by auto
  have wait: "goes A idle n N {p} k (OSSched (?up (?st + 4)))"
    if "?st = OS_TASK_STATE_DLY \<or> ?st = OS_TASK_STATE_PEND \<or> ?st = OS_TASK_STATE_PEND_TIMEOUT"
  proof (rule goes_moved [OF s _ only_upd [OF svc_upds_task(6)] _ free])
    show "kin A idle (?up (?st + 4))"
      by (rule kin_state_change [OF kn p(2) ni(1) svc_upds_task(6)]) (use that in \<open>auto simp: timed_def\<close>)
  qed simp
  have more: "goes A idle n N {p} k (OSSched (upd_tcb p (\<lambda>t. t\<lparr>SuspendCtr := SuspendCtr t + 1\<rparr>) k))"
    using goes_bind [OF goes_svc [OF s svc_upds_task(7) [of 1], where p = p and D = "{p}"] goes_sched] by simp
  have "OSIdleTaskTCB k = idle" using s by (simp add: kernel_safe_def)
  then have e: "OSTaskSuspend ptr k = OS_TaskSuspend ptr k" using False ni by (simp add: OSTaskSuspend_def)
  have free': "\<not> (p = OSTCBCurPtr k \<and> 0 < OSSchedLockNestingCtr k)" using False by blast
  note suspend = OS_TaskSuspend_def Let_def p(1) if_not_P [OF free']
  consider (rdy) "?st = OS_TASK_STATE_RDY" | (dly) "?st = OS_TASK_STATE_DLY" | (pend) "?st = OS_TASK_STATE_PEND"
    | (timeout) "?st = OS_TASK_STATE_PEND_TIMEOUT"
    | (suspended) "?st \<noteq> OS_TASK_STATE_RDY" "?st \<noteq> OS_TASK_STATE_DLY" "?st \<noteq> OS_TASK_STATE_PEND"
      "?st \<noteq> OS_TASK_STATE_PEND_TIMEOUT" by blast
  then show ?thesis
  proof cases
    case rdy
    then show ?thesis using ready unfolding e suspend by simp
  next
    case suspended
    then show ?thesis unfolding e suspend using more goes_id [OF s] by simp
  qed (use wait in \<open>simp_all add: e suspend\<close>)
qed

lemma resume_ready:
  assumes "kin A idle k" and "p \<in> A" and "p \<noteq> idle" and "TaskState (tcb k p) = OS_TASK_STATE_SUSPENDED" and f: "svc_upd f"
  shows "\<exists>k1. OS_TaskRdy p (upd_tcb p (\<lambda>t. t\<lparr>TaskState := OS_TASK_STATE_RDY\<rparr>) (upd_tcb p f k)) = Some k1
    \<and> kin A idle k1 \<and> only p k k1"
proof -
  let ?k = "upd_tcb p (\<lambda>t. t\<lparr>TaskState := OS_TASK_STATE_RDY\<rparr>) (upd_tcb p f k)"
  have "at A idle p False False ?k"
    using at_svc [OF at_svc [OF at_open [OF assms(1-3)] f] svc_upds(2)] assms(4) by (simp add: timed_def)
  moreover have "TaskState (tcb ?k p) AND OS_TASK_STATE_BIT_SUSPENDED = 0" by (simp add: tcb_upd)
  ultimately obtain k1 where k1: "OS_TaskRdy p ?k = Some k1" "at A idle p True False k1" "keeps p ?k k1"
    using at_task_rdy by blast
  have "TaskState (tcb k1 p) = OS_TASK_STATE_RDY" using keeps_state [OF k1(3)] by (simp add: tcb_upd)
  then have "kin A idle k1" by (intro at_close [OF k1(2)]) (simp_all add: timed_def)
  moreover have "only p k ?k" by (rule only_trans [OF only_upd [OF f] only_upd [OF svc_upds(2)]])
  ultimately show ?thesis using k1(1) only_trans [OF _ keeps_only [OF k1(3)]] by blast
qed

lemma kernel_safe_state: "kernel_safe A idle n N k \<Longrightarrow> p \<in> A \<Longrightarrow> TaskState (tcb k p) \<le> OS_TASK_STATE_PEND_TIMEOUT_SUSPENDED"
  using kinv_state unfolding kernel_safe_def run_def kin_def by blast

lemma OSTaskResume_goes:
  assumes s: "kernel_safe A idle n N k" and p: "\<forall>p. ptr = Some p \<longrightarrow> p \<in> A"
  shows "goes A idle n N (set_option ptr) k (map_option snd (OSTaskResume ptr k))"
proof (cases "0 < OSIntNestingCtr k \<or> ptr = None \<or> ptr = Some (OSTCBCurPtr k)")
  case True
  then have "map_option snd (OSTaskResume ptr k) = Some k" by (auto simp: OSTaskResume_def)
  then show ?thesis by (simp only: goes_id [OF s])
next
  case False
  then obtain q where q: "ptr = Some q" "q \<in> A" "OSTCBCurPtr k \<noteq> q" using p by auto
  have e: "OSTaskResume ptr k = OS_TaskResume q k" using False q by (simp add: OSTaskResume_def)
  let ?st = "TaskState (tcb k q)" and ?f = "\<lambda>t. t\<lparr>SuspendCtr := SuspendCtr t - 1\<rparr>"
  let ?k = "upd_tcb q ?f k"
  have f: "svc_upd ?f" by (rule svc_upds_task(8))
  have free: "OSTCBCurPtr k = q \<longrightarrow> OSIntNestingCtr k = 0 \<and> OSSchedLockNestingCtr k = 0" using q(3) by simp
  note kn = run_kin [OF safe_run [OF s]]
  have ni: "q \<noteq> idle" if "?st \<noteq> OS_TASK_STATE_RDY" using idle_ready_state [OF kn] that by blast
  note resume = OS_TaskResume_def Let_def
  have count: "goes A idle n N {q} k (OSSched ?k)"
    using goes_bind [OF goes_svc [OF s f, where p = q and D = "{q}"] goes_sched] by simp
  have change: "goes A idle n N {q} k (OSSched (upd_tcb q (\<lambda>t. t\<lparr>TaskState := b\<rparr>) ?k))"
    if "?st = b + 4" "b = OS_TASK_STATE_DLY \<or> b = OS_TASK_STATE_PEND \<or> b = OS_TASK_STATE_PEND_TIMEOUT" for b
  proof (rule goes_moved [OF s _ only_trans [OF only_upd [OF f] only_upd [OF svc_upds(2)]] _ free])
    have "q \<noteq> idle" using ni that by auto
    moreover have "kin A idle ?k" by (rule kin_svc [OF kn f]) simp
    ultimately show "kin A idle (upd_tcb q (\<lambda>t. t\<lparr>TaskState := b\<rparr>) ?k)"
      by (intro kin_state_change [OF _ q(2) _ svc_upds(2)]) (use that in \<open>auto simp: timed_def tcb_upd\<close>)
  qed simp
  have ready: "goes A idle n N {q} k (Option.bind (OS_TaskRdy q (upd_tcb q (\<lambda>t. t\<lparr>TaskState := OS_TASK_STATE_RDY\<rparr>) ?k)) OSSched)"
    if "?st = OS_TASK_STATE_SUSPENDED"
    using resume_ready [OF kn q(2) ni that f] that goes_moved [OF s _ _ _ free, of _ "{q}"] by auto
  consider (not) "?st \<le> OS_TASK_STATE_PEND_TIMEOUT" | (ready) "?st = OS_TASK_STATE_SUSPENDED" | (dly) "?st = OS_TASK_STATE_DLY_SUSPENDED"
    | (pend) "?st = OS_TASK_STATE_PEND_SUSPENDED" | (timeout) "?st = OS_TASK_STATE_PEND_TIMEOUT_SUSPENDED"
    | (bad) "\<not> ?st \<le> OS_TASK_STATE_PEND_TIMEOUT" "?st \<noteq> OS_TASK_STATE_SUSPENDED" "?st \<noteq> OS_TASK_STATE_DLY_SUSPENDED"
      "?st \<noteq> OS_TASK_STATE_PEND_SUSPENDED" "?st \<noteq> OS_TASK_STATE_PEND_TIMEOUT_SUSPENDED" by blast
  then have "goes A idle n N {q} k (map_option snd (OS_TaskResume q k))"
  proof cases
    case not
    then show ?thesis using goes_sched [OF s] by (simp add: resume)
  next
    case ready
    then show ?thesis using count \<open>?st = OS_TASK_STATE_SUSPENDED \<Longrightarrow> _\<close> by (simp add: resume)
  next
    case bad
    then show ?thesis using goes_id [OF s] by (simp add: resume)
  qed (use count change in \<open>simp_all add: resume\<close>)
  then show ?thesis unfolding e by (simp add: q(1))
qed

section \<open>Delays\<close>

lemma delay_current_goes:
  assumes s: "kernel_safe A idle n N k" and p: "OSTCBCurPtr k = p" "p \<noteq> idle"
    and l: "OSIntNestingCtr k = 0" "OSSchedLockNestingCtr k = 0"
    and m: "set_match p time opt (upd_tcb p (\<lambda>t. t\<lparr>TaskState := OS_TASK_STATE_DLY\<rparr>) k) \<noteq> None"
  shows "goes A idle n N {p} k (map_option snd (delay_current time opt k))"
proof -
  obtain k1 where "set_match p time opt (upd_tcb p (\<lambda>t. t\<lparr>TaskState := OS_TASK_STATE_DLY\<rparr>) k) = Some k1" using m by blast
  from delay_current_run [OF safe_run [OF s] p l this] obtain k' where
    k': "delay_current time opt k = Some (OS_ERR_NONE, k')" "sys A idle k'" "touches p k k'" "msgs k' = msgs k"
    by blast
  then show ?thesis using goes_touches [OF s _ k'(3,4), of "{p}"] by (simp add: sys_def)
qed

text \<open>A delay until a given time has to lie ahead: otherwise the state of the task would be left wrong.\<close>

definition ahead :: "u32 \<Rightarrow> u16 \<Rightarrow> os_kernel \<Rightarrow> bool" where
  "ahead time opt k \<longleftrightarrow> opt = OS_OPT_TIME_MATCH \<longrightarrow>
     set_match (OSTCBCurPtr k) time opt (upd_tcb (OSTCBCurPtr k) (\<lambda>t. t\<lparr>TaskState := OS_TASK_STATE_DLY\<rparr>) k) \<noteq> None"

lemma set_match_ahead:
  assumes "0 < time" and "opt \<in> {OS_OPT_TIME_DLY, OS_OPT_TIME_TIMEOUT, OS_OPT_TIME_PERIODIC}"
  shows "set_match p time opt k \<noteq> None"
  using set_match_dist(1) [OF assms(1), of opt p k] set_match_dist(2) [OF assms(1), of p k] assms(2) by auto

lemma OSTimeDly_goes:
  assumes s: "kernel_safe A idle n N k" and p: "OSTCBCurPtr k = p" "p \<noteq> idle" and a: "ahead dly opt k"
  shows "goes A idle n N {p} k (map_option snd (OSTimeDly dly opt k))"
proof (cases "OSIntNestingCtr k = 0 \<and> OSSchedLockNestingCtr k = 0 \<and>
    (dly \<noteq> 0 \<and> opt \<in> {OS_OPT_TIME_DLY, OS_OPT_TIME_TIMEOUT, OS_OPT_TIME_PERIODIC} \<or> opt = OS_OPT_TIME_MATCH)")
  case True
  then have "set_match p dly opt (upd_tcb p (\<lambda>t. t\<lparr>TaskState := OS_TASK_STATE_DLY\<rparr>) k) \<noteq> None"
    using set_match_ahead [of dly opt p] a p(1) by (auto simp: ahead_def word_gt_0)
  then have "goes A idle n N {p} k (map_option snd (delay_current dly opt k))"
    using delay_current_goes [OF s p] True by blast
  moreover have "OSTimeDly dly opt k = delay_current dly opt k" using True by (auto simp: OSTimeDly_def)
  ultimately show ?thesis by simp
next
  case False
  then have "map_option snd (OSTimeDly dly opt k) = Some k" by (auto simp: OSTimeDly_def word_gt_0)
  then show ?thesis by (simp only: goes_id [OF s])
qed

lemma refused_or:
  assumes "x = (if a then Some (e1, k) else if b then Some (e2, k) else if c then Some (e3, k) else if \<not> t \<and> o' \<noteq> m then Some (e4, k)
    else if d then Some (e5, k) else if f then Some (e6, k) else if g then r else Some (e7, k))"
  shows "map_option snd x = Some k \<or> x = r \<and> \<not> a \<and> \<not> b \<and> g \<and> (t \<or> o' = m)"
  unfolding assms by (simp split: if_split)

lemma OSTimeDlyHMSM_goes:
  assumes s: "kernel_safe A idle n N k" and p: "OSTCBCurPtr k = p" "p \<noteq> idle"
    and a: "ahead (hmsm_ticks h m sec ms) (opt AND OS_OPT_TIME_MASK) k"
  shows "goes A idle n N {p} k (map_option snd (OSTimeDlyHMSM h m sec ms opt k))"
proof -
  let ?o = "opt AND OS_OPT_TIME_MASK" and ?t = "hmsm_ticks h m sec ms"
  let ?timed = "?o \<in> {OS_OPT_TIME_DLY, OS_OPT_TIME_TIMEOUT, OS_OPT_TIME_PERIODIC}"
  have d: "goes A idle n N {p} k (map_option snd (delay_current ?t ?o k))"
    if "OSIntNestingCtr k = 0" "OSSchedLockNestingCtr k = 0" "0 < ?t" "?timed \<or> ?o = OS_OPT_TIME_MATCH"
  proof (rule delay_current_goes [OF s p that(1,2)])
    show "set_match p ?t ?o (upd_tcb p (\<lambda>t. t\<lparr>TaskState := OS_TASK_STATE_DLY\<rparr>) k) \<noteq> None"
      using set_match_ahead [OF that(3), of ?o p] that(4) a p(1) unfolding ahead_def by blast
  qed
  have "map_option snd (OSTimeDlyHMSM h m sec ms opt k) = Some k \<or>
      OSTimeDlyHMSM h m sec ms opt k = delay_current ?t ?o k \<and> \<not> 0 < OSIntNestingCtr k
      \<and> \<not> 0 < OSSchedLockNestingCtr k \<and> 0 < ?t \<and> (?timed \<or> ?o = OS_OPT_TIME_MATCH)"
    by (rule refused_or [OF OSTimeDlyHMSM_def [unfolded Let_def]])
  then show ?thesis
  proof
    assume "map_option snd (OSTimeDlyHMSM h m sec ms opt k) = Some k"
    then show ?thesis by (simp only: goes_id [OF s])
  qed (use d in simp)
qed

lemma OSTimeDlyResume_goes:
  assumes s: "kernel_safe A idle n N k" and p: "\<forall>p. ptr = Some p \<longrightarrow> p \<in> A"
  shows "goes A idle n N (set_option ptr) k (map_option snd (OSTimeDlyResume ptr k))"
proof (cases "0 < OSIntNestingCtr k \<or> ptr = None \<or> ptr = Some (OSTCBCurPtr k)")
  case True
  then have "map_option snd (OSTimeDlyResume ptr k) = Some k" by (auto simp: OSTimeDlyResume_def)
  then show ?thesis by (simp only: goes_id [OF s])
next
  case False
  then obtain q where q: "ptr = Some q" "q \<in> A" "OSTCBCurPtr k \<noteq> q" "OSIntNestingCtr k = 0" using p by auto
  let ?st = "TaskState (tcb k q)"
  let ?up = "\<lambda>b. upd_tcb q (\<lambda>t. t\<lparr>TaskState := b\<rparr>) k"
  note kn = run_kin [OF safe_run [OF s]]
  have ni: "q \<noteq> idle" if "?st \<noteq> OS_TASK_STATE_RDY" using idle_ready_state [OF kn] that by blast
  have touched: "goes A idle n N {q} k (OSSched k1)" if "kin A idle k1" "only q k k1" for k1
    by (rule goes_moved [OF s that]) (simp_all add: q(3))
  note resume = OSTimeDlyResume_def q(1) Let_def
  consider (dly) "?st = OS_TASK_STATE_DLY" | (suspended) "?st = OS_TASK_STATE_DLY_SUSPENDED"
    | (other) "?st \<noteq> OS_TASK_STATE_DLY" "?st \<noteq> OS_TASK_STATE_DLY_SUSPENDED" by blast
  then show ?thesis
  proof cases
    case dly
    have "at A idle q False True (?up OS_TASK_STATE_RDY)"
      using at_svc [OF at_open [OF kn q(2) ni] svc_upds(2)] dly by (simp add: timed_def)
    then obtain k1 where k1: "OS_TickListRemove q (?up OS_TASK_STATE_RDY) = Some k1" "at A idle q False False k1"
      "keeps q (?up OS_TASK_STATE_RDY) k1"
      using at_tick_remove by blast
    obtain k2 where k2: "OS_RdyListInsert q k1 = Some k2" "at A idle q True False k2" "keeps q k1 k2"
      using at_rdy_insert [OF k1(2)] by blast
    note kp = keeps_trans [OF k1(3) k2(3)]
    have "TaskState (tcb k2 q) = OS_TASK_STATE_RDY" using keeps_state [OF kp] by (simp add: tcb_upd)
    then have "kin A idle k2" by (intro at_close [OF k2(2)]) (simp_all add: timed_def)
    from touched [OF this only_trans [OF only_upd [OF svc_upds(2)] keeps_only [OF kp]]]
    show ?thesis using dly k1(1) k2(1) q by (simp add: resume)
  next
    case suspended
    have "at A idle q False True (?up OS_TASK_STATE_SUSPENDED)"
      using at_svc [OF at_open [OF kn q(2) ni] svc_upds(2)] suspended by (simp add: timed_def)
    then obtain k1 where k1: "OS_TickListRemove q (?up OS_TASK_STATE_SUSPENDED) = Some k1" "at A idle q False False k1"
      "keeps q (?up OS_TASK_STATE_SUSPENDED) k1"
      using at_tick_remove by blast
    have "TaskState (tcb k1 q) = OS_TASK_STATE_SUSPENDED" using keeps_state [OF k1(3)] by (simp add: tcb_upd)
    then have "kin A idle k1" by (intro at_close [OF k1(2)]) (simp_all add: timed_def)
    from touched [OF this only_trans [OF only_upd [OF svc_upds(2)] keeps_only [OF k1(3)]]]
    show ?thesis using suspended k1(1) q by (simp add: resume)
  next
    case other
    then show ?thesis using goes_sched [OF s] q by (simp add: resume)
  qed
qed

section \<open>Turns, locks and interrupts\<close>

text \<open>The order of the ready tasks of one priority and their time slices are not part of the contract.\<close>

lemma goes_frame:
  assumes s: "kernel_safe A idle n N k" and "kin A idle k'" and f: "svc_frame k k'"
    and m: "\<And>x. TickCtrMatch (tcb k' x) = TickCtrMatch (tcb k x)"
  shows "goes A idle n N D k (Some k')"
proof -
  have o: "only p k k'" for p by (rule only_svc [OF f m])
  obtain p where p: "OSTCBCurPtr k \<noteq> p" using n_not_Suc_n by blast
  have "undisturbed p k k'" by (rule undisturbed_svc [OF svc_frame_tcb [OF f] svc_dist [OF f m]])
  then show ?thesis
    using goes_touches [OF s run_other [OF safe_run [OF s] assms(2) o p] only_touches [OF o] only_msgs [OF o]] by blast
qed

lemma rotate_goes:
  assumes s: "kernel_safe A idle n N k" and i: "i < 32"
  shows "goes A idle n N D k (OS_RdyListMoveHeadToTail i k)"
proof -
  obtain Q W where inv: "kinv A idle k Q W" using run_kin [OF safe_run [OF s]] by (auto simp: kin_def)
  obtain k' where k': "OS_RdyListMoveHeadToTail i k = Some k'" "rdy_inv k' (Q(i := rotate1 (Q i)))" "rdy_frame i k k'"
    using MoveHeadToTail_refines [OF inv_exceptD(2) [OF inv] i] by blast
  note f = rdy_frame_svc [OF k'(3)] and m = rdy_frame_tcb(10) [OF k'(3)]
  have "kinv A idle k' (Q(i := rotate1 (Q i))) W"
    by (rule inv_other [OF inv f m k'(2) _ rdy_frame_wheel [OF k'(3) inv_exceptD(3) [OF inv]]]) simp
  then show ?thesis using goes_frame [OF s _ f m] k'(1) unfolding kin_def by simp blast
qed

lemma quanta_goes:
  assumes s: "kernel_safe A idle n N k"
  shows "goes A idle n N D k (Some (upd_tcb p (\<lambda>t. t\<lparr>TimeQuantaCtr := v t\<rparr>) k))"
proof -
  obtain Q W where inv: "kinv A idle k Q W" using run_kin [OF safe_run [OF s]] by (auto simp: kin_def)
  let ?k = "upd_tcb p (\<lambda>t. t\<lparr>TimeQuantaCtr := v t\<rparr>) k"
  have f: "svc_frame k ?k" by (simp add: svc_frame_def) (simp add: upd_tcb_def svc_of_def)
  have m: "TickCtrMatch (tcb ?k x) = TickCtrMatch (tcb k x)" for x by (simp add: sel_upd)
  have r: "rdy_inv ?k Q" by (rule rdy_inv_upd [OF inv_exceptD(2) [OF inv]]) simp_all
  have w: "wheel_inv ?k W" by (rule wheel_inv_upd [OF inv_exceptD(3) [OF inv]]) simp_all
  have "kinv A idle ?k Q W" by (rule inv_other [OF inv f m r refl w])
  then show ?thesis using goes_frame [OF s _ f m] unfolding kin_def by blast
qed

lemma rotate_quanta_goes:
  assumes s: "kernel_safe A idle n N k" and i: "i < 32" "2 \<le> RdyEntries (OSRdyList k i)"
  shows "goes A idle n N D k (Option.bind (OS_RdyListMoveHeadToTail i k) (fresh_quanta i))"
proof (rule goes_bind [OF rotate_goes [OF s i(1)]])
  fix k1
  assume k1: "OS_RdyListMoveHeadToTail i k = Some k1" and s1: "kernel_safe A idle n N k1"
  obtain Q W where inv: "kinv A idle k Q W" using run_kin [OF safe_run [OF s]] by (auto simp: kin_def)
  have "rdy_inv k1 (Q(i := rotate1 (Q i)))" using MoveHeadToTail_refines [OF inv_exceptD(2) [OF inv] i(1)] k1 by auto
  then have "rdy_list_ok k1 i (rotate1 (Q i))" using rdy_inv_list [OF _ i(1)] by fastforce
  moreover have "2 \<le> length (Q i)"
    using rdy_inv_list [OF inv_exceptD(2) [OF inv] i(1)] i(2) by (simp add: rdy_list_ok_def)
  ultimately obtain p where "HeadPtr (OSRdyList k1 i) = Some p"
    by (cases "rotate1 (Q i)") (auto simp: rdy_list_ok_def)
  then show "goes A idle n N D k1 (fresh_quanta i k1)" using quanta_goes [OF s1] by (simp add: fresh_quanta_def)
qed

lemma cur_prio:
  assumes s: "kernel_safe A idle n N k"
  shows "unat (OSPrioCur k) < 32"
proof -
  obtain Q W where inv: "kinv A idle k Q W" using run_kin [OF safe_run [OF s]] by (auto simp: kin_def)
  show ?thesis using kinv_prio [OF inv safe_cur [OF s]] inv_exceptD(1) [OF inv] by (simp add: cur_ok_def prio_ix_def)
qed

lemma OSSchedRoundRobinYield_goes:
  assumes s: "kernel_safe A idle n N k"
  shows "goes A idle n N D k (map_option snd (OSSchedRoundRobinYield k))"
proof -
  let ?i = "unat (OSPrioCur k)"
  have g: "goes A idle n N D k (Option.bind (Option.bind (OS_RdyListMoveHeadToTail ?i k) (fresh_quanta ?i)) OSSched)"
    if "2 \<le> RdyEntries (OSRdyList k ?i)"
    by (rule goes_bind [OF rotate_quanta_goes [OF s cur_prio [OF s] that] goes_sched])
  then show ?thesis using goes_id [OF s] by (simp add: OSSchedRoundRobinYield_def Let_def not_less)
qed

lemma OS_SchedRoundRobin_goes:
  assumes s: "kernel_safe A idle n N k" and i: "i < 32"
  shows "goes A idle n N D k (OS_SchedRoundRobin i k)"
proof (cases "HeadPtr (OSRdyList k i)")
  case None
  then show ?thesis using goes_id [OF s] by (simp add: OS_SchedRoundRobin_def)
next
  case (Some p)
  define k1 where "k1 = (if 0 < TimeQuantaCtr (tcb k p) then upd_tcb p (\<lambda>t. t\<lparr>TimeQuantaCtr := TimeQuantaCtr t - 1\<rparr>) k else k)"
  have g1: "goes A idle n N D k (Some k1)"
    using quanta_goes [OF s] goes_id [OF s] by (simp add: k1_def)
  have "goes A idle n N D k (Option.bind (Some k1) (\<lambda>k. if 0 < TimeQuantaCtr (tcb k p) then Some k
      else if RdyEntries (OSRdyList k i) < 2 then Some k else if 0 < OSSchedLockNestingCtr k then Some k
      else Option.bind (OS_RdyListMoveHeadToTail i k) (fresh_quanta i)))"
    by (rule goes_bind [OF g1]) (auto intro: goes_id rotate_quanta_goes [OF _ i])
  then show ?thesis using Some goes_id [OF s] by (simp add: OS_SchedRoundRobin_def Let_def k1_def)
qed

lemma goes_levels:
  assumes "kernel_safe A idle n N k"
  shows "goes A idle n N D k (Some (k\<lparr>OSIntNestingCtr := c\<rparr>))" "goes A idle n N D k (Some (k\<lparr>OSSchedLockNestingCtr := c\<rparr>))"
    "goes A idle n N D k (Some (k\<lparr>OSTmrUpdateCtr := d\<rparr>))"
  using assms by (simp_all add: goes_def kernel_safe_def)

lemma OSSchedLock_goes: "kernel_safe A idle n N k \<Longrightarrow> goes A idle n N D k (Some (snd (OSSchedLock k)))"
  by (simp add: OSSchedLock_def goes_id goes_levels)

lemma OSSchedUnlock_goes:
  assumes s: "kernel_safe A idle n N k"
  shows "goes A idle n N D k (map_option snd (OSSchedUnlock k))"
proof -
  have "goes A idle n N D k (OSSched (k\<lparr>OSSchedLockNestingCtr := c\<rparr>))" for c
    using goes_bind [OF goes_levels(2) [OF s, of D c] goes_sched] by simp
  then show ?thesis using goes_id [OF s] goes_levels(2) [OF s] by (simp add: OSSchedUnlock_def Let_def)
qed

lemma OSIntEnter_goes: "kernel_safe A idle n N k \<Longrightarrow> goes A idle n N D k (Some (OSIntEnter k))"
  by (simp add: OSIntEnter_def goes_id goes_levels)

lemma OSIntExit_goes:
  assumes s: "kernel_safe A idle n N k"
  shows "goes A idle n N D k (OSIntExit k)"
proof -
  let ?k = "k\<lparr>OSIntNestingCtr := OSIntNestingCtr k - 1\<rparr>"
  have "goes A idle n N D k (OSSched ?k)"
    using goes_bind [OF goes_levels(1) [OF s, of D "OSIntNestingCtr k - 1"] goes_sched] by simp
  moreover have "OSIntExit k = (if \<not> OSRunning k \<or> OSIntNestingCtr k = 0 then Some k else OSSched ?k)"
    by (simp add: OSIntExit_def OSSched_def Let_def)
  ultimately show ?thesis using goes_id [OF s] by simp
qed

text \<open>The tick interrupt wakes at most the tick task and the timer task.\<close>

definition tick_receivers :: "os_kernel \<Rightarrow> nat set" where
  "tick_receivers k = receivers (OSTickTaskTCB k) k \<union> receivers (OSTmrTaskTCB k) k"

lemma receivers_later:
  assumes "\<And>x. x \<notin> D \<Longrightarrow> undisturbed x k k1" and "receivers p k \<subseteq> D"
  shows "receivers p k1 \<subseteq> D"
  using assms(1) [of p] assms(2) by (cases "p \<in> D") (auto simp: receivers_def undisturbed_def)

lemma tick_timers_goes:
  assumes s: "kernel_safe A idle n N k" and D: "receivers (OSTmrTaskTCB k) k \<subseteq> D"
  shows "goes A idle n N D k (tick_timers ts k)"
proof -
  let ?c = "if OSTmrUpdateCtr k - 1 = 0 then OSTmrUpdateCnt k else OSTmrUpdateCtr k - 1"
  let ?k = "k\<lparr>OSTmrUpdateCtr := ?c\<rparr>" and ?p = "OSTmrTaskTCB k"
  have s1: "kernel_safe A idle n N ?k" using goes_levels(3) [OF s, of D ?c] by (simp add: goes_def)
  have p: "?p \<in> A" using s by (simp add: kernel_safe_def)
  have "goes A idle n N (receivers ?p ?k) ?k (map_option (\<lambda>(_, _, k). k) (OSTaskSemPost (Some ?p) OS_OPT_POST_NONE ts ?k))"
    by (rule OSTaskSemPost_goes [OF s1 _ p]) (simp add: target_def)
  moreover have "receivers ?p ?k = receivers ?p k" by (simp add: receivers_def)
  ultimately have "goes A idle n N D ?k (map_option (\<lambda>(_, _, k). k) (OSTaskSemPost (Some ?p) OS_OPT_POST_NONE ts ?k))"
    using goes_mono [OF _ D] by simp
  then have "goes A idle n N D k (Option.bind (Some ?k)
      (\<lambda>k'. if OSTmrUpdateCtr k - 1 = 0 then map_option (\<lambda>(_, _, k). k) (OSTaskSemPost (Some ?p) OS_OPT_POST_NONE ts k') else Some k'))"
    by (intro goes_bind [OF goes_levels(3) [OF s]]) (auto simp: goes_id)
  then show ?thesis by (simp add: tick_timers_def Let_def split: if_splits)
qed

lemma OSTimeTick_goes:
  assumes s: "kernel_safe A idle n N k"
  shows "goes A idle n N (tick_receivers k) k (OSTimeTick ts k)"
proof -
  let ?D = "tick_receivers k" and ?p = "OSTickTaskTCB k"
  let ?post = "map_option (\<lambda>(_, _, k). k) (OSTaskSemPost (Some ?p) OS_OPT_POST_NONE ts k)"
  have p: "?p \<in> A" using s by (simp add: kernel_safe_def)
  have "goes A idle n N (receivers ?p k) k ?post" by (rule OSTaskSemPost_goes [OF s _ p]) (simp add: target_def)
  then have post: "goes A idle n N ?D k ?post" by (rule goes_mono) (simp add: tick_receivers_def)
  have "goes A idle n N ?D k (Option.bind ?post
      (\<lambda>k. Option.bind (OS_SchedRoundRobin (unat (OSPrioCur k)) k) (tick_timers ts)))"
  proof (rule goes_then [OF post])
    fix k1
    assume s1: "kernel_safe A idle n N k1" and r1: "roles k1 = roles k" and u1: "\<And>x. x \<notin> ?D \<Longrightarrow> undisturbed x k k1"
    show "goes A idle n N ?D k1 (Option.bind (OS_SchedRoundRobin (unat (OSPrioCur k1)) k1) (tick_timers ts))"
    proof (rule goes_then [OF OS_SchedRoundRobin_goes [OF s1 cur_prio [OF s1]]])
      fix k2
      assume s2: "kernel_safe A idle n N k2" and r2: "roles k2 = roles k1" and u2: "\<And>x. x \<notin> ?D \<Longrightarrow> undisturbed x k1 k2"
      have "OSTmrTaskTCB k2 = OSTmrTaskTCB k" using r1 r2 by (simp add: roles_def)
      moreover have "receivers (OSTmrTaskTCB k) k2 \<subseteq> ?D"
        by (rule receivers_later [OF undisturbed_trans [OF u1 u2]]) (auto simp: tick_receivers_def)
      ultimately show "goes A idle n N ?D k2 (tick_timers ts k2)" using tick_timers_goes [OF s2] by simp
    qed
  qed
  moreover have "Option.bind (map_option (\<lambda>(_, _, k). k) r) f = Option.bind r (\<lambda>(_, _, k). f k)" for r :: "(OS_ERR \<times> u32 \<times> os_kernel) option" and f
    :: "os_kernel \<Rightarrow> os_kernel option" by (cases r) auto
  ultimately show ?thesis by (simp add: OSTimeTick_def)
qed

lemma SysTick_Handler_goes:
  assumes s: "kernel_safe A idle n N k"
  shows "goes A idle n N (tick_receivers k) k (SysTick_Handler ts k)"
proof -
  have "tick_receivers (OSIntEnter k) = tick_receivers k"
    by (simp add: tick_receivers_def receivers_def OSIntEnter_def)
  then have "goes A idle n N (tick_receivers k) k (Option.bind (Some (OSIntEnter k)) (\<lambda>k. Option.bind (OSTimeTick ts k) OSIntExit))"
    by (intro goes_bind [OF OSIntEnter_goes [OF s]] goes_bind [OF _ OSIntExit_goes]) (auto dest: OSTimeTick_goes)
  then show ?thesis using goes_id [OF s] by (simp add: SysTick_Handler_def)
qed

end
