(* ===== verification/Os_Tmr.thy ===== *)
theory Os_Tmr
  imports Os_Service
begin

text \<open>
  The software timers of the kernel (os_tmr.c): the running timers are kept in the spokes of a
  wheel of their own, each spoke a doubly linked list ordered by the time that remains.  This theory
  holds the timers and the operations on the wheel; Os_TmrTask holds the services and the timer task.
\<close>

section \<open>State\<close>

text \<open>The functions of main.c whose address is given to a timer.\<close>

datatype tmr_callback = Tmr1_callback | Tmr2_callback

record os_tmr =
  Type :: u32
  CallbackPtr :: "tmr_callback option"
  CallbackPtrArg :: nat
  TmrNextPtr :: ptr
  TmrPrevPtr :: ptr
  Match :: u32
  Remain :: u32
  Dly :: u32
  Period :: u32
  Opt :: u16
  State :: u8
  DbgPrevPtr :: ptr
  DbgNextPtr :: ptr

record os_tmr_spoke =
  TmrFirstPtr :: ptr
  TmrEntries :: nat
  TmrEntriesMax :: nat

text \<open>The lengths of the spokes are natural numbers, as those of the ready lists.\<close>

record os_tmrs =
  tmr :: "nat \<Rightarrow> os_tmr"
  OSCfg_TmrWheel :: "nat \<Rightarrow> os_tmr_spoke"
  OSTmrTickCtr :: u32
  OSTmrQty :: u16
  OSTmrDbgListPtr :: ptr

abbreviation (input) OS_OBJ_TYPE_TMR :: u32 where "OS_OBJ_TYPE_TMR \<equiv> 0x20524D54"
abbreviation (input) OS_OBJ_TYPE_NONE :: u32 where "OS_OBJ_TYPE_NONE \<equiv> 0x454E4F4E"
abbreviation (input) OS_TMR_STATE_UNUSED :: u8 where "OS_TMR_STATE_UNUSED \<equiv> 0"
abbreviation (input) OS_TMR_STATE_STOPPED :: u8 where "OS_TMR_STATE_STOPPED \<equiv> 1"
abbreviation (input) OS_TMR_STATE_RUNNING :: u8 where "OS_TMR_STATE_RUNNING \<equiv> 2"
abbreviation (input) OS_TMR_STATE_COMPLETED :: u8 where "OS_TMR_STATE_COMPLETED \<equiv> 3"
abbreviation (input) OS_OPT_TMR_NONE :: u16 where "OS_OPT_TMR_NONE \<equiv> 0"
abbreviation (input) OS_OPT_TMR_ONE_SHOT :: u16 where "OS_OPT_TMR_ONE_SHOT \<equiv> 1"
abbreviation (input) OS_OPT_TMR_PERIODIC :: u16 where "OS_OPT_TMR_PERIODIC \<equiv> 2"
abbreviation (input) OS_OPT_TMR_CALLBACK :: u16 where "OS_OPT_TMR_CALLBACK \<equiv> 3"
abbreviation (input) OS_OPT_TMR_CALLBACK_ARG :: u16 where "OS_OPT_TMR_CALLBACK_ARG \<equiv> 4"
abbreviation (input) OS_OPT_LINK_DLY :: u16 where "OS_OPT_LINK_DLY \<equiv> 0"
abbreviation (input) OS_OPT_LINK_PERIODIC :: u16 where "OS_OPT_LINK_PERIODIC \<equiv> 1"

definition upd_tmr :: "nat \<Rightarrow> (os_tmr \<Rightarrow> os_tmr) \<Rightarrow> os_tmrs \<Rightarrow> os_tmrs" where
  "upd_tmr p f w = w\<lparr>tmr := (tmr w)(p := f (tmr w p))\<rparr>"

definition upd_rim :: "nat \<Rightarrow> (os_tmr_spoke \<Rightarrow> os_tmr_spoke) \<Rightarrow> os_tmrs \<Rightarrow> os_tmrs" where
  "upd_rim i f w = w\<lparr>OSCfg_TmrWheel := (OSCfg_TmrWheel w)(i := f (OSCfg_TmrWheel w i))\<rparr>"

section \<open>Operations on the wheel\<close>

text \<open>Both wheels have 17 spokes (OS_CFG_TMR_WHEEL_SIZE), so \<open>spoke_of\<close> serves this one too.\<close>

definition OS_TmrInit_wheel :: "os_tmrs \<Rightarrow> os_tmrs" where
  "OS_TmrInit_wheel w =
     w\<lparr>OSTmrDbgListPtr := None, OSTmrTickCtr := 0,
       OSCfg_TmrWheel := \<lambda>i. if i < WHEEL
         then \<lparr>TmrFirstPtr = None, TmrEntries = 0, TmrEntriesMax = 0\<rparr> else OSCfg_TmrWheel w i\<rparr>"

definition OS_TmrResetPeak :: "os_tmrs \<Rightarrow> os_tmrs" where
  "OS_TmrResetPeak w =
     w\<lparr>OSCfg_TmrWheel := \<lambda>i. if i < WHEEL then (OSCfg_TmrWheel w i)\<lparr>TmrEntriesMax := 0\<rparr> else OSCfg_TmrWheel w i\<rparr>"

definition OS_TmrClr :: "nat \<Rightarrow> os_tmrs \<Rightarrow> os_tmrs" where
  "OS_TmrClr p w =
     upd_tmr p (\<lambda>t. t\<lparr>State := OS_TMR_STATE_UNUSED, Type := OS_OBJ_TYPE_NONE, Dly := 0, Match := 0,
       Remain := 0, Period := 0, Opt := 0, CallbackPtr := None, CallbackPtrArg := 0,
       TmrNextPtr := None, TmrPrevPtr := None\<rparr>) w"

definition OS_TmrDbgListAdd :: "nat \<Rightarrow> os_tmrs \<Rightarrow> os_tmrs" where
  "OS_TmrDbgListAdd p w =
     (let w = upd_tmr p (\<lambda>t. t\<lparr>DbgPrevPtr := None\<rparr>) w;
          w = (case OSTmrDbgListPtr w of
                 None \<Rightarrow> upd_tmr p (\<lambda>t. t\<lparr>DbgNextPtr := None\<rparr>) w
               | Some q \<Rightarrow> upd_tmr q (\<lambda>t. t\<lparr>DbgPrevPtr := Some p\<rparr>) (upd_tmr p (\<lambda>t. t\<lparr>DbgNextPtr := Some q\<rparr>) w))
      in w\<lparr>OSTmrDbgListPtr := Some p\<rparr>)"

definition OS_TmrDbgListRemove :: "nat \<Rightarrow> os_tmrs \<Rightarrow> os_tmrs" where
  "OS_TmrDbgListRemove p w =
     (case (DbgPrevPtr (tmr w p), DbgNextPtr (tmr w p)) of
        (None, nx) \<Rightarrow>
          (let w = w\<lparr>OSTmrDbgListPtr := nx\<rparr>;
               w = (case nx of None \<Rightarrow> w | Some q \<Rightarrow> upd_tmr q (\<lambda>t. t\<lparr>DbgPrevPtr := None\<rparr>) w)
           in upd_tmr p (\<lambda>t. t\<lparr>DbgNextPtr := None\<rparr>) w)
      | (Some pv, None) \<Rightarrow>
          upd_tmr p (\<lambda>t. t\<lparr>DbgPrevPtr := None\<rparr>) (upd_tmr pv (\<lambda>t. t\<lparr>DbgNextPtr := None\<rparr>) w)
      | (Some pv, Some nx) \<Rightarrow>
          upd_tmr p (\<lambda>t. t\<lparr>DbgNextPtr := None, DbgPrevPtr := None\<rparr>)
            (upd_tmr nx (\<lambda>t. t\<lparr>DbgPrevPtr := Some pv\<rparr>) (upd_tmr pv (\<lambda>t. t\<lparr>DbgNextPtr := Some nx\<rparr>) w)))"

text \<open>The walk along a spoke; every timer looked at gets its remaining time brought up to date.\<close>

partial_function (option) tmr_walk :: "nat \<Rightarrow> nat \<Rightarrow> nat \<Rightarrow> os_tmrs \<Rightarrow> os_tmrs option" where
  "tmr_walk s p p1 w =
     (let w = upd_tmr p1 (\<lambda>t. t\<lparr>Remain := Match t - OSTmrTickCtr w\<rparr>) w
      in if Remain (tmr w p1) < Remain (tmr w p) then
           (case TmrNextPtr (tmr w p1) of
              Some q \<Rightarrow> tmr_walk s p q w
            | None \<Rightarrow> Some (upd_tmr p1 (\<lambda>t. t\<lparr>TmrNextPtr := Some p\<rparr>)
                (upd_tmr p (\<lambda>t. t\<lparr>TmrNextPtr := None, TmrPrevPtr := Some p1\<rparr>) w)))
         else
           (case TmrPrevPtr (tmr w p1) of
              None \<Rightarrow> Some (upd_rim s (\<lambda>r. r\<lparr>TmrFirstPtr := Some p\<rparr>)
                (upd_tmr p1 (\<lambda>t. t\<lparr>TmrPrevPtr := Some p\<rparr>)
                  (upd_tmr p (\<lambda>t. t\<lparr>TmrPrevPtr := None, TmrNextPtr := Some p1\<rparr>) w)))
            | Some p0 \<Rightarrow> Some (upd_tmr p1 (\<lambda>t. t\<lparr>TmrPrevPtr := Some p\<rparr>)
                (upd_tmr p0 (\<lambda>t. t\<lparr>TmrNextPtr := Some p\<rparr>)
                  (upd_tmr p (\<lambda>t. t\<lparr>TmrPrevPtr := Some p0, TmrNextPtr := Some p1\<rparr>) w)))))"

text \<open>When the timer will expire.\<close>

definition tmr_match :: "u16 \<Rightarrow> os_tmr \<Rightarrow> u32 \<Rightarrow> u32" where
  "tmr_match opt t now =
     (if opt = OS_OPT_LINK_PERIODIC then Period t + now
      else if Dly t = 0 then Period t + now else Dly t + now)"

definition OS_TmrLink :: "nat \<Rightarrow> u16 \<Rightarrow> os_tmrs \<Rightarrow> os_tmrs option" where
  "OS_TmrLink p opt w =
     (let w = upd_tmr p (\<lambda>t. t\<lparr>State := OS_TMR_STATE_RUNNING, Match := tmr_match opt t (OSTmrTickCtr w)\<rparr>) w;
          s = spoke_of (Match (tmr w p))
      in do {
        w \<leftarrow> (case TmrFirstPtr (OSCfg_TmrWheel w s) of
                None \<Rightarrow> Some (upd_rim s (\<lambda>r. r\<lparr>TmrFirstPtr := Some p, TmrEntries := 1\<rparr>)
                  (upd_tmr p (\<lambda>t. t\<lparr>TmrNextPtr := None, TmrPrevPtr := None\<rparr>) w))
              | Some p1 \<Rightarrow> do {
                  w \<leftarrow> tmr_walk s p p1 (upd_tmr p (\<lambda>t. t\<lparr>Remain := Match t - OSTmrTickCtr w\<rparr>) w);
                  Some (upd_rim s (\<lambda>r. r\<lparr>TmrEntries := TmrEntries r + 1\<rparr>) w) });
        Some (upd_rim s (\<lambda>r. if TmrEntriesMax r < TmrEntries r
                             then r\<lparr>TmrEntriesMax := TmrEntries r\<rparr> else r) w) })"

definition OS_TmrUnlink :: "nat \<Rightarrow> os_tmrs \<Rightarrow> os_tmrs option" where
  "OS_TmrUnlink p w =
     (let s = spoke_of (Match (tmr w p))
      in do {
        w \<leftarrow> (if TmrFirstPtr (OSCfg_TmrWheel w s) = Some p then
                (let p1 = TmrNextPtr (tmr w p);
                     w = upd_rim s (\<lambda>r. r\<lparr>TmrFirstPtr := p1\<rparr>) w
                 in case p1 of
                      None \<Rightarrow> Some w
                    | Some q \<Rightarrow> Some (upd_tmr q (\<lambda>t. t\<lparr>TmrPrevPtr := None\<rparr>) w))
              else do {
                p1 \<leftarrow> TmrPrevPtr (tmr w p);
                let p2 = TmrNextPtr (tmr w p);
                let w = upd_tmr p1 (\<lambda>t. t\<lparr>TmrNextPtr := p2\<rparr>) w;
                case p2 of
                  None \<Rightarrow> Some w
                | Some q \<Rightarrow> Some (upd_tmr q (\<lambda>t. t\<lparr>TmrPrevPtr := Some p1\<rparr>) w) });
        let w = upd_tmr p (\<lambda>t. t\<lparr>State := OS_TMR_STATE_STOPPED, TmrNextPtr := None, TmrPrevPtr := None\<rparr>) w;
        Some (upd_rim s (\<lambda>r. r\<lparr>TmrEntries := TmrEntries r - 1\<rparr>) w) })"

section \<open>The spokes as ordered lists\<close>

abbreviation tmn :: "os_tmrs \<Rightarrow> nat \<Rightarrow> ptr" where "tmn w x \<equiv> TmrNextPtr (tmr w x)"
abbreviation tmp :: "os_tmrs \<Rightarrow> nat \<Rightarrow> ptr" where "tmp w x \<equiv> TmrPrevPtr (tmr w x)"
abbreviation rim :: "os_tmrs \<Rightarrow> nat \<Rightarrow> os_tmr_spoke" where "rim \<equiv> OSCfg_TmrWheel"

text \<open>How many ticks of the timers remain.\<close>

definition left :: "os_tmrs \<Rightarrow> nat \<Rightarrow> u32" where
  "left w x = Match (tmr w x) - OSTmrTickCtr w"

definition rim_ok :: "os_tmrs \<Rightarrow> nat \<Rightarrow> nat list \<Rightarrow> bool" where
  "rim_ok w s xs \<longleftrightarrow> seg (tmn w) (tmp w) None xs None \<and> distinct xs
     \<and> TmrFirstPtr (rim w s) = first_ptr xs None \<and> TmrEntries (rim w s) = length xs
     \<and> sorted (map (left w) xs)
     \<and> (\<forall>x \<in> set xs. State (tmr w x) = OS_TMR_STATE_RUNNING \<and> spoke_of (Match (tmr w x)) = s)"

definition rims_ok :: "os_tmrs \<Rightarrow> (nat \<Rightarrow> nat list) \<Rightarrow> bool" where
  "rims_ok w W \<longleftrightarrow> (\<forall>s < WHEEL. rim_ok w s (W s))
     \<and> (\<forall>x. State (tmr w x) = OS_TMR_STATE_RUNNING \<longrightarrow> (\<exists>s < WHEEL. x \<in> set (W s)))"

lemmas tmr_defs = upd_tmr_def upd_rim_def

text \<open>What is left of a timer without its links and the time last computed.\<close>

definition tmr_core :: "os_tmr \<Rightarrow> os_tmr" where
  "tmr_core t = t\<lparr>TmrNextPtr := None, TmrPrevPtr := None, Remain := 0\<rparr>"

lemma tmr_core_upd [simp]:
  "tmr_core (t\<lparr>TmrNextPtr := a\<rparr>) = tmr_core t" "tmr_core (t\<lparr>TmrPrevPtr := a\<rparr>) = tmr_core t"
  "tmr_core (t\<lparr>Remain := c\<rparr>) = tmr_core t"
  by (simp_all add: tmr_core_def)

lemma tmr_core_eqD:
  assumes "tmr_core t = tmr_core u"
  shows "Match t = Match u" "State t = State u" "Type t = Type u" "CallbackPtr t = CallbackPtr u"
    "CallbackPtrArg t = CallbackPtrArg u" "Dly t = Dly u" "Period t = Period u" "Opt t = Opt u"
    "DbgPrevPtr t = DbgPrevPtr u" "DbgNextPtr t = DbgNextPtr u"
  using arg_cong [OF assms, of Match] arg_cong [OF assms, of State] arg_cong [OF assms, of Type]
    arg_cong [OF assms, of CallbackPtr] arg_cong [OF assms, of CallbackPtrArg] arg_cong [OF assms, of Dly]
    arg_cong [OF assms, of Period] arg_cong [OF assms, of Opt] arg_cong [OF assms, of DbgPrevPtr]
    arg_cong [OF assms, of DbgNextPtr]
  by (simp_all add: tmr_core_def)

lemma tmr_core_State: "tmr_core t = tmr_core u \<Longrightarrow> tmr_core (t\<lparr>State := a\<rparr>) = tmr_core (u\<lparr>State := a\<rparr>)"
  by (cases t; cases u) (simp add: tmr_core_def)

lemma tmr_core_Match: "tmr_core t = tmr_core u \<Longrightarrow> tmr_core (t\<lparr>Match := a\<rparr>) = tmr_core (u\<lparr>Match := a\<rparr>)"
  by (cases t; cases u) (simp add: tmr_core_def)

definition tmr_globals :: "os_tmrs \<Rightarrow> u32 \<times> u16 \<times> ptr" where
  "tmr_globals w = (OSTmrTickCtr w, OSTmrQty w, OSTmrDbgListPtr w)"

lemma tmr_globals_upd [simp]: "tmr_globals (upd_tmr p f w) = tmr_globals w" "tmr_globals (upd_rim s g w) = tmr_globals w"
  by (simp_all add: tmr_globals_def tmr_defs)

lemma tmr_globalsD:
  assumes "tmr_globals w' = tmr_globals w"
  shows "OSTmrTickCtr w' = OSTmrTickCtr w" "OSTmrQty w' = OSTmrQty w" "OSTmrDbgListPtr w' = OSTmrDbgListPtr w"
  using assms by (simp_all add: tmr_globals_def)

lemma tmr_sel:
  "OSTmrTickCtr (upd_tmr p f w) = OSTmrTickCtr w" "OSTmrTickCtr (upd_rim s g w) = OSTmrTickCtr w"
  "tmr (upd_rim s g w) = tmr w" "rim (upd_tmr p f w) = rim w"
  "tmr (upd_tmr p f w) x = (if x = p then f (tmr w p) else tmr w x)"
  "rim (upd_rim s g w) i = (if i = s then g (rim w s) else rim w i)"
  by (simp_all add: tmr_defs)

text \<open>What the walk along spoke \<open>s\<close> leaves alone, when only the links of \<open>X\<close> change.\<close>

definition link_frame :: "nat \<Rightarrow> nat set \<Rightarrow> os_tmrs \<Rightarrow> os_tmrs \<Rightarrow> bool" where
  "link_frame s X w w' \<longleftrightarrow> (\<forall>x. tmr_core (tmr w' x) = tmr_core (tmr w x))
     \<and> (\<forall>x. x \<notin> X \<longrightarrow> tmn w' x = tmn w x \<and> tmp w' x = tmp w x)
     \<and> (\<forall>i. i \<noteq> s \<longrightarrow> rim w' i = rim w i) \<and> TmrEntries (rim w' s) = TmrEntries (rim w s)
     \<and> tmr_globals w' = tmr_globals w"

definition tmr_seen :: "nat \<Rightarrow> os_tmrs \<Rightarrow> os_tmrs" where
  "tmr_seen p1 w = upd_tmr p1 (\<lambda>t. t\<lparr>Remain := Match t - OSTmrTickCtr w\<rparr>) w"

lemma tmr_seen_simps [simp]:
  "tmn (tmr_seen p1 w) x = tmn w x" "tmp (tmr_seen p1 w) x = tmp w x" "left (tmr_seen p1 w) = left w"
  "Remain (tmr (tmr_seen p1 w) x) = (if x = p1 then left w x else Remain (tmr w x))"
  "rim (tmr_seen p1 w) = rim w"
  by (simp_all add: tmr_seen_def tmr_defs left_def fun_eq_iff)

lemma link_frame_seen: "link_frame s X (tmr_seen p1 w) w' \<Longrightarrow> link_frame s X w w'"
  unfolding link_frame_def by (simp add: tmr_seen_def tmr_sel)

lemma tmr_walk_on:
  "p \<noteq> p1 \<Longrightarrow> left w p1 < Remain (tmr w p) \<Longrightarrow> tmn w p1 = Some q \<Longrightarrow>
    tmr_walk s p p1 w = tmr_walk s p q (tmr_seen p1 w)"
  by (subst tmr_walk.simps) (simp add: tmr_seen_def [symmetric] Let_def)

lemma tmr_walk_end:
  assumes "seg (tmn w) (tmp w) None (us @ [p1]) None" and "distinct (p # us @ [p1])"
    and "TmrFirstPtr (rim w s) = first_ptr (us @ [p1]) None" and "left w p1 < Remain (tmr w p)"
  shows "\<exists>w'. tmr_walk s p p1 w = Some w' \<and> seg (tmn w') (tmp w') None (us @ [p1, p]) None
    \<and> TmrFirstPtr (rim w' s) = first_ptr (us @ [p1, p]) None \<and> link_frame s (insert p (set (us @ [p1]))) w w'"
proof -
  define w' where "w' = upd_tmr p1 (\<lambda>t. t\<lparr>TmrNextPtr := Some p\<rparr>)
    (upd_tmr p (\<lambda>t. t\<lparr>TmrNextPtr := None, TmrPrevPtr := Some p1\<rparr>) (tmr_seen p1 w))"
  have "tmn w p1 = None" using assms(1) by simp
  then have "tmr_walk s p p1 w = Some w'" using assms(2,4)
    by (subst tmr_walk.simps) (simp add: tmr_seen_def [symmetric] Let_def w'_def)
  moreover have "seg (tmn w') (tmp w') None ((us @ [p1]) @ p # []) None"
    by (rule seg_insert [where nx = "tmn w" and pv = "tmp w"]) (use assms in \<open>auto simp: w'_def tmr_sel\<close>)
  moreover have "link_frame s (insert p (set (us @ [p1]))) (tmr_seen p1 w) w'"
    by (auto simp: link_frame_def w'_def tmr_sel)
  moreover have "TmrFirstPtr (rim w' s) = TmrFirstPtr (rim w s)" by (simp add: w'_def tmr_sel)
  ultimately show ?thesis using assms(3) link_frame_seen by fastforce
qed

lemma tmr_walk_before:
  assumes "seg (tmn w) (tmp w) None (us @ p1 # vs) None" and "distinct (p # us @ p1 # vs)"
    and "TmrFirstPtr (rim w s) = first_ptr (us @ p1 # vs) None" and "\<not> left w p1 < Remain (tmr w p)"
  shows "\<exists>w'. tmr_walk s p p1 w = Some w' \<and> seg (tmn w') (tmp w') None (us @ p # p1 # vs) None
    \<and> TmrFirstPtr (rim w' s) = first_ptr (us @ p # p1 # vs) None \<and> link_frame s (insert p (set (us @ p1 # vs))) w w'"
proof (cases us rule: rev_cases)
  case Nil
  define w' where "w' = upd_rim s (\<lambda>r. r\<lparr>TmrFirstPtr := Some p\<rparr>)
    (upd_tmr p1 (\<lambda>t. t\<lparr>TmrPrevPtr := Some p\<rparr>)
      (upd_tmr p (\<lambda>t. t\<lparr>TmrPrevPtr := None, TmrNextPtr := Some p1\<rparr>) (tmr_seen p1 w)))"
  have "tmp w p1 = None" using assms(1) Nil by simp
  then have "tmr_walk s p p1 w = Some w'" using assms(2,4)
    by (subst tmr_walk.simps) (simp add: tmr_seen_def [symmetric] Let_def w'_def)
  moreover have "seg (tmn w') (tmp w') None ([] @ p # p1 # vs) None"
    by (rule seg_insert [where nx = "tmn w" and pv = "tmp w"]) (use assms Nil in \<open>auto simp: w'_def tmr_sel\<close>)
  moreover have "link_frame s (insert p (set (us @ p1 # vs))) (tmr_seen p1 w) w'"
    by (auto simp: link_frame_def w'_def tmr_sel)
  moreover have "TmrFirstPtr (rim w' s) = Some p" by (simp add: w'_def tmr_sel)
  ultimately show ?thesis using Nil link_frame_seen by fastforce
next
  case (snoc ws v)
  define w' where "w' = upd_tmr p1 (\<lambda>t. t\<lparr>TmrPrevPtr := Some p\<rparr>) (upd_tmr v (\<lambda>t. t\<lparr>TmrNextPtr := Some p\<rparr>)
    (upd_tmr p (\<lambda>t. t\<lparr>TmrPrevPtr := Some v, TmrNextPtr := Some p1\<rparr>) (tmr_seen p1 w)))"
  have "tmp w p1 = Some v" using assms(1) snoc by simp
  then have "tmr_walk s p p1 w = Some w'" using assms(2,4)
    by (subst tmr_walk.simps) (simp add: tmr_seen_def [symmetric] Let_def w'_def)
  moreover have "seg (tmn w') (tmp w') None (us @ p # p1 # vs) None"
    by (rule seg_insert [where nx = "tmn w" and pv = "tmp w"]) (use assms snoc in \<open>auto simp: w'_def tmr_sel\<close>)
  moreover have "link_frame s (insert p (set (us @ p1 # vs))) (tmr_seen p1 w) w'"
    using snoc by (auto simp: link_frame_def w'_def tmr_sel)
  moreover have "TmrFirstPtr (rim w' s) = TmrFirstPtr (rim w s)" by (simp add: w'_def tmr_sel)
  ultimately show ?thesis using assms(3) snoc link_frame_seen by fastforce
qed

lemma tmr_walk_places:
  assumes "seg (tmn w) (tmp w) None (us @ p1 # vs) None" and "distinct (p # us @ p1 # vs)"
    and "TmrFirstPtr (rim w s) = first_ptr (us @ p1 # vs) None"
    and "Remain (tmr w p) = d" and "\<And>u. u \<in> set us \<Longrightarrow> left w u < d"
  shows "\<exists>w'. tmr_walk s p p1 w = Some w'
    \<and> seg (tmn w') (tmp w') None (placed (left w) d p (us @ p1 # vs)) None
    \<and> TmrFirstPtr (rim w' s) = first_ptr (placed (left w) d p (us @ p1 # vs)) None
    \<and> link_frame s (insert p (set (us @ p1 # vs))) w w'"
  using assms
proof (induction vs arbitrary: us p1 w)
  case Nil
  show ?case
  proof (cases "left w p1 < d")
    case True
    then have "placed (left w) d p (us @ [p1]) = us @ [p1, p]" using Nil.prems(5) by (simp add: placed_def)
    with tmr_walk_end [OF Nil.prems(1-3)] True Nil.prems(4) show ?thesis by simp
  next
    case False
    then have "placed (left w) d p (us @ [p1]) = us @ [p, p1]" using Nil.prems(5) by (simp add: placed_def)
    with tmr_walk_before [OF Nil.prems(1-3)] False Nil.prems(4) show ?thesis by simp
  qed
next
  case (Cons v vs)
  show ?case
  proof (cases "left w p1 < d")
    case True
    have n: "tmn w p1 = Some v" "p \<noteq> p1" using Cons.prems(1,2) by simp_all
    have walk: "tmr_walk s p p1 w = tmr_walk s p v (tmr_seen p1 w)"
      using tmr_walk_on [OF n(2) _ n(1)] True Cons.prems(4) by simp
    have "\<exists>w'. tmr_walk s p v (tmr_seen p1 w) = Some w'
      \<and> seg (tmn w') (tmp w') None (placed (left (tmr_seen p1 w)) d p ((us @ [p1]) @ v # vs)) None
      \<and> TmrFirstPtr (rim w' s) = first_ptr (placed (left (tmr_seen p1 w)) d p ((us @ [p1]) @ v # vs)) None
      \<and> link_frame s (insert p (set ((us @ [p1]) @ v # vs))) (tmr_seen p1 w) w'"
      by (rule Cons.IH) (use Cons.prems True n in auto)
    then show ?thesis unfolding walk using link_frame_seen by auto
  next
    case False
    then have "placed (left w) d p (us @ p1 # v # vs) = us @ p # p1 # v # vs"
      using Cons.prems(5) by (simp add: placed_def)
    with tmr_walk_before [OF Cons.prems(1-3)] False Cons.prems(4) show ?thesis by simp
  qed
qed

section \<open>Linking and unlinking a timer\<close>

lemma rim_ok_cong:
  assumes "rim_ok w s xs"
    and "\<And>x. x \<in> set xs \<Longrightarrow> tmn w' x = tmn w x \<and> tmp w' x = tmp w x
      \<and> Match (tmr w' x) = Match (tmr w x) \<and> State (tmr w' x) = State (tmr w x)"
    and "TmrFirstPtr (rim w' s) = TmrFirstPtr (rim w s)" and "TmrEntries (rim w' s) = TmrEntries (rim w s)"
    and "OSTmrTickCtr w' = OSTmrTickCtr w"
  shows "rim_ok w' s xs"
proof -
  have "seg (tmn w') (tmp w') None xs None = seg (tmn w) (tmp w) None xs None"
    by (rule seg_cong) (use assms(2) in auto)
  moreover have "map (left w') xs = map (left w) xs" using assms(2,5) by (simp add: left_def)
  then have "sorted (map (left w') xs)" using assms(1) by (simp only: rim_ok_def)
  ultimately show ?thesis using assms by (simp add: rim_ok_def)
qed

lemma rims_ok_rim: "rims_ok w W \<Longrightarrow> s < WHEEL \<Longrightarrow> rim_ok w s (W s)"
  by (simp add: rims_ok_def)

lemma rims_ok_in:
  "rims_ok w W \<Longrightarrow> s < WHEEL \<Longrightarrow> x \<in> set (W s) \<Longrightarrow> State (tmr w x) = OS_TMR_STATE_RUNNING \<and> spoke_of (Match (tmr w x)) = s"
  by (simp add: rims_ok_def rim_ok_def)

text \<open>A running timer is in the spoke of its match value, and only there.\<close>

lemma rims_ok_place:
  assumes "rims_ok w W"
  shows "State (tmr w x) = OS_TMR_STATE_RUNNING \<longleftrightarrow> x \<in> set (W (spoke_of (Match (tmr w x))))"
proof
  assume "State (tmr w x) = OS_TMR_STATE_RUNNING"
  then obtain s where "s < WHEEL" "x \<in> set (W s)" using assms by (auto simp: rims_ok_def)
  then show "x \<in> set (W (spoke_of (Match (tmr w x))))" using rims_ok_in [OF assms] by simp
next
  assume "x \<in> set (W (spoke_of (Match (tmr w x))))"
  then show "State (tmr w x) = OS_TMR_STATE_RUNNING" using rims_ok_in [OF assms spoke_of_less] by blast
qed

lemma rims_change:
  assumes "rims_ok w W" and s: "s < WHEEL" and ys: "rim_ok w' s ys"
    and "\<And>j. j \<noteq> s \<Longrightarrow> rim w' j = rim w j" and "OSTmrTickCtr w' = OSTmrTickCtr w"
    and same: "\<And>j x. j < WHEEL \<Longrightarrow> j \<noteq> s \<Longrightarrow> x \<in> set (W j) \<Longrightarrow> tmn w' x = tmn w x \<and> tmp w' x = tmp w x
      \<and> Match (tmr w' x) = Match (tmr w x) \<and> State (tmr w' x) = State (tmr w x)"
    and on: "\<And>x. State (tmr w' x) = OS_TMR_STATE_RUNNING \<Longrightarrow> x \<in> set ys \<or> (\<exists>j < WHEEL. j \<noteq> s \<and> x \<in> set (W j))"
  shows "rims_ok w' (W(s := ys))"
proof -
  have "rim_ok w' j ((W(s := ys)) j)" if j: "j < WHEEL" for j
  proof (cases "j = s")
    case False
    have "rim_ok w' j (W j)"
      by (rule rim_ok_cong [OF rims_ok_rim [OF assms(1) j]]) (use same [OF j False] assms(4,5) False in auto)
    then show ?thesis using False by simp
  qed (use ys in simp)
  moreover have "\<exists>j < WHEEL. x \<in> set ((W(s := ys)) j)" if "State (tmr w' x) = OS_TMR_STATE_RUNNING" for x
    using on [OF that] s by (auto intro: exI [of _ s])
  ultimately show ?thesis by (simp add: rims_ok_def)
qed

text \<open>Only the timer \<open>p\<close> differs, apart from links.\<close>

definition tmr_only :: "nat \<Rightarrow> os_tmrs \<Rightarrow> os_tmrs \<Rightarrow> bool" where
  "tmr_only p w w' \<longleftrightarrow> (\<forall>x. x \<noteq> p \<longrightarrow> tmr_core (tmr w' x) = tmr_core (tmr w x)) \<and> tmr_globals w' = tmr_globals w"

lemma tmr_only_upd [simp]: "tmr_only p w (upd_tmr p f w)"
  by (simp add: tmr_only_def tmr_sel)

lemma tmr_only_refl [simp]: "tmr_only p w w"
  by (simp add: tmr_only_def)

lemma tmr_only_trans: "tmr_only p w w1 \<Longrightarrow> tmr_only p w1 w2 \<Longrightarrow> tmr_only p w w2"
  by (simp add: tmr_only_def)

lemma tmr_only_left:
  "tmr_only p w w' \<Longrightarrow> x \<noteq> p \<Longrightarrow> tmr_core (tmr w' x) = tmr_core (tmr w x) \<and> left w' x = left w x"
  using tmr_core_eqD(1) tmr_globalsD(1) by (metis left_def tmr_only_def)

lemma seg_alone: "seg nx pv None [p] None \<longleftrightarrow> pv p = None \<and> nx p = None"
  by auto

text \<open>The links of a spoke after \<open>OS_TmrLink\<close>, before the counters are brought up to date.\<close>

lemma link_places:
  assumes ok: "rim_ok w s xs" and p: "p \<notin> set xs"
  shows "\<exists>w'. (case TmrFirstPtr (rim w s) of
        None \<Rightarrow> Some (upd_rim s (\<lambda>r. r\<lparr>TmrFirstPtr := Some p, TmrEntries := 1\<rparr>)
          (upd_tmr p (\<lambda>t. t\<lparr>TmrNextPtr := None, TmrPrevPtr := None\<rparr>) w))
      | Some p1 \<Rightarrow> do {
          w \<leftarrow> tmr_walk s p p1 (upd_tmr p (\<lambda>t. t\<lparr>Remain := Match t - OSTmrTickCtr w\<rparr>) w);
          Some (upd_rim s (\<lambda>r. r\<lparr>TmrEntries := TmrEntries r + 1\<rparr>) w) }) = Some w'
    \<and> seg (tmn w') (tmp w') None (placed (left w) (left w p) p xs) None
    \<and> TmrFirstPtr (rim w' s) = first_ptr (placed (left w) (left w p) p xs) None
    \<and> TmrEntries (rim w' s) = Suc (length xs) \<and> (\<forall>j. j \<noteq> s \<longrightarrow> rim w' j = rim w j)
    \<and> (\<forall>x. tmr_core (tmr w' x) = tmr_core (tmr w x)) \<and> tmr_globals w' = tmr_globals w
    \<and> (\<forall>x. x \<notin> insert p (set xs) \<longrightarrow> tmn w' x = tmn w x \<and> tmp w' x = tmp w x)"
proof (cases xs)
  case Nil
  then have "TmrFirstPtr (rim w s) = None" using ok by (simp add: rim_ok_def)
  then show ?thesis using Nil by (simp add: tmr_sel)
next
  case (Cons p1 vs)
  let ?w = "upd_tmr p (\<lambda>t. t\<lparr>Remain := Match t - OSTmrTickCtr w\<rparr>) w"
  have w: "tmn ?w = tmn w" "tmp ?w = tmp w" "left ?w = left w" "rim ?w = rim w" "Remain (tmr ?w p) = left w p"
    by (simp_all add: tmr_sel left_def fun_eq_iff)
  have "seg (tmn ?w) (tmp ?w) None ([] @ p1 # vs) None" "distinct (p # [] @ p1 # vs)"
    "TmrFirstPtr (rim ?w s) = first_ptr ([] @ p1 # vs) None"
    using ok p Cons by (simp_all add: rim_ok_def w)
  from tmr_walk_places [OF this w(5)] obtain w1 where w1: "tmr_walk s p p1 ?w = Some w1"
    "seg (tmn w1) (tmp w1) None (placed (left w) (left w p) p xs) None"
    "TmrFirstPtr (rim w1 s) = first_ptr (placed (left w) (left w p) p xs) None"
    "link_frame s (insert p (set xs)) ?w w1"
    using Cons by (auto simp: w(3))
  have f: "\<And>x. tmr_core (tmr w1 x) = tmr_core (tmr w x)" "tmr_globals w1 = tmr_globals w"
    "\<And>x. x \<notin> insert p (set xs) \<Longrightarrow> tmn w1 x = tmn w x \<and> tmp w1 x = tmp w x"
    "\<And>j. j \<noteq> s \<Longrightarrow> rim w1 j = rim w j" "TmrEntries (rim w1 s) = TmrEntries (rim w s)"
    using w1(4) unfolding link_frame_def by (auto simp: tmr_sel)
  have "TmrFirstPtr (rim w s) = Some p1" "TmrEntries (rim w s) = length xs" using ok Cons by (simp_all add: rim_ok_def)
  then show ?thesis using w1(1-3) f
    by (intro exI [of _ "upd_rim s (\<lambda>r. r\<lparr>TmrEntries := TmrEntries r + 1\<rparr>) w1"]) (simp add: tmr_sel)
qed

lemma TmrLink_refines:
  assumes inv: "rims_ok w W" and new: "State (tmr w p) \<noteq> OS_TMR_STATE_RUNNING"
    and m: "m = tmr_match opt (tmr w p) (OSTmrTickCtr w)" and s: "s = spoke_of m"
  shows "\<exists>w'. OS_TmrLink p opt w = Some w' \<and> rims_ok w' (W(s := placed (left w) (m - OSTmrTickCtr w) p (W s)))
    \<and> tmr_only p w w' \<and> tmr_core (tmr w' p) = tmr_core ((tmr w p)\<lparr>State := OS_TMR_STATE_RUNNING, Match := m\<rparr>)"
proof -
  define w1 where "w1 = upd_tmr p (\<lambda>t. t\<lparr>State := OS_TMR_STATE_RUNNING, Match := tmr_match opt t (OSTmrTickCtr w)\<rparr>) w"
  have s17: "s < WHEEL" using s spoke_of_less by simp
  have out: "p \<notin> set (W j)" if "j < WHEEL" for j using new rims_ok_in [OF inv that, of p] by auto
  have t1: "tmr w1 x = (if x = p then (tmr w p)\<lparr>State := OS_TMR_STATE_RUNNING, Match := m\<rparr> else tmr w x)" for x
    by (simp add: w1_def tmr_sel m)
  have g1: "rim w1 = rim w" "OSTmrTickCtr w1 = OSTmrTickCtr w" "tmr_globals w1 = tmr_globals w"
    by (simp_all add: w1_def tmr_sel)
  have l1: "left w1 x = left w x" if "x \<noteq> p" for x using that by (simp add: left_def t1 g1)
  have lp: "left w1 p = m - OSTmrTickCtr w" by (simp add: left_def t1 g1)
  let ?ys = "placed (left w1) (left w1 p) p (W s)"
  have "rim_ok w1 s (W s)" by (rule rim_ok_cong [OF rims_ok_rim [OF inv s17]]) (use out [OF s17] in \<open>auto simp: t1 g1\<close>)
  note ok = this
  from link_places [OF ok out [OF s17]] obtain w2 where w2:
    "(case TmrFirstPtr (rim w1 s) of
        None \<Rightarrow> Some (upd_rim s (\<lambda>r. r\<lparr>TmrFirstPtr := Some p, TmrEntries := 1\<rparr>)
          (upd_tmr p (\<lambda>t. t\<lparr>TmrNextPtr := None, TmrPrevPtr := None\<rparr>) w1))
      | Some p1 \<Rightarrow> do {
          w \<leftarrow> tmr_walk s p p1 (upd_tmr p (\<lambda>t. t\<lparr>Remain := Match t - OSTmrTickCtr w1\<rparr>) w1);
          Some (upd_rim s (\<lambda>r. r\<lparr>TmrEntries := TmrEntries r + 1\<rparr>) w) }) = Some w2"
    "seg (tmn w2) (tmp w2) None ?ys None" "TmrFirstPtr (rim w2 s) = first_ptr ?ys None"
    "TmrEntries (rim w2 s) = Suc (length (W s))" "\<And>j. j \<noteq> s \<Longrightarrow> rim w2 j = rim w1 j"
    "\<And>x. tmr_core (tmr w2 x) = tmr_core (tmr w1 x)" "tmr_globals w2 = tmr_globals w1"
    "\<And>x. x \<notin> insert p (set (W s)) \<Longrightarrow> tmn w2 x = tmn w1 x \<and> tmp w2 x = tmp w1 x"
    by blast
  define w3 where "w3 = upd_rim s (\<lambda>r. if TmrEntriesMax r < TmrEntries r then r\<lparr>TmrEntriesMax := TmrEntries r\<rparr> else r) w2"
  have sp: "spoke_of (Match (tmr w1 p)) = s" using s t1 [of p] by simp
  have res: "OS_TmrLink p opt w = Some w3"
    by (simp only: OS_TmrLink_def Let_def w1_def [symmetric] sp w2(1) bind.bind_lunit w3_def)
  have t3: "tmr w3 = tmr w2" "tmr_globals w3 = tmr_globals w" "OSTmrTickCtr w3 = OSTmrTickCtr w"
    using w2(7) g1(3) tmr_globalsD(1) [of w3 w] by (simp_all add: w3_def tmr_sel)
  have r3: "TmrFirstPtr (rim w3 s) = TmrFirstPtr (rim w2 s)" "TmrEntries (rim w3 s) = TmrEntries (rim w2 s)"
    "\<And>j. j \<noteq> s \<Longrightarrow> rim w3 j = rim w j"
    using w2(5) g1(1) by (simp_all add: w3_def tmr_sel)
  note eq = tmr_core_eqD [OF w2(6)]
  have l3: "left w3 = left w1" by (simp add: left_def fun_eq_iff t3 eq g1)
  have "rim_ok w3 s ?ys"
  proof -
    have "sorted (map (left w3) ?ys)" by (rule sorted_placed) (use ok l3 in \<open>simp_all add: rim_ok_def\<close>)
    moreover have "distinct ?ys" using ok out [OF s17] by (simp add: distinct_placed rim_ok_def)
    moreover have "State (tmr w3 x) = OS_TMR_STATE_RUNNING \<and> spoke_of (Match (tmr w3 x)) = s" if "x \<in> set ?ys" for x
      using that ok sp by (auto simp: rim_ok_def t3 eq t1)
    ultimately show ?thesis unfolding rim_ok_def r3 t3 using w2(2-4) by simp
  qed
  then have "rims_ok w3 (W(s := ?ys))"
  proof (rule rims_change [OF inv s17])
    fix j x assume j: "j < WHEEL" "j \<noteq> s" "x \<in> set (W j)"
    then have "x \<noteq> p" "x \<notin> set (W s)" using out rims_ok_in [OF inv s17, of x] rims_ok_in [OF inv j(1,3)] by auto
    then show "tmn w3 x = tmn w x \<and> tmp w3 x = tmp w x \<and> Match (tmr w3 x) = Match (tmr w x) \<and> State (tmr w3 x) = State (tmr w x)"
      using w2(8) by (simp add: t3 eq t1)
  next
    fix x assume "State (tmr w3 x) = OS_TMR_STATE_RUNNING"
    then have "x = p \<or> State (tmr w x) = OS_TMR_STATE_RUNNING" by (simp add: t3 eq t1 split: if_splits)
    then show "x \<in> set ?ys \<or> (\<exists>j < WHEEL. j \<noteq> s \<and> x \<in> set (W j))" using inv by (auto simp: rims_ok_def)
  qed (use r3(3) t3(3) in auto)
  moreover have "?ys = placed (left w) (m - OSTmrTickCtr w) p (W s)"
    unfolding lp by (rule placed_cong, rule l1) (use out [OF s17] in auto)
  moreover have "tmr_only p w w3" by (simp add: tmr_only_def t3 w2(6) t1)
  moreover have "tmr_core (tmr w3 p) = tmr_core ((tmr w p)\<lparr>State := OS_TMR_STATE_RUNNING, Match := m\<rparr>)"
    by (simp add: t3 w2(6) t1)
  ultimately show ?thesis using res by auto
qed

text \<open>The links of a spoke after \<open>OS_TmrUnlink\<close>.\<close>

lemma unlink_places:
  assumes ok: "rim_ok w s (ys @ p # zs)"
  shows "\<exists>w'. (if TmrFirstPtr (rim w s) = Some p then
        (let p1 = TmrNextPtr (tmr w p); w = upd_rim s (\<lambda>r. r\<lparr>TmrFirstPtr := p1\<rparr>) w
         in case p1 of None \<Rightarrow> Some w | Some q \<Rightarrow> Some (upd_tmr q (\<lambda>t. t\<lparr>TmrPrevPtr := None\<rparr>) w))
      else do {
        p1 \<leftarrow> TmrPrevPtr (tmr w p);
        let p2 = TmrNextPtr (tmr w p);
        let w = upd_tmr p1 (\<lambda>t. t\<lparr>TmrNextPtr := p2\<rparr>) w;
        case p2 of None \<Rightarrow> Some w | Some q \<Rightarrow> Some (upd_tmr q (\<lambda>t. t\<lparr>TmrPrevPtr := Some p1\<rparr>) w) }) = Some w'
    \<and> (\<forall>x. tmn w' x = (if last_ptr None ys = Some x then first_ptr zs None else tmn w x))
    \<and> (\<forall>x. tmp w' x = (if first_ptr zs None = Some x then last_ptr None ys else tmp w x))
    \<and> TmrFirstPtr (rim w' s) = first_ptr (ys @ zs) None
    \<and> TmrEntries (rim w' s) = TmrEntries (rim w s) \<and> (\<forall>j. j \<noteq> s \<longrightarrow> rim w' j = rim w j)
    \<and> (\<forall>x. tmr_core (tmr w' x) = tmr_core (tmr w x)) \<and> tmr_globals w' = tmr_globals w"
proof -
  have l: "tmn w p = first_ptr zs None" "tmp w p = last_ptr None ys" "p \<notin> set ys"
    "TmrFirstPtr (rim w s) = first_ptr (ys @ p # zs) None"
    using ok by (simp_all add: rim_ok_def)
  show ?thesis
  proof (cases ys rule: rev_cases)
    case Nil
    then show ?thesis using l by (cases zs) (simp_all add: tmr_sel)
  next
    case (snoc us u)
    then have "TmrFirstPtr (rim w s) \<noteq> Some p" "TmrFirstPtr (rim w s) = first_ptr (ys @ zs) None"
      using l(3,4) by (cases us; auto)+
    then show ?thesis using l snoc by (cases zs) (simp_all add: tmr_sel)
  qed
qed

lemma TmrUnlink_refines:
  assumes inv: "rims_ok w W" and p: "State (tmr w p) = OS_TMR_STATE_RUNNING" and s: "s = spoke_of (Match (tmr w p))"
  shows "\<exists>w'. OS_TmrUnlink p w = Some w' \<and> rims_ok w' (W(s := remove1 p (W s))) \<and> tmr_only p w w'
    \<and> tmr_core (tmr w' p) = tmr_core ((tmr w p)\<lparr>State := OS_TMR_STATE_STOPPED\<rparr>)"
proof -
  have s17: "s < WHEEL" using s spoke_of_less by simp
  have mem: "p \<in> set (W s)" using rims_ok_place [OF inv] p s by simp
  note ok = rims_ok_rim [OF inv s17]
  have d: "distinct (W s)" and sg: "seg (tmn w) (tmp w) None (W s) None" using ok by (simp_all add: rim_ok_def)
  obtain ys zs where xs: "W s = ys @ p # zs" "p \<notin> set ys" "p \<notin> set zs" using split_list_first [OF mem] d by fastforce
  have dis: "x \<notin> set ys \<or> x \<notin> set zs" for x using d xs(1) by auto
  have rem: "remove1 p (W s) = ys @ zs" using xs by (simp add: remove1_append)
  from unlink_places [OF ok [unfolded xs(1)]] obtain w1 where w1:
    "(if TmrFirstPtr (rim w s) = Some p then
        (let p1 = TmrNextPtr (tmr w p); w = upd_rim s (\<lambda>r. r\<lparr>TmrFirstPtr := p1\<rparr>) w
         in case p1 of None \<Rightarrow> Some w | Some q \<Rightarrow> Some (upd_tmr q (\<lambda>t. t\<lparr>TmrPrevPtr := None\<rparr>) w))
      else do {
        p1 \<leftarrow> TmrPrevPtr (tmr w p);
        let p2 = TmrNextPtr (tmr w p);
        let w = upd_tmr p1 (\<lambda>t. t\<lparr>TmrNextPtr := p2\<rparr>) w;
        case p2 of None \<Rightarrow> Some w | Some q \<Rightarrow> Some (upd_tmr q (\<lambda>t. t\<lparr>TmrPrevPtr := Some p1\<rparr>) w) }) = Some w1"
    "\<And>x. tmn w1 x = (if last_ptr None ys = Some x then first_ptr zs None else tmn w x)"
    "\<And>x. tmp w1 x = (if first_ptr zs None = Some x then last_ptr None ys else tmp w x)"
    "TmrFirstPtr (rim w1 s) = first_ptr (ys @ zs) None"
    "TmrEntries (rim w1 s) = TmrEntries (rim w s)" "\<And>j. j \<noteq> s \<Longrightarrow> rim w1 j = rim w j"
    "\<And>x. tmr_core (tmr w1 x) = tmr_core (tmr w x)" "tmr_globals w1 = tmr_globals w"
    by blast
  define w2 where "w2 = upd_rim s (\<lambda>r. r\<lparr>TmrEntries := TmrEntries r - 1\<rparr>)
    (upd_tmr p (\<lambda>t. t\<lparr>State := OS_TMR_STATE_STOPPED, TmrNextPtr := None, TmrPrevPtr := None\<rparr>) w1)"
  have res: "OS_TmrUnlink p w = Some w2"
    unfolding OS_TmrUnlink_def s [symmetric] Let_def [of s] w1(1) w2_def by (simp add: Let_def)
  note eq = tmr_core_eqD [OF w1(7)]
  have t2: "\<And>x. x \<noteq> p \<Longrightarrow> tmr w2 x = tmr w1 x" "State (tmr w2 p) = OS_TMR_STATE_STOPPED" "tmr_globals w2 = tmr_globals w"
    "OSTmrTickCtr w2 = OSTmrTickCtr w"
    using w1(8) tmr_globalsD(1) [OF w1(8)] by (simp_all add: w2_def tmr_sel)
  have r2: "TmrFirstPtr (rim w2 s) = first_ptr (ys @ zs) None" "TmrEntries (rim w2 s) = length (ys @ zs)"
    "\<And>j. j \<noteq> s \<Longrightarrow> rim w2 j = rim w j"
    using w1(4-6) ok xs(1) by (simp_all add: w2_def tmr_sel rim_ok_def)
  have in2: "tmn w2 x = tmn w1 x \<and> tmp w2 x = tmp w1 x \<and> Match (tmr w2 x) = Match (tmr w x) \<and> State (tmr w2 x) = State (tmr w x)"
    if "x \<noteq> p" for x using that t2(1) eq by simp
  have np: "x \<noteq> p" if "x \<in> set (ys @ zs)" for x using that xs(2,3) by auto
  have "rim_ok w2 s (ys @ zs)"
  proof -
    have "x \<in> set ys \<Longrightarrow> first_ptr zs None \<noteq> Some x" "x \<in> set zs \<Longrightarrow> last_ptr None ys \<noteq> Some x" for x
      using dis [of x] by (auto dest: first_ptr_in last_ptr_in)
    then have "seg (tmn w1) (tmp w1) None (ys @ zs) None"
      by (intro seg_remove [OF sg [unfolded xs(1)] d [unfolded xs(1)]])
        (simp_all add: w1(2,3) first_ptr_in last_ptr_in)
    moreover have "seg (tmn w2) (tmp w2) None (ys @ zs) None = seg (tmn w1) (tmp w1) None (ys @ zs) None"
      by (rule seg_cong) (use in2 np in blast)+
    ultimately have "seg (tmn w2) (tmp w2) None (ys @ zs) None" by (simp only:)
    moreover have "map (left w2) (ys @ zs) = map (left w) (ys @ zs)"
      by (intro map_cong refl) (use in2 np t2(4) in \<open>simp add: left_def\<close>)
    moreover have "sorted (map (left w) (ys @ zs))" using ok xs(1) by (auto simp: rim_ok_def sorted_append)
    moreover have "State (tmr w2 x) = OS_TMR_STATE_RUNNING \<and> spoke_of (Match (tmr w2 x)) = s" if "x \<in> set (ys @ zs)" for x
      using that in2 [OF np [OF that]] rims_ok_in [OF inv s17, of x] xs(1) by auto
    moreover have "distinct (ys @ zs)" using d xs(1) by simp
    ultimately show ?thesis unfolding rim_ok_def using r2(1,2) by (simp only:) blast
  qed
  then have "rims_ok w2 (W(s := ys @ zs))"
  proof (rule rims_change [OF inv s17])
    fix j x assume j: "j < WHEEL" "j \<noteq> s" "x \<in> set (W j)"
    then have "x \<notin> set (W s)" using rims_ok_in [OF inv s17, of x] rims_ok_in [OF inv j(1,3)] by auto
    then have "x \<noteq> p" "last_ptr None ys \<noteq> Some x" "first_ptr zs None \<noteq> Some x"
      using xs(1) by (auto dest: first_ptr_in last_ptr_in)
    then show "tmn w2 x = tmn w x \<and> tmp w2 x = tmp w x \<and> Match (tmr w2 x) = Match (tmr w x) \<and> State (tmr w2 x) = State (tmr w x)"
      using in2 by (simp add: w1(2,3))
  next
    fix x assume a: "State (tmr w2 x) = OS_TMR_STATE_RUNNING"
    then have nx: "x \<noteq> p" using t2(2) by auto
    then have "State (tmr w x) = OS_TMR_STATE_RUNNING" using a in2 by simp
    then obtain j where "j < WHEEL" "x \<in> set (W j)" using inv by (auto simp: rims_ok_def)
    with nx show "x \<in> set (ys @ zs) \<or> (\<exists>j < WHEEL. j \<noteq> s \<and> x \<in> set (W j))"
      using xs(1) by (cases "j = s") auto
  qed (use r2(3) t2(4) in auto)
  moreover have "tmr_only p w w2" using t2(1,3) w1(7) by (simp add: tmr_only_def)
  moreover have "tmr_core (tmr w2 p) = tmr_core ((tmr w p)\<lparr>State := OS_TMR_STATE_STOPPED\<rparr>)"
    using tmr_core_State [OF w1(7)] by (simp add: w2_def tmr_sel)
  ultimately show ?thesis using res rem by auto
qed

end
