(* ===== verification/Os_Kernel.thy ===== *)
theory Os_Kernel
  imports Os_Service
begin

text \<open>
  The kernel as a whole: the calls and interrupts it serves, in any order.  Every reachable state is
  safe and every call returns; a delay ends on time and a message posted to a waiting task reaches
  it, whatever is called in between.
\<close>

section \<open>Ticks\<close>

text \<open>A tick wakes the tasks whose time has come and brings the others one tick nearer.\<close>

definition comes_due :: "nat set \<Rightarrow> os_kernel \<Rightarrow> nat \<Rightarrow> bool" where
  "comes_due A k x \<longleftrightarrow> x \<in> A \<and> timed (TaskState (tcb k x)) \<and> dist k x = 1"

lemma OS_TickListUpdate_safe:
  assumes s: "kernel_safe A idle n N k"
  shows "\<exists>k'. OS_TickListUpdate stamp k = Some k' \<and> kernel_safe A idle n N k' \<and> OSTickCtr k' = OSTickCtr k + 1
    \<and> (\<forall>x. svc_of (tcb k' x) = svc_of (if comes_due A k x then rung (stamp x) (tcb k x) else tcb k x))
    \<and> (\<forall>x \<in> A. timed (TaskState (tcb k x)) \<and> dist k x \<noteq> 1 \<longrightarrow> dist k' x = dist k x - 1)"
proof -
  obtain Q W where inv: "run_inv A idle k Q W" using safe_run [OF s] run_iff by blast
  then have kv: "kinv A idle k Q W" by (simp add: run_inv_def)
  have due: "comes_due A k x \<longleftrightarrow> in_wheel W x \<and> dist k x = 1" for x
    using kinv_wheel [OF kv, of x] by (auto simp: comes_due_def)
  obtain k' where k': "OS_TickListUpdate stamp k = Some k'" "run_inv A idle k' (fold (rouse k) (due k W) Q) (still k W)"
    "cpu_frame k k'" "OSTickCtr k' = OSTickCtr k + 1"
    "\<And>x. if in_wheel W x \<and> dist k x = 1 then svc_of (tcb k' x) = svc_of (rung (stamp x) (tcb k x))
        else svc_of (tcb k' x) = svc_of (tcb k x)"
    "\<And>x. in_wheel W x \<and> dist k x \<noteq> 1 \<Longrightarrow> dist k' x = dist k x - 1"
    using tick_run [OF inv, of stamp] by blast
  have "run A idle k'" using k'(2) run_iff by blast
  moreover have "msgs k' = msgs k" "roles k' = roles k" using k'(3) by (simp_all add: cpu_frame_def)
  ultimately have "kernel_safe A idle n N k'" using safe_keep [OF s] safe_msgs [OF s] by simp
  moreover have "svc_of (tcb k' x) = svc_of (if comes_due A k x then rung (stamp x) (tcb k x) else tcb k x)" for x
    using k'(5) [of x] by (simp add: due split: if_splits)
  ultimately show ?thesis using k'(1,4,6) kinv_wheel [OF kv] by auto
qed

text \<open>A pass of the tick task: it may block, or process one tick.\<close>

definition passes :: "nat set \<Rightarrow> nat \<Rightarrow> nat \<Rightarrow> nat \<Rightarrow> nat set \<Rightarrow> (nat \<Rightarrow> u32) \<Rightarrow> os_kernel \<Rightarrow> os_kernel option \<Rightarrow> bool" where
  "passes A idle n N D stamp k r \<longleftrightarrow> goes A idle n N D k r
     \<or> (\<exists>k0. goes A idle n N D k (Some k0) \<and> r = OS_TickListUpdate stamp k0)"

lemma signalled_passes:
  assumes "goes A idle n N D k (Some k0)"
  shows "passes A idle n N D stamp k (signalled stamp r k0)"
proof -
  have "signalled stamp r k0 = Some k0 \<or> signalled stamp r k0 = OS_TickListUpdate stamp k0"
    by (simp add: signalled_def split: pend_result.split OS_ERR.split)
  then show ?thesis using assms unfolding passes_def by metis
qed

lemma OS_TickTask_passes:
  assumes "kernel_safe A idle n N k" and "OSTCBCurPtr k = p" and "p \<noteq> idle"
  shows "passes A idle n N {p} stamp k (OS_TickTask stamp k)"
proof -
  have g: "goes A idle n N {p} k (map_option (\<lambda>(_, _, k). k) (OSTaskSemPend 0 OS_OPT_PEND_BLOCKING k))"
    by (rule OSTaskSemPend_goes [OF assms])
  then obtain r c k0 where r: "OSTaskSemPend 0 OS_OPT_PEND_BLOCKING k = Some (r, c, k0)" by (auto simp: goes_def)
  then show ?thesis using signalled_passes [of A idle n N "{p}" k k0 stamp r] g by (simp add: OS_TickTask_def)
qed

lemma OS_TickTask_resume_passes:
  "kernel_safe A idle n N k \<Longrightarrow> passes A idle n N D stamp k (OS_TickTask_resume stamp k)"
  unfolding OS_TickTask_resume_def by (rule signalled_passes [OF goes_id])

section \<open>Calls and interrupts\<close>

text \<open>The calls of the running task, the entry and exit of interrupts, posts, and the passes of the tick task.\<close>

datatype event =
    Delay u32 u16 | DelayHMSM u16 u16 u16 u32 u16 | DelayResume ptr
  | QPend bool u32 u16 | QPost ptr nat u16 u16 u32 | QFlush ptr | QPendAbort ptr u16 u32
  | SemPend u32 u16 | SemPost ptr u16 u32 | SemSet ptr u32 | SemPendAbort ptr u16 u32
  | Suspend ptr | Resume ptr | Yield | Lock | Unlock
  | IntEnter | IntExit | SysTick u32 | TickTask "nat \<Rightarrow> u32" | TickTaskResume "nat \<Rightarrow> u32"

fun serve :: "event \<Rightarrow> os_kernel \<Rightarrow> os_kernel option" where
  "serve (Delay dly opt) k = map_option snd (OSTimeDly dly opt k)"
| "serve (DelayHMSM h m s ms opt) k = map_option snd (OSTimeDlyHMSM h m s ms opt k)"
| "serve (DelayResume p) k = map_option snd (OSTimeDlyResume p k)"
| "serve (QPend size_null timeout opt) k = map_option snd (OSTaskQPend size_null timeout opt k)"
| "serve (QPost p m sz opt ts) k = map_option snd (OSTaskQPost p m sz opt ts k)"
| "serve (QFlush p) k = map_option (\<lambda>(_, _, k). k) (OSTaskQFlush p k)"
| "serve (QPendAbort p opt ts) k = map_option (\<lambda>(_, _, k). k) (OSTaskQPendAbort p opt ts k)"
| "serve (SemPend timeout opt) k = map_option (\<lambda>(_, _, k). k) (OSTaskSemPend timeout opt k)"
| "serve (SemPost p opt ts) k = map_option (\<lambda>(_, _, k). k) (OSTaskSemPost p opt ts k)"
| "serve (SemSet p c) k = Some (snd (snd (OSTaskSemSet p c k)))"
| "serve (SemPendAbort p opt ts) k = map_option (\<lambda>(_, _, k). k) (OSTaskSemPendAbort p opt ts k)"
| "serve (Suspend p) k = map_option snd (OSTaskSuspend p k)"
| "serve (Resume p) k = map_option snd (OSTaskResume p k)"
| "serve Yield k = map_option snd (OSSchedRoundRobinYield k)"
| "serve Lock k = Some (snd (OSSchedLock k))"
| "serve Unlock k = map_option snd (OSSchedUnlock k)"
| "serve IntEnter k = Some (OSIntEnter k)"
| "serve IntExit k = OSIntExit k"
| "serve (SysTick ts) k = SysTick_Handler ts k"
| "serve (TickTask stamp) k = OS_TickTask stamp k"
| "serve (TickTaskResume stamp) k = OS_TickTask_resume stamp k"

text \<open>What can happen at any time, also while the idle task runs.\<close>

fun interrupt :: "event \<Rightarrow> bool" where
  "interrupt (QPost p _ _ _ _) = (p \<noteq> None)"
| "interrupt (SemPost p _ _) = (p \<noteq> None)"
| "interrupt IntEnter = True"
| "interrupt IntExit = True"
| "interrupt (SysTick _) = True"
| "interrupt _ = False"

text \<open>The tasks named exist, a delay until a given time lies ahead, and the idle task makes no calls.\<close>

fun sound_args :: "nat set \<Rightarrow> event \<Rightarrow> os_kernel \<Rightarrow> bool" where
  "sound_args A (Delay dly opt) k = ahead dly opt k"
| "sound_args A (DelayHMSM h m s ms opt) k = ahead (hmsm_ticks h m s ms) (opt AND OS_OPT_TIME_MASK) k"
| "sound_args A (DelayResume p) k = (target p k \<in> A)"
| "sound_args A (QPost p _ _ _ _) k = (target p k \<in> A)"
| "sound_args A (QFlush p) k = (target p k \<in> A)"
| "sound_args A (QPendAbort p _ _) k = (target p k \<in> A)"
| "sound_args A (SemPost p _ _) k = (target p k \<in> A)"
| "sound_args A (SemPendAbort p _ _) k = (target p k \<in> A)"
| "sound_args A (Suspend p) k = (target p k \<in> A)"
| "sound_args A (Resume p) k = (target p k \<in> A)"
| "sound_args A _ k = True"

definition allowed :: "nat set \<Rightarrow> nat \<Rightarrow> event \<Rightarrow> os_kernel \<Rightarrow> bool" where
  "allowed A idle e k \<longleftrightarrow> sound_args A e k \<and> (interrupt e \<or> OSTCBCurPtr k \<noteq> idle)"

text \<open>The tasks that a call may disturb, other than by a tick.\<close>

fun disturbs :: "event \<Rightarrow> os_kernel \<Rightarrow> nat set" where
  "disturbs (Delay _ _) k = {OSTCBCurPtr k}"
| "disturbs (DelayHMSM _ _ _ _ _) k = {OSTCBCurPtr k}"
| "disturbs (DelayResume p) k = set_option p"
| "disturbs (QPend _ _ _) k = {OSTCBCurPtr k}"
| "disturbs (QPost p _ _ _ _) k = receivers (target p k) k"
| "disturbs (QPendAbort p _ _) k = receivers (target p k) k"
| "disturbs (SemPend _ _) k = {OSTCBCurPtr k}"
| "disturbs (SemPost p _ _) k = receivers (target p k) k"
| "disturbs (SemPendAbort p _ _) k = receivers (target p k) k"
| "disturbs (Suspend p) k = {target p k}"
| "disturbs (Resume p) k = set_option p"
| "disturbs (SysTick _) k = tick_receivers k"
| "disturbs (TickTask _) k = {OSTCBCurPtr k}"
| "disturbs _ k = {}"

lemma target_Some: "target p k \<in> A \<Longrightarrow> \<forall>q. p = Some q \<longrightarrow> q \<in> A"
  by (auto simp: target_def)

text \<open>Every call goes as its contract says, or is a pass of the tick task.\<close>

lemma serve_passes:
  assumes s: "kernel_safe A idle n N k" and a: "allowed A idle e k"
  shows "\<exists>stamp. passes A idle n N (disturbs e k) stamp k (serve e k)"
proof -
  have g: "\<exists>stamp. passes A idle n N D stamp k r" if "goes A idle n N D k r" for D r
    using that by (auto simp: passes_def)
  have c: "OSTCBCurPtr k \<noteq> idle" if "\<not> interrupt e" using a that by (simp add: allowed_def)
  have arg: "sound_args A e k" using a by (simp add: allowed_def)
  have ab: "goes A idle n N (receivers (target q k) k) k (map_option (\<lambda>(_, _, k). k) (pend_abort on q opt ts k))"
    if "target q k \<in> A" for q opt ts on
    by (rule goes_mono [OF pend_abort_goes [OF s target_Some [OF that]]]) (auto simp: target_def split: option.split)
  show ?thesis
  proof (cases e)
    case (TickTask stamp)
    then show ?thesis using OS_TickTask_passes [OF s refl, of stamp] c by auto
  next
    case (TickTaskResume stamp)
    then show ?thesis using OS_TickTask_resume_passes [OF s] by auto
  next
    case (Suspend q)
    then show ?thesis using g [OF OSTaskSuspend_goes [OF s refl]] c arg by (simp add: target_def)
  next
    case (QPendAbort q opt ts)
    then show ?thesis using g [OF ab] arg by (simp add: OSTaskQPendAbort_def)
  next
    case (SemPendAbort q opt ts)
    then show ?thesis using g [OF ab] arg by (simp add: OSTaskSemPendAbort_def)
  next
    case (Resume q)
    then show ?thesis using g [OF OSTaskResume_goes [OF s target_Some]] arg by simp
  next
    case (DelayResume q)
    then show ?thesis using g [OF OSTimeDlyResume_goes [OF s target_Some]] arg by simp
  qed (use c arg in \<open>simp_all add: g OSTimeDly_goes [OF s refl] OSTimeDlyHMSM_goes [OF s refl] OSTaskQPend_goes [OF s refl]
    OSTaskQPost_goes [OF s refl] OSTaskQFlush_goes [OF s] OSTaskSemPend_goes [OF s refl] OSTaskSemPost_goes [OF s refl]
    OSTaskSemSet_goes [OF s] OSSchedRoundRobinYield_goes [OF s] OSSchedLock_goes [OF s] OSSchedUnlock_goes [OF s]
    OSIntEnter_goes [OF s] OSIntExit_goes [OF s] SysTick_Handler_goes [OF s]\<close>)
qed

lemma passes_safe: "passes A idle n N D stamp k r \<Longrightarrow> \<exists>k'. r = Some k' \<and> kernel_safe A idle n N k'"
  using OS_TickListUpdate_safe [of A idle n N] by (fastforce simp: passes_def goes_def)

section \<open>Any sequence of calls\<close>

text \<open>The calls of a list one after the other; one that is not allowed is not made.\<close>

fun perform :: "('e \<Rightarrow> 's \<Rightarrow> bool) \<Rightarrow> ('e \<Rightarrow> 's \<Rightarrow> 's option) \<Rightarrow> 'e list \<Rightarrow> 's \<Rightarrow> 's option" where
  "perform may act [] s = Some s"
| "perform may act (e # es) s =
     (if may e s then Option.bind (act e s) (perform may act es) else perform may act es s)"

text \<open>What the callers of a system rely on: an allowed call returns and leaves a good state.\<close>

locale safe_calls =
  fixes good :: "'s \<Rightarrow> bool" and may :: "'e \<Rightarrow> 's \<Rightarrow> bool" and act :: "'e \<Rightarrow> 's \<Rightarrow> 's option"
  assumes returns: "good s \<Longrightarrow> may e s \<Longrightarrow> \<exists>s'. act e s = Some s' \<and> good s'"
begin

lemma perform_returns: "good s \<Longrightarrow> \<exists>s'. perform may act es s = Some s' \<and> good s'"
proof (induction es arbitrary: s)
  case (Cons e es)
  then show ?case using returns [OF Cons.prems, of e] by (cases "may e s") auto
qed simp

end

interpretation csu_kernel: safe_calls "kernel_safe A idle n N" "allowed A idle" serve for A idle n N
proof
  fix k e
  assume "kernel_safe A idle n N k" and "allowed A idle e k"
  then show "\<exists>k'. serve e k = Some k' \<and> kernel_safe A idle n N k'" using serve_passes passes_safe by blast
qed

section \<open>What happens to a task meanwhile\<close>

text \<open>
  From \<open>k\<close> to \<open>k'\<close> the other tasks and the interrupts make calls, in any order and number, which do
  not disturb the task \<open>p\<close>; \<open>c\<close> ticks are processed.
\<close>

inductive meanwhile :: "nat set \<Rightarrow> nat \<Rightarrow> nat \<Rightarrow> nat \<Rightarrow> os_kernel \<Rightarrow> os_kernel \<Rightarrow> bool" for A idle p where
  none: "meanwhile A idle p 0 k k"
| call: "meanwhile A idle p c k k1 \<Longrightarrow> allowed A idle e k1 \<Longrightarrow> interrupt e \<or> OSTCBCurPtr k1 \<noteq> p \<Longrightarrow>
    p \<notin> disturbs e k1 \<Longrightarrow> serve e k1 = Some k2 \<Longrightarrow>
    meanwhile A idle p (if OSTickCtr k2 = OSTickCtr k1 then c else c + 1) k k2"

lemma meanwhile_safe:
  "meanwhile A idle p c k k' \<Longrightarrow> kernel_safe A idle n N k \<Longrightarrow> kernel_safe A idle n N k'"
  by (induction rule: meanwhile.induct) (use csu_kernel.returns in fastforce)+

text \<open>A call that does not disturb \<open>p\<close> leaves it alone, but for the processing of a tick.\<close>

lemma call_leaves:
  assumes s: "kernel_safe A idle n N k" and a: "allowed A idle e k" and p: "p \<notin> disturbs e k" and r: "serve e k = Some k'"
  shows "kernel_safe A idle n N k' \<and> OSTickCtr k' = OSTickCtr k \<and> undisturbed p k k'
    \<or> (\<exists>k0 stamp. kernel_safe A idle n N k0 \<and> OSTickCtr k0 = OSTickCtr k \<and> undisturbed p k k0
        \<and> OS_TickListUpdate stamp k0 = Some k')"
proof -
  obtain stamp where "passes A idle n N (disturbs e k) stamp k (Some k')" using serve_passes [OF s a] r by auto
  then consider "goes A idle n N (disturbs e k) k (Some k')"
    | k0 where "goes A idle n N (disturbs e k) k (Some k0)" "Some k' = OS_TickListUpdate stamp k0"
    unfolding passes_def by blast
  then show ?thesis
  proof cases
    case 1
    then show ?thesis using p by (simp add: goes_def)
  next
    case 2
    then have "kernel_safe A idle n N k0 \<and> OSTickCtr k0 = OSTickCtr k \<and> undisturbed p k k0
        \<and> OS_TickListUpdate stamp k0 = Some k'" using p by (simp add: goes_def)
    then show ?thesis by blast
  qed
qed

lemma unat_minus_1: "(a :: u32) \<noteq> 0 \<Longrightarrow> unat (a - 1) = unat a - 1"
  by (simp add: unat_minus_one)

lemma one_step_on: "(c :: u32) + 1 \<noteq> c"
  by simp

text \<open>A delayed task waits on; with a tick there is one less to wait for.\<close>

lemma waits_undisturbed:
  "waits A idle p d k \<Longrightarrow> kernel_safe A idle n N k' \<Longrightarrow> undisturbed p k k' \<Longrightarrow> waits A idle p d k'"
  by (simp add: waits_def undisturbed_def kernel_safe_def)

lemma waits_tick:
  assumes w: "waits A idle p (Suc d) k" and s: "kernel_safe A idle n N k" and u: "OS_TickListUpdate stamp k = Some k'"
  shows "OSTickCtr k' = OSTickCtr k + 1"
    and "0 < d \<Longrightarrow> waits A idle p d k'"
    and "d = 0 \<Longrightarrow> TaskState (tcb k' p) = OS_TASK_STATE_RDY \<and> kernel_safe A idle n N k'"
proof -
  have p: "p \<in> A" "TaskState (tcb k p) = OS_TASK_STATE_DLY" "unat (dist k p) = Suc d" using w by (simp_all add: waits_def)
  have t: "OSTickCtr k' = OSTickCtr k + 1" "kernel_safe A idle n N k'"
    "svc_of (tcb k' p) = svc_of (if comes_due A k p then rung (stamp p) (tcb k p) else tcb k p)"
    "timed (TaskState (tcb k p)) \<and> dist k p \<noteq> 1 \<longrightarrow> dist k' p = dist k p - 1"
    using OS_TickListUpdate_safe [OF s, of stamp] u p(1) by auto
  show "OSTickCtr k' = OSTickCtr k + 1" by (rule t(1))
  have due: "comes_due A k p \<longleftrightarrow> d = 0"
    using p by (auto simp: comes_due_def timed_def word_unat_eq_iff)
  show "waits A idle p d k'" if "0 < d"
  proof -
    have n1: "dist k p \<noteq> 1" using p(3) that by (auto simp: word_unat_eq_iff)
    have "svc_of (tcb k' p) = svc_of (tcb k p)" using t(3) due that by simp
    then have "TaskState (tcb k' p) = OS_TASK_STATE_DLY" using svc_of_eqD(1) p(2) by metis
    moreover have "dist k p \<noteq> 0" using p(3) by (auto simp: word_unat_eq_iff)
    then have "unat (dist k' p) = d" using t(4) n1 p(2,3) unat_minus_1 by (simp add: timed_def)
    ultimately show ?thesis using t(2) p(1) by (simp add: waits_def kernel_safe_def)
  qed
  show "TaskState (tcb k' p) = OS_TASK_STATE_RDY \<and> kernel_safe A idle n N k'" if "d = 0"
  proof -
    have "svc_of (tcb k' p) = svc_of (rung (stamp p) (tcb k p))" using t(3) due that by simp
    from svc_of_eqD(1) [OF this] show ?thesis using t(2) p(2) by (simp add: rung_def)
  qed
qed

lemma waits_meanwhile:
  "meanwhile A idle p c k k' \<Longrightarrow> kernel_safe A idle n N k \<Longrightarrow> waits A idle p d k \<Longrightarrow> c < d \<Longrightarrow> waits A idle p (d - c) k'"
proof (induction rule: meanwhile.induct)
  case (call c k k1 e k2)
  have s1: "kernel_safe A idle n N k1" by (rule meanwhile_safe [OF call(1) call(7)])
  have w1: "waits A idle p (d - c) k1" using call by (simp split: if_splits)
  from call_leaves [OF s1 call(2,4,5)] show ?case
  proof (elim disjE exE conjE)
    assume "kernel_safe A idle n N k2" "OSTickCtr k2 = OSTickCtr k1" "undisturbed p k1 k2"
    then show ?thesis using waits_undisturbed [OF w1] by simp
  next
    fix k0 stamp
    assume s0: "kernel_safe A idle n N k0" "OSTickCtr k0 = OSTickCtr k1" "undisturbed p k1 k0"
      and u: "OS_TickListUpdate stamp k0 = Some k2"
    have "c < d" using call.prems(3) by (simp split: if_splits)
    then have "waits A idle p (Suc (d - (c + 1))) k0" using waits_undisturbed [OF w1 s0(1,3)] by (simp add: Suc_diff_Suc)
    note t = waits_tick [OF this s0(1) u]
    then have "OSTickCtr k2 \<noteq> OSTickCtr k1" using s0(2) by simp
    then show ?thesis using t(2) call.prems(3) by simp
  qed
qed simp

section \<open>A message for a waiting task\<close>

text \<open>What a task that waits for a message, or has got one, relies on.\<close>

definition same_fields :: "nat \<Rightarrow> os_kernel \<Rightarrow> os_kernel \<Rightarrow> bool" where
  "same_fields p k k' \<longleftrightarrow> TaskState (tcb k' p) = TaskState (tcb k p) \<and> PendOn (tcb k' p) = PendOn (tcb k p)
     \<and> PendStatus (tcb k' p) = PendStatus (tcb k p) \<and> TcbMsgPtr (tcb k' p) = TcbMsgPtr (tcb k p)
     \<and> TcbMsgSize (tcb k' p) = TcbMsgSize (tcb k p)"

lemma fields_meanwhile:
  "meanwhile A idle p c k k' \<Longrightarrow> kernel_safe A idle n N k \<Longrightarrow> \<not> timed (TaskState (tcb k p)) \<Longrightarrow> same_fields p k k'"
proof (induction rule: meanwhile.induct)
  case none
  show ?case by (simp add: same_fields_def)
next
  case (call c k k1 e k2)
  have s1: "kernel_safe A idle n N k1" by (rule meanwhile_safe [OF call(1) call(7)])
  have f1: "same_fields p k k1" using call by simp
  have nt: "\<not> timed (TaskState (tcb k1 p))" using f1 call.prems(2) by (simp add: same_fields_def)
  from call_leaves [OF s1 call(2,4,5)] show ?case
  proof (elim disjE exE conjE)
    assume "undisturbed p k1 k2"
    then show ?thesis using f1 by (simp add: same_fields_def undisturbed_def)
  next
    fix k0 stamp
    assume s0: "kernel_safe A idle n N k0" "undisturbed p k1 k0" and u: "OS_TickListUpdate stamp k0 = Some k2"
    have "\<not> comes_due A k0 p" using nt s0(2) by (simp add: comes_due_def undisturbed_def)
    then have e: "svc_of (tcb k2 p) = svc_of (tcb k0 p)" using OS_TickListUpdate_safe [OF s0(1), of stamp] u by auto
    show ?thesis using f1 s0(2) by (simp add: same_fields_def undisturbed_def svc_of_eqD [OF e])
  qed
qed

lemma get_empty:
  assumes "msgs_inv n N m" and "p < n" and "queued m p = []"
  shows "\<exists>ms. OS_MsgQGet p m = Some (OS_ERR_Q_EMPTY, (0, 0, 0), ms) \<and> msgs_inv n N ms"
proof -
  obtain e x ms where g: "OS_MsgQGet p m = Some (e, x, ms)" "msgs_inv n N ms" "(e, x, queues n ms) = abs_get p (queues n m)"
    using get_refines [OF assms(1,2)] by blast
  then show ?thesis using assms(2,3) by (auto simp: abs_get_def queues_nth)
qed

text \<open>A pend on an empty queue blocks the running task until a message comes.\<close>

lemma OSTaskQPend_blocks:
  assumes s: "kernel_safe A idle n N k" and p: "OSTCBCurPtr k = p" "p \<noteq> idle"
    and l: "OSIntNestingCtr k = 0" "OSSchedLockNestingCtr k = 0" and q: "queued (msgs k) p = []"
  shows "\<exists>k'. OSTaskQPend False timeout OS_OPT_PEND_BLOCKING k = Some (Blocked, k') \<and> kernel_safe A idle n N k'
    \<and> TaskState (tcb k' p) = (if timeout = 0 then OS_TASK_STATE_PEND else OS_TASK_STATE_PEND_TIMEOUT)
    \<and> PendOn (tcb k' p) = OS_TASK_PEND_ON_TASK_Q"
proof -
  have "p < n" using safe_queue [OF s] safe_cur [OF s] p(1) by simp
  then obtain ms where g: "OS_MsgQGet p (msgs k) = Some (OS_ERR_Q_EMPTY, (0, 0, 0), ms)" "msgs_inv n N ms"
    using get_empty [OF safe_msgs [OF s]] q by blast
  let ?k = "k\<lparr>msgs := ms\<rparr>"
  let ?t = "(tcb ?k p)\<lparr>PendOn := OS_TASK_PEND_ON_TASK_Q, PendStatus := OS_STATUS_PEND_OK,
    TaskState := if timeout = 0 then OS_TASK_STATE_PEND else OS_TASK_STATE_PEND_TIMEOUT\<rparr>"
  have "run A idle ?k" "OSTCBCurPtr ?k = p" using safe_run [OF s] p(1) by simp_all
  from OS_Pend_kin [OF this p(2)] obtain k1 where k1: "OS_Pend OS_TASK_PEND_ON_TASK_Q timeout ?k = Some k1" "kin A idle k1"
    "only p ?k k1" "svc_of (tcb k1 p) = svc_of ?t" by blast
  obtain k' where k': "OSSched k1 = Some k'" "svc_of (tcb k' p) = svc_of (tcb k1 p)"
    using blocked_sched [OF k1(2,3)] l by auto
  have r: "OSTaskQPend False timeout OS_OPT_PEND_BLOCKING k = Some (Blocked, k')"
    using g(1) k1(1) k'(1) l p(1) by (simp add: OSTaskQPend_def Let_def)
  moreover have "kernel_safe A idle n N k'" using OSTaskQPend_goes [OF s p, of False timeout 0] r by (simp add: goes_def)
  moreover have e: "svc_of (tcb k' p) = svc_of ?t" using k'(2) k1(4) by simp
  ultimately show ?thesis using svc_of_eqD(1,2) [OF e] by simp
qed

lemma not_receiver: "\<not> pends (TaskState (tcb k x)) \<Longrightarrow> x \<notin> receivers p k"
  by (auto simp: receivers_def)

text \<open>A post hands its message to the waiting task directly, past the queue.\<close>

definition post_opt :: "u16 \<Rightarrow> bool" where
  "post_opt opt \<longleftrightarrow> opt \<in> {OS_OPT_POST_FIFO, OS_OPT_POST_LIFO, OS_OPT_POST_FIFO OR OS_OPT_POST_NO_SCHED,
     OS_OPT_POST_LIFO OR OS_OPT_POST_NO_SCHED}"

lemma OSTaskQPost_delivers:
  assumes s: "kernel_safe A idle n N k" and p: "p \<in> A" "pends (TaskState (tcb k p))" "PendOn (tcb k p) = OS_TASK_PEND_ON_TASK_Q"
    and opt: "post_opt opt"
  shows "\<exists>k'. OSTaskQPost (Some p) m sz opt ts k = Some (OS_ERR_NONE, k') \<and> kernel_safe A idle n N k'
    \<and> svc_of (tcb k' p) = svc_of (ended_tcb m sz ts OS_STATUS_PEND_OK (tcb k p)) \<and> msgs k' = msgs k"
proof -
  obtain k1 where k1: "end_pend p m sz ts OS_STATUS_PEND_OK k = Some k1" "run A idle k1" "touches p k k1" "msgs k1 = msgs k"
    "svc_of (tcb k1 p) = svc_of (ended_tcb m sz ts OS_STATUS_PEND_OK (tcb k p))"
    using end_pend_run [OF safe_run [OF s] p(1,2)] by blast
  obtain k' where k': "sched_unless opt k1 = Some k'" "svc_of (tcb k' p) = svc_of (tcb k1 p)" "msgs k' = msgs k"
    using sched_unless_run [OF k1(2-4)] by blast
  have r: "OSTaskQPost (Some p) m sz opt ts k = Some (OS_ERR_NONE, k')"
    using opt p(2,3) k1(1) k'(1)
    by (auto simp: OSTaskQPost_def OS_TaskQPost_def Let_def target_def pends_def post_opt_def OS_Post_def)
  moreover have "kernel_safe A idle n N k'"
    using OSTaskQPost_goes [OF s _ p(1), of "Some p" m sz opt ts] r by (simp add: goes_def target_def)
  ultimately show ?thesis using k'(2,3) k1(5) by simp
qed

section \<open>Properties\<close>

text \<open>The examples: the task with address 1 runs on the kernel with the queues of the firmware.\<close>

lemma example_kernel:
  obtains k where "kernel_safe {0, 1} 0 6 100 k" "OSTCBCurPtr k = 1" "msgs k = csu_msgs"
    "OSIntNestingCtr k = 0" "OSSchedLockNestingCtr k = 0" "OSRunning k"
proof -
  obtain k0 k1 k Q where k: "OSSched k1 = Some k" "sys_inv {0, 1} 0 k Q (\<lambda>_. [])" "OSTCBCurPtr k = 1" "msgs k = csu_msgs"
    "roles k = (0, 1, 1)" "OSRunning k"
    by (rule two_tasks_run [of csu_msgs]) blast
  have sy: "sys {0, 1} 0 k" using k(2) sys_iff by blast
  then have "kernel_safe {0, 1} 0 6 100 k"
    using k(4,5) csu_msgs_inv(1) by (simp add: kernel_safe_def sys_def roles_def)
  then show thesis using that k(3,4,6) sy by (simp add: sys_def)
qed

text \<open>C5: Whatever the tasks and the interrupts ask of the kernel, in any order and number (delays,
  pends, posts, flushes, aborts, suspension, yields, locks, nested interrupts, ticks), every call
  returns without following a null pointer, and the ready lists, the tick wheel, the states of the
  tasks and the message pool still agree.\<close>

theorem kernel_services_safe:
  assumes "kernel_safe A idle n N k"
  shows "\<exists>k'. perform (allowed A idle) serve es k = Some k' \<and> kernel_safe A idle n N k'"
  by (rule csu_kernel.perform_returns [OF assms])

theorem kernel_services_safe_witness:
  "\<exists>k k'. OSTCBCurPtr k = 1 \<and> perform (allowed {0, 1} 0) serve
      [SysTick 5, QPost None 7 3 OS_OPT_POST_FIFO 9, QPend False 0 OS_OPT_PEND_BLOCKING, Delay 2 OS_OPT_TIME_DLY] k = Some k'
    \<and> kernel_safe {0, 1} 0 6 100 k'"
proof -
  obtain k where "kernel_safe {0, 1} 0 6 100 k" "OSTCBCurPtr k = 1" by (rule example_kernel) blast
  then show ?thesis using kernel_services_safe by blast
qed

text \<open>C6: A delay ends on time: after \<open>OSTimeDly\<close> the task is delayed, and so not ready, until the
  tick it asked for, and ready after that tick, whatever the other tasks and the interrupts call
  meanwhile short of resuming, suspending or aborting this very task, and across the wrap-around
  of the tick counter.\<close>

theorem delay_ends_on_time:
  assumes "kernel_safe A idle n N k" and "OSTCBCurPtr k = p" and "p \<noteq> idle"
    and "OSIntNestingCtr k = 0" and "OSSchedLockNestingCtr k = 0" and "0 < dly"
  shows "\<exists>k1. OSTimeDly dly OS_OPT_TIME_DLY k = Some (OS_ERR_NONE, k1)
    \<and> (\<forall>c k2. meanwhile A idle p c k1 k2 \<longrightarrow>
        (c < unat dly \<longrightarrow> TaskState (tcb k2 p) = OS_TASK_STATE_DLY
          \<and> (\<exists>Q. rdy_inv k2 Q \<and> p \<notin> set (Q (prio_ix k2 p))))
        \<and> (c + 1 = unat dly \<longrightarrow> (\<forall>stamp. \<exists>k3. OS_TickListUpdate stamp k2 = Some k3
          \<and> TaskState (tcb k3 p) = OS_TASK_STATE_RDY \<and> (\<exists>Q. rdy_inv k3 Q \<and> p \<in> set (Q (prio_ix k3 p))))))"
proof -
  have "sys A idle k" using assms(4,5) safe_run [OF assms(1)] by (simp add: sys_def)
  from OSTimeDly_sys [OF this assms(2,3,6), of OS_OPT_TIME_DLY] obtain k1
    where k1: "OSTimeDly dly OS_OPT_TIME_DLY k = Some (OS_ERR_NONE, k1)" "waits A idle p (unat dly) k1" by auto
  have "ahead dly OS_OPT_TIME_DLY k" by (simp add: ahead_def)
  from OSTimeDly_goes [OF assms(1-3) this] have s1: "kernel_safe A idle n N k1" using k1(1) by (simp add: goes_def)
  have w: "waits A idle p (unat dly - c) k2" if "meanwhile A idle p c k1 k2" "c < unat dly" for c k2
    by (rule waits_meanwhile [OF that(1) s1 k1(2) that(2)])
  have "\<exists>k3. OS_TickListUpdate stamp k2 = Some k3 \<and> TaskState (tcb k3 p) = OS_TASK_STATE_RDY
      \<and> (\<exists>Q. rdy_inv k3 Q \<and> p \<in> set (Q (prio_ix k3 p)))"
    if m: "meanwhile A idle p c k1 k2" and c: "c + 1 = unat dly" for c k2 stamp
  proof -
    have s2: "kernel_safe A idle n N k2" by (rule meanwhile_safe [OF m s1])
    have "unat dly - c = Suc 0" "c < unat dly" using c by simp_all
    then have w2: "waits A idle p (Suc 0) k2" using w [OF m] by simp
    obtain k3 where k3: "OS_TickListUpdate stamp k2 = Some k3" using OS_TickListUpdate_safe [OF s2, of stamp] by blast
    have r: "TaskState (tcb k3 p) = OS_TASK_STATE_RDY" "kernel_safe A idle n N k3" using waits_tick(3) [OF w2 s2 k3] by simp_all
    obtain Q W where inv: "kinv A idle k3 Q W" using run_kin [OF safe_run [OF r(2)]] by (auto simp: kin_def)
    have "in_ready Q p" using kinv_ready [OF inv, of p] r(1) w2 by (simp add: waits_def)
    then show ?thesis using k3 r(1) in_ready_prio [OF inv_exceptD(2) [OF inv]] inv_exceptD(2) [OF inv] by blast
  qed
  then show ?thesis using k1(1) w waits_not_ready by blast
qed

theorem delay_ends_on_time_witness:
  "\<exists>k k1 k2 k3. OSTCBCurPtr k = 1 \<and> OSTimeDly 1 OS_OPT_TIME_DLY k = Some (OS_ERR_NONE, k1)
    \<and> TaskState (tcb k1 1) = OS_TASK_STATE_DLY \<and> serve (SysTick 7) k1 = Some k2
    \<and> OS_TickListUpdate (\<lambda>_. 0) k2 = Some k3 \<and> TaskState (tcb k3 1) = OS_TASK_STATE_RDY"
proof -
  obtain k where k: "kernel_safe {0, 1} 0 6 100 k" "OSTCBCurPtr k = 1" "OSIntNestingCtr k = 0" "OSSchedLockNestingCtr k = 0"
    by (rule example_kernel) blast
  have nz: "(1 :: nat) \<noteq> 0" "0 < (1 :: u32)" by simp_all
  obtain k1 where k1: "OSTimeDly 1 OS_OPT_TIME_DLY k = Some (OS_ERR_NONE, k1)"
    and raw: "\<forall>c k2. meanwhile {0, 1} 0 1 c k1 k2 \<longrightarrow>
      (c < unat (1 :: u32) \<longrightarrow> TaskState (tcb k2 1) = OS_TASK_STATE_DLY)
      \<and> (c + 1 = unat (1 :: u32) \<longrightarrow> (\<forall>stamp. \<exists>k3. OS_TickListUpdate stamp k2 = Some k3
        \<and> TaskState (tcb k3 1) = OS_TASK_STATE_RDY))"
    using delay_ends_on_time [OF k(1,2) nz(1) k(3,4) nz(2)] by blast
  have ends: "TaskState (tcb k2 1) = OS_TASK_STATE_DLY \<and> (\<forall>stamp. \<exists>k3. OS_TickListUpdate stamp k2 = Some k3
      \<and> TaskState (tcb k3 1) = OS_TASK_STATE_RDY)" if "meanwhile {0, 1} 0 1 0 k1 k2" for k2
    using raw [rule_format, OF that] by simp
  have "ahead 1 OS_OPT_TIME_DLY k" by (simp add: ahead_def)
  from OSTimeDly_goes [OF k(1,2) nz(1) this] have s1: "kernel_safe {0, 1} 0 6 100 k1" using k1 by (simp add: goes_def)
  have d: "TaskState (tcb k1 1) = OS_TASK_STATE_DLY" using ends [OF meanwhile.none] by simp
  have a: "allowed {0, 1} 0 (SysTick 7) k1" by (simp add: allowed_def)
  obtain k2 where k2: "serve (SysTick 7) k1 = Some k2" using csu_kernel.returns [OF s1 a] by blast
  have "goes {0, 1} 0 6 100 (tick_receivers k1) k1 (Some k2)" using SysTick_Handler_goes [OF s1, of 7] k2 by simp
  then have "OSTickCtr k2 = OSTickCtr k1" by (simp add: goes_def)
  moreover have "1 \<notin> disturbs (SysTick 7) k1"
    using not_receiver [of k1 1] d by (simp add: tick_receivers_def pends_def)
  ultimately have "meanwhile {0, 1} 0 1 0 k1 k2"
    using meanwhile.call [OF meanwhile.none a _ _ k2, of 1] by simp
  then show ?thesis using ends [of k2] k(2) k1 d k2 by blast
qed

text \<open>C7: A task that pends on its empty queue gets exactly the message that is posted to it next: the
  pend blocks it until then, the post succeeds whatever the length of the queue and makes it
  ready, and when it runs again the pend returns the message and its size; the other tasks and the
  interrupts may call anything before and after, short of suspending or aborting this task.\<close>

theorem task_message_roundtrip:
  assumes "kernel_safe A idle n N k" and "OSTCBCurPtr k = p" and "p \<noteq> idle"
    and "OSIntNestingCtr k = 0" and "OSSchedLockNestingCtr k = 0" and "queued (msgs k) p = []" and "post_opt opt"
  shows "\<exists>k1. OSTaskQPend False 0 OS_OPT_PEND_BLOCKING k = Some (Blocked, k1) \<and> OSTCBCurPtr k1 \<noteq> p
    \<and> (\<forall>c k2. meanwhile A idle p c k1 k2 \<longrightarrow> OSTCBCurPtr k2 \<noteq> p
        \<and> (\<exists>k3. OSTaskQPost (Some p) m sz opt ts k2 = Some (OS_ERR_NONE, k3)
          \<and> (\<forall>d k4. meanwhile A idle p d k3 k4 \<longrightarrow> TaskState (tcb k4 p) = OS_TASK_STATE_RDY
              \<and> (OSTCBCurPtr k4 = p \<longrightarrow> (\<exists>t. OSTaskQPend_resume k4 = Returned OS_ERR_NONE m (Some (sz, t)))))))"
proof -
  obtain k1 where k1: "OSTaskQPend False 0 OS_OPT_PEND_BLOCKING k = Some (Blocked, k1)" "kernel_safe A idle n N k1"
    "TaskState (tcb k1 p) = OS_TASK_STATE_PEND" "PendOn (tcb k1 p) = OS_TASK_PEND_ON_TASK_Q"
    using OSTaskQPend_blocks [OF assms(1-6), of 0] by auto
  have pA: "p \<in> A" using safe_cur [OF assms(1)] assms(2) by simp
  have away: "OSTCBCurPtr k' \<noteq> p" if "kernel_safe A idle n N k'" "TaskState (tcb k' p) = OS_TASK_STATE_PEND" for k'
    using safe_run [OF that(1)] that(2) by (auto simp: run_def)
  have "OSTCBCurPtr k2 \<noteq> p \<and> (\<exists>k3. OSTaskQPost (Some p) m sz opt ts k2 = Some (OS_ERR_NONE, k3)
      \<and> (\<forall>d k4. meanwhile A idle p d k3 k4 \<longrightarrow> TaskState (tcb k4 p) = OS_TASK_STATE_RDY
          \<and> (OSTCBCurPtr k4 = p \<longrightarrow> (\<exists>t. OSTaskQPend_resume k4 = Returned OS_ERR_NONE m (Some (sz, t))))))"
    if m2: "meanwhile A idle p c k1 k2" for c k2
  proof -
    have s2: "kernel_safe A idle n N k2" by (rule meanwhile_safe [OF m2 k1(2)])
    have f2: "same_fields p k1 k2" by (rule fields_meanwhile [OF m2 k1(2)]) (simp add: k1(3) timed_def)
    then have st: "TaskState (tcb k2 p) = OS_TASK_STATE_PEND" "PendOn (tcb k2 p) = OS_TASK_PEND_ON_TASK_Q"
      using k1(3,4) by (simp_all add: same_fields_def)
    have "pends (TaskState (tcb k2 p))" using st(1) by (simp add: pends_def)
    from OSTaskQPost_delivers [OF s2 pA this st(2) assms(7)] obtain k3
      where k3: "OSTaskQPost (Some p) m sz opt ts k2 = Some (OS_ERR_NONE, k3)" "kernel_safe A idle n N k3"
        "svc_of (tcb k3 p) = svc_of (ended_tcb m sz ts OS_STATUS_PEND_OK (tcb k2 p))" by blast
    note e = svc_of_eqD [OF k3(3)]
    have "TaskState (tcb k4 p) = OS_TASK_STATE_RDY \<and> PendStatus (tcb k4 p) = OS_STATUS_PEND_OK
        \<and> TcbMsgPtr (tcb k4 p) = m \<and> TcbMsgSize (tcb k4 p) = sz" if m4: "meanwhile A idle p d k3 k4" for d k4
    proof -
      have "same_fields p k3 k4" by (rule fields_meanwhile [OF m4 k3(2)]) (simp add: e st timed_def ended_tcb_def)
      then show ?thesis by (simp add: same_fields_def e st ended_tcb_def)
    qed
    then show ?thesis using away [OF s2 st(1)] k3(1) by (auto simp: OSTaskQPend_resume_def Let_def)
  qed
  then show ?thesis using k1(1) away [OF k1(2,3)] by blast
qed

theorem task_message_roundtrip_witness:
  "\<exists>k k1 k3. OSTCBCurPtr k = 1 \<and> OSTaskQPend False 0 OS_OPT_PEND_BLOCKING k = Some (Blocked, k1)
    \<and> OSTaskQPost (Some 1) 7 3 OS_OPT_POST_FIFO 9 k1 = Some (OS_ERR_NONE, k3) \<and> TaskState (tcb k3 1) = OS_TASK_STATE_RDY"
proof -
  obtain k where k: "kernel_safe {0, 1} 0 6 100 k" "OSTCBCurPtr k = 1" "msgs k = csu_msgs"
    "OSIntNestingCtr k = 0" "OSSchedLockNestingCtr k = 0" by (rule example_kernel) blast
  have "(1 :: nat) \<noteq> 0" "queued (msgs k) 1 = []" "post_opt OS_OPT_POST_FIFO"
    using k(3) csu_msgs_queued [of 1] by (simp_all add: post_opt_def)
  from task_message_roundtrip [OF k(1,2) this(1) k(4,5) this(2,3), of 7 3 9] show ?thesis
    using k(2) meanwhile.none by metis
qed

text \<open>C28: A task whose queue has no entries, as the screen task, takes a message only while it waits
  for one: a post at any other time is refused with \<open>OS_ERR_Q_MAX\<close> and changes nothing.\<close>

theorem post_without_queue:
  assumes "kernel_safe A idle n N k" and "p \<in> A" and "NbrEntriesSize (MsgQ (msgs k) p) = 0"
  shows "if pends (TaskState (tcb k p)) \<and> PendOn (tcb k p) = OS_TASK_PEND_ON_TASK_Q
    then \<exists>k'. OSTaskQPost (Some p) m sz OS_OPT_POST_FIFO ts k = Some (OS_ERR_NONE, k')
      \<and> TcbMsgPtr (tcb k' p) = m \<and> TcbMsgSize (tcb k' p) = sz
    else OSTaskQPost (Some p) m sz OS_OPT_POST_FIFO ts k = Some (OS_ERR_Q_MAX, k)"
proof (cases "pends (TaskState (tcb k p)) \<and> PendOn (tcb k p) = OS_TASK_PEND_ON_TASK_Q")
  case True
  have "post_opt OS_OPT_POST_FIFO" by (simp add: post_opt_def)
  from OSTaskQPost_delivers [OF assms(1,2) _ _ this, of m sz ts] True obtain k' where
    k': "OSTaskQPost (Some p) m sz OS_OPT_POST_FIFO ts k = Some (OS_ERR_NONE, k')"
    "svc_of (tcb k' p) = svc_of (ended_tcb m sz ts OS_STATUS_PEND_OK (tcb k p))" by blast
  then show ?thesis using True svc_of_eqD(4,5) [OF k'(2)] by (simp add: ended_tcb_def)
next
  case False
  have full: "queue_msg p (m, sz, ts) OS_OPT_POST_FIFO k = Some (OS_ERR_Q_MAX, k)"
    using assms(3) by (simp add: queue_msg_def OS_MsgQPut_def Let_def)
  have "TaskState (tcb k p) \<le> 7" by (rule kernel_safe_state [OF assms(1,2)])
  then have "TaskState (tcb k p) \<in> {OS_TASK_STATE_RDY, OS_TASK_STATE_DLY, OS_TASK_STATE_SUSPENDED, OS_TASK_STATE_DLY_SUSPENDED}
      \<or> pends (TaskState (tcb k p))"
    unfolding pends_def by simp unat_arith
  then have "OS_TaskQPost (Some p) m sz OS_OPT_POST_FIFO ts k = Some (OS_ERR_Q_MAX, k)"
    using False full by (auto simp: OS_TaskQPost_def Let_def target_def pends_def)
  then show ?thesis using False by (simp add: OSTaskQPost_def)
qed

theorem post_without_queue_witness:
  "\<exists>k. OSTCBCurPtr k = 1 \<and> OSTaskQPost (Some 1) 7 3 OS_OPT_POST_FIFO 9 k = Some (OS_ERR_Q_MAX, k)"
proof -
  obtain k0 where k0: "kernel_safe {0, 1} 0 6 100 k0" "OSTCBCurPtr k0 = 1" by (rule example_kernel) blast
  have "msgs_inv 6 0 (blank_msgs [])"
    unfolding msgs_inv_def owned_def by (intro exI [of _ "[]"] exI [of _ "\<lambda>_. []"]) (simp add: blank_msgs_def q_chain_def)
  then have k: "kernel_safe {0, 1} 0 6 0 (k0\<lparr>msgs := blank_msgs []\<rparr>)" using k0(1) by (simp add: kernel_safe_def)
  have "\<not> pends (TaskState (tcb k0 1))" using safe_run [OF k0(1)] k0(2) by (simp add: run_def pends_def)
  moreover have "(1 :: nat) \<in> {0, 1}" "NbrEntriesSize (MsgQ (msgs (k0\<lparr>msgs := blank_msgs []\<rparr>)) 1) = 0"
    by (simp_all add: blank_msgs_def)
  note post_without_queue [OF k this, of 7 3 9]
  ultimately show ?thesis using k0(2) by (intro exI [of _ "k0\<lparr>msgs := blank_msgs []\<rparr>"]) simp
qed

end
