(* ===== verification/Os_TmrTask.thy ===== *)
theory Os_TmrTask
  imports Os_Tmr Os_Kernel
begin

text \<open>
  The services for software timers and the timer task (os_tmr.c), on top of the kernel: they lock
  the scheduler while they work on the wheel, and the task calls the functions of expired timers
  with the scheduler locked.
\<close>

section \<open>State\<close>

text \<open>
  The kernel, the timers, and the calls made so far: function, timer and argument.  A function that
  a timer calls is given by its effect \<open>call\<close> on the kernel; those of this firmware touch no timer.
\<close>

record os_sys =
  kern :: os_kernel
  tmrs :: os_tmrs
  calls :: "(tmr_callback \<times> nat \<times> nat) list"

type_synonym callback = "tmr_callback \<Rightarrow> nat \<Rightarrow> nat \<Rightarrow> os_kernel \<Rightarrow> os_kernel option"

section \<open>The functions the timers of the firmware call (main.c)\<close>

text \<open>
  \<open>tmr1_callback\<close> and \<open>tmr2_callback\<close> post a message of three bytes to the CAN task and ask for a delay
  of 50 ms.  \<open>can\<close> is the CAN task, \<open>buf\<close> gives the two buffers, \<open>ts\<close> the time stamp.
\<close>

definition csu_callback :: "nat \<Rightarrow> (tmr_callback \<Rightarrow> nat) \<Rightarrow> (nat \<Rightarrow> u32) \<Rightarrow> callback" where
  "csu_callback can buf ts f p arg k =
     do { (_, k) \<leftarrow> OSTaskQPost (Some can) (buf f) 3 OS_OPT_POST_FIFO (ts p) k;
          (_, k) \<leftarrow> OSTimeDlyHMSM 0 0 0 50 OS_OPT_TIME_PERIODIC k;
          Some k }"

section \<open>Services\<close>

text \<open>The checks every service begins with.\<close>

definition tmr_check :: "ptr \<Rightarrow> os_sys \<Rightarrow> OS_ERR + nat" where
  "tmr_check p_tmr s =
     (if 0 < OSIntNestingCtr (kern s) then Inl OS_ERR_TMR_ISR
      else case p_tmr of
        None \<Rightarrow> Inl OS_ERR_TMR_INVALID
      | Some p \<Rightarrow> if Type (tmr (tmrs s) p) \<noteq> OS_OBJ_TYPE_TMR then Inl OS_ERR_OBJ_TYPE else Inr p)"

text \<open>The work of a service between \<open>OSSchedLock\<close> and \<open>OSSchedUnlock\<close>, whose errors are not looked at.\<close>

definition sched_locked :: "(os_sys \<Rightarrow> ('r \<times> os_sys) option) \<Rightarrow> os_sys \<Rightarrow> ('r \<times> os_sys) option" where
  "sched_locked body s =
     do { (r, s) \<leftarrow> body (s\<lparr>kern := snd (OSSchedLock (kern s))\<rparr>);
          (_, k) \<leftarrow> OSSchedUnlock (kern s);
          Some (r, s\<lparr>kern := k\<rparr>) }"

definition OSTmrCreate :: "ptr \<Rightarrow> u32 \<Rightarrow> u32 \<Rightarrow> u16 \<Rightarrow> tmr_callback option \<Rightarrow> nat \<Rightarrow> os_sys \<Rightarrow> OS_ERR \<times> os_sys" where
  "OSTmrCreate p_tmr dly period opt p_callback p_callback_arg s =
     (if 0 < OSIntNestingCtr (kern s) then (OS_ERR_TMR_ISR, s)
      else case p_tmr of
        None \<Rightarrow> (OS_ERR_OBJ_PTR_NULL, s)
      | Some p \<Rightarrow>
          if opt = OS_OPT_TMR_PERIODIC \<and> period = 0 then (OS_ERR_TMR_INVALID_PERIOD, s)
          else if opt = OS_OPT_TMR_ONE_SHOT \<and> dly = 0 then (OS_ERR_TMR_INVALID_DLY, s)
          else if opt \<noteq> OS_OPT_TMR_PERIODIC \<and> opt \<noteq> OS_OPT_TMR_ONE_SHOT then (OS_ERR_OPT_INVALID, s)
          else (let w = upd_tmr p (\<lambda>t. t\<lparr>State := OS_TMR_STATE_STOPPED, Type := OS_OBJ_TYPE_TMR, Dly := dly,
                  Match := 0, Remain := 0, Period := period, Opt := opt, CallbackPtr := p_callback,
                  CallbackPtrArg := p_callback_arg, TmrNextPtr := None, TmrPrevPtr := None\<rparr>) (tmrs s);
                    w = OS_TmrDbgListAdd p w
                in (OS_ERR_NONE, s\<lparr>tmrs := w\<lparr>OSTmrQty := OSTmrQty w + 1\<rparr>\<rparr>)))"

definition tmr_del :: "nat \<Rightarrow> os_sys \<Rightarrow> ((OS_ERR \<times> bool) \<times> os_sys) option" where
  "tmr_del p s =
     (let w = OS_TmrDbgListRemove p (tmrs s);
          w = w\<lparr>OSTmrQty := OSTmrQty w - 1\<rparr>;
          st = State (tmr w p)
      in if st = OS_TMR_STATE_RUNNING then
           map_option (\<lambda>w. ((OS_ERR_NONE, True), s\<lparr>tmrs := OS_TmrClr p w\<rparr>)) (OS_TmrUnlink p w)
         else if st = OS_TMR_STATE_STOPPED \<or> st = OS_TMR_STATE_COMPLETED then
           Some ((OS_ERR_NONE, True), s\<lparr>tmrs := OS_TmrClr p w\<rparr>)
         else if st = OS_TMR_STATE_UNUSED then Some ((OS_ERR_TMR_INACTIVE, False), s\<lparr>tmrs := w\<rparr>)
         else Some ((OS_ERR_TMR_INVALID_STATE, False), s\<lparr>tmrs := w\<rparr>))"

definition OSTmrDel :: "ptr \<Rightarrow> os_sys \<Rightarrow> ((OS_ERR \<times> bool) \<times> os_sys) option" where
  "OSTmrDel p_tmr s =
     (case tmr_check p_tmr s of Inl e \<Rightarrow> Some ((e, False), s) | Inr p \<Rightarrow> sched_locked (tmr_del p) s)"

definition tmr_remain :: "nat \<Rightarrow> os_sys \<Rightarrow> ((OS_ERR \<times> u32) \<times> os_sys) option" where
  "tmr_remain p s =
     (let w = tmrs s; t = tmr w p; st = State t;
          result = (\<lambda>r. Some ((OS_ERR_NONE, r), s\<lparr>tmrs := upd_tmr p (\<lambda>t. t\<lparr>Remain := r\<rparr>) w\<rparr>))
      in if st = OS_TMR_STATE_RUNNING then result (Match t - OSTmrTickCtr w)
         else if st = OS_TMR_STATE_STOPPED then
           result (if Opt t = OS_OPT_TMR_PERIODIC then (if Dly t = 0 then Period t else Dly t) else Dly t)
         else if st = OS_TMR_STATE_COMPLETED then Some ((OS_ERR_NONE, 0), s)
         else if st = OS_TMR_STATE_UNUSED then Some ((OS_ERR_TMR_INACTIVE, 0), s)
         else Some ((OS_ERR_TMR_INVALID_STATE, 0), s))"

definition OSTmrRemainGet :: "ptr \<Rightarrow> os_sys \<Rightarrow> ((OS_ERR \<times> u32) \<times> os_sys) option" where
  "OSTmrRemainGet p_tmr s =
     (case tmr_check p_tmr s of Inl e \<Rightarrow> Some ((e, 0), s) | Inr p \<Rightarrow> sched_locked (tmr_remain p) s)"

definition tmr_start :: "nat \<Rightarrow> os_sys \<Rightarrow> ((OS_ERR \<times> bool) \<times> os_sys) option" where
  "tmr_start p s =
     (let w = tmrs s; st = State (tmr w p);
          started = map_option (\<lambda>w. ((OS_ERR_NONE, True), s\<lparr>tmrs := w\<rparr>))
      in if st = OS_TMR_STATE_RUNNING then started (Option.bind (OS_TmrUnlink p w) (OS_TmrLink p OS_OPT_LINK_DLY))
         else if st = OS_TMR_STATE_STOPPED \<or> st = OS_TMR_STATE_COMPLETED then started (OS_TmrLink p OS_OPT_LINK_DLY w)
         else if st = OS_TMR_STATE_UNUSED then Some ((OS_ERR_TMR_INACTIVE, False), s)
         else Some ((OS_ERR_TMR_INVALID_STATE, False), s))"

definition OSTmrStart :: "ptr \<Rightarrow> os_sys \<Rightarrow> ((OS_ERR \<times> bool) \<times> os_sys) option" where
  "OSTmrStart p_tmr s =
     (case tmr_check p_tmr s of Inl e \<Rightarrow> Some ((e, False), s) | Inr p \<Rightarrow> sched_locked (tmr_start p) s)"

definition OSTmrStateGet :: "ptr \<Rightarrow> os_sys \<Rightarrow> OS_ERR \<times> u8" where
  "OSTmrStateGet p_tmr s =
     (case tmr_check p_tmr s of
        Inl e \<Rightarrow> (e, OS_TMR_STATE_UNUSED)
      | Inr p \<Rightarrow> (let st = State (tmr (tmrs s) p)
                  in (if st \<in> {OS_TMR_STATE_UNUSED, OS_TMR_STATE_STOPPED, OS_TMR_STATE_COMPLETED, OS_TMR_STATE_RUNNING}
                      then OS_ERR_NONE else OS_ERR_TMR_INVALID_STATE, st)))"

text \<open>The call of a timer's function, when it has one.\<close>

definition tmr_call :: "callback \<Rightarrow> nat \<Rightarrow> nat \<Rightarrow> os_sys \<Rightarrow> os_sys option" where
  "tmr_call call p arg s =
     (case CallbackPtr (tmr (tmrs s) p) of
        None \<Rightarrow> Some s
      | Some f \<Rightarrow> map_option (\<lambda>k. s\<lparr>kern := k, calls := calls s @ [(f, p, arg)]\<rparr>) (call f p arg (kern s)))"

definition tmr_stop :: "callback \<Rightarrow> u16 \<Rightarrow> nat \<Rightarrow> nat \<Rightarrow> os_sys \<Rightarrow> ((OS_ERR \<times> bool) \<times> os_sys) option" where
  "tmr_stop call opt p_callback_arg p s =
     (let w = tmrs s; st = State (tmr w p);
          err = (if CallbackPtr (tmr w p) = None then OS_ERR_TMR_NO_CALLBACK else OS_ERR_NONE);
          done = (\<lambda>e s. ((e, True), s))
      in if st = OS_TMR_STATE_RUNNING then do {
           w \<leftarrow> OS_TmrUnlink p w;
           let s = s\<lparr>tmrs := w\<rparr>;
           if opt = OS_OPT_TMR_CALLBACK then map_option (done err) (tmr_call call p (CallbackPtrArg (tmr w p)) s)
           else if opt = OS_OPT_TMR_CALLBACK_ARG then map_option (done err) (tmr_call call p p_callback_arg s)
           else if opt = OS_OPT_TMR_NONE then Some (done OS_ERR_NONE s)
           else Some ((OS_ERR_OPT_INVALID, False), s) }
         else if st = OS_TMR_STATE_COMPLETED \<or> st = OS_TMR_STATE_STOPPED then Some ((OS_ERR_TMR_STOPPED, True), s)
         else if st = OS_TMR_STATE_UNUSED then Some ((OS_ERR_TMR_INACTIVE, False), s)
         else Some ((OS_ERR_TMR_INVALID_STATE, False), s))"

definition OSTmrStop :: "callback \<Rightarrow> ptr \<Rightarrow> u16 \<Rightarrow> nat \<Rightarrow> os_sys \<Rightarrow> ((OS_ERR \<times> bool) \<times> os_sys) option" where
  "OSTmrStop call p_tmr opt p_callback_arg s =
     (case tmr_check p_tmr s of Inl e \<Rightarrow> Some ((e, False), s)
      | Inr p \<Rightarrow> sched_locked (tmr_stop call opt p_callback_arg p) s)"

section \<open>The timer task\<close>

text \<open>A timer that has expired: it is started again or completed, and its function is called.\<close>

definition tmr_rearm :: "nat \<Rightarrow> os_tmrs \<Rightarrow> os_tmrs option" where
  "tmr_rearm p w =
     do { w \<leftarrow> OS_TmrUnlink p w;
          if Opt (tmr w p) = OS_OPT_TMR_PERIODIC then OS_TmrLink p OS_OPT_LINK_PERIODIC w
          else Some (upd_tmr p (\<lambda>t. t\<lparr>State := OS_TMR_STATE_COMPLETED\<rparr>) w) }"

definition tmr_expire :: "callback \<Rightarrow> nat \<Rightarrow> os_sys \<Rightarrow> os_sys option" where
  "tmr_expire call p s =
     do { w \<leftarrow> tmr_rearm p (tmrs s);
          tmr_call call p (CallbackPtrArg (tmr w p)) (s\<lparr>tmrs := w\<rparr>) }"

text \<open>The next timer of the spoke is read before the current one is taken out.\<close>

partial_function (option) tmr_loop :: "callback \<Rightarrow> ptr \<Rightarrow> os_sys \<Rightarrow> os_sys option" where
  "tmr_loop call p s =
     (case p of
        None \<Rightarrow> Some s
      | Some p \<Rightarrow>
          (let p_tmr_next = TmrNextPtr (tmr (tmrs s) p)
           in if OSTmrTickCtr (tmrs s) = Match (tmr (tmrs s) p)
              then Option.bind (tmr_expire call p s) (tmr_loop call p_tmr_next)
              else Some s))"

definition tmr_pass :: "callback \<Rightarrow> os_sys \<Rightarrow> os_sys option" where
  "tmr_pass call s =
     map_option snd (sched_locked (\<lambda>s.
       let w = (tmrs s)\<lparr>OSTmrTickCtr := OSTmrTickCtr (tmrs s) + 1\<rparr>
       in map_option (Pair ()) (tmr_loop call (TmrFirstPtr (OSCfg_TmrWheel w (spoke_of (OSTmrTickCtr w)))) (s\<lparr>tmrs := w\<rparr>))) s)"

text \<open>
  A pass of \<open>OS_TmrTask\<close> in two parts, as that of the tick task: up to the wait for the signal, which
  may be there already, and from the end of the wait on.  The result of the wait is not looked at.
\<close>

definition OS_TmrTask :: "callback \<Rightarrow> os_sys \<Rightarrow> os_sys option" where
  "OS_TmrTask call s =
     do { (r, _, k) \<leftarrow> OSTaskSemPend 0 OS_OPT_PEND_BLOCKING (kern s);
          let s = s\<lparr>kern := k\<rparr>;
          if r = Blocked then Some s else tmr_pass call s }"

definition OS_TmrTask_resume :: "callback \<Rightarrow> os_sys \<Rightarrow> os_sys option" where
  "OS_TmrTask_resume call s = tmr_pass call s"

section \<open>The invariant of the timers\<close>

text \<open>A timer is unused, or was set up by \<open>OSTmrCreate\<close>.\<close>

definition set_up :: "os_tmr \<Rightarrow> bool" where
  "set_up t \<longleftrightarrow> State t \<le> OS_TMR_STATE_COMPLETED \<and> (Type t = OS_OBJ_TYPE_TMR \<longleftrightarrow> State t \<noteq> OS_TMR_STATE_UNUSED)
     \<and> (State t = OS_TMR_STATE_UNUSED \<or> Opt t = OS_OPT_TMR_PERIODIC \<and> Period t \<noteq> 0
        \<or> Opt t = OS_OPT_TMR_ONE_SHOT \<and> Dly t \<noteq> 0)"

text \<open>The list for the debugger holds the timers in use, and \<open>OSTmrQty\<close> is their number.\<close>

definition dbg_ok :: "os_tmrs \<Rightarrow> nat list \<Rightarrow> bool" where
  "dbg_ok w ds \<longleftrightarrow> seg (\<lambda>x. DbgNextPtr (tmr w x)) (\<lambda>x. DbgPrevPtr (tmr w x)) None ds None \<and> distinct ds
     \<and> OSTmrDbgListPtr w = first_ptr ds None \<and> (\<forall>x. x \<in> set ds \<longleftrightarrow> State (tmr w x) \<noteq> OS_TMR_STATE_UNUSED)
     \<and> OSTmrQty w = of_nat (length ds)"

definition tmrs_wf :: "os_tmrs \<Rightarrow> (nat \<Rightarrow> nat list) \<Rightarrow> bool" where
  "tmrs_wf w W \<longleftrightarrow> rims_ok w W \<and> (\<forall>x. set_up (tmr w x)) \<and> (\<exists>ds. dbg_ok w ds)"

text \<open>Between two ticks of the timers every running timer has at least one tick to go.\<close>

definition tmrs_inv :: "os_tmrs \<Rightarrow> bool" where
  "tmrs_inv w \<longleftrightarrow> (\<exists>W. tmrs_wf w W) \<and> (\<forall>x. State (tmr w x) = OS_TMR_STATE_RUNNING \<longrightarrow> left w x \<noteq> 0)"

lemma tmrs_wfD:
  assumes "tmrs_wf w W"
  shows "rims_ok w W" "set_up (tmr w x)"
  using assms by (simp_all add: tmrs_wf_def)

lemma set_up_core:
  assumes "tmr_core t = tmr_core u"
  shows "set_up t = set_up u"
  by (simp add: set_up_def tmr_core_eqD [OF assms])

lemma dbg_ok_same:
  assumes "dbg_ok w ds" and "\<And>x. DbgNextPtr (tmr w' x) = DbgNextPtr (tmr w x)" and "\<And>x. DbgPrevPtr (tmr w' x) = DbgPrevPtr (tmr w x)"
    and "\<And>x. (State (tmr w' x) = OS_TMR_STATE_UNUSED) = (State (tmr w x) = OS_TMR_STATE_UNUSED)"
    and "OSTmrQty w' = OSTmrQty w" and "OSTmrDbgListPtr w' = OSTmrDbgListPtr w"
  shows "dbg_ok w' ds"
  using assms by (simp add: dbg_ok_def)

text \<open>A change of one timer that stays in use, or stays unused.\<close>

lemma wf_change:
  assumes wf: "tmrs_wf w W" and rims: "rims_ok w' W'" and o: "tmr_only p w w'" and up: "set_up (tmr w' p)"
    and st: "(State (tmr w' p) = OS_TMR_STATE_UNUSED) = (State (tmr w p) = OS_TMR_STATE_UNUSED)"
    and d: "DbgNextPtr (tmr w' p) = DbgNextPtr (tmr w p)" "DbgPrevPtr (tmr w' p) = DbgPrevPtr (tmr w p)"
  shows "tmrs_wf w' W'"
proof -
  have c: "tmr_core (tmr w' x) = tmr_core (tmr w x)" if "x \<noteq> p" for x using o that by (simp add: tmr_only_def)
  note eq = tmr_core_eqD [OF c]
  have g: "tmr_globals w' = tmr_globals w" using o by (simp add: tmr_only_def)
  obtain ds where ds: "dbg_ok w ds" using wf by (auto simp: tmrs_wf_def)
  have "set_up (tmr w' x)" for x
    by (cases "x = p") (simp_all add: up set_up_core [OF c] tmrs_wfD(2) [OF wf])
  moreover have "dbg_ok w' ds"
    by (rule dbg_ok_same [OF ds]; (case_tac "x = p")?) (simp_all add: st d eq tmr_globalsD [OF g])
  ultimately show ?thesis using rims by (auto simp: tmrs_wf_def)
qed

section \<open>Starting, stopping and expiring\<close>

lemma spoke_remove1: "\<not> x \<in> set ((W(s := remove1 p (W s))) j) \<or> x \<in> set (W j)"
  using set_remove1_subset [of p "W s"] by auto

lemma set_up_cases:
  assumes "set_up t" and "State t \<noteq> OS_TMR_STATE_UNUSED"
  obtains "Opt t = OS_OPT_TMR_PERIODIC" "Period t \<noteq> 0" | "Opt t = OS_OPT_TMR_ONE_SHOT" "Dly t \<noteq> 0"
  using assms by (auto simp: set_up_def)

lemma core_set_up:
  assumes "tmr_core u = tmr_core (t\<lparr>State := a\<rparr>) \<or> tmr_core u = tmr_core (t\<lparr>State := a, Match := m\<rparr>)"
    and "set_up t" and "State t \<noteq> OS_TMR_STATE_UNUSED" and "a \<noteq> OS_TMR_STATE_UNUSED" and "a \<le> OS_TMR_STATE_COMPLETED"
  shows "set_up u" "State u = a" "DbgNextPtr u = DbgNextPtr t" "DbgPrevPtr u = DbgPrevPtr t"
    "Period u = Period t" "Dly u = Dly t" "Opt u = Opt t"
proof -
  have t: "set_up (t\<lparr>State := a\<rparr>)" "set_up (t\<lparr>State := a, Match := m\<rparr>)" using assms(2-5) by (simp_all add: set_up_def)
  show "set_up u" using assms(1) set_up_core t by blast
  show "State u = a" "DbgNextPtr u = DbgNextPtr t" "DbgPrevPtr u = DbgPrevPtr t"
    "Period u = Period t" "Dly u = Dly t" "Opt u = Opt t"
    using assms(1) by (auto dest: tmr_core_eqD)
qed

lemma link_wf:
  assumes wf: "tmrs_wf w W" and st: "State (tmr w p) = OS_TMR_STATE_STOPPED \<or> State (tmr w p) = OS_TMR_STATE_COMPLETED"
    and m: "m = tmr_match opt (tmr w p) (OSTmrTickCtr w)"
  shows "\<exists>w'. OS_TmrLink p opt w = Some w'
    \<and> tmrs_wf w' (W(spoke_of m := placed (left w) (m - OSTmrTickCtr w) p (W (spoke_of m))))
    \<and> tmr_only p w w' \<and> tmr_core (tmr w' p) = tmr_core ((tmr w p)\<lparr>State := OS_TMR_STATE_RUNNING, Match := m\<rparr>)"
proof -
  have "State (tmr w p) \<noteq> OS_TMR_STATE_RUNNING" and used: "State (tmr w p) \<noteq> OS_TMR_STATE_UNUSED" using st by auto
  from TmrLink_refines [OF tmrs_wfD(1) [OF wf] this(1) m refl] obtain w' where
    w': "OS_TmrLink p opt w = Some w'" "rims_ok w' (W(spoke_of m := placed (left w) (m - OSTmrTickCtr w) p (W (spoke_of m))))"
    "tmr_only p w w'" "tmr_core (tmr w' p) = tmr_core ((tmr w p)\<lparr>State := OS_TMR_STATE_RUNNING, Match := m\<rparr>)" by blast
  note c = core_set_up [OF disjI2 [OF w'(4)] tmrs_wfD(2) [OF wf] used]
  have "tmrs_wf w' (W(spoke_of m := placed (left w) (m - OSTmrTickCtr w) p (W (spoke_of m))))"
    by (rule wf_change [OF wf w'(2,3)]) (use c used in simp_all)
  then show ?thesis using w' by blast
qed

lemma unlink_wf:
  assumes wf: "tmrs_wf w W" and p: "State (tmr w p) = OS_TMR_STATE_RUNNING" and s: "s = spoke_of (Match (tmr w p))"
  shows "\<exists>w'. OS_TmrUnlink p w = Some w' \<and> tmrs_wf w' (W(s := remove1 p (W s))) \<and> tmr_only p w w'
    \<and> tmr_core (tmr w' p) = tmr_core ((tmr w p)\<lparr>State := OS_TMR_STATE_STOPPED\<rparr>)"
proof -
  have used: "State (tmr w p) \<noteq> OS_TMR_STATE_UNUSED" using p by simp
  from TmrUnlink_refines [OF tmrs_wfD(1) [OF wf] p s] obtain w' where
    w': "OS_TmrUnlink p w = Some w'" "rims_ok w' (W(s := remove1 p (W s)))" "tmr_only p w w'"
    "tmr_core (tmr w' p) = tmr_core ((tmr w p)\<lparr>State := OS_TMR_STATE_STOPPED\<rparr>)" by blast
  note c = core_set_up [OF disjI1 [OF w'(4)] tmrs_wfD(2) [OF wf] used]
  have "tmrs_wf w' (W(s := remove1 p (W s)))"
    by (rule wf_change [OF wf w'(2,3)]) (use c used in simp_all)
  then show ?thesis using w' by blast
qed

text \<open>What becomes of a timer that expires at time \<open>now\<close>.\<close>

definition rearmed :: "u32 \<Rightarrow> os_tmr \<Rightarrow> os_tmr" where
  "rearmed now t = (if Opt t = OS_OPT_TMR_PERIODIC then t\<lparr>State := OS_TMR_STATE_RUNNING, Match := Period t + now\<rparr>
     else t\<lparr>State := OS_TMR_STATE_COMPLETED\<rparr>)"

lemma rearmed_core:
  assumes "tmr_core t = tmr_core u"
  shows "tmr_core (rearmed now t) = tmr_core (rearmed now u)"
  using tmr_core_State [OF assms] tmr_core_Match [OF tmr_core_State [OF assms]]
  by (simp add: rearmed_def tmr_core_eqD [OF assms])

lemma rearm_wf:
  assumes wf: "tmrs_wf w W" and p: "State (tmr w p) = OS_TMR_STATE_RUNNING" and s: "s = spoke_of (Match (tmr w p))"
    and xs: "W s = p # xs"
  shows "\<exists>w' W'. tmr_rearm p w = Some w' \<and> tmrs_wf w' W' \<and> tmr_only p w w'
    \<and> tmr_core (tmr w' p) = tmr_core (rearmed (OSTmrTickCtr w) (tmr w p))
    \<and> (W' s = xs \<or> Period (tmr w p) \<noteq> 0 \<and> left w' p = Period (tmr w p) \<and> W' s = placed (left w) (Period (tmr w p)) p xs)"
proof -
  have rm: "remove1 p (W s) = xs" using xs by simp
  from unlink_wf [OF wf p s] obtain w1 where w1: "OS_TmrUnlink p w = Some w1" "tmrs_wf w1 (W(s := xs))" "tmr_only p w w1"
    "tmr_core (tmr w1 p) = tmr_core ((tmr w p)\<lparr>State := OS_TMR_STATE_STOPPED\<rparr>)" unfolding rm by blast
  let ?W = "W(s := xs)"
  note c1 = tmr_core_eqD [OF w1(4)]
  have now: "OSTmrTickCtr w1 = OSTmrTickCtr w" using w1(3) by (simp add: tmr_only_def tmr_globals_def)
  have used: "State (tmr w1 p) \<noteq> OS_TMR_STATE_UNUSED" using c1(2) by simp
  show ?thesis
  proof (cases "Opt (tmr w p) = OS_OPT_TMR_PERIODIC")
    case True
    have nz: "Period (tmr w p) \<noteq> 0" using set_up_cases [OF tmrs_wfD(2) [OF wf, of p]] p True by auto
    let ?m = "Period (tmr w p) + OSTmrTickCtr w"
    have m: "?m = tmr_match OS_OPT_LINK_PERIODIC (tmr w1 p) (OSTmrTickCtr w1)" using c1 now by (simp add: tmr_match_def)
    have "State (tmr w1 p) = OS_TMR_STATE_STOPPED \<or> State (tmr w1 p) = OS_TMR_STATE_COMPLETED" using c1(2) by simp
    from link_wf [OF w1(2) this m] obtain w2 where w2: "OS_TmrLink p OS_OPT_LINK_PERIODIC w1 = Some w2"
      "tmrs_wf w2 (?W(spoke_of ?m := placed (left w1) (?m - OSTmrTickCtr w1) p (?W (spoke_of ?m))))" "tmr_only p w1 w2"
      "tmr_core (tmr w2 p) = tmr_core ((tmr w1 p)\<lparr>State := OS_TMR_STATE_RUNNING, Match := ?m\<rparr>)" by blast
    have "tmr_rearm p w = Some w2" using w1(1) w2(1) c1(8) True by (simp add: tmr_rearm_def)
    moreover have "tmr_core (tmr w2 p) = tmr_core (rearmed (OSTmrTickCtr w) (tmr w p))"
      using w2(4) tmr_core_Match [OF tmr_core_State [OF w1(4)]] True by (simp add: rearmed_def)
    moreover have "left w2 p = Period (tmr w p)"
      using tmr_core_eqD(1) [OF w2(4)] now w2(3) by (simp add: left_def tmr_only_def tmr_globals_def)
    moreover have "p \<notin> set xs" using rims_ok_rim [OF tmrs_wfD(1) [OF wf] spoke_of_less] xs s by (metis distinct.simps(2) rim_ok_def)
    then have "placed (left w1) (Period (tmr w p)) p xs = placed (left w) (Period (tmr w p)) p xs"
      by (intro placed_cong) (metis tmr_only_left [OF w1(3)])
    then have "(?W(spoke_of ?m := placed (left w1) (?m - OSTmrTickCtr w1) p (?W (spoke_of ?m)))) s
        \<in> {xs, placed (left w) (Period (tmr w p)) p xs}"
      using now by simp
    ultimately show ?thesis using w2(2) tmr_only_trans [OF w1(3) w2(3)] nz by blast
  next
    case False
    let ?w = "upd_tmr p (\<lambda>t. t\<lparr>State := OS_TMR_STATE_COMPLETED\<rparr>) w1"
    have not: "p \<notin> set (?W j)" if "j < WHEEL" for j using rims_ok_in [OF tmrs_wfD(1) [OF w1(2)] that, of p] c1(2) by auto
    have t: "tmr ?w x = (if x = p then (tmr w1 p)\<lparr>State := OS_TMR_STATE_COMPLETED\<rparr> else tmr w1 x)" for x by (simp add: tmr_sel)
    have "rim_ok ?w j (?W j)" if j: "j < WHEEL" for j
      by (rule rim_ok_cong [OF rims_ok_rim [OF tmrs_wfD(1) [OF w1(2)] j]]) (use not [OF j] in \<open>auto simp: tmr_sel\<close>)
    then have "rims_ok ?w ?W" using tmrs_wfD(1) [OF w1(2)] c1(2) by (simp add: rims_ok_def t)
    then have "tmrs_wf ?w ?W"
    proof (rule wf_change [OF w1(2) _ tmr_only_upd])
      show "set_up (tmr ?w p)" using tmrs_wfD(2) [OF w1(2), of p] used by (simp add: t set_up_def)
    qed (use used in \<open>simp_all add: t\<close>)
    moreover have "tmr_core (tmr ?w p) = tmr_core (rearmed (OSTmrTickCtr w) (tmr w p))"
      using tmr_core_State [OF w1(4), of OS_TMR_STATE_COMPLETED] False by (simp add: t rearmed_def)
    moreover have "tmr_rearm p w = Some ?w" using w1(1) c1(8) False by (simp add: tmr_rearm_def)
    ultimately show ?thesis using tmr_only_trans [OF w1(3) tmr_only_upd] by (intro exI [of _ ?w] exI [of _ ?W]) simp
  qed
qed

section \<open>A tick of the timers\<close>

text \<open>The timers that expire with the next tick, and a timer after it.\<close>

definition expires :: "os_tmrs \<Rightarrow> nat \<Rightarrow> bool" where
  "expires w x \<longleftrightarrow> State (tmr w x) = OS_TMR_STATE_RUNNING \<and> left w x = 1"

definition ticked :: "os_tmrs \<Rightarrow> nat \<Rightarrow> os_tmr" where
  "ticked w x = (if expires w x then rearmed (OSTmrTickCtr w + 1) (tmr w x) else tmr w x)"

lemma tick_wf:
  assumes wf: "tmrs_wf w W" and pos: "\<And>j x. j < WHEEL \<Longrightarrow> x \<in> set (W j) \<Longrightarrow> left w x \<noteq> 0"
  shows "tmrs_wf (w\<lparr>OSTmrTickCtr := OSTmrTickCtr w + 1\<rparr>) W"
proof -
  let ?w = "w\<lparr>OSTmrTickCtr := OSTmrTickCtr w + 1\<rparr>"
  have "rim_ok ?w j (W j)" if j: "j < WHEEL" for j
  proof -
    have ok: "rim_ok w j (W j)" by (rule rims_ok_rim [OF tmrs_wfD(1) [OF wf] j])
    have "map (left ?w) (W j) = map (\<lambda>a. a - 1) (map (left w) (W j))" by (simp add: left_def diff_diff_eq)
    moreover have "sorted (map (\<lambda>a. a - 1) (map (left w) (W j)))"
      by (rule sorted_dec) (use ok pos [OF j] in \<open>auto simp: rim_ok_def\<close>)
    ultimately have "sorted (map (left ?w) (W j))" by (simp only:)
    then show ?thesis using ok by (simp add: rim_ok_def)
  qed
  then have "rims_ok ?w W" using tmrs_wfD(1) [OF wf] by (simp add: rims_ok_def)
  moreover obtain ds where "dbg_ok w ds" using wf by (auto simp: tmrs_wf_def)
  then have "dbg_ok ?w ds" by (rule dbg_ok_same) simp_all
  ultimately show ?thesis using wf by (auto simp: tmrs_wf_def)
qed

text \<open>The calls made for a timer that expires.\<close>

definition call_of :: "os_tmrs \<Rightarrow> nat \<Rightarrow> (tmr_callback \<times> nat \<times> nat) list" where
  "call_of w p = (case CallbackPtr (tmr w p) of None \<Rightarrow> [] | Some f \<Rightarrow> [(f, p, CallbackPtrArg (tmr w p))])"

lemma call_of_core:
  assumes "tmr_core (tmr w' x) = tmr_core (tmr w x)"
  shows "call_of w' x = call_of w x"
  by (simp add: call_of_def tmr_core_eqD [OF assms] split: option.split)

text \<open>What the timer task relies on: the functions return, in a state of the kernel as good as before.\<close>

locale callbacks =
  fixes call :: callback and good :: "os_kernel \<Rightarrow> bool"
  assumes call_returns: "good k \<Longrightarrow> \<exists>k'. call f p arg k = Some k' \<and> good k'"
begin

lemma tmr_call_runs:
  assumes "good (kern s)"
  shows "\<exists>k'. good k' \<and> tmr_call call p arg s = Some (s\<lparr>kern := k', calls := calls s
    @ (case CallbackPtr (tmr (tmrs s) p) of None \<Rightarrow> [] | Some f \<Rightarrow> [(f, p, arg)])\<rparr>)"
proof (cases "CallbackPtr (tmr (tmrs s) p)")
  case None
  then show ?thesis using assms by (intro exI [of _ "kern s"]) (simp add: tmr_call_def)
next
  case (Some f)
  then show ?thesis using call_returns [OF assms, of f p arg] by (auto simp: tmr_call_def)
qed

lemma expire_runs:
  assumes wf: "tmrs_wf (tmrs s) W" and g: "good (kern s)" and p: "State (tmr (tmrs s) p) = OS_TMR_STATE_RUNNING"
    and sp: "sp = spoke_of (Match (tmr (tmrs s) p))" and xs: "W sp = p # xs"
  shows "\<exists>s' W'. tmr_expire call p s = Some s' \<and> tmrs_wf (tmrs s') W' \<and> good (kern s') \<and> tmr_only p (tmrs s) (tmrs s')
    \<and> tmr_core (tmr (tmrs s') p) = tmr_core (rearmed (OSTmrTickCtr (tmrs s)) (tmr (tmrs s) p))
    \<and> calls s' = calls s @ call_of (tmrs s) p
    \<and> (W' sp = xs \<or> Period (tmr (tmrs s) p) \<noteq> 0 \<and> left (tmrs s') p = Period (tmr (tmrs s) p)
        \<and> W' sp = placed (left (tmrs s)) (Period (tmr (tmrs s) p)) p xs)"
proof -
  from rearm_wf [OF wf p sp xs] obtain w' W' where w': "tmr_rearm p (tmrs s) = Some w'" "tmrs_wf w' W'" "tmr_only p (tmrs s) w'"
    "tmr_core (tmr w' p) = tmr_core (rearmed (OSTmrTickCtr (tmrs s)) (tmr (tmrs s) p))"
    "W' sp = xs \<or> Period (tmr (tmrs s) p) \<noteq> 0 \<and> left w' p = Period (tmr (tmrs s) p)
      \<and> W' sp = placed (left (tmrs s)) (Period (tmr (tmrs s) p)) p xs" by blast
  have c: "CallbackPtr (tmr w' p) = CallbackPtr (tmr (tmrs s) p)" "CallbackPtrArg (tmr w' p) = CallbackPtrArg (tmr (tmrs s) p)"
    using tmr_core_eqD(4,5) [OF w'(4)] by (simp_all add: rearmed_def)
  let ?s = "s\<lparr>tmrs := w'\<rparr>"
  have "good (kern ?s)" using g by simp
  moreover have co: "(case CallbackPtr (tmr (tmrs ?s) p) of None \<Rightarrow> [] | Some f \<Rightarrow> [(f, p, CallbackPtrArg (tmr w' p))])
      = call_of (tmrs s) p"
    by (cases "CallbackPtr (tmr (tmrs s) p)") (simp_all add: call_of_def c)
  ultimately obtain k' where k': "good k'"
    "tmr_call call p (CallbackPtrArg (tmr w' p)) ?s = Some (?s\<lparr>kern := k', calls := calls s @ call_of (tmrs s) p\<rparr>)"
    using tmr_call_runs [of ?s p "CallbackPtrArg (tmr w' p)"] unfolding co by auto
  have "tmr_expire call p s = Some (?s\<lparr>kern := k', calls := calls s @ call_of (tmrs s) p\<rparr>)"
    by (simp add: tmr_expire_def w'(1) k'(2))
  then show ?thesis using k'(1) w'(2-5)
    by (intro exI [of _ "?s\<lparr>kern := k', calls := calls s @ call_of (tmrs s) p\<rparr>"] exI [of _ W']) simp
qed

lemma tmr_loop_runs:
  assumes "tmrs_wf (tmrs s) W" and "W sp = ds @ rest" and "sp < WHEEL" and "good (kern s)"
    and "\<And>x. x \<in> set ds \<Longrightarrow> left (tmrs s) x = 0" and "\<And>x. x \<in> set rest \<Longrightarrow> left (tmrs s) x \<noteq> 0"
    and "if ds = [] then \<forall>r. q = Some r \<longrightarrow> left (tmrs s) r \<noteq> 0 else q = Some (hd ds)"
  shows "\<exists>s' W'. tmr_loop call q s = Some s' \<and> tmrs_wf (tmrs s') W' \<and> good (kern s') \<and> tmr_globals (tmrs s') = tmr_globals (tmrs s)
    \<and> (\<forall>x. tmr_core (tmr (tmrs s') x)
        = tmr_core (if x \<in> set ds then rearmed (OSTmrTickCtr (tmrs s)) (tmr (tmrs s) x) else tmr (tmrs s) x))
    \<and> calls s' = calls s @ concat (map (call_of (tmrs s)) ds)"
  using assms
proof (induction ds arbitrary: s W q rest)
  case Nil
  have "tmr_loop call q s = Some s"
    by (subst tmr_loop.simps) (use Nil.prems(7) in \<open>auto simp: left_def split: option.split\<close>)
  then show ?case using Nil.prems(1,4) by auto
next
  case (Cons p ds)
  let ?w = "tmrs s"
  have rims: "rims_ok ?w W" by (rule tmrs_wfD(1) [OF Cons.prems(1)])
  have q: "q = Some p" using Cons.prems(7) by simp
  have mem: "p \<in> set (W sp)" using Cons.prems(2) by simp
  note run = rims_ok_in [OF rims Cons.prems(3) mem]
  have ok: "rim_ok ?w sp (p # ds @ rest)" using rims_ok_rim [OF rims Cons.prems(3)] Cons.prems(2) by simp
  have nx: "TmrNextPtr (tmr ?w p) = first_ptr (ds @ rest) None" and pd: "p \<notin> set ds" "p \<notin> set rest"
    using ok by (simp_all add: rim_ok_def)
  have due: "OSTmrTickCtr ?w = Match (tmr ?w p)" using Cons.prems(5) [of p] by (simp add: left_def)
  have xs: "W sp = p # ds @ rest" using Cons.prems(2) by simp
  from expire_runs [OF Cons.prems(1,4) _ _ xs] run obtain s1 W1 where s1: "tmr_expire call p s = Some s1"
    "tmrs_wf (tmrs s1) W1" "good (kern s1)" "tmr_only p ?w (tmrs s1)"
    "tmr_core (tmr (tmrs s1) p) = tmr_core (rearmed (OSTmrTickCtr ?w) (tmr ?w p))" "calls s1 = calls s @ call_of ?w p"
    "W1 sp = ds @ rest \<or> Period (tmr ?w p) \<noteq> 0 \<and> left (tmrs s1) p = Period (tmr ?w p)
      \<and> W1 sp = placed (left ?w) (Period (tmr ?w p)) p (ds @ rest)" by blast
  have other: "tmr_core (tmr (tmrs s1) x) = tmr_core (tmr ?w x)" "left (tmrs s1) x = left ?w x" if "x \<noteq> p" for x
    using tmr_only_left [OF s1(4) that] by blast+
  have glob: "tmr_globals (tmrs s1) = tmr_globals ?w" using s1(4) by (simp add: tmr_only_def)
  have np: "x \<noteq> p" if "x \<in> set ds \<or> x \<in> set rest" for x using that pd by blast
  have l0: "left (tmrs s1) x = 0" if "x \<in> set ds" for x using that other(2) [OF np] Cons.prems(5) [of x] by simp
  have lr: "left (tmrs s1) x \<noteq> 0" if "x \<in> set rest" for x using that other(2) [OF np] Cons.prems(6) [of x] by simp
  have "takeWhile (\<lambda>x. left ?w x < d) (ds @ rest) = ds @ takeWhile (\<lambda>x. left ?w x < d) rest"
    "dropWhile (\<lambda>x. left ?w x < d) (ds @ rest) = dropWhile (\<lambda>x. left ?w x < d) rest" if "d \<noteq> 0" for d
    using that Cons.prems(5) by (simp_all add: word_gt_0)
  then have "placed (left ?w) d p (ds @ rest) = ds @ placed (left ?w) d p rest" if "d \<noteq> 0" for d
    using that by (simp add: placed_def)
  then obtain rest' where rest': "W1 sp = ds @ rest'" "\<And>x. x \<in> set rest' \<Longrightarrow> left (tmrs s1) x \<noteq> 0"
    using s1(7) lr by (metis insertE set_placed)
  have nq: "if ds = [] then \<forall>r. first_ptr (ds @ rest) None = Some r \<longrightarrow> left (tmrs s1) r \<noteq> 0
      else first_ptr (ds @ rest) None = Some (hd ds)"
    using lr by (cases ds) (auto dest: first_ptr_in)
  from Cons.IH [OF s1(2) rest'(1) Cons.prems(3) s1(3) l0 rest'(2) nq] obtain s2 W2 where s2:
    "tmr_loop call (first_ptr (ds @ rest) None) s1 = Some s2" "tmrs_wf (tmrs s2) W2" "good (kern s2)"
    "tmr_globals (tmrs s2) = tmr_globals (tmrs s1)"
    "\<And>x. tmr_core (tmr (tmrs s2) x)
        = tmr_core (if x \<in> set ds then rearmed (OSTmrTickCtr (tmrs s1)) (tmr (tmrs s1) x) else tmr (tmrs s1) x)"
    "calls s2 = calls s1 @ concat (map (call_of (tmrs s1)) ds)" by blast
  have "tmr_loop call q s = Some s2"
    by (subst tmr_loop.simps) (simp add: q Let_def due s1(1) nx s2(1) [simplified])
  moreover have "call_of (tmrs s1) x = call_of ?w x" if "x \<in> set ds" for x
    by (rule call_of_core [OF other(1)]) (use that pd in auto)
  then have "map (call_of (tmrs s1)) ds = map (call_of ?w) ds" by simp
  then have "calls s2 = calls s @ concat (map (call_of ?w) (p # ds))"
    by (simp only: s2(6) s1(6) list.map concat.simps append_assoc)
  moreover have "tmr_core (tmr (tmrs s2) x)
      = tmr_core (if x \<in> set (p # ds) then rearmed (OSTmrTickCtr ?w) (tmr ?w x) else tmr ?w x)" for x
  proof (cases "x = p")
    case True
    then show ?thesis using s2(5) [of x] s1(5) pd by simp
  next
    case False
    then show ?thesis using s2(5) [of x] rearmed_core [OF other(1) [OF False]] other(1) [OF False] tmr_globalsD(1) [OF glob] by simp
  qed
  ultimately show ?case using s2(2-4) glob by auto
qed

lemma tmr_pass_runs:
  assumes inv: "tmrs_inv (tmrs s)" and g: "good (snd (OSSchedLock (kern s)))"
    and un: "\<And>k. good k \<Longrightarrow> \<exists>e k'. OSSchedUnlock k = Some (e, k') \<and> safe k'"
  shows "\<exists>s' ds. tmr_pass call s = Some s' \<and> safe (kern s') \<and> tmrs_inv (tmrs s')
    \<and> OSTmrTickCtr (tmrs s') = OSTmrTickCtr (tmrs s) + 1
    \<and> (\<forall>x. tmr_core (tmr (tmrs s') x) = tmr_core (ticked (tmrs s) x))
    \<and> distinct ds \<and> set ds = {x. expires (tmrs s) x} \<and> calls s' = calls s @ concat (map (call_of (tmrs s)) ds)"
proof -
  define w where "w = tmrs s"
  define w0 where "w0 = w\<lparr>OSTmrTickCtr := OSTmrTickCtr w + 1\<rparr>"
  define sp where "sp = spoke_of (OSTmrTickCtr w + 1)"
  have sp: "sp < WHEEL" unfolding sp_def by (rule spoke_of_less)
  obtain W where wf: "tmrs_wf w W" and nz: "\<And>x. State (tmr w x) = OS_TMR_STATE_RUNNING \<Longrightarrow> left w x \<noteq> 0"
    using inv by (auto simp: tmrs_inv_def w_def)
  note rims = tmrs_wfD(1) [OF wf]
  have l0: "left w0 x = left w x - 1" for x by (simp add: w0_def left_def diff_diff_eq)
  have pos: "left w x \<noteq> 0" if "j < WHEEL" "x \<in> set (W j)" for j x using nz rims_ok_in [OF rims that] by blast
  have wf0: "tmrs_wf w0 W" by (rule tick_wf [OF wf pos, folded w0_def])
  define ds rest where "ds = takeWhile (\<lambda>x. left w x = 1) (W sp)" and "rest = dropWhile (\<lambda>x. left w x = 1) (W sp)"
  have "sorted (map (left w) (W sp))" using rims_ok_rim [OF rims sp] by (simp add: rim_ok_def)
  note pre = due_prefix [OF this pos [OF sp]]
  have d: "set ds = {x \<in> set (W sp). left w x = 1}" "set rest = {x \<in> set (W sp). left w x \<noteq> 1}"
    using pre by (simp_all add: ds_def rest_def)
  have sd: "set ds = {x. expires w x}"
  proof (intro set_eqI iffI)
    fix x assume "x \<in> {x. expires w x}"
    then have x: "State (tmr w x) = OS_TMR_STATE_RUNNING" "left w x = 1" by (simp_all add: expires_def)
    from x(2) have "Match (tmr w x) = OSTmrTickCtr w + 1" by (simp add: left_def diff_eq_eq add.commute)
    then show "x \<in> set ds" using rims_ok_place [OF rims, of x] x by (simp add: d sp_def)
  qed (use d rims_ok_in [OF rims sp] in \<open>auto simp: expires_def\<close>)
  have dr: "W sp = ds @ rest" by (simp add: ds_def rest_def)
  define s0 where "s0 = s\<lparr>kern := snd (OSSchedLock (kern s)), tmrs := w0\<rparr>"
  have sel0: "tmrs s0 = w0" "kern s0 = snd (OSSchedLock (kern s))" "calls s0 = calls s" by (simp_all add: s0_def)
  have q: "if ds = [] then \<forall>r. first_ptr (W sp) None = Some r \<longrightarrow> left (tmrs s0) r \<noteq> 0 else first_ptr (W sp) None = Some (hd ds)"
    using d(2) dr by (cases ds) (auto simp: sel0 l0 dest: first_ptr_in)
  have a: "tmrs_wf (tmrs s0) W" "good (kern s0)" "\<And>x. x \<in> set ds \<Longrightarrow> left (tmrs s0) x = 0"
    "\<And>x. x \<in> set rest \<Longrightarrow> left (tmrs s0) x \<noteq> 0"
    using wf0 g by (simp_all add: sel0 l0 d)
  have "distinct ds" using rims_ok_rim [OF rims sp] by (simp add: rim_ok_def ds_def distinct_takeWhile)
  from tmr_loop_runs [OF a(1) dr sp a(2-4) q, unfolded sel0]
  obtain s1 W1 where s1: "tmr_loop call (first_ptr (W sp) None) s0 = Some s1" "tmrs_wf (tmrs s1) W1" "good (kern s1)"
    "tmr_globals (tmrs s1) = tmr_globals w0"
    "\<And>x. tmr_core (tmr (tmrs s1) x) = tmr_core (if x \<in> set ds then rearmed (OSTmrTickCtr w0) (tmr w0 x) else tmr w0 x)"
    "calls s1 = calls s @ concat (map (call_of w0) ds)"
    by blast
  obtain e k' where k': "OSSchedUnlock (kern s1) = Some (e, k')" "safe k'" using un [OF s1(3)] by blast
  have core: "tmr_core (tmr (tmrs s1) x) = tmr_core (ticked w x)" for x
    using s1(5) [of x] sd by (simp add: ticked_def w0_def)
  have now: "OSTmrTickCtr (tmrs s1) = OSTmrTickCtr w + 1" using tmr_globalsD(1) [OF s1(4)] by (simp add: w0_def)
  have "left (tmrs s1) x \<noteq> 0" if st: "State (tmr (tmrs s1) x) = OS_TMR_STATE_RUNNING" for x
  proof -
    have c: "State (ticked w x) = OS_TMR_STATE_RUNNING" "Match (tmr (tmrs s1) x) = Match (ticked w x)"
      using tmr_core_eqD(1,2) [OF core [of x]] st by simp_all
    show ?thesis
    proof (cases "expires w x")
      case True
      then have "Opt (tmr w x) = OS_OPT_TMR_PERIODIC" "left (tmrs s1) x = Period (tmr w x)"
        using c now by (auto simp: ticked_def rearmed_def left_def split: if_splits)
      then show ?thesis using set_up_cases [OF tmrs_wfD(2) [OF wf, of x]] True by (auto simp: expires_def)
    next
      case False
      then have m: "Match (tmr (tmrs s1) x) = Match (tmr w x)" "State (tmr w x) = OS_TMR_STATE_RUNNING"
        using c by (simp_all add: ticked_def)
      have "left (tmrs s1) x = left w x - 1" unfolding left_def m(1) now by (rule diff_diff_eq [symmetric])
      moreover have "left w x \<noteq> 1" using m(2) False by (simp add: expires_def)
      ultimately show ?thesis by simp
    qed
  qed
  then have "tmrs_inv (tmrs s1)" using s1(2) by (auto simp: tmrs_inv_def)
  moreover have "TmrFirstPtr (rim w0 sp) = first_ptr (W sp) None"
    using rims_ok_rim [OF rims sp] by (simp add: w0_def rim_ok_def)
  then have "tmr_pass call s = Some (s1\<lparr>kern := k'\<rparr>)"
    using s1(1) k'(1) by (simp add: tmr_pass_def sched_locked_def Let_def w_def [symmetric] w0_def [symmetric] sp_def
      s0_def) (simp add: w0_def sp_def)
  moreover have "call_of w0 = call_of w" by (rule ext, rule call_of_core) (simp add: w0_def)
  ultimately show ?thesis using k'(2) now core sd \<open>distinct ds\<close> s1(6)
    by (intro exI [of _ "s1\<lparr>kern := k'\<rparr>"] exI [of _ ds]) (simp add: w_def)
qed

end

section \<open>The functions of the firmware under the lock\<close>

text \<open>The scheduler is locked, at level \<open>l\<close>, and no interrupt is being served.\<close>

definition kernel_locked :: "nat set \<Rightarrow> nat \<Rightarrow> nat \<Rightarrow> nat \<Rightarrow> nat \<Rightarrow> u8 \<Rightarrow> os_kernel \<Rightarrow> bool" where
  "kernel_locked A idle n N can l k \<longleftrightarrow> kernel_safe A idle n N k \<and> can \<in> A \<and> 0 < l
     \<and> OSIntNestingCtr k = 0 \<and> OSSchedLockNestingCtr k = l"

text \<open>
  The delay the functions ask for is refused at once: nothing is delayed, and the tasks that wait
  for the processor wait no longer than the functions run.
\<close>

lemma locked_delay_refused:
  "OSIntNestingCtr k = 0 \<Longrightarrow> 0 < OSSchedLockNestingCtr k \<Longrightarrow> OSTimeDlyHMSM h m s ms opt k = Some (OS_ERR_SCHED_LOCKED, k)"
  by (simp add: OSTimeDlyHMSM_def Let_def)

lemma sched_unless_locked: "0 < OSSchedLockNestingCtr k \<Longrightarrow> sched_unless opt k = Some k"
  by (simp add: sched_unless_def OSSched_def)

lemma locked_post:
  assumes s: "kernel_locked A idle n N can l k" and p: "p \<in> A"
  shows "\<exists>e k'. OSTaskQPost (Some p) m sz opt ts k = Some (e, k') \<and> kernel_locked A idle n N can l k'"
proof -
  have safe: "kernel_safe A idle n N k" and l: "0 < OSSchedLockNestingCtr k" using s by (simp_all add: kernel_locked_def)
  have levels: "OSIntNestingCtr k' = OSIntNestingCtr k \<and> OSSchedLockNestingCtr k' = OSSchedLockNestingCtr k"
    if r: "OSTaskQPost (Some p) m sz opt ts k = Some (e, k')" for e k'
  proof -
    have q: "OSIntNestingCtr k1 = OSIntNestingCtr k \<and> OSSchedLockNestingCtr k1 = OSSchedLockNestingCtr k"
      if "queue_msg p x opt k = Some (e1, k1)" for x e1 k1
      using that by (auto simp: queue_msg_def)
    have e: "OSIntNestingCtr k2 = OSIntNestingCtr k \<and> OSSchedLockNestingCtr k2 = OSSchedLockNestingCtr k"
      if "pends (TaskState (tcb k p))" "OS_Post p m sz ts k = Some k1" "sched_unless opt k1 = Some k2" for k1 k2
    proof -
      have "only p k k1"
        using end_pend_kin [OF run_kin [OF safe_run [OF safe]] p that(1), of m sz ts OS_STATUS_PEND_OK] that(2)
        by (auto simp: OS_Post_def)
      then show ?thesis using only_levels [of p k k1] sched_unless_locked [of k1 opt] l that(3) by simp
    qed
    let ?post = "OSTaskQPost (Some p) m sz opt ts k"
    have "?post = Some (OS_ERR_OPT_INVALID, k) \<or> ?post = Some (OS_ERR_STATE_INVALID, k) \<or> ?post = queue_msg p (m, sz, ts) opt k
        \<or> pends (TaskState (tcb k p)) \<and> ?post = do { k \<leftarrow> OS_Post p m sz ts k; map_option (Pair OS_ERR_NONE) (sched_unless opt k) }"
      by (simp add: OSTaskQPost_def OS_TaskQPost_def Let_def target_def pends_def)
    then show ?thesis
    proof (elim disjE conjE)
      assume p: "pends (TaskState (tcb k p))" and d: "?post = do { k \<leftarrow> OS_Post p m sz ts k; map_option (Pair OS_ERR_NONE) (sched_unless opt k) }"
      obtain k1 where "OS_Post p m sz ts k = Some k1" "sched_unless opt k1 = Some k'"
        using r unfolding d by (auto simp: bind_eq_Some_conv)
      then show ?thesis by (rule e [OF p])
    next
      assume "?post = queue_msg p (m, sz, ts) opt k"
      then show ?thesis using q [of "(m, sz, ts)" e k'] r by simp
    qed (use r in simp_all)
  qed
  obtain e k' where r: "OSTaskQPost (Some p) m sz opt ts k = Some (e, k')" "kernel_safe A idle n N k'"
    using OSTaskQPost_goes [OF safe _ p, of "Some p" m sz opt ts] by (auto simp: goes_def target_def)
  then show ?thesis using levels [OF r(1)] s by (auto simp: kernel_locked_def)
qed

interpretation csu_calls: callbacks "csu_callback can buf ts" "kernel_locked A idle n N can l" for can buf ts A idle n N l
proof
  fix k f p arg
  assume g: "kernel_locked A idle n N can l k"
  then have "can \<in> A" by (simp add: kernel_locked_def)
  from locked_post [OF g this] obtain e k' where k': "OSTaskQPost (Some can) (buf f) 3 OS_OPT_POST_FIFO (ts p) k = Some (e, k')"
    "kernel_locked A idle n N can l k'" by blast
  have "OSTimeDlyHMSM 0 0 0 50 OS_OPT_TIME_PERIODIC k' = Some (OS_ERR_SCHED_LOCKED, k')"
    by (rule locked_delay_refused) (use k'(2) in \<open>auto simp: kernel_locked_def\<close>)
  then have "csu_callback can buf ts f p arg k = Some k'" by (simp add: csu_callback_def k'(1))
  then show "\<exists>k'. csu_callback can buf ts f p arg k = Some k' \<and> kernel_locked A idle n N can l k'" using k'(2) by blast
qed

text \<open>Locking and unlocking.\<close>

definition lockable :: "os_kernel \<Rightarrow> bool" where
  "lockable k \<longleftrightarrow> OSRunning k \<and> OSSchedLockNestingCtr k < 250"

lemma lock_level: "(c :: u8) < 250 \<Longrightarrow> 0 < c + 1"
proof (rule ccontr)
  assume "c < 250" and "\<not> 0 < c + 1"
  then have "c = - 1" by (simp add: eq_neg_iff_add_eq_0)
  then show False using \<open>c < 250\<close> by simp
qed

lemma lock_ready:
  assumes "kernel_safe A idle n N k" and "can \<in> A" and "lockable k" and "OSIntNestingCtr k = 0"
  shows "kernel_locked A idle n N can (OSSchedLockNestingCtr k + 1) (snd (OSSchedLock k))"
proof -
  have "goes A idle n N {} k (Some (snd (OSSchedLock k)))" by (rule OSSchedLock_goes [OF assms(1)])
  then have "kernel_safe A idle n N (snd (OSSchedLock k))" by (simp add: goes_def)
  then show ?thesis using assms(2-4) lock_level [of "OSSchedLockNestingCtr k"]
    by (simp add: kernel_locked_def OSSchedLock_def lockable_def linorder_not_le [symmetric])
qed

lemma unlock_runs:
  "kernel_safe A idle n N k \<Longrightarrow> \<exists>e k'. OSSchedUnlock k = Some (e, k') \<and> kernel_safe A idle n N k'"
  using OSSchedUnlock_goes [of A idle n N k "{}"] by (auto simp: goes_def)

lemma sched_locked_runs:
  assumes "body (s\<lparr>kern := snd (OSSchedLock (kern s))\<rparr>) = Some (r, s1)" and "kernel_safe A idle n N (kern s1)"
  shows "\<exists>k'. sched_locked body s = Some (r, s1\<lparr>kern := k'\<rparr>) \<and> kernel_safe A idle n N k'"
  using unlock_runs [OF assms(2)] assms(1) by (auto simp: sched_locked_def)

section \<open>The effect of the services\<close>

text \<open>When a timer that is started expires for the first time.\<close>

definition first_delay :: "os_tmr \<Rightarrow> u32" where
  "first_delay t = (if Dly t = 0 then Period t else Dly t)"

lemma first_delay_pos: "set_up t \<Longrightarrow> State t \<noteq> OS_TMR_STATE_UNUSED \<Longrightarrow> first_delay t \<noteq> 0"
  by (auto simp: set_up_def first_delay_def)

lemma tmrs_invI:
  assumes inv: "tmrs_inv w" and wf: "tmrs_wf w' W'" and o: "tmr_only p w w'"
    and p: "State (tmr w' p) = OS_TMR_STATE_RUNNING \<Longrightarrow> left w' p \<noteq> 0"
  shows "tmrs_inv w'"
proof -
  have "left w' x \<noteq> 0" if st: "State (tmr w' x) = OS_TMR_STATE_RUNNING" for x
  proof (cases "x = p")
    case False
    have c: "tmr_core (tmr w' x) = tmr_core (tmr w x)" "left w' x = left w x" using tmr_only_left [OF o False] by blast+
    show ?thesis using inv st tmr_core_eqD(2) [OF c(1)] c(2) by (simp add: tmrs_inv_def)
  qed (use p st in simp)
  then show ?thesis using wf by (auto simp: tmrs_inv_def)
qed

lemma inv_set_up: "tmrs_inv w \<Longrightarrow> set_up (tmr w x)"
  by (auto simp: tmrs_inv_def tmrs_wf_def)

lemma tmr_check_used: "tmrs_inv (tmrs s) \<Longrightarrow> tmr_check p_tmr s = Inr p \<Longrightarrow>
    p_tmr = Some p \<and> State (tmr (tmrs s) p) \<noteq> OS_TMR_STATE_UNUSED \<and> State (tmr (tmrs s) p) \<le> OS_TMR_STATE_COMPLETED"
  using inv_set_up [of "tmrs s" p] by (auto simp: tmr_check_def set_up_def split: if_splits option.splits)

text \<open>Starting a timer, from any state.\<close>

definition started :: "u32 \<Rightarrow> os_tmr \<Rightarrow> os_tmr" where
  "started now t = t\<lparr>State := OS_TMR_STATE_RUNNING, Match := first_delay t + now\<rparr>"

lemma link_starts:
  assumes inv: "tmrs_inv w" and wf: "tmrs_wf w1 W" and o: "tmr_only p w w1"
    and st: "State (tmr w1 p) = OS_TMR_STATE_STOPPED \<or> State (tmr w1 p) = OS_TMR_STATE_COMPLETED"
    and c: "tmr_core (tmr w1 p) = tmr_core (tmr w p) \<or> tmr_core (tmr w1 p) = tmr_core ((tmr w p)\<lparr>State := OS_TMR_STATE_STOPPED\<rparr>)"
  shows "\<exists>w'. OS_TmrLink p OS_OPT_LINK_DLY w1 = Some w' \<and> tmrs_inv w' \<and> tmr_only p w w'
    \<and> tmr_core (tmr w' p) = tmr_core (started (OSTmrTickCtr w) (tmr w p))"
proof -
  have now: "OSTmrTickCtr w1 = OSTmrTickCtr w" using o by (simp add: tmr_only_def tmr_globals_def)
  have f: "Dly (tmr w1 p) = Dly (tmr w p)" "Period (tmr w1 p) = Period (tmr w p)" using c by (auto dest: tmr_core_eqD)
  let ?m = "first_delay (tmr w p) + OSTmrTickCtr w"
  have "?m = tmr_match OS_OPT_LINK_DLY (tmr w1 p) (OSTmrTickCtr w1)" by (simp add: tmr_match_def first_delay_def now f)
  from link_wf [OF wf st this] obtain w' where w': "OS_TmrLink p OS_OPT_LINK_DLY w1 = Some w'"
    "tmrs_wf w' (W(spoke_of ?m := placed (left w1) (?m - OSTmrTickCtr w1) p (W (spoke_of ?m))))" "tmr_only p w1 w'"
    "tmr_core (tmr w' p) = tmr_core ((tmr w1 p)\<lparr>State := OS_TMR_STATE_RUNNING, Match := ?m\<rparr>)" by blast
  have o': "tmr_only p w w'" by (rule tmr_only_trans [OF o w'(3)])
  have "tmr_core ((tmr w1 p)\<lparr>State := OS_TMR_STATE_RUNNING, Match := ?m\<rparr>)
      = tmr_core ((tmr w p)\<lparr>State := OS_TMR_STATE_RUNNING, Match := ?m\<rparr>)"
    using c
  proof (elim disjE)
    assume a: "tmr_core (tmr w1 p) = tmr_core ((tmr w p)\<lparr>State := OS_TMR_STATE_STOPPED\<rparr>)"
    from tmr_core_Match [OF tmr_core_State [OF a]] show ?thesis by simp
  qed (rule tmr_core_Match [OF tmr_core_State])
  then have cs: "tmr_core (tmr w' p) = tmr_core (started (OSTmrTickCtr w) (tmr w p))"
    by (simp only: w'(4) started_def)
  have "set_up (tmr w1 p)" "State (tmr w1 p) \<noteq> OS_TMR_STATE_UNUSED" using tmrs_wfD(2) [OF wf] st by auto
  then have "first_delay (tmr w1 p) \<noteq> 0" by (rule first_delay_pos)
  then have "first_delay (tmr w p) \<noteq> 0" by (simp add: first_delay_def f split: if_splits)
  moreover have "left w' p = first_delay (tmr w p)"
    using tmr_core_eqD(1) [OF cs] o' by (simp add: left_def started_def tmr_only_def tmr_globals_def)
  ultimately have "tmrs_inv w'" using tmrs_invI [OF inv w'(2) o'] by simp
  then show ?thesis using w'(1) o' cs by blast
qed

lemma tmr_start_runs:
  assumes inv: "tmrs_inv (tmrs s)" and u: "State (tmr (tmrs s) p) \<noteq> OS_TMR_STATE_UNUSED"
  shows "\<exists>w'. tmr_start p s = Some ((OS_ERR_NONE, True), s\<lparr>tmrs := w'\<rparr>) \<and> tmrs_inv w' \<and> tmr_only p (tmrs s) w'
    \<and> tmr_core (tmr w' p) = tmr_core (started (OSTmrTickCtr (tmrs s)) (tmr (tmrs s) p))"
proof -
  let ?w = "tmrs s"
  obtain W where wf: "tmrs_wf ?w W" using inv by (auto simp: tmrs_inv_def)
  have le: "State (tmr ?w p) \<le> OS_TMR_STATE_COMPLETED" using inv_set_up [OF inv] by (simp add: set_up_def)
  show ?thesis
  proof (cases "State (tmr ?w p) = OS_TMR_STATE_RUNNING")
    case True
    from unlink_wf [OF wf True refl] obtain w1 where w1: "OS_TmrUnlink p ?w = Some w1"
      "tmrs_wf w1 (W(spoke_of (Match (tmr ?w p)) := remove1 p (W (spoke_of (Match (tmr ?w p))))))" "tmr_only p ?w w1"
      "tmr_core (tmr w1 p) = tmr_core ((tmr ?w p)\<lparr>State := OS_TMR_STATE_STOPPED\<rparr>)" by blast
    have "State (tmr w1 p) = OS_TMR_STATE_STOPPED" using tmr_core_eqD(2) [OF w1(4)] by simp
    from link_starts [OF inv w1(2,3) disjI1 [OF this] disjI2 [OF w1(4)]] show ?thesis
      using True w1(1) by (auto simp: tmr_start_def)
  next
    case False
    have "State (tmr ?w p) = OS_TMR_STATE_STOPPED \<or> State (tmr ?w p) = OS_TMR_STATE_COMPLETED"
      using le u False by (simp add: word_le_nat_alt word_unat_eq_iff) arith
    from link_starts [OF inv wf tmr_only_refl this disjI1 [OF refl]] obtain w' where
      "OS_TmrLink p OS_OPT_LINK_DLY ?w = Some w'" "tmrs_inv w'" "tmr_only p ?w w'"
      "tmr_core (tmr w' p) = tmr_core (started (OSTmrTickCtr ?w) (tmr ?w p))" by blast
    then show ?thesis using False \<open>State (tmr ?w p) = OS_TMR_STATE_STOPPED \<or> State (tmr ?w p) = OS_TMR_STATE_COMPLETED\<close>
      by (intro exI [of _ w']) (simp add: tmr_start_def)
  qed
qed

text \<open>Stopping a timer.\<close>

lemma stop_wf:
  assumes inv: "tmrs_inv w" and p: "State (tmr w p) = OS_TMR_STATE_RUNNING"
  shows "\<exists>w'. OS_TmrUnlink p w = Some w' \<and> tmrs_inv w' \<and> tmr_only p w w'
    \<and> tmr_core (tmr w' p) = tmr_core ((tmr w p)\<lparr>State := OS_TMR_STATE_STOPPED\<rparr>)"
proof -
  obtain W where wf: "tmrs_wf w W" using inv by (auto simp: tmrs_inv_def)
  from unlink_wf [OF wf p refl] obtain w' W' where w': "OS_TmrUnlink p w = Some w'" "tmrs_wf w' W'" "tmr_only p w w'"
    "tmr_core (tmr w' p) = tmr_core ((tmr w p)\<lparr>State := OS_TMR_STATE_STOPPED\<rparr>)" by blast
  have "tmrs_inv w'" by (rule tmrs_invI [OF inv w'(2,3)]) (use tmr_core_eqD(2) [OF w'(4)] in simp)
  then show ?thesis using w' by blast
qed

context callbacks
begin

lemma tmr_stop_runs:
  assumes inv: "tmrs_inv (tmrs s)" and g: "good (kern s)"
  shows "\<exists>r w' k' cs. tmr_stop call opt arg p s = Some (r, s\<lparr>tmrs := w', kern := k', calls := calls s @ cs\<rparr>)
    \<and> tmrs_inv w' \<and> tmr_only p (tmrs s) w' \<and> good k' \<and> (\<forall>c \<in> set cs. fst (snd c) = p)"
proof (cases "State (tmr (tmrs s) p) = OS_TMR_STATE_RUNNING")
  case False
  have "\<exists>r. tmr_stop call opt arg p s = Some (r, s)" using False by (auto simp: tmr_stop_def Let_def)
  then obtain r where "tmr_stop call opt arg p s = Some (r, s)" by blast
  then show ?thesis using inv g
    by (intro exI [of _ r] exI [of _ "tmrs s"] exI [of _ "kern s"] exI [of _ "[]"]) simp
next
  case True
  from stop_wf [OF inv True] obtain w' where w': "OS_TmrUnlink p (tmrs s) = Some w'" "tmrs_inv w'" "tmr_only p (tmrs s) w'"
    by blast
  have call: "\<exists>k' cs. tmr_call call p a (s\<lparr>tmrs := w'\<rparr>) = Some (s\<lparr>tmrs := w', kern := k', calls := calls s @ cs\<rparr>)
      \<and> good k' \<and> (\<forall>c \<in> set cs. fst (snd c) = p)" for a
  proof -
    have "good (kern (s\<lparr>tmrs := w'\<rparr>))" using g by simp
    from tmr_call_runs [OF this, of p a] obtain k' where k': "good k'"
      "tmr_call call p a (s\<lparr>tmrs := w'\<rparr>) = Some (s\<lparr>tmrs := w', kern := k', calls := calls s
        @ (case CallbackPtr (tmr w' p) of None \<Rightarrow> [] | Some f \<Rightarrow> [(f, p, a)])\<rparr>)" by auto
    then show ?thesis
      by (intro exI [of _ k'] exI [of _ "case CallbackPtr (tmr w' p) of None \<Rightarrow> [] | Some f \<Rightarrow> [(f, p, a)]"])
        (simp split: option.split)
  qed
  consider "opt = OS_OPT_TMR_CALLBACK" | "opt \<noteq> OS_OPT_TMR_CALLBACK" "opt = OS_OPT_TMR_CALLBACK_ARG"
    | "opt \<noteq> OS_OPT_TMR_CALLBACK" "opt \<noteq> OS_OPT_TMR_CALLBACK_ARG" by blast
  then show ?thesis
  proof cases
    case 1
    then show ?thesis using call [of "CallbackPtrArg (tmr w' p)"] w' True by (auto simp: tmr_stop_def Let_def)
  next
    case 2
    then show ?thesis using call [of arg] w' True by (auto simp: tmr_stop_def Let_def)
  next
    case 3
    then have "\<exists>r. tmr_stop call opt arg p s = Some (r, s\<lparr>tmrs := w'\<rparr>)" using w'(1) True by (auto simp: tmr_stop_def Let_def)
    then obtain r where "tmr_stop call opt arg p s = Some (r, s\<lparr>tmrs := w'\<rparr>)" by blast
    then show ?thesis using w' g
      by (intro exI [of _ r] exI [of _ w'] exI [of _ "kern s"] exI [of _ "[]"]) simp
  qed
qed

end

text \<open>A stop with an option that does not exist reports a failure, but the timer is stopped.\<close>

lemma stop_unknown_option:
  assumes "tmrs_inv (tmrs s)" and "State (tmr (tmrs s) p) = OS_TMR_STATE_RUNNING"
    and "opt \<noteq> OS_OPT_TMR_CALLBACK" and "opt \<noteq> OS_OPT_TMR_CALLBACK_ARG" and "opt \<noteq> OS_OPT_TMR_NONE"
  shows "\<exists>w'. tmr_stop call opt arg p s = Some ((OS_ERR_OPT_INVALID, False), s\<lparr>tmrs := w'\<rparr>)
    \<and> State (tmr w' p) = OS_TMR_STATE_STOPPED"
proof -
  from stop_wf [OF assms(1,2)] obtain w' where w': "OS_TmrUnlink p (tmrs s) = Some w'"
    "tmr_core (tmr w' p) = tmr_core ((tmr (tmrs s) p)\<lparr>State := OS_TMR_STATE_STOPPED\<rparr>)" by blast
  have "State (tmr w' p) = OS_TMR_STATE_STOPPED" using tmr_core_eqD(2) [OF w'(2)] by simp
  then show ?thesis using assms(2-5) w'(1) by (intro exI [of _ w']) (simp add: tmr_stop_def Let_def)
qed

section \<open>Creating and deleting a timer\<close>

text \<open>What the other services keep of a timer: all but links and the time last computed.\<close>

definition timing :: "os_tmr \<Rightarrow> (u32 \<times> u8 \<times> u16) \<times> (u32 \<times> u32 \<times> u32) \<times> tmr_callback option \<times> nat" where
  "timing t = ((Type t, State t, Opt t), (Match t, Dly t, Period t), CallbackPtr t, CallbackPtrArg t)"

lemma timing_eqD:
  assumes "timing t = timing u"
  shows "Type t = Type u" "State t = State u" "Opt t = Opt u" "Match t = Match u" "Dly t = Dly u" "Period t = Period u"
    "CallbackPtr t = CallbackPtr u" "CallbackPtrArg t = CallbackPtrArg u"
  using assms by (simp_all add: timing_def)

lemma timing_core: "tmr_core t = tmr_core u \<Longrightarrow> timing t = timing u"
  unfolding timing_def by (auto dest: tmr_core_eqD)

lemma set_up_timing:
  assumes "timing t = timing u"
  shows "set_up t = set_up u"
  by (simp add: set_up_def timing_eqD [OF assms])

lemma rims_same:
  assumes "rims_ok w W" and "\<And>s x. s < WHEEL \<Longrightarrow> x \<in> set (W s) \<Longrightarrow> tmn w' x = tmn w x \<and> tmp w' x = tmp w x
      \<and> Match (tmr w' x) = Match (tmr w x) \<and> State (tmr w' x) = State (tmr w x)"
    and "rim w' = rim w" and "OSTmrTickCtr w' = OSTmrTickCtr w"
    and "\<And>x. State (tmr w' x) = OS_TMR_STATE_RUNNING \<Longrightarrow> State (tmr w x) = OS_TMR_STATE_RUNNING"
  shows "rims_ok w' W"
proof -
  have "rim_ok w' s (W s)" if "s < WHEEL" for s
    by (rule rim_ok_cong [OF rims_ok_rim [OF assms(1) that]]) (use assms(2) [OF that] assms(3,4) in auto)
  then show ?thesis using assms(1,5) by (auto simp: rims_ok_def)
qed

abbreviation dbn :: "os_tmrs \<Rightarrow> nat \<Rightarrow> ptr" where "dbn w x \<equiv> DbgNextPtr (tmr w x)"
abbreviation dbp :: "os_tmrs \<Rightarrow> nat \<Rightarrow> ptr" where "dbp w x \<equiv> DbgPrevPtr (tmr w x)"

lemma dbg_okD:
  assumes "dbg_ok w ds"
  shows "seg (dbn w) (dbp w) None ds None" "distinct ds" "OSTmrDbgListPtr w = first_ptr ds None"
    "x \<in> set ds \<longleftrightarrow> State (tmr w x) \<noteq> OS_TMR_STATE_UNUSED" "OSTmrQty w = of_nat (length ds)"
  using assms by (simp_all add: dbg_ok_def)

lemma dbg_remove:
  assumes sg: "seg (dbn w) (dbp w) None ds None" and d: "distinct ds" and fp: "OSTmrDbgListPtr w = first_ptr ds None"
    and p: "p \<in> set ds"
  shows "seg (dbn (OS_TmrDbgListRemove p w)) (dbp (OS_TmrDbgListRemove p w)) None (remove1 p ds) None"
    and "OSTmrDbgListPtr (OS_TmrDbgListRemove p w) = first_ptr (remove1 p ds) None"
proof -
  obtain ys zs where xs: "ds = ys @ p # zs" "p \<notin> set ys" "p \<notin> set zs" "dbp w p = last_ptr None ys" "dbn w p = first_ptr zs None"
    using seg_neighbours [OF sg p d] by metis
  let ?w = "OS_TmrDbgListRemove p w"
  have rem: "remove1 p ds = ys @ zs" using xs by (simp add: remove1_append)
  have dis: "x \<notin> set ys \<or> x \<notin> set zs" for x using d xs(1) by auto
  have "(\<forall>x. x \<noteq> p \<longrightarrow> dbn ?w x = (if last_ptr None ys = Some x then first_ptr zs None else dbn w x))
    \<and> (\<forall>x. x \<noteq> p \<longrightarrow> dbp ?w x = (if first_ptr zs None = Some x then last_ptr None ys else dbp w x))
    \<and> OSTmrDbgListPtr ?w = first_ptr (ys @ zs) None"
  proof (cases ys rule: rev_cases)
    case Nil
    then show ?thesis using xs(3-5) by (cases zs) (simp_all add: OS_TmrDbgListRemove_def tmr_defs)
  next
    case (snoc us u)
    then have "OSTmrDbgListPtr w = first_ptr (ys @ zs) None" using fp xs(1) by (cases us) simp_all
    then show ?thesis using xs(2-5) snoc dis [of u] by (cases zs) (auto simp: OS_TmrDbgListRemove_def tmr_defs)
  qed
  moreover have "x \<in> set ys \<Longrightarrow> x \<noteq> p" "x \<in> set zs \<Longrightarrow> x \<noteq> p" for x using xs(2,3) by auto
  moreover have "x \<in> set ys \<Longrightarrow> first_ptr zs None \<noteq> Some x" "x \<in> set zs \<Longrightarrow> last_ptr None ys \<noteq> Some x" for x
    using dis [of x] by (auto dest: first_ptr_in last_ptr_in)
  ultimately have "seg (dbn ?w) (dbp ?w) None (ys @ zs) None"
    by (intro seg_remove [OF sg [unfolded xs(1)] d [unfolded xs(1)]]) (auto dest: last_ptr_in first_ptr_in)
  then show "seg (dbn ?w) (dbp ?w) None (remove1 p ds) None" by (simp only: rem)
  show "OSTmrDbgListPtr ?w = first_ptr (remove1 p ds) None"
    using \<open>_ \<and> _ \<and> OSTmrDbgListPtr ?w = first_ptr (ys @ zs) None\<close> by (simp only: rem)
qed

lemma dbg_remove_frame:
  "timing (tmr (OS_TmrDbgListRemove p w) x) = timing (tmr w x)"
  "tmn (OS_TmrDbgListRemove p w) x = tmn w x" "tmp (OS_TmrDbgListRemove p w) x = tmp w x"
  "rim (OS_TmrDbgListRemove p w) = rim w" "OSTmrTickCtr (OS_TmrDbgListRemove p w) = OSTmrTickCtr w"
  "OSTmrQty (OS_TmrDbgListRemove p w) = OSTmrQty w"
  by (cases "dbp w p"; cases "dbn w p"; simp add: OS_TmrDbgListRemove_def tmr_defs timing_def Let_def)+

lemma tmr_del_runs:
  assumes inv: "tmrs_inv (tmrs s)" and u: "State (tmr (tmrs s) p) \<noteq> OS_TMR_STATE_UNUSED"
  shows "\<exists>w'. tmr_del p s = Some ((OS_ERR_NONE, True), s\<lparr>tmrs := w'\<rparr>) \<and> tmrs_inv w'
    \<and> State (tmr w' p) = OS_TMR_STATE_UNUSED \<and> OSTmrTickCtr w' = OSTmrTickCtr (tmrs s)
    \<and> (\<forall>x. x \<noteq> p \<longrightarrow> timing (tmr w' x) = timing (tmr (tmrs s) x))"
proof -
  let ?w = "tmrs s"
  obtain W ds where wf: "tmrs_wf ?w W" and ds: "dbg_ok ?w ds" using inv by (auto simp: tmrs_inv_def tmrs_wf_def)
  have pd: "p \<in> set ds" using dbg_okD(4) [OF ds] u by simp
  define w1 where "w1 = (OS_TmrDbgListRemove p ?w)\<lparr>OSTmrQty := OSTmrQty ?w - 1\<rparr>"
  have f1: "timing (tmr w1 x) = timing (tmr ?w x)" "tmn w1 x = tmn ?w x" "tmp w1 x = tmp ?w x" "rim w1 = rim ?w"
    "OSTmrTickCtr w1 = OSTmrTickCtr ?w" for x
    by (simp_all add: w1_def dbg_remove_frame)
  note t1 = timing_eqD [OF f1(1)]
  have "rims_ok w1 W" by (rule rims_same [OF tmrs_wfD(1) [OF wf]]) (simp_all add: f1 t1)
  have sw: "State (tmr (OS_TmrDbgListRemove p ?w) p) = State (tmr w1 p)" by (simp add: w1_def)
  have "State (tmr w1 p) \<le> OS_TMR_STATE_COMPLETED" using inv_set_up [OF inv, of p] by (simp add: set_up_def t1)
  then consider "State (tmr w1 p) = OS_TMR_STATE_RUNNING"
    | "State (tmr w1 p) = OS_TMR_STATE_STOPPED \<or> State (tmr w1 p) = OS_TMR_STATE_COMPLETED"
    using u by (simp add: t1 word_le_nat_alt word_unat_eq_iff) arith
  then obtain w2 W2 where w2: "tmr_del p s = Some ((OS_ERR_NONE, True), s\<lparr>tmrs := OS_TmrClr p w2\<rparr>)"
    "rims_ok w2 W2" "tmr_only p w1 w2" "State (tmr w2 p) \<noteq> OS_TMR_STATE_RUNNING"
    "dbn w2 p = dbn w1 p" "dbp w2 p = dbp w1 p"
  proof cases
    case 1
    from TmrUnlink_refines [OF \<open>rims_ok w1 W\<close> 1 refl] obtain w2 where w2: "OS_TmrUnlink p w1 = Some w2"
      "rims_ok w2 (W(spoke_of (Match (tmr w1 p)) := remove1 p (W (spoke_of (Match (tmr w1 p))))))" "tmr_only p w1 w2"
      "tmr_core (tmr w2 p) = tmr_core ((tmr w1 p)\<lparr>State := OS_TMR_STATE_STOPPED\<rparr>)" by blast
    have "tmr_del p s = Some ((OS_ERR_NONE, True), s\<lparr>tmrs := OS_TmrClr p w2\<rparr>)"
      using 1 w2(1) by (simp add: tmr_del_def Let_def dbg_remove_frame(6) w1_def [symmetric] sw)
    then show thesis by (rule that [OF _ w2(2,3)]) (use tmr_core_eqD(2,9,10) [OF w2(4)] in simp_all)
  next
    case 2
    then have "tmr_del p s = Some ((OS_ERR_NONE, True), s\<lparr>tmrs := OS_TmrClr p w1\<rparr>)" and "State (tmr w1 p) \<noteq> OS_TMR_STATE_RUNNING"
      by (auto simp: tmr_del_def Let_def dbg_remove_frame(6) w1_def [symmetric] sw)
    then show thesis using that [OF _ \<open>rims_ok w1 W\<close> tmr_only_refl] by simp
  qed
  let ?v = "OS_TmrClr p w2"
  have vx: "tmr_core (tmr ?v x) = tmr_core (tmr w1 x)" "tmn ?v x = tmn w2 x" "tmp ?v x = tmp w2 x" if "x \<noteq> p" for x
    using w2(3) that by (simp_all add: OS_TmrClr_def tmr_sel tmr_only_def)
  have vp: "State (tmr ?v p) = OS_TMR_STATE_UNUSED" "set_up (tmr ?v p)" "dbn ?v p = dbn w1 p" "dbp ?v p = dbp w1 p"
    using w2(5,6) by (simp_all add: OS_TmrClr_def tmr_sel set_up_def)
  have glob: "rim ?v = rim w2" "OSTmrTickCtr ?v = OSTmrTickCtr ?w" "OSTmrQty ?v = OSTmrQty w1" "OSTmrDbgListPtr ?v = OSTmrDbgListPtr w1"
    using w2(3) f1(5) by (simp_all add: OS_TmrClr_def tmr_sel tmr_only_def tmr_globals_def upd_tmr_def)
  have keep: "timing (tmr ?v x) = timing (tmr ?w x)" if "x \<noteq> p" for x using timing_core [OF vx(1) [OF that]] f1(1) by simp
  have out: "x \<noteq> p" if "s < WHEEL" "x \<in> set (W2 s)" for s x using rims_ok_in [OF w2(2) that] w2(4) by auto
  have "rims_ok ?v W2"
  proof (rule rims_same [OF w2(2)])
    fix s x assume "s < WHEEL" "x \<in> set (W2 s)"
    then have x: "x \<noteq> p" by (rule out)
    then show "tmn ?v x = tmn w2 x \<and> tmp ?v x = tmp w2 x \<and> Match (tmr ?v x) = Match (tmr w2 x) \<and> State (tmr ?v x) = State (tmr w2 x)"
      by (simp add: OS_TmrClr_def tmr_sel)
  next
    fix x assume "State (tmr ?v x) = OS_TMR_STATE_RUNNING"
    then show "State (tmr w2 x) = OS_TMR_STATE_RUNNING" using vp(1) by (cases "x = p") (auto simp: OS_TmrClr_def tmr_sel)
  qed (use w2(3) f1(5) glob in \<open>simp_all add: tmr_only_def tmr_globals_def\<close>)
  moreover have "set_up (tmr ?v x)" for x
    using vp(2) set_up_timing [OF keep] inv_set_up [OF inv, of x] by (cases "x = p") simp_all
  moreover have "dbg_ok ?v (remove1 p ds)"
  proof -
    note rm = dbg_remove [OF dbg_okD(1-3) [OF ds] pd]
    have db: "dbn ?v x = dbn (OS_TmrDbgListRemove p ?w) x \<and> dbp ?v x = dbp (OS_TmrDbgListRemove p ?w) x" for x
      using vp(3,4) tmr_core_eqD(9,10) [OF vx(1)] by (cases "x = p") (simp_all add: w1_def)
    have "seg (dbn ?v) (dbp ?v) None (remove1 p ds) None" using rm(1) db by (simp cong: seg_cong)
    moreover have "x \<in> set (remove1 p ds) \<longleftrightarrow> State (tmr ?v x) \<noteq> OS_TMR_STATE_UNUSED" for x
      using vp(1) timing_eqD(2) [OF keep] dbg_okD(2,4) [OF ds] by (cases "x = p") simp_all
    moreover have "OSTmrQty ?v = of_nat (length (remove1 p ds))"
    proof -
      have "Suc 0 \<le> length ds" using pd by (cases ds) auto
      then have "of_nat (length ds - Suc 0) = (of_nat (length ds) - 1 :: u16)" by (simp add: of_nat_diff)
      then show ?thesis using pd dbg_okD(5) [OF ds] by (simp add: glob w1_def length_remove1)
    qed
    ultimately show ?thesis using rm(2) dbg_okD(2) [OF ds] glob(4) by (simp add: dbg_ok_def w1_def)
  qed
  moreover have "left ?v x \<noteq> 0" if "State (tmr ?v x) = OS_TMR_STATE_RUNNING" for x
  proof -
    have "x \<noteq> p" using that vp(1) by auto
    note k = timing_eqD [OF keep [OF this]]
    show ?thesis using inv that glob(2) by (simp add: tmrs_inv_def left_def k)
  qed
  ultimately have "tmrs_inv ?v" by (auto simp: tmrs_inv_def tmrs_wf_def)
  then show ?thesis using w2(1) vp(1) glob(2) keep by blast
qed

text \<open>Creating a timer that is not in use.\<close>

lemma dbg_add_frame:
  "timing (tmr (OS_TmrDbgListAdd p w) x) = timing (tmr w x)"
  "tmn (OS_TmrDbgListAdd p w) x = tmn w x" "tmp (OS_TmrDbgListAdd p w) x = tmp w x"
  "rim (OS_TmrDbgListAdd p w) = rim w" "OSTmrTickCtr (OS_TmrDbgListAdd p w) = OSTmrTickCtr w"
  "OSTmrQty (OS_TmrDbgListAdd p w) = OSTmrQty w"
  by (cases "OSTmrDbgListPtr w"; simp add: OS_TmrDbgListAdd_def tmr_defs timing_def Let_def)+

lemma dbg_add:
  assumes sg: "seg (dbn w) (dbp w) None ds None" and d: "distinct ds" and fp: "OSTmrDbgListPtr w = first_ptr ds None"
    and p: "p \<notin> set ds"
  shows "seg (dbn (OS_TmrDbgListAdd p w)) (dbp (OS_TmrDbgListAdd p w)) None (p # ds) None"
    and "OSTmrDbgListPtr (OS_TmrDbgListAdd p w) = Some p"
proof -
  show "seg (dbn (OS_TmrDbgListAdd p w)) (dbp (OS_TmrDbgListAdd p w)) None (p # ds) None"
  proof (cases ds)
    case Nil
    then show ?thesis using fp by (simp add: OS_TmrDbgListAdd_def tmr_defs Let_def)
  next
    case (Cons q qs)
    have "seg (dbn (OS_TmrDbgListAdd p w)) (dbp (OS_TmrDbgListAdd p w)) None (p # q # qs) None"
      by (rule seg_push [OF sg [unfolded Cons] p [unfolded Cons] d [unfolded Cons]])
        (use fp p d Cons in \<open>auto simp: OS_TmrDbgListAdd_def tmr_defs Let_def\<close>)
    then show ?thesis using Cons by simp
  qed
  show "OSTmrDbgListPtr (OS_TmrDbgListAdd p w) = Some p" by (simp add: OS_TmrDbgListAdd_def Let_def)
qed

lemma OSTmrCreate_runs:
  assumes inv: "tmrs_inv (tmrs s)" and u: "\<And>p. p_tmr = Some p \<Longrightarrow> State (tmr (tmrs s) p) = OS_TMR_STATE_UNUSED"
    and r: "OSTmrCreate p_tmr dly period opt cb arg s = (e, s')"
  shows "tmrs_inv (tmrs s') \<and> kern s' = kern s \<and> calls s' = calls s \<and> OSTmrTickCtr (tmrs s') = OSTmrTickCtr (tmrs s)
    \<and> (\<forall>x. p_tmr \<noteq> Some x \<longrightarrow> timing (tmr (tmrs s') x) = timing (tmr (tmrs s) x))"
proof (cases "e = OS_ERR_NONE")
  case False
  then have "s' = s" using r by (auto simp: OSTmrCreate_def Let_def split: if_splits option.splits)
  then show ?thesis using inv by simp
next
  case True
  let ?w = "tmrs s"
  let ?f = "\<lambda>t. t\<lparr>State := OS_TMR_STATE_STOPPED, Type := OS_OBJ_TYPE_TMR, Dly := dly,
                  Match := 0, Remain := 0, Period := period, Opt := opt, CallbackPtr := cb,
                  CallbackPtrArg := arg, TmrNextPtr := None, TmrPrevPtr := None\<rparr>"
  obtain p where p: "p_tmr = Some p" and o: "opt = OS_OPT_TMR_PERIODIC \<and> period \<noteq> 0 \<or> opt = OS_OPT_TMR_ONE_SHOT \<and> dly \<noteq> 0"
    and s': "s' = s\<lparr>tmrs := (OS_TmrDbgListAdd p (upd_tmr p ?f ?w))\<lparr>OSTmrQty := OSTmrQty (OS_TmrDbgListAdd p (upd_tmr p ?f ?w)) + 1\<rparr>\<rparr>"
    using r True by (auto simp: OSTmrCreate_def Let_def split: if_splits option.splits)
  let ?v = "upd_tmr p ?f ?w"
  obtain W ds where wf: "tmrs_wf ?w W" and ds: "dbg_ok ?w ds" using inv by (auto simp: tmrs_inv_def tmrs_wf_def)
  have np: "p \<notin> set ds" using dbg_okD(4) [OF ds] u [OF p] by simp
  have st: "State (tmr ?w p) = OS_TMR_STATE_UNUSED" by (rule u [OF p])
  define w' where "w' = tmrs s'"
  have f: "timing (tmr w' x) = timing (tmr ?v x)" "tmn w' x = tmn ?v x" "tmp w' x = tmp ?v x" "rim w' = rim ?w"
    "OSTmrTickCtr w' = OSTmrTickCtr ?w" "OSTmrQty w' = OSTmrQty ?w + 1" for x
    by (simp_all add: w'_def s' dbg_add_frame tmr_sel) (simp add: upd_tmr_def)
  have keep: "timing (tmr w' x) = timing (tmr ?w x)" if "x \<noteq> p" for x using that by (simp add: f tmr_sel)
  have up: "State (tmr w' p) = OS_TMR_STATE_STOPPED" "set_up (tmr w' p)"
    using timing_eqD [OF f(1) [of p]] set_up_timing [OF f(1) [of p]] o by (auto simp: tmr_sel set_up_def)
  have "rims_ok w' W"
  proof (rule rims_same [OF tmrs_wfD(1) [OF wf]])
    fix j x assume "j < WHEEL" "x \<in> set (W j)"
    then have x: "x \<noteq> p" using rims_ok_in [OF tmrs_wfD(1) [OF wf]] st by fastforce
    note k = timing_eqD [OF keep [OF x]]
    show "tmn w' x = tmn ?w x \<and> tmp w' x = tmp ?w x \<and> Match (tmr w' x) = Match (tmr ?w x) \<and> State (tmr w' x) = State (tmr ?w x)"
      using x by (simp add: k f(2,3) tmr_sel)
  next
    fix x assume "State (tmr w' x) = OS_TMR_STATE_RUNNING"
    then show "State (tmr ?w x) = OS_TMR_STATE_RUNNING" using up(1) timing_eqD(2) [OF keep] by (cases "x = p") auto
  qed (use f in simp_all)
  moreover have "set_up (tmr w' x)" for x
    using up(2) set_up_timing [OF keep] inv_set_up [OF inv, of x] by (cases "x = p") simp_all
  moreover have "dbg_ok w' (p # ds)"
  proof -
    have "seg (dbn ?v) (dbp ?v) None ds None" "OSTmrDbgListPtr ?v = first_ptr ds None"
      using dbg_okD(1,3) [OF ds] np seg_cong [of ds "dbn ?v" "dbn ?w" "dbp ?v" "dbp ?w"] by (auto simp: tmr_sel upd_tmr_def)
    note ad = dbg_add [OF this(1) dbg_okD(2) [OF ds] this(2) np]
    have "seg (dbn w') (dbp w') None (p # ds) None" "OSTmrDbgListPtr w' = first_ptr (p # ds) None"
      using ad by (simp_all add: w'_def s')
    moreover have "x \<in> set (p # ds) \<longleftrightarrow> State (tmr w' x) \<noteq> OS_TMR_STATE_UNUSED" for x
      using up(1) timing_eqD(2) [OF keep] dbg_okD(4) [OF ds] by (cases "x = p") simp_all
    ultimately show ?thesis using np dbg_okD(2,5) [OF ds] by (simp add: dbg_ok_def f(6))
  qed
  moreover have "left w' x \<noteq> 0" if "State (tmr w' x) = OS_TMR_STATE_RUNNING" for x
  proof -
    have "x \<noteq> p" using that up(1) by auto
    note k = timing_eqD [OF keep [OF this]]
    show ?thesis using inv that f(5) by (simp add: tmrs_inv_def left_def k)
  qed
  ultimately have "tmrs_inv w'" by (auto simp: tmrs_inv_def tmrs_wf_def)
  then show ?thesis using f(5) keep p by (simp add: w'_def s')
qed

lemma tmr_remain_runs:
  obtains r v where "tmr_remain p s = Some (r, s\<lparr>tmrs := upd_tmr p (\<lambda>t. t\<lparr>Remain := v\<rparr>) (tmrs s)\<rparr>)"
proof -
  have same: "s\<lparr>tmrs := upd_tmr p (\<lambda>t. t\<lparr>Remain := Remain (tmr (tmrs s) p)\<rparr>) (tmrs s)\<rparr> = s"
    by (simp add: upd_tmr_def)
  let ?st = "State (tmr (tmrs s) p)"
  consider "?st = OS_TMR_STATE_RUNNING \<or> ?st = OS_TMR_STATE_STOPPED"
    | "?st \<noteq> OS_TMR_STATE_RUNNING" "?st \<noteq> OS_TMR_STATE_STOPPED" by blast
  then show thesis
  proof cases
    case 1
    then show thesis by (elim disjE; intro that) (simp_all add: tmr_remain_def Let_def)
  next
    case 2
    then have "fst ` set_option (tmr_remain p s) \<noteq> {} \<and> snd ` set_option (tmr_remain p s) = {s}"
      by (simp add: tmr_remain_def Let_def)
    then obtain r where "tmr_remain p s = Some (r, s)" by (cases "tmr_remain p s") auto
    then show thesis by (intro that [of r "Remain (tmr (tmrs s) p)"]) (simp only: same)
  qed
qed

end
