(* ===== verification/Os_Timers.thy ===== *)
theory Os_Timers
  imports Os_TmrTask
begin

text \<open>
  The kernel with its software timers as a whole: the calls for timers, the passes of the timer
  task and everything else the kernel serves, in any order.  Every reachable state is well formed,
  and a timer calls its function exactly at the ticks it was set up for.
\<close>

section \<open>Calls\<close>

datatype tmr_event =
    Kernel event | Create ptr u32 u32 u16 "tmr_callback option" nat | Start ptr | Stop ptr u16 nat "nat \<Rightarrow> u32"
  | Del ptr | RemainGet ptr | TmrTask "nat \<Rightarrow> u32" | TmrTaskResume "nat \<Rightarrow> u32"

fun tmr_serve :: "nat \<Rightarrow> (tmr_callback \<Rightarrow> nat) \<Rightarrow> tmr_event \<Rightarrow> os_sys \<Rightarrow> os_sys option" where
  "tmr_serve can buf (Kernel e) s = map_option (\<lambda>k. s\<lparr>kern := k\<rparr>) (serve e (kern s))"
| "tmr_serve can buf (Create p dly period opt cb arg) s = Some (snd (OSTmrCreate p dly period opt cb arg s))"
| "tmr_serve can buf (Start p) s = map_option snd (OSTmrStart p s)"
| "tmr_serve can buf (Stop p opt arg ts) s = map_option snd (OSTmrStop (csu_callback can buf ts) p opt arg s)"
| "tmr_serve can buf (Del p) s = map_option snd (OSTmrDel p s)"
| "tmr_serve can buf (RemainGet p) s = map_option snd (OSTmrRemainGet p s)"
| "tmr_serve can buf (TmrTask ts) s = OS_TmrTask (csu_callback can buf ts) s"
| "tmr_serve can buf (TmrTaskResume ts) s = OS_TmrTask_resume (csu_callback can buf ts) s"

text \<open>
  A timer is created once, until it is deleted.  The functions of the timers run with the scheduler
  locked, so the lock must be available to the callers that may run them; the timer task is a task.
\<close>

fun tmr_allowed :: "nat set \<Rightarrow> nat \<Rightarrow> tmr_event \<Rightarrow> os_sys \<Rightarrow> bool" where
  "tmr_allowed A idle (Kernel e) s = allowed A idle e (kern s)"
| "tmr_allowed A idle (Create p _ _ _ _ _) s =
     (case p of None \<Rightarrow> True | Some q \<Rightarrow> State (tmr (tmrs s) q) = OS_TMR_STATE_UNUSED)"
| "tmr_allowed A idle (Stop p _ _ _) s = lockable (kern s)"
| "tmr_allowed A idle (TmrTask _) s =
     (OSTCBCurPtr (kern s) \<noteq> idle \<and> OSIntNestingCtr (kern s) = 0 \<and> lockable (kern s))"
| "tmr_allowed A idle (TmrTaskResume _) s = (OSIntNestingCtr (kern s) = 0 \<and> lockable (kern s))"
| "tmr_allowed A idle _ s = True"

text \<open>The timers a call is meant for.\<close>

fun concerns :: "tmr_event \<Rightarrow> nat set" where
  "concerns (Create p _ _ _ _ _) = set_option p"
| "concerns (Start p) = set_option p"
| "concerns (Stop p _ _ _) = set_option p"
| "concerns (Del p) = set_option p"
| "concerns _ = {}"

definition sys_good :: "nat set \<Rightarrow> nat \<Rightarrow> nat \<Rightarrow> nat \<Rightarrow> nat \<Rightarrow> os_sys \<Rightarrow> bool" where
  "sys_good A idle n N can s \<longleftrightarrow> kernel_safe A idle n N (kern s) \<and> can \<in> A \<and> tmrs_inv (tmrs s)"

definition calls_for :: "nat \<Rightarrow> os_sys \<Rightarrow> nat" where
  "calls_for x s = length (filter (\<lambda>c. fst (snd c) = x) (calls s))"

text \<open>What a call leaves of a timer \<open>x\<close> it is not meant for; and what a tick does to it.\<close>

definition spares :: "nat \<Rightarrow> os_sys \<Rightarrow> os_sys \<Rightarrow> bool" where
  "spares x s s' \<longleftrightarrow> timing (tmr (tmrs s') x) = timing (tmr (tmrs s) x) \<and> OSTmrTickCtr (tmrs s') = OSTmrTickCtr (tmrs s)
     \<and> calls_for x s' = calls_for x s"

definition ticks :: "nat \<Rightarrow> os_sys \<Rightarrow> os_sys \<Rightarrow> bool" where
  "ticks x s s' \<longleftrightarrow> timing (tmr (tmrs s') x) = timing (ticked (tmrs s) x)
     \<and> OSTmrTickCtr (tmrs s') = OSTmrTickCtr (tmrs s) + 1
     \<and> calls_for x s' = calls_for x s + (if expires (tmrs s) x then length (call_of (tmrs s) x) else 0)"

lemma spares_refl [simp]: "spares x s s"
  by (simp add: spares_def)

lemma spares_kern [simp]: "spares x s (s\<lparr>kern := k\<rparr>)"
  by (simp add: spares_def calls_for_def)

lemma ticks_kern: "ticks x (s\<lparr>kern := k\<rparr>) s' = ticks x s s'"
  by (simp add: ticks_def calls_for_def)

lemma calls_concat:
  "distinct ds \<Longrightarrow> length (filter (\<lambda>c. fst (snd c) = x) (concat (map (call_of w) ds)))
    = (if x \<in> set ds then length (call_of w x) else 0)"
  by (induction ds) (auto simp: call_of_def split: option.split)

text \<open>A service that works on one timer.\<close>

lemma service_good:
  assumes g: "sys_good A idle n N can s" and w: "tmrs_inv w'"
    and r: "body (s\<lparr>kern := snd (OSSchedLock (kern s))\<rparr>)
      = Some (r, s\<lparr>kern := k1, tmrs := w', calls := calls s @ cs\<rparr>)"
    and k: "kernel_safe A idle n N k1"
  shows "\<exists>s'. map_option snd (sched_locked body s) = Some s' \<and> sys_good A idle n N can s' \<and> tmrs s' = w' \<and> calls s' = calls s @ cs"
proof -
  have "kernel_safe A idle n N (kern (s\<lparr>kern := k1, tmrs := w', calls := calls s @ cs\<rparr>))" using k by simp
  from sched_locked_runs [where body = body and s = s, OF r this] obtain k' where
    "sched_locked body s = Some (r, s\<lparr>tmrs := w', calls := calls s @ cs, kern := k'\<rparr>)" "kernel_safe A idle n N k'" by auto
  then show ?thesis using g w by (auto simp: sys_good_def)
qed

lemma locked_safe: "sys_good A idle n N can s \<Longrightarrow> kernel_safe A idle n N (snd (OSSchedLock (kern s)))"
  using OSSchedLock_goes [of A idle n N "kern s" "{}"] by (simp add: sys_good_def goes_def)

lemma spares_only:
  assumes "tmr_only p (tmrs s) (tmrs s')" and "x \<noteq> p" and "calls s' = calls s @ cs" and "\<forall>c \<in> set cs. fst (snd c) = p"
  shows "spares x s s'"
proof -
  have "timing (tmr (tmrs s') x) = timing (tmr (tmrs s) x)" 
    by (rule timing_core) (use assms(1,2) in \<open>simp add: tmr_only_def\<close>)
  moreover have "OSTmrTickCtr (tmrs s') = OSTmrTickCtr (tmrs s)" using assms(1) by (simp add: tmr_only_def tmr_globals_def)
  moreover have "filter (\<lambda>c. fst (snd c) = x) cs = []" using assms(2,4) by (auto simp: filter_empty_conv)
  ultimately show ?thesis using assms(3) by (simp add: spares_def calls_for_def)
qed

lemma Start_good:
  assumes g: "sys_good A idle n N can s"
  shows "\<exists>s'. map_option snd (OSTmrStart p_tmr s) = Some s' \<and> sys_good A idle n N can s' \<and> (\<forall>x. x \<notin> set_option p_tmr \<longrightarrow> spares x s s')"
proof (cases "tmr_check p_tmr s")
  case (Inl e)
  then show ?thesis using g by (simp add: OSTmrStart_def)
next
  case (Inr p)
  let ?s = "s\<lparr>kern := snd (OSSchedLock (kern s))\<rparr>"
  have inv: "tmrs_inv (tmrs ?s)" using g by (simp add: sys_good_def)
  have u: "p_tmr = Some p" "State (tmr (tmrs ?s) p) \<noteq> OS_TMR_STATE_UNUSED"
    using tmr_check_used [OF _ Inr] g by (simp_all add: sys_good_def)
  from tmr_start_runs [OF inv u(2)] obtain w' where w': "tmr_start p ?s = Some ((OS_ERR_NONE, True), ?s\<lparr>tmrs := w'\<rparr>)"
    "tmrs_inv w'" "tmr_only p (tmrs s) w'" by auto
  from service_good [OF g w'(2) _ locked_safe [OF g], of "tmr_start p" "(OS_ERR_NONE, True)" "[]"] w'(1) obtain s' where
    s': "map_option snd (sched_locked (tmr_start p) s) = Some s'" "sys_good A idle n N can s'" "tmrs s' = w'" "calls s' = calls s @ []"
    by auto
  have "spares x s s'" if "x \<noteq> p" for x by (rule spares_only [OF _ that s'(4)]) (use w'(3) s'(3) in simp_all)
  then show ?thesis using s'(1,2) Inr u(1) by (intro exI [of _ s']) (simp add: OSTmrStart_def)
qed

lemma Stop_good:
  assumes g: "sys_good A idle n N can s" and l: "lockable (kern s)"
  shows "\<exists>s'. map_option snd (OSTmrStop (csu_callback can buf ts) p_tmr opt arg s) = Some s' \<and> sys_good A idle n N can s'
    \<and> (\<forall>x. x \<notin> set_option p_tmr \<longrightarrow> spares x s s')"
proof (cases "tmr_check p_tmr s")
  case (Inl e)
  then show ?thesis using g by (simp add: OSTmrStop_def)
next
  case (Inr p)
  let ?s = "s\<lparr>kern := snd (OSSchedLock (kern s))\<rparr>"
  have u: "p_tmr = Some p" and i: "OSIntNestingCtr (kern s) = 0" using Inr by (auto simp: tmr_check_def split: if_splits option.splits)
  have "tmrs_inv (tmrs ?s)" "kernel_locked A idle n N can (OSSchedLockNestingCtr (kern s) + 1) (kern ?s)"
    using g lock_ready [OF _ _ l i] by (simp_all add: sys_good_def)
  from csu_calls.tmr_stop_runs [OF this, of buf ts opt arg p] obtain r w' k' cs where
    r: "tmr_stop (csu_callback can buf ts) opt arg p ?s = Some (r, ?s\<lparr>tmrs := w', kern := k', calls := calls ?s @ cs\<rparr>)"
      "tmrs_inv w'" "tmr_only p (tmrs ?s) w'" "\<forall>c \<in> set cs. fst (snd c) = p"
      "kernel_locked A idle n N can (OSSchedLockNestingCtr (kern s) + 1) k'" by blast
  have k: "kernel_safe A idle n N k'" using r(5) by (simp add: kernel_locked_def)
  from service_good [OF g r(2) _ k, of "tmr_stop (csu_callback can buf ts) opt arg p" r cs] r(1) obtain s' where
    s': "map_option snd (sched_locked (tmr_stop (csu_callback can buf ts) opt arg p) s) = Some s'"
      "sys_good A idle n N can s'" "tmrs s' = w'" "calls s' = calls s @ cs" by auto
  have "spares x s s'" if "x \<noteq> p" for x by (rule spares_only [OF _ that s'(4)]) (use r(3,4) s'(3) in simp_all)
  then show ?thesis using s'(1,2) Inr u by (intro exI [of _ s']) (simp add: OSTmrStop_def)
qed

lemma Del_good:
  assumes g: "sys_good A idle n N can s"
  shows "\<exists>s'. map_option snd (OSTmrDel p_tmr s) = Some s' \<and> sys_good A idle n N can s' \<and> (\<forall>x. x \<notin> set_option p_tmr \<longrightarrow> spares x s s')"
proof (cases "tmr_check p_tmr s")
  case (Inl e)
  then show ?thesis using g by (simp add: OSTmrDel_def)
next
  case (Inr p)
  let ?s = "s\<lparr>kern := snd (OSSchedLock (kern s))\<rparr>"
  have inv: "tmrs_inv (tmrs ?s)" using g by (simp add: sys_good_def)
  have u: "p_tmr = Some p" "State (tmr (tmrs ?s) p) \<noteq> OS_TMR_STATE_UNUSED"
    using tmr_check_used [OF _ Inr] g by (simp_all add: sys_good_def)
  from tmr_del_runs [OF inv u(2)] obtain w' where w': "tmr_del p ?s = Some ((OS_ERR_NONE, True), ?s\<lparr>tmrs := w'\<rparr>)"
    "tmrs_inv w'" "OSTmrTickCtr w' = OSTmrTickCtr (tmrs s)" "\<And>x. x \<noteq> p \<Longrightarrow> timing (tmr w' x) = timing (tmr (tmrs s) x)" by auto
  from service_good [OF g w'(2) _ locked_safe [OF g], of "tmr_del p" "(OS_ERR_NONE, True)" "[]"] w'(1) obtain s' where
    s': "map_option snd (sched_locked (tmr_del p) s) = Some s'" "sys_good A idle n N can s'" "tmrs s' = w'" "calls s' = calls s @ []"
    by auto
  have "spares x s s'" if "x \<noteq> p" for x using w'(3,4) that s'(3,4) by (simp add: spares_def calls_for_def)
  then show ?thesis using s'(1,2) Inr u(1) by (intro exI [of _ s']) (simp add: OSTmrDel_def)
qed

lemma RemainGet_good:
  assumes g: "sys_good A idle n N can s"
  shows "\<exists>s'. map_option snd (OSTmrRemainGet p_tmr s) = Some s' \<and> sys_good A idle n N can s' \<and> (\<forall>x. spares x s s')"
proof (cases "tmr_check p_tmr s")
  case (Inl e)
  then show ?thesis using g by (simp add: OSTmrRemainGet_def)
next
  case (Inr p)
  let ?s = "s\<lparr>kern := snd (OSSchedLock (kern s))\<rparr>"
  obtain r v where r: "tmr_remain p ?s = Some (r, ?s\<lparr>tmrs := upd_tmr p (\<lambda>t. t\<lparr>Remain := v\<rparr>) (tmrs ?s)\<rparr>)"
    by (rule tmr_remain_runs)
  let ?w = "upd_tmr p (\<lambda>t. t\<lparr>Remain := v\<rparr>) (tmrs s)"
  have inv: "tmrs_inv (tmrs s)" using g by (simp add: sys_good_def)
  then obtain W where wf: "tmrs_wf (tmrs s) W" by (auto simp: tmrs_inv_def)
  have t: "timing (tmr ?w x) = timing (tmr (tmrs s) x)" for x by (simp add: tmr_sel timing_def)
  note e = timing_eqD [OF t]
  have "rims_ok ?w W" by (rule rims_same [OF tmrs_wfD(1) [OF wf]]) (simp_all add: tmr_sel split: if_splits)
  then have "tmrs_wf ?w W"
    by (rule wf_change [OF wf _ tmr_only_upd]) (use inv_set_up [OF inv, of p] set_up_timing [OF t, of p] in \<open>simp_all add: e tmr_sel\<close>)
  then have w: "tmrs_inv ?w"
    by (rule tmrs_invI [OF inv _ tmr_only_upd]) (use inv in \<open>simp add: tmrs_inv_def e left_def tmr_sel\<close>)
  from service_good [OF g w _ locked_safe [OF g], of "tmr_remain p" r "[]"] r obtain s' where
    s': "map_option snd (sched_locked (tmr_remain p) s) = Some s'" "sys_good A idle n N can s'" "tmrs s' = ?w" "calls s' = calls s @ []"
    by auto
  have "spares x s s'" for x using s'(3,4) t by (simp add: spares_def calls_for_def tmr_sel)
  then show ?thesis using s'(1,2) Inr by (intro exI [of _ s']) (simp add: OSTmrRemainGet_def)
qed

lemma Create_good:
  assumes g: "sys_good A idle n N can s" and u: "\<And>p. p_tmr = Some p \<Longrightarrow> State (tmr (tmrs s) p) = OS_TMR_STATE_UNUSED"
  shows "sys_good A idle n N can (snd (OSTmrCreate p_tmr dly period opt cb arg s))
    \<and> (\<forall>x. x \<notin> set_option p_tmr \<longrightarrow> spares x s (snd (OSTmrCreate p_tmr dly period opt cb arg s)))"
proof -
  have inv: "tmrs_inv (tmrs s)" using g by (simp add: sys_good_def)
  obtain e s' where r: "OSTmrCreate p_tmr dly period opt cb arg s = (e, s')" by (cases "OSTmrCreate p_tmr dly period opt cb arg s")
  note c = OSTmrCreate_runs [OF inv u r]
  have "spares x s s'" if "x \<notin> set_option p_tmr" for x using c that by (auto simp: spares_def calls_for_def)
  then show ?thesis using c g r by (simp add: sys_good_def)
qed

lemma pass_good:
  assumes g: "sys_good A idle n N can s" and i: "OSIntNestingCtr (kern s) = 0" and l: "lockable (kern s)"
  shows "\<exists>s'. tmr_pass (csu_callback can buf ts) s = Some s' \<and> sys_good A idle n N can s' \<and> (\<forall>x. ticks x s s')"
proof -
  have inv: "tmrs_inv (tmrs s)" and can: "can \<in> A" using g by (simp_all add: sys_good_def)
  let ?l = "OSSchedLockNestingCtr (kern s) + 1"
  have k: "kernel_locked A idle n N can ?l (snd (OSSchedLock (kern s)))"
    using g lock_ready [OF _ _ l i] by (simp add: sys_good_def)
  have un: "\<exists>e k'. OSSchedUnlock k = Some (e, k') \<and> kernel_safe A idle n N k'" if "kernel_locked A idle n N can ?l k" for k
    using unlock_runs that by (simp add: kernel_locked_def)
  from csu_calls.tmr_pass_runs [OF inv k un, of buf ts] obtain s' ds where
    s': "tmr_pass (csu_callback can buf ts) s = Some s'" "kernel_safe A idle n N (kern s')" "tmrs_inv (tmrs s')"
      "OSTmrTickCtr (tmrs s') = OSTmrTickCtr (tmrs s) + 1"
      "\<And>x. tmr_core (tmr (tmrs s') x) = tmr_core (ticked (tmrs s) x)"
      "distinct ds" "set ds = {x. expires (tmrs s) x}" "calls s' = calls s @ concat (map (call_of (tmrs s)) ds)" by blast
  have "ticks x s s'" for x
    using calls_concat [OF s'(6), of x "tmrs s"] s'(4,7,8) timing_core [OF s'(5)] by (simp add: ticks_def calls_for_def)
  then show ?thesis using s'(1-3) can by (auto simp: sys_good_def)
qed

lemma OSTaskSemPend_levels:
  assumes "OSTaskSemPend 0 OS_OPT_PEND_BLOCKING k = Some (r, c, k')" and "r \<noteq> Blocked"
  shows "OSIntNestingCtr k' = OSIntNestingCtr k \<and> lockable k' = lockable k"
  using assms by (auto simp: OSTaskSemPend_def Let_def lockable_def upd_tcb_def bind_eq_Some_conv split: if_splits)

lemma TmrTask_good:
  assumes g: "sys_good A idle n N can s" and c: "OSTCBCurPtr (kern s) \<noteq> idle" and i: "OSIntNestingCtr (kern s) = 0" and l: "lockable (kern s)"
  shows "\<exists>s'. OS_TmrTask (csu_callback can buf ts) s = Some s' \<and> sys_good A idle n N can s'
    \<and> ((\<forall>x. ticks x s s') \<or> (\<forall>x. spares x s s'))"
proof -
  have ks: "kernel_safe A idle n N (kern s)" using g by (simp add: sys_good_def)
  from OSTaskSemPend_goes [OF ks refl c, of 0 0] obtain r v k where
    r: "OSTaskSemPend 0 OS_OPT_PEND_BLOCKING (kern s) = Some (r, v, k)" "kernel_safe A idle n N k" by (auto simp: goes_def)
  let ?s = "s\<lparr>kern := k\<rparr>"
  have g': "sys_good A idle n N can ?s" using g r(2) by (simp add: sys_good_def)
  show ?thesis
  proof (cases "r = Blocked")
    case True
    then show ?thesis using r(1) g' by (intro exI [of _ ?s]) (simp add: OS_TmrTask_def)
  next
    case False
    have "OSIntNestingCtr (kern ?s) = 0" "lockable (kern ?s)" using OSTaskSemPend_levels [OF r(1) False] i l by simp_all
    from pass_good [OF g' this, of buf ts] obtain s' where "tmr_pass (csu_callback can buf ts) ?s = Some s'"
      "sys_good A idle n N can s'" "\<forall>x. ticks x s s'" by (auto simp: ticks_kern)
    then show ?thesis using r(1) False by (intro exI [of _ s']) (simp add: OS_TmrTask_def)
  qed
qed

text \<open>Every call returns in a good state, and a timer it is not meant for sees a tick or nothing.\<close>

lemma tmr_serve_good:
  assumes g: "sys_good A idle n N can s" and a: "tmr_allowed A idle e s"
  shows "\<exists>s'. tmr_serve can buf e s = Some s' \<and> sys_good A idle n N can s'
    \<and> (\<forall>x. x \<notin> concerns e \<longrightarrow> ticks x s s' \<or> spares x s s')"
proof (cases e)
  case (Kernel e')
  have "kernel_safe A idle n N (kern s)" "allowed A idle e' (kern s)" using g a Kernel by (simp_all add: sys_good_def)
  from csu_kernel.returns [OF this] obtain k' where "serve e' (kern s) = Some k'" "kernel_safe A idle n N k'" by blast
  then show ?thesis using g Kernel by (simp add: sys_good_def)
next
  case (Create p dly period opt cb arg)
  have "State (tmr (tmrs s) q) = OS_TMR_STATE_UNUSED" if "p = Some q" for q using a Create that by simp
  from Create_good [OF g this] show ?thesis using Create by simp
next
  case (Start p)
  then show ?thesis using Start_good [OF g, of p] by auto
next
  case (Stop p opt arg ts)
  then show ?thesis using Stop_good [OF g, of buf ts p opt arg] a by auto
next
  case (Del p)
  then show ?thesis using Del_good [OF g, of p] by auto
next
  case (RemainGet p)
  then show ?thesis using RemainGet_good [OF g, of p] by auto
next
  case (TmrTask ts)
  then show ?thesis using TmrTask_good [OF g, of buf ts] a by fastforce
next
  case (TmrTaskResume ts)
  then show ?thesis using pass_good [OF g, of buf ts] a by (auto simp: OS_TmrTask_resume_def)
qed

interpretation csu_timers: safe_calls "sys_good A idle n N can" "tmr_allowed A idle" "tmr_serve can buf" for A idle n N can buf
  by standard (use tmr_serve_good in blast)

section \<open>A timer over time\<close>

text \<open>
  From \<open>s\<close> to \<open>s'\<close> calls are made that are not meant for the timer \<open>x\<close>, in any order and number; \<open>c\<close>
  ticks of the timers are processed.
\<close>

inductive timers_run :: "nat set \<Rightarrow> nat \<Rightarrow> nat \<Rightarrow> (tmr_callback \<Rightarrow> nat) \<Rightarrow> nat \<Rightarrow> nat \<Rightarrow> os_sys \<Rightarrow> os_sys \<Rightarrow> bool"
  for A idle can buf x where
  none: "timers_run A idle can buf x 0 s s"
| call: "timers_run A idle can buf x c s s1 \<Longrightarrow> tmr_allowed A idle e s1 \<Longrightarrow> x \<notin> concerns e \<Longrightarrow>
    tmr_serve can buf e s1 = Some s2 \<Longrightarrow>
    timers_run A idle can buf x (if OSTmrTickCtr (tmrs s2) = OSTmrTickCtr (tmrs s1) then c else c + 1) s s2"

text \<open>
  The calls a started timer \<open>t\<close> makes in \<open>c\<close> ticks: the first one after its first delay, a periodic
  one then every period.
\<close>

definition expected_calls :: "os_tmr \<Rightarrow> nat \<Rightarrow> nat" where
  "expected_calls t c =
     (let d = unat (first_delay t)
      in if c < d then 0 else if Opt t = OS_OPT_TMR_PERIODIC then (c - d) div unat (Period t) + 1 else 1)"

text \<open>The ticks until its next call, 0 when there is none.\<close>

definition ticks_left :: "os_tmr \<Rightarrow> nat \<Rightarrow> nat" where
  "ticks_left t c =
     (let d = unat (first_delay t)
      in if c < d then d - c
         else if Opt t = OS_OPT_TMR_PERIODIC then unat (Period t) - (c - d) mod unat (Period t) else 0)"

definition on_time :: "os_tmr \<Rightarrow> nat \<Rightarrow> nat \<Rightarrow> os_sys \<Rightarrow> bool" where
  "on_time t x c s \<longleftrightarrow> (let u = tmr (tmrs s) x in
     Opt u = Opt t \<and> Period u = Period t \<and> CallbackPtr u = CallbackPtr t \<and>
     (if ticks_left t c = 0 then State u = OS_TMR_STATE_COMPLETED
      else State u = OS_TMR_STATE_RUNNING \<and> unat (left (tmrs s) x) = ticks_left t c))"

lemma tick_count:
  assumes "set_up t" and "State t \<noteq> OS_TMR_STATE_UNUSED"
  shows "expected_calls t (Suc c) = expected_calls t c + (if ticks_left t c = 1 then 1 else 0)"
    and "ticks_left t (Suc c) = (if ticks_left t c = 1 then if Opt t = OS_OPT_TMR_PERIODIC then unat (Period t) else 0
      else ticks_left t c - 1)"
proof -
  have d: "0 < unat (first_delay t)" using first_delay_pos [OF assms] by (simp add: unat_gt_0)
  have p: "Opt t = OS_OPT_TMR_PERIODIC \<Longrightarrow> 0 < unat (Period t)"
    using set_up_cases [OF assms] by (auto simp: unat_gt_0)
  let ?d = "unat (first_delay t)" and ?p = "unat (Period t)"
  have m: "(c - ?d) mod ?p < ?p" if "Opt t = OS_OPT_TMR_PERIODIC" using p [OF that] by simp
  show "expected_calls t (Suc c) = expected_calls t c + (if ticks_left t c = 1 then 1 else 0)"
    using d p m by (auto simp: expected_calls_def ticks_left_def Let_def div_Suc mod_Suc Suc_diff_le not_less)
  show "ticks_left t (Suc c) = (if ticks_left t c = 1 then if Opt t = OS_OPT_TMR_PERIODIC then ?p else 0
      else ticks_left t c - 1)"
    using d p m by (auto simp: ticks_left_def Let_def mod_Suc Suc_diff_le not_less)
qed

lemma on_time_spares:
  assumes "on_time t x c s" and "spares x s s'"
  shows "on_time t x c s'"
proof -
  have e: "timing (tmr (tmrs s') x) = timing (tmr (tmrs s) x)" "OSTmrTickCtr (tmrs s') = OSTmrTickCtr (tmrs s)"
    using assms(2) by (simp_all add: spares_def)
  have "left (tmrs s') x = left (tmrs s) x" by (simp add: left_def timing_eqD [OF e(1)] e(2))
  then show ?thesis using assms(1) by (simp add: on_time_def Let_def timing_eqD [OF e(1)])
qed

lemma on_time_ticks:
  assumes o: "on_time t x c s" and k: "ticks x s s'" and t: "set_up t" "State t \<noteq> OS_TMR_STATE_UNUSED" "CallbackPtr t \<noteq> None"
  shows "on_time t x (Suc c) s'" and "calls_for x s' = calls_for x s + (if ticks_left t c = 1 then 1 else 0)"
proof -
  let ?u = "tmr (tmrs s) x" and ?u' = "tmr (tmrs s') x"
  have e: "timing ?u' = timing (ticked (tmrs s) x)" and now: "OSTmrTickCtr (tmrs s') = OSTmrTickCtr (tmrs s) + 1"
    using k by (simp_all add: ticks_def)
  note e = timing_eqD [OF e]
  have u: "Opt ?u = Opt t" "Period ?u = Period t" "CallbackPtr ?u = CallbackPtr t"
    "ticks_left t c = 0 \<Longrightarrow> State ?u = OS_TMR_STATE_COMPLETED"
    "ticks_left t c \<noteq> 0 \<Longrightarrow> State ?u = OS_TMR_STATE_RUNNING \<and> unat (left (tmrs s) x) = ticks_left t c"
    using o by (simp_all add: on_time_def Let_def)
  have ex: "expires (tmrs s) x \<longleftrightarrow> ticks_left t c = 1"
    using u(4,5) by (cases "ticks_left t c = 0") (auto simp: expires_def word_unat_eq_iff)
  have "length (call_of (tmrs s) x) = 1" using t(3) u(3) by (auto simp: call_of_def)
  then show "calls_for x s' = calls_for x s + (if ticks_left t c = 1 then 1 else 0)" using k ex by (simp add: ticks_def)
  note next_left = tick_count(2) [OF t(1,2), of c]
  show "on_time t x (Suc c) s'"
  proof (cases "ticks_left t c = 1")
    case True
    then have r: "ticked (tmrs s) x = rearmed (OSTmrTickCtr (tmrs s) + 1) ?u" using ex by (simp add: ticked_def)
    show ?thesis
    proof (cases "Opt t = OS_OPT_TMR_PERIODIC")
      case per: True
      then have "ticks_left t (Suc c) = unat (Period t)" "unat (Period t) \<noteq> 0"
        using next_left True set_up_cases [OF t(1,2)] by (auto simp: unat_eq_zero)
      then show ?thesis using e r u per by (simp add: on_time_def Let_def rearmed_def left_def now)
    next
      case False
      then have "ticks_left t (Suc c) = 0" using next_left True by simp
      then show ?thesis using e r u False by (simp add: on_time_def Let_def rearmed_def)
    qed
  next
    case False
    then have r: "ticked (tmrs s) x = ?u" using ex by (simp add: ticked_def)
    have nl: "ticks_left t (Suc c) = ticks_left t c - 1" using next_left False by simp
    have l: "left (tmrs s') x = left (tmrs s) x - 1" by (simp add: left_def e r now diff_diff_eq)
    show ?thesis
    proof (cases "ticks_left t c = 0")
      case True
      then show ?thesis using e r u nl by (simp add: on_time_def Let_def)
    next
      case nz: False
      then have "left (tmrs s) x \<noteq> 0" using u(5) by auto
      then have "unat (left (tmrs s') x) = ticks_left t c - 1" using unat_minus_1 u(5) nz l by simp
      then show ?thesis using e r u nl nz False by (simp add: on_time_def Let_def)
    qed
  qed
qed

lemma started_on_time:
  assumes c: "tmr_core (tmr (tmrs s1) x) = tmr_core (started (OSTmrTickCtr (tmrs s)) t)"
    and now: "OSTmrTickCtr (tmrs s1) = OSTmrTickCtr (tmrs s)" and t: "set_up t" "State t \<noteq> OS_TMR_STATE_UNUSED"
  shows "on_time t x 0 s1"
proof -
  have d: "0 < unat (first_delay t)" using first_delay_pos [OF t] by (simp add: unat_gt_0)
  then have "ticks_left t 0 = unat (first_delay t)" by (simp add: ticks_left_def)
  then show ?thesis using tmr_core_eqD [OF c] d by (simp add: on_time_def Let_def started_def left_def now)
qed

lemma timers_run_on_time:
  assumes "timers_run A idle can buf x c s s'" and "sys_good A idle n N can s" and "on_time t x 0 s"
    and "set_up t" and "State t \<noteq> OS_TMR_STATE_UNUSED" and "CallbackPtr t \<noteq> None"
  shows "sys_good A idle n N can s' \<and> on_time t x c s' \<and> calls_for x s' = calls_for x s + expected_calls t c"
  using assms
proof (induction rule: timers_run.induct)
  case none
  have "0 < unat (first_delay t)" using first_delay_pos [OF none(3,4)] by (simp add: unat_gt_0)
  then show ?case using none(1,2) by (simp add: expected_calls_def)
next
  case (call c s s1 e s2)
  note ih = call.IH [OF call.prems]
  then have g: "sys_good A idle n N can s1" and o: "on_time t x c s1" by simp_all
  obtain s' where "tmr_serve can buf e s1 = Some s'" "sys_good A idle n N can s'" "ticks x s1 s' \<or> spares x s1 s'"
    using tmr_serve_good [OF g call.hyps(2), of buf] call.hyps(3) by blast
  then have s2: "sys_good A idle n N can s2" "ticks x s1 s2 \<or> spares x s1 s2" using call.hyps(4) by auto
  show ?case
  proof (cases "ticks x s1 s2")
    case True
    then have "OSTmrTickCtr (tmrs s2) \<noteq> OSTmrTickCtr (tmrs s1)" by (simp add: ticks_def)
    then show ?thesis using on_time_ticks [OF o True call.prems(3-5)] tick_count(1) [OF call.prems(3,4)] s2(1) ih by simp
  next
    case False
    then have sp: "spares x s1 s2" using s2(2) by simp
    then have "OSTmrTickCtr (tmrs s2) = OSTmrTickCtr (tmrs s1)" "calls_for x s2 = calls_for x s1" by (simp_all add: spares_def)
    then show ?thesis using on_time_spares [OF o sp] s2(1) ih by simp
  qed
qed

lemma unlock_level:
  "OSRunning k \<Longrightarrow> OSIntNestingCtr k = 0 \<Longrightarrow> d \<noteq> 0 \<Longrightarrow> OSSchedUnlock (k\<lparr>OSSchedLockNestingCtr := d\<rparr>)
    = (if 0 < d - 1 then Some (OS_ERR_SCHED_LOCKED, k\<lparr>OSSchedLockNestingCtr := d - 1\<rparr>)
       else map_option (Pair OS_ERR_NONE) (OSSched (k\<lparr>OSSchedLockNestingCtr := d - 1\<rparr>)))"
  by (simp add: OSSchedUnlock_def Let_def)

lemma lock_unlock:
  assumes "kernel_safe A idle n N k" and "OSIntNestingCtr k = 0" and "lockable k"
    and "OSSchedUnlock (snd (OSSchedLock k)) = Some (e, k')"
  shows "OSIntNestingCtr k' = 0 \<and> lockable k'"
proof -
  let ?c = "OSSchedLockNestingCtr k"
  have r: "OSRunning k" "\<not> 250 \<le> ?c" "?c + 1 \<noteq> 0"
    using assms(3) lock_level [of ?c] by (auto simp: lockable_def not_le)
  have same: "k\<lparr>OSSchedLockNestingCtr := ?c\<rparr> = k" by simp
  have l: "snd (OSSchedLock k) = k\<lparr>OSSchedLockNestingCtr := ?c + 1\<rparr>" using r assms(2) by (simp add: OSSchedLock_def)
  have un: "OSSchedUnlock (k\<lparr>OSSchedLockNestingCtr := ?c + 1\<rparr>)
      = (if 0 < ?c then Some (OS_ERR_SCHED_LOCKED, k) else map_option (Pair OS_ERR_NONE) (OSSched k))"
    using unlock_level [OF r(1) assms(2), of "?c + 1"] r(3) unfolding add_diff_cancel same by blast
  have "k' = k \<or> OSSched k = Some k'" using assms(4) unfolding l un by (auto split: if_splits)
  moreover have "\<exists>k''. OSSched k = Some k'' \<and> same_tasks k k''" using sched_run [OF safe_run [OF assms(1)]] by blast
  ultimately show ?thesis using assms(2,3) by (auto simp: same_tasks_def lockable_def)
qed

lemma OSTmrStart_on_time:
  assumes g: "sys_good A idle n N can s" and i: "OSIntNestingCtr (kern s) = 0"
    and u: "State (tmr (tmrs s) p) \<noteq> OS_TMR_STATE_UNUSED"
  shows "\<exists>s1. OSTmrStart (Some p) s = Some ((OS_ERR_NONE, True), s1) \<and> sys_good A idle n N can s1
    \<and> on_time (tmr (tmrs s) p) p 0 s1 \<and> calls_for p s1 = calls_for p s
    \<and> (lockable (kern s) \<longrightarrow> OSIntNestingCtr (kern s1) = 0 \<and> lockable (kern s1))"
proof -
  let ?s = "s\<lparr>kern := snd (OSSchedLock (kern s))\<rparr>"
  have inv: "tmrs_inv (tmrs s)" using g by (simp add: sys_good_def)
  have up: "set_up (tmr (tmrs s) p)" by (rule inv_set_up [OF inv])
  then have "Type (tmr (tmrs s) p) = OS_OBJ_TYPE_TMR" using u by (simp add: set_up_def)
  then have ck: "tmr_check (Some p) s = Inr p" using i by (simp add: tmr_check_def)
  have "tmrs_inv (tmrs ?s)" "State (tmr (tmrs ?s) p) \<noteq> OS_TMR_STATE_UNUSED" using inv u by simp_all
  from tmr_start_runs [OF this] obtain w' where w': "tmr_start p ?s = Some ((OS_ERR_NONE, True), ?s\<lparr>tmrs := w'\<rparr>)"
    "tmrs_inv w'" "tmr_only p (tmrs s) w'" "tmr_core (tmr w' p) = tmr_core (started (OSTmrTickCtr (tmrs s)) (tmr (tmrs s) p))"
    by auto
  have "kernel_safe A idle n N (kern (?s\<lparr>tmrs := w'\<rparr>))" using locked_safe [OF g] by simp
  then obtain e k' where k': "OSSchedUnlock (kern ?s) = Some (e, k')" "kernel_safe A idle n N k'" using unlock_runs by force
  have r: "sched_locked (tmr_start p) s = Some ((OS_ERR_NONE, True), ?s\<lparr>tmrs := w', kern := k'\<rparr>)"
    using w'(1) k'(1) by (simp add: sched_locked_def)
  have lv: "OSIntNestingCtr k' = 0 \<and> lockable k'" if "lockable (kern s)"
  proof (rule lock_unlock [OF _ i that])
    show "kernel_safe A idle n N (kern s)" using g by (simp add: sys_good_def)
    show "OSSchedUnlock (snd (OSSchedLock (kern s))) = Some (e, k')" using k'(1) by simp
  qed
  have now: "OSTmrTickCtr w' = OSTmrTickCtr (tmrs s)" using w'(3) by (simp add: tmr_only_def tmr_globals_def)
  have "on_time (tmr (tmrs s) p) p 0 (?s\<lparr>tmrs := w', kern := k'\<rparr>)"
    by (rule started_on_time [where s = s]) (use w'(4) now up u in simp_all)
  then show ?thesis using r k'(2) w'(2) g ck lv
    by (intro exI [of _ "?s\<lparr>tmrs := w', kern := k'\<rparr>"]) (simp add: OSTmrStart_def sys_good_def calls_for_def)
qed

section \<open>Properties\<close>

text \<open>The examples: the firmware's kernel, whose timer task runs, with one periodic timer created.\<close>

definition blank_tmrs :: os_tmrs where
  "blank_tmrs = OS_TmrInit_wheel
     \<lparr>tmr = \<lambda>_. \<lparr>Type = 0, CallbackPtr = None, CallbackPtrArg = 0, TmrNextPtr = None, TmrPrevPtr = None, Match = 0,
        Remain = 0, Dly = 0, Period = 0, Opt = 0, State = 0, DbgPrevPtr = None, DbgNextPtr = None\<rparr>,
      OSCfg_TmrWheel = \<lambda>_. \<lparr>TmrFirstPtr = None, TmrEntries = 0, TmrEntriesMax = 0\<rparr>,
      OSTmrTickCtr = 0, OSTmrQty = 0, OSTmrDbgListPtr = None\<rparr>"

lemma blank_tmrs_inv: "tmrs_inv blank_tmrs"
proof -
  have "rims_ok blank_tmrs (\<lambda>_. [])" by (simp add: rims_ok_def rim_ok_def blank_tmrs_def OS_TmrInit_wheel_def)
  moreover have "dbg_ok blank_tmrs []" by (simp add: dbg_ok_def blank_tmrs_def OS_TmrInit_wheel_def)
  moreover have "set_up (tmr blank_tmrs x)" for x by (simp add: set_up_def blank_tmrs_def OS_TmrInit_wheel_def)
  moreover have "State (tmr blank_tmrs x) \<noteq> OS_TMR_STATE_RUNNING" for x by (simp add: blank_tmrs_def OS_TmrInit_wheel_def)
  ultimately show ?thesis by (auto simp: tmrs_inv_def tmrs_wf_def)
qed

lemma example_system:
  obtains s where "sys_good {0, 1} 0 6 100 1 s" "OSIntNestingCtr (kern s) = 0" "lockable (kern s)"
    "State (tmr (tmrs s) 7) = OS_TMR_STATE_STOPPED" "CallbackPtr (tmr (tmrs s) 7) = Some Tmr1_callback" "Dly (tmr (tmrs s) 7) = 0"
    "Period (tmr (tmrs s) 7) = 1" "Opt (tmr (tmrs s) 7) = OS_OPT_TMR_PERIODIC" "calls s = []"
proof -
  obtain k where k: "kernel_safe {0, 1} 0 6 100 k" "OSIntNestingCtr k = 0" "OSSchedLockNestingCtr k = 0" "OSRunning k"
    by (rule example_kernel) blast
  let ?s = "\<lparr>kern = k, tmrs = blank_tmrs, calls = []\<rparr>"
  let ?c = "OSTmrCreate (Some 7) 0 1 OS_OPT_TMR_PERIODIC (Some Tmr1_callback) 0 ?s"
  have g: "sys_good {0, 1} 0 6 100 1 ?s" using k(1) blank_tmrs_inv by (simp add: sys_good_def)
  have "State (tmr (tmrs ?s) p) = OS_TMR_STATE_UNUSED" for p by (simp add: blank_tmrs_def OS_TmrInit_wheel_def)
  from Create_good [OF g this, of "Some 7" 0 1 OS_OPT_TMR_PERIODIC "Some Tmr1_callback" 0]
  have "sys_good {0, 1} 0 6 100 1 (snd ?c)" by simp
  moreover have "kern (snd ?c) = k" "calls (snd ?c) = []" using k(2) by (simp_all add: OSTmrCreate_def Let_def)
  moreover have "State (tmr (tmrs (snd ?c)) 7) = OS_TMR_STATE_STOPPED"
    "CallbackPtr (tmr (tmrs (snd ?c)) 7) = Some Tmr1_callback" "Dly (tmr (tmrs (snd ?c)) 7) = 0"
    "Period (tmr (tmrs (snd ?c)) 7) = 1" "Opt (tmr (tmrs (snd ?c)) 7) = OS_OPT_TMR_PERIODIC"
    using k(2) by (simp_all add: OSTmrCreate_def Let_def OS_TmrDbgListAdd_def upd_tmr_def blank_tmrs_def OS_TmrInit_wheel_def)
  ultimately show thesis using that [of "snd ?c"] k(2-4) by (simp add: lockable_def)
qed

text \<open>C9: Whatever calls for timers the tasks make, in any order and interleaved with passes of the timer
  task and all the other calls and interrupts of the kernel, every call returns, and every timer
  keeps its type: one of the four states, tagged as a timer exactly while in use, with a legal
  option and a period or delay that is not 0; the wheel and the list for the debugger hold exactly
  the running timers and the timers in use.\<close>

theorem timers_keep_type:
  assumes "sys_good A idle n N can s"
  shows "\<exists>s'. perform (tmr_allowed A idle) (tmr_serve can buf) es s = Some s' \<and> (\<forall>x. set_up (tmr (tmrs s') x))
    \<and> (\<exists>W ds. rims_ok (tmrs s') W \<and> dbg_ok (tmrs s') ds) \<and> kernel_safe A idle n N (kern s')"
  using csu_timers.perform_returns [OF assms] unfolding sys_good_def tmrs_inv_def tmrs_wf_def by blast

theorem timers_keep_type_witness:
  "\<exists>s s'. State (tmr (tmrs s) 7) = OS_TMR_STATE_STOPPED
    \<and> perform (tmr_allowed {0, 1} 0) (tmr_serve 1 (\<lambda>_. 5)) [Start (Some 7), TmrTaskResume (\<lambda>_. 9), Del (Some 7)] s = Some s'
    \<and> (\<forall>x. set_up (tmr (tmrs s') x))"
proof -
  obtain s where s: "sys_good {0, 1} 0 6 100 1 s" "State (tmr (tmrs s) 7) = OS_TMR_STATE_STOPPED" by (rule example_system) blast
  from timers_keep_type [OF s(1), of "\<lambda>_. 5" "[Start (Some 7), TmrTaskResume (\<lambda>_. 9), Del (Some 7)]"] s(2) show ?thesis by blast
qed

text \<open>C8: A started timer calls its function exactly on time: in the first \<open>c\<close> ticks of the timers after
  \<open>OSTmrStart\<close> it is called as often as its delay and period say, a one-shot timer once, whatever
  else is called meanwhile that is not meant for this timer, and across the wrap-around of the
  counter.\<close>

theorem timer_calls_on_time:
  assumes "sys_good A idle n N can s" and "OSIntNestingCtr (kern s) = 0"
    and "State (tmr (tmrs s) p) \<noteq> OS_TMR_STATE_UNUSED" and "CallbackPtr (tmr (tmrs s) p) \<noteq> None"
  shows "\<exists>s1. OSTmrStart (Some p) s = Some ((OS_ERR_NONE, True), s1)
    \<and> (\<forall>c s2. timers_run A idle can buf p c s1 s2 \<longrightarrow> calls_for p s2 = calls_for p s + expected_calls (tmr (tmrs s) p) c)"
proof -
  have "set_up (tmr (tmrs s) p)" using assms(1) by (intro inv_set_up) (simp add: sys_good_def)
  then show ?thesis using OSTmrStart_on_time [OF assms(1-3)] timers_run_on_time assms(3,4) by metis
qed

theorem timer_calls_on_time_witness:
  "\<exists>s s1 s2. OSTmrStart (Some 7) s = Some ((OS_ERR_NONE, True), s1) \<and> calls s = []
    \<and> tmr_serve 1 (\<lambda>_. 5) (TmrTaskResume (\<lambda>_. 9)) s1 = Some s2 \<and> calls_for 7 s2 = 1"
proof -
  obtain s where s: "sys_good {0, 1} 0 6 100 1 s" "OSIntNestingCtr (kern s) = 0" "lockable (kern s)"
    "State (tmr (tmrs s) 7) = OS_TMR_STATE_STOPPED" "CallbackPtr (tmr (tmrs s) 7) = Some Tmr1_callback" "Dly (tmr (tmrs s) 7) = 0"
    "Period (tmr (tmrs s) 7) = 1" "Opt (tmr (tmrs s) 7) = OS_OPT_TMR_PERIODIC" "calls s = []"
    by (rule example_system)
  have u: "State (tmr (tmrs s) 7) \<noteq> OS_TMR_STATE_UNUSED" "CallbackPtr (tmr (tmrs s) 7) \<noteq> None" using s(4,5) by simp_all
  obtain s1 where s1: "OSTmrStart (Some 7) s = Some ((OS_ERR_NONE, True), s1)"
    "\<And>c s2. timers_run {0, 1} 0 1 (\<lambda>_. 5) 7 c s1 s2 \<Longrightarrow> calls_for 7 s2 = calls_for 7 s + expected_calls (tmr (tmrs s) 7) c"
    using timer_calls_on_time [OF s(1,2) u, of "\<lambda>_. 5"] by blast
  have r1: "sys_good {0, 1} 0 6 100 1 s1" "OSIntNestingCtr (kern s1) = 0 \<and> lockable (kern s1)"
    using OSTmrStart_on_time [OF s(1,2) u(1)] s1(1) s(3) by auto
  let ?e = "TmrTaskResume (\<lambda>_. 9)"
  have a: "tmr_allowed {0, 1} 0 ?e s1" using r1(2) by simp
  obtain s2 where s2: "tmr_serve 1 (\<lambda>_. 5) ?e s1 = Some s2" "\<forall>x. ticks x s1 s2"
    using pass_good [OF r1(1), of "\<lambda>_. 5" "\<lambda>_. 9"] r1(2) by (auto simp: OS_TmrTask_resume_def)
  have "timers_run {0, 1} 0 1 (\<lambda>_. 5) 7 (if OSTmrTickCtr (tmrs s2) = OSTmrTickCtr (tmrs s1) then 0 else 0 + 1) s1 s2"
    by (rule timers_run.call [OF timers_run.none a _ s2(1)]) simp
  moreover have "OSTmrTickCtr (tmrs s2) \<noteq> OSTmrTickCtr (tmrs s1)" using s2(2) by (simp add: ticks_def)
  ultimately have "timers_run {0, 1} 0 1 (\<lambda>_. 5) 7 1 s1 s2" by simp
  from s1(2) [OF this] have "calls_for 7 s2 = 1"
    using s(6-9) by (simp add: expected_calls_def first_delay_def calls_for_def)
  then show ?thesis using s1(1) s(9) s2(1) by blast
qed

end
