(* ===== verification/Os_Create.thy ===== *)
theory Os_Create
  imports Os_Timers
begin

text \<open>
  The creation of a task (\<open>OSTaskCreate\<close> of os_task.c and \<open>OSTaskStkInit\<close> of the port, os_cpu_c.c):
  its control block is set to defaults, its stack is cleared and given the frame the first context
  switch will pop, and the task is put at the end of the ready list of its priority.
\<close>

section \<open>State\<close>

text \<open>The fields of a control block that the running kernel does not use; names and statistics are left out.\<close>

record os_tcb_stk =
  StkPtr :: u32
  StkLimitPtr :: u32
  StkBasePtr :: u32
  StkSize :: u32
  TaskEntryAddr :: u32
  TaskEntryArg :: u32
  TcbOpt :: u16
  TcbDbgPrevPtr :: ptr
  TcbDbgNextPtr :: ptr

text \<open>
  \<open>dyn\<close> is the kernel with its timers, \<open>stacks\<close> gives the array of words at an address.  Addresses of
  functions and stacks are 32-bit numbers, 0 the null pointer.
\<close>

record os_boot =
  dyn :: os_sys
  tcb_stk :: "nat \<Rightarrow> os_tcb_stk"
  stacks :: "u32 \<Rightarrow> u32 list"
  OSTaskQty :: u16
  OSTaskDbgListPtr :: ptr

abbreviation krn :: "os_boot \<Rightarrow> os_kernel" where "krn b \<equiv> kern (dyn b)"

definition set_krn :: "os_kernel \<Rightarrow> os_boot \<Rightarrow> os_boot" where
  "set_krn k b = b\<lparr>dyn := (dyn b)\<lparr>kern := k\<rparr>\<rparr>"

definition upd_stk :: "nat \<Rightarrow> (os_tcb_stk \<Rightarrow> os_tcb_stk) \<Rightarrow> os_boot \<Rightarrow> os_boot" where
  "upd_stk p f b = b\<lparr>tcb_stk := (tcb_stk b)(p := f (tcb_stk b p))\<rparr>"

text \<open>The arguments of \<open>OSTaskCreate\<close>, without the name and the extension of the control block.\<close>

record task_args =
  a_task :: u32
  a_arg :: u32
  a_prio :: u8
  a_base :: u32
  a_limit :: u32
  a_size :: u32
  a_q :: u16
  a_quanta :: u32
  a_opt :: u16

abbreviation (input) OS_OPT_TASK_STK_CHK :: u16 where "OS_OPT_TASK_STK_CHK \<equiv> 0x0001"
abbreviation (input) OS_OPT_TASK_STK_CLR :: u16 where "OS_OPT_TASK_STK_CLR \<equiv> 0x0002"
abbreviation (input) OS_OPT_TASK_NO_TLS :: u16 where "OS_OPT_TASK_NO_TLS \<equiv> 0x0008"
abbreviation (input) OSCfg_StkSizeMin :: u32 where "OSCfg_StkSizeMin \<equiv> 64"

section \<open>The stack of a task\<close>

text \<open>A store through a pointer into the array \<open>s\<close> at \<open>base\<close>; outside the array it is undefined.\<close>

definition stk_put :: "u32 \<Rightarrow> u32 \<Rightarrow> u32 \<Rightarrow> u32 list \<Rightarrow> u32 list option" where
  "stk_put base p v s =
     (let i = unat (p - base) in if i mod 4 = 0 \<and> i div 4 < length s then Some (s[i div 4 := v]) else None)"

primrec clear_loop :: "nat \<Rightarrow> u32 \<Rightarrow> u32 \<Rightarrow> u32 list \<Rightarrow> u32 list option" where
  "clear_loop 0 base p_sp s = Some s"
| "clear_loop (Suc n) base p_sp s = Option.bind (stk_put base p_sp 0 s) (clear_loop n base (p_sp + 4))"

text \<open>\<open>*(--p_stk) = v\<close> for one value after the other.\<close>

primrec push_all :: "u32 \<Rightarrow> u32 list \<Rightarrow> u32 \<Rightarrow> u32 list \<Rightarrow> (u32 \<times> u32 list) option" where
  "push_all base [] p_stk s = Some (p_stk, s)"
| "push_all base (v # vs) p_stk s = Option.bind (stk_put base (p_stk - 4) v s) (push_all base vs (p_stk - 4))"

text \<open>
  What is pushed: the registers of the floating point unit that an exception saves, those of the
  processor it saves, and the rest of both.
\<close>

definition stk_frame :: "u32 \<Rightarrow> u32 \<Rightarrow> u32 \<Rightarrow> u32 \<Rightarrow> u32 list" where
  "stk_frame ret p_task p_arg p_stk_limit =
     [0, 0x1000, 0x15, 0x14, 0x13, 0x12, 0x11, 0x10, 9, 8, 7, 6, 5, 4, 3, 2, 1, 0]
     @ [0x01000000, p_task, ret, 0x12121212, 0x03030303, 0x02020202, p_stk_limit, p_arg]
     @ [0x31, 0x30, 0x29, 0x28, 0x27, 0x26, 0x25, 0x24, 0x23, 0x22, 0x21, 0x20, 0x19, 0x18, 0x17, 0x16]
     @ [0x11111111, 0x10101010, 0x09090909, 0x08080808, 0x07070707, 0x06060606, 0x05050505, 0x04040404]"

definition OSTaskStkInit :: "u32 \<Rightarrow> u32 \<Rightarrow> u32 \<Rightarrow> u32 \<Rightarrow> u32 \<Rightarrow> u32 \<Rightarrow> u32 list \<Rightarrow> (u32 \<times> u32 list) option" where
  "OSTaskStkInit ret p_task p_arg p_stk_base p_stk_limit stk_size s =
     push_all p_stk_base (stk_frame ret p_task p_arg p_stk_limit) ((p_stk_base + 4 * stk_size) AND 0xFFFFFFF8) s"

section \<open>The creation of a task\<close>

definition OS_TaskInitTCB :: "nat \<Rightarrow> os_boot \<Rightarrow> os_boot" where
  "OS_TaskInitTCB p b =
     (let k = krn b;
          k = upd_tcb p (\<lambda>t. t\<lparr>NextTcb := None, PrevTcb := None, TickNextPtr := None, TickPrevPtr := None,
            TickSpokePtr := None, TS := 0, TcbMsgPtr := 0, TcbMsgSize := 0, SemCtr := 0, SuspendCtr := 0,
            TickCtrPrev := 0x80000000, TickCtrMatch := 0, TickRemain := 0, TimeQuanta := 0, TimeQuantaCtr := 0,
            CtxSwCtr := 0, PendOn := OS_TASK_PEND_ON_NOTHING, PendStatus := OS_STATUS_PEND_OK,
            TaskState := OS_TASK_STATE_RDY, Prio := 32\<rparr>) k;
          k = k\<lparr>msgs := OS_MsgQInit p 0 (msgs k)\<rparr>
      in upd_stk p (\<lambda>e. e\<lparr>StkPtr := 0, StkLimitPtr := 0, StkBasePtr := 0, StkSize := 0, TaskEntryAddr := 0,
           TaskEntryArg := 0, TcbOpt := 0, TcbDbgPrevPtr := None, TcbDbgNextPtr := None\<rparr>) (set_krn k b))"

definition OS_TaskDbgListAdd :: "nat \<Rightarrow> os_boot \<Rightarrow> os_boot" where
  "OS_TaskDbgListAdd p b =
     (let b = upd_stk p (\<lambda>e. e\<lparr>TcbDbgPrevPtr := None\<rparr>) b;
          b = (case OSTaskDbgListPtr b of
                 None \<Rightarrow> upd_stk p (\<lambda>e. e\<lparr>TcbDbgNextPtr := None\<rparr>) b
               | Some q \<Rightarrow> upd_stk q (\<lambda>e. e\<lparr>TcbDbgPrevPtr := Some p\<rparr>) (upd_stk p (\<lambda>e. e\<lparr>TcbDbgNextPtr := Some q\<rparr>) b))
      in b\<lparr>OSTaskDbgListPtr := Some p\<rparr>)"

text \<open>
  \<open>OSSched\<close> called with interrupts disabled by the caller: the context switch is requested, and happens
  when the caller enables them.
\<close>

definition request_switch :: "os_kernel \<Rightarrow> os_kernel option" where
  "request_switch k =
     do { pr \<leftarrow> OS_PrioGetHighest k;
          let k = k\<lparr>OSPrioHighRdy := pr, OSTCBHighRdyPtr := HeadPtr (OSRdyList k (unat pr))\<rparr>;
          if OSTCBHighRdyPtr k = Some (OSTCBCurPtr k) then Some k
          else do {
            p \<leftarrow> OSTCBHighRdyPtr k;
            let k = upd_tcb p (\<lambda>t. t\<lparr>CtxSwCtr := CtxSwCtr t + 1\<rparr>) k;
            Some (k\<lparr>OSTaskCtxSwCtr := OSTaskCtxSwCtr k + 1\<rparr>) } }"

definition OSSched_masked :: "os_kernel \<Rightarrow> os_kernel option" where
  "OSSched_masked k =
     (if 0 < OSIntNestingCtr k then Some k
      else if 0 < OSSchedLockNestingCtr k then Some k
      else request_switch k)"

text \<open>
  The work of \<open>OSTaskCreate\<close> once its arguments are accepted, in three parts: the stack, the control
  block, the lists.  \<open>ret\<close> is the address of \<open>OS_TaskReturn\<close>; the hook of the application is not set.
\<close>

definition create_stack :: "u32 \<Rightarrow> nat \<Rightarrow> task_args \<Rightarrow> os_boot \<Rightarrow> os_boot option" where
  "create_stack ret p a b =
     do { s \<leftarrow> (if a_opt a AND OS_OPT_TASK_STK_CHK \<noteq> 0 \<and> a_opt a AND OS_OPT_TASK_STK_CLR \<noteq> 0
                 then clear_loop (unat (a_size a)) (a_base a) (a_base a) (stacks b (a_base a))
                 else Some (stacks b (a_base a)));
          let limit = a_base a + 4 * a_limit a;
          (sp, s) \<leftarrow> OSTaskStkInit ret (a_task a) (a_arg a) (a_base a) limit (a_size a) s;
          Some (upd_stk p (\<lambda>e. e\<lparr>TaskEntryAddr := a_task a, TaskEntryArg := a_arg a, StkPtr := sp,
            StkLimitPtr := limit, StkBasePtr := a_base a, StkSize := a_size a, TcbOpt := a_opt a\<rparr>)
            (b\<lparr>stacks := (stacks b)(a_base a := s)\<rparr>)) }"

definition create_tcb :: "nat \<Rightarrow> task_args \<Rightarrow> os_kernel \<Rightarrow> os_kernel" where
  "create_tcb p a k =
     (let k = upd_tcb p (\<lambda>t. t\<lparr>Prio := a_prio a, TimeQuanta := a_quanta a,
            TimeQuantaCtr := if a_quanta a = 0 then OSSchedRoundRobinDfltTimeQuanta k else a_quanta a\<rparr>) k
      in k\<lparr>msgs := OS_MsgQInit p (unat (a_q a)) (msgs k)\<rparr>)"

definition create_task :: "u32 \<Rightarrow> nat \<Rightarrow> task_args \<Rightarrow> os_boot \<Rightarrow> os_boot option" where
  "create_task ret p a b =
     do { b \<leftarrow> create_stack ret p a (OS_TaskInitTCB p b);
          let k = create_tcb p a (krn b);
          k \<leftarrow> Option.bind (OS_PrioInsert (Prio (tcb k p)) k) (OS_RdyListInsertTail p);
          let b = OS_TaskDbgListAdd p (set_krn k b);
          Some (b\<lparr>OSTaskQty := OSTaskQty b + 1\<rparr>) }"

text \<open>\<open>masked\<close>: interrupts are disabled by the caller.\<close>

definition OSTaskCreate :: "bool \<Rightarrow> u32 \<Rightarrow> ptr \<Rightarrow> task_args \<Rightarrow> os_boot \<Rightarrow> (OS_ERR \<times> os_boot) option" where
  "OSTaskCreate masked ret p_tcb a b =
     (if 0 < OSIntNestingCtr (krn b) then Some (OS_ERR_TASK_CREATE_ISR, b)
      else case p_tcb of
        None \<Rightarrow> Some (OS_ERR_TCB_INVALID, b)
      | Some p \<Rightarrow>
          if a_task a = 0 then Some (OS_ERR_TASK_INVALID, b)
          else if a_base a = 0 then Some (OS_ERR_STK_INVALID, b)
          else if a_size a < OSCfg_StkSizeMin then Some (OS_ERR_STK_SIZE_INVALID, b)
          else if a_size a \<le> a_limit a then Some (OS_ERR_STK_LIMIT_INVALID, b)
          else if 32 \<le> a_prio a then Some (OS_ERR_PRIO_INVALID, b)
          else if a_prio a = 31 \<and> p \<noteq> OSIdleTaskTCB (krn b) then Some (OS_ERR_PRIO_INVALID, b)
          else do {
            b \<leftarrow> create_task ret p a b;
            if \<not> OSRunning (krn b) then Some (OS_ERR_NONE, b)
            else do {
              k \<leftarrow> (if masked then OSSched_masked (krn b) else OSSched (krn b));
              Some (OS_ERR_NONE, set_krn k b) } })"

section \<open>Stores stay in the stack\<close>

text \<open>The address of the word \<open>m\<close> of the array at \<open>base\<close>.\<close>

definition word_at :: "u32 \<Rightarrow> nat \<Rightarrow> u32" where "word_at base m = base + of_nat (4 * m)"

lemma word_at_simps: "word_at base 0 = base" "word_at base (Suc m) = word_at base m + 4"
  by (simp_all add: word_at_def)

lemma stk_put_word:
  assumes "m < length s" and "length s < 2 ^ 30"
  shows "stk_put base (word_at base m) v s = Some (s[m := v])"
proof -
  have "unat (of_nat (4 * m) :: u32) = 4 * m" using assms by (simp only: unat_of_nat take_bit_nat_eq_self) simp
  then have "unat (word_at base m - base) = 4 * m" by (simp only: word_at_def add_diff_cancel_left')
  then show ?thesis using assms(1) by (simp add: stk_put_def)
qed

lemma clear_loop_runs:
  assumes "m + n \<le> length s" and "length s < 2 ^ 30"
  shows "clear_loop n base (word_at base m) s = Some (take m s @ replicate n 0 @ drop (m + n) s)"
  using assms
proof (induction n arbitrary: m s)
  case (Suc n)
  have "stk_put base (word_at base m) 0 s = Some (s[m := 0])" using Suc.prems by (intro stk_put_word) simp_all
  moreover have "take (Suc m) (s[m := 0]) = take m s @ [0]" using Suc.prems by (simp add: take_Suc_conv_app_nth)
  ultimately show ?case using Suc.IH [of "Suc m" "s[m := 0]"] Suc.prems by (simp add: word_at_simps)
qed simp

lemma push_all_runs:
  assumes "length vs \<le> m" and "m \<le> length s" and "length s < 2 ^ 30"
  shows "push_all base vs (word_at base m) s
    = Some (word_at base (m - length vs), take (m - length vs) s @ rev vs @ drop m s)"
  using assms
proof (induction vs arbitrary: m s)
  case (Cons v vs)
  then obtain j where j: "m = Suc j" "length vs \<le> j" "j < length s" by (cases m) auto
  have "word_at base m - 4 = word_at base j" by (simp add: j(1) word_at_simps)
  moreover have "stk_put base (word_at base j) v s = Some (s[j := v])" using j(3) Cons.prems by (intro stk_put_word) simp_all
  moreover have "push_all base vs (word_at base j) (s[j := v])
      = Some (word_at base (j - length vs), take (j - length vs) (s[j := v]) @ rev vs @ drop j (s[j := v]))"
    using Cons.prems j by (intro Cons.IH) simp_all
  moreover have "drop j (s[j := v]) = v # drop (Suc j) s"
    using j(3) by (metis Cons_nth_drop_Suc drop_update_cancel length_list_update lessI nth_list_update_eq)
  ultimately show ?case using j by simp
qed simp

text \<open>The alignment of the stack pointer drops at most one word.\<close>

lemma aligned_down:
  fixes x :: u32
  assumes "x AND 3 = 0"
  shows "x AND 0xFFFFFFF8 = (if bit x 2 then x - 4 else x)"
proof -
  have z: "\<not> bit x 0" "\<not> bit x 1"
    using arg_cong [OF assms, of "\<lambda>w. bit w 0"] arg_cong [OF assms, of "\<lambda>w. bit w 1"] by (simp_all add: bit_simps)
  have "x AND mask 3 = (if bit x 2 then 4 else 0)"
  proof (rule bit_word_eqI)
    fix n assume "n < LENGTH(32)"
    have "n < 3 \<longleftrightarrow> n = 0 \<or> n = 1 \<or> n = 2" by auto
    moreover have "bit (4 :: u32) n \<longleftrightarrow> n = 2" using bit_exp_iff [of 2 n, where ?'a = "32 word"] \<open>n < LENGTH(32)\<close> by auto
    ultimately show "bit (x AND mask 3) n = bit (if bit x 2 then 4 else 0 :: u32) n"
      using z by (auto simp: bit_and_iff bit_mask_iff)
  qed
  moreover have "(x AND mask 3) + (x AND NOT (mask 3)) = x"
    by (subst disjunctive_add_eq_or) (auto simp: bit_eq_iff bit_simps)
  moreover have "(0xFFFFFFF8 :: u32) = NOT (mask 3)" by (simp add: mask_eq_exp_minus_1)
  ultimately show ?thesis by (auto simp: eq_diff_eq add.commute)
qed

text \<open>The frame of a new task: where it lies, and that the rest of the array is left alone.\<close>

lemma frame_length [simp]: "length (stk_frame ret p_task p_arg limit) = 50"
  by (simp add: stk_frame_def)

lemma and_3: "x AND 3 = 0 \<longleftrightarrow> unat x mod 4 = 0" for x :: u32
proof -
  have "x AND 3 = x mod 4" using take_bit_eq_mask [of 2 x] take_bit_eq_mod [of 2 x] by (simp add: mask_eq_exp_minus_1)
  then show ?thesis by (simp add: word_unat_eq_iff unat_mod)
qed

lemma OSTaskStkInit_runs:
  assumes base: "base AND 3 = 0" and n: "length s = unat n" "50 < unat n" "unat n < 2 ^ 30"
  shows "\<exists>m. unat n - 1 \<le> m \<and> m \<le> unat n \<and> word_at base m AND 7 = 0
    \<and> OSTaskStkInit ret p_task p_arg base limit n s
      = Some (word_at base (m - 50), take (m - 50) s @ rev (stk_frame ret p_task p_arg limit) @ drop m s)"
proof -
  let ?x = "base + 4 * n"
  have x: "?x = word_at base (unat n)" by (simp add: word_at_def)
  have "unat ?x mod 4 = (unat base + 4 * unat n) mod 4"
    by (simp add: unat_word_ariths mod_mod_cancel mod_add_right_eq)
  also have "\<dots> = 0" using base by (simp add: and_3)
  finally have x3: "?x AND 3 = 0" by (simp add: and_3)
  define m where "m = (if bit ?x 2 then unat n - 1 else unat n)"
  have a: "?x AND 0xFFFFFFF8 = word_at base m"
  proof -
    have "word_at base (unat n) - 4 = word_at base (unat n - 1)" using n(2) word_at_simps(2) [of base "unat n - 1"] by simp
    then show ?thesis using aligned_down [OF x3] x by (simp add: m_def)
  qed
  have "word_at base m AND 7 = ?x AND (0xFFFFFFF8 AND 7)" unfolding a [symmetric] by (rule and.assoc)
  then have "word_at base m AND 7 = 0" by simp
  moreover have "unat n - 1 \<le> m" "m \<le> unat n" by (simp_all add: m_def)
  moreover have "OSTaskStkInit ret p_task p_arg base limit n s
      = Some (word_at base (m - 50), take (m - 50) s @ rev (stk_frame ret p_task p_arg limit) @ drop m s)"
    using push_all_runs [of "stk_frame ret p_task p_arg limit" m s base] n calculation by (simp add: OSTaskStkInit_def a)
  ultimately show ?thesis by blast
qed

section \<open>The lists after a creation\<close>

text \<open>The lists agree with the states of the tasks in \<open>A\<close>, whatever runs.\<close>

definition tasks_ok :: "nat set \<Rightarrow> os_kernel \<Rightarrow> (nat \<Rightarrow> nat list) \<Rightarrow> (nat \<Rightarrow> nat list) \<Rightarrow> bool" where
  "tasks_ok A k Q W \<longleftrightarrow> rdy_inv k Q \<and> wheel_inv k W \<and> (\<forall>x. in_wheel W x \<longrightarrow> dist k x \<noteq> 0) \<and> (\<forall>x. state_ok A k Q W x)"

lemma kinv_iff: "kinv A idle k Q W \<longleftrightarrow> tasks_ok A k Q W \<and> cur_ok k \<and> idle \<in> set (Q 31)"
  by (auto simp: inv_except_def tasks_ok_def)

lemma tasks_okD:
  assumes "tasks_ok A k Q W"
  shows "rdy_inv k Q" "wheel_inv k W" "in_wheel W x \<Longrightarrow> dist k x \<noteq> 0" "state_ok A k Q W x"
    "p \<notin> A \<Longrightarrow> \<not> in_ready Q p \<and> \<not> in_wheel W p"
  using assms by (auto simp: tasks_ok_def state_ok_def)

text \<open>The control block of a task that has not been created may change in any way.\<close>

lemma tasks_ok_new:
  assumes ok: "tasks_ok A k Q W" and p: "p \<notin> A" and t: "\<And>x. x \<noteq> p \<Longrightarrow> tcb k' x = tcb k x" "TickSpokePtr (tcb k' p) = None"
    and same: "OSRdyList k' = OSRdyList k" "OSPrioTbl k' = OSPrioTbl k" "OSCfg_TickWheel k' = OSCfg_TickWheel k" "OSTickCtr k' = OSTickCtr k"
  shows "tasks_ok A k' Q W"
proof -
  have out: "x \<noteq> p" if "in_ready Q x \<or> in_wheel W x" for x using tasks_okD(5) [OF ok p] that by blast
  have d: "dist k' x = dist k x" if "x \<noteq> p" for x using t(1) [OF that] same(4) by (simp add: dist_def)
  have "rdy_list_ok k' i (Q i)" if i: "i < 32" for i
  proof -
    have ok': "rdy_list_ok k i (Q i)" by (rule rdy_inv_list [OF tasks_okD(1) [OF ok] i])
    have e: "tcb k' x = tcb k x" if "x \<in> set (Q i)" for x using t(1) out in_readyI [of x Q i] that i by blast
    then have "seg (nxt k') (prv k') None (Q i) None = seg (nxt k) (prv k) None (Q i) None" by (intro seg_cong) simp_all
    then show ?thesis using ok' e same(1) by (simp add: rdy_list_ok_def)
  qed
  then have "rdy_inv k' Q" using tasks_okD(1) [OF ok] same(2) by (simp add: rdy_inv_def)
  moreover have "spoke_ok k' s (W s)" if s: "s < WHEEL" for s
  proof -
    have ok': "spoke_ok k s (W s)" by (rule wheel_inv_spoke [OF tasks_okD(2) [OF ok] s])
    have m: "x \<noteq> p" if "x \<in> set (W s)" for x using out that s by (auto simp: in_wheel_def)
    then have "seg (tn k') (tp k') None (W s) None = seg (tn k) (tp k) None (W s) None" by (intro seg_cong) (simp_all add: t(1))
    moreover have "map (dist k') (W s) = map (dist k) (W s)" using m d by simp
    then have "sorted (map (dist k') (W s)) = sorted (map (dist k) (W s))" by (rule arg_cong)
    ultimately show ?thesis using ok' m t(1) same(3) by (simp add: spoke_ok_def)
  qed
  moreover have "TickSpokePtr (tcb k' x) = None" if "\<forall>s < WHEEL. x \<notin> set (W s)" for x
    using that t tasks_okD(2) [OF ok] by (cases "x = p") (simp_all add: wheel_inv_def)
  ultimately have "rdy_inv k' Q" "wheel_inv k' W" by (simp_all add: wheel_inv_def)
  moreover have "state_ok A k' Q W x" for x
    using tasks_okD(4,5) [OF ok] p t(1) [of x] by (cases "x = p") (auto simp: state_ok_def prio_ix_def)
  moreover have "dist k' x \<noteq> 0" if "in_wheel W x" for x using tasks_okD(3) [OF ok that] d out that by simp
  ultimately show ?thesis by (simp add: tasks_ok_def)
qed

text \<open>The insertion at the end of the list of its priority makes it one of the tasks.\<close>

lemma InsertTail_refines:
  assumes inv: "rdy_inv k Q" and i: "unat (Prio (tcb k p)) = i" "i < 32" and new: "p \<notin> set (Q i)"
  shows "\<exists>k'. Option.bind (OS_PrioInsert (Prio (tcb k p)) k) (OS_RdyListInsertTail p) = Some k'
    \<and> rdy_inv k' (Q(i := Q i @ [p])) \<and> rdy_frame i k k'"
proof -
  obtain t where t: "OS_PrioInsert (Prio (tcb k p)) k = Some (k\<lparr>OSPrioTbl := [t]\<rparr>)"
    "\<And>j. j < 32 \<Longrightarrow> bit t (31 - j) \<longleftrightarrow> bit (OSPrioTbl k ! 0) (31 - j) \<or> j = i"
    using PrioInsert_bits [OF _ rdy_inv_table [OF inv]] i by metis
  let ?k = "k\<lparr>OSPrioTbl := [t]\<rparr>"
  have ok: "rdy_list_ok ?k i (Q i)" using rdy_inv_list [OF inv i(2)] by simp
  obtain k' where k': "OS_RdyListInsertTail p ?k = Some k'" "rdy_list_ok k' i (Q i @ [p])"
    "rdy_frame i ?k k'" "OSPrioTbl k' = [t]"
    using InsertTail_list [OF ok _ i(2) new] i(1) by auto
  have f: "rdy_frame i k k'" using k'(3) by (simp add: rdy_frame_def)
  have "rdy_inv k' (Q(i := Q i @ [p]))"
    by (rule rdy_inv_frame [OF inv i(2) k'(2) f]) (use k'(4) t(2) in auto)
  then show ?thesis using t(1) k'(1) f by auto
qed

lemma tasks_ok_insert:
  assumes ok: "tasks_ok A k Q W" and p: "p \<notin> A" and i: "unat (Prio (tcb k p)) = i" "i < 32"
    and st: "TaskState (tcb k p) = OS_TASK_STATE_RDY"
  shows "\<exists>k'. Option.bind (OS_PrioInsert (Prio (tcb k p)) k) (OS_RdyListInsertTail p) = Some k'
    \<and> tasks_ok (insert p A) k' (Q(i := Q i @ [p])) W \<and> rdy_frame i k k'"
proof -
  have new: "p \<notin> set (Q i)" using tasks_okD(5) [OF ok p] in_readyI i(2) by blast
  obtain k' where k': "Option.bind (OS_PrioInsert (Prio (tcb k p)) k) (OS_RdyListInsertTail p) = Some k'"
    "rdy_inv k' (Q(i := Q i @ [p]))" "rdy_frame i k k'"
    using InsertTail_refines [OF tasks_okD(1) [OF ok] i new] by blast
  note f = rdy_frame_svc [OF k'(3)] and m = rdy_frame_tcb [OF k'(3)]
  have r: "in_ready (Q(i := Q i @ [p])) x \<longleftrightarrow> x = p \<or> in_ready Q x" for x
    using i(2) by (auto simp: in_ready_def)
  have px: "prio_ix k' x = prio_ix k x" for x by (simp add: prio_ix_frame [OF f])
  have pp: "prio_ix k p < 32" using i by (simp add: prio_ix_def)
  have "state_ok (insert p A) k' (Q(i := Q i @ [p])) W x" for x
    using tasks_okD(4) [OF ok, of x] tasks_okD(5) [OF ok p] st pp p
    by (cases "x = p") (simp_all add: state_ok_def r px m(1) timed_def)
  moreover have "dist k' x = dist k x" for x by (rule svc_dist [OF f m(10)])
  moreover have "wheel_inv k' W" by (rule rdy_frame_wheel [OF k'(3) tasks_okD(2) [OF ok]])
  ultimately have "tasks_ok (insert p A) k' (Q(i := Q i @ [p])) W" using k'(2) tasks_okD(3) [OF ok] by (simp add: tasks_ok_def)
  then show ?thesis using k'(1,3) by blast
qed

section \<open>Requested switches\<close>

text \<open>The requested switch, once it happens, is that of the unmasked scheduler.\<close>

lemma switch_highest_request:
  assumes inv: "rdy_inv k Q" and cur: "cur_ok k"
  shows "switch_highest k = Option.bind (request_switch k) context_switch"
proof (cases "OS_PrioGetHighest k")
  case (Some pr)
  then obtain i where i: "top_prio Q = Some i" "pr = of_nat i" using GetHighest_refines [OF inv] by auto
  have u: "unat pr = i" "i < 32" using i top_prio_Some [of Q i] by (simp_all add: unat_of_nat take_bit_nat_eq_self)
  have ok: "rdy_list_ok k i (Q i)" by (rule rdy_inv_list [OF inv u(2)])
  have e: "OSPrioCur k = pr" if "HeadPtr (OSRdyList k i) = Some (OSTCBCurPtr k)"
  proof -
    have "OSTCBCurPtr k \<in> set (Q i)" using that ok by (cases "Q i") (auto simp: rdy_list_ok_def)
    then have "unat (Prio (tcb k (OSTCBCurPtr k))) = unat pr" using ok u(1) by (simp add: rdy_list_ok_def)
    then show ?thesis using cur by (simp add: cur_ok_def word_unat_eq_iff)
  qed
  show ?thesis
  proof (cases "HeadPtr (OSRdyList k i) = Some (OSTCBCurPtr k)")
    case True
    then show ?thesis using Some u(1) e by (simp add: switch_highest_def request_switch_def context_switch_def Let_def)
  next
    case False
    then show ?thesis using Some u(1) by (cases "HeadPtr (OSRdyList k i)") (simp_all add: switch_highest_def request_switch_def Let_def)
  qed
qed (simp add: switch_highest_def request_switch_def)

lemma request_switch_runs:
  assumes inv: "rdy_inv k Q" and top: "next_task Q = Some p"
  shows "\<exists>k'. request_switch k = Some k' \<and> rdy_inv k' Q \<and> sched_frame k k' \<and> OSTCBCurPtr k' = OSTCBCurPtr k \<and> OSPrioCur k' = OSPrioCur k"
proof -
  obtain i where i: "top_prio Q = Some i" "p = hd (Q i)" using top by (auto simp: next_task_def)
  then have ne: "i < 32" "Q i \<noteq> []" by (auto simp: top_prio_Some)
  have "first_ptr (Q i) None = Some p" using ne i(2) by (cases "Q i") simp_all
  then have h: "HeadPtr (OSRdyList k i) = Some p" using rdy_inv_list [OF inv ne(1)] by (simp add: rdy_list_ok_def)
  have u: "unat (of_nat i :: u8) = i" using ne(1) by (simp add: unat_of_nat take_bit_nat_eq_self)
  have g: "OS_PrioGetHighest k = Some (of_nat i)" using GetHighest_refines [OF inv] i(1) by simp
  let ?k = "k\<lparr>OSPrioHighRdy := of_nat i, OSTCBHighRdyPtr := Some p\<rparr>"
  show ?thesis
  proof (cases "p = OSTCBCurPtr k")
    case True
    have "request_switch k = Some ?k" using True by (simp add: request_switch_def g u h)
    moreover have "rdy_inv ?k Q" using inv by (simp add: rdy_inv_other [of ?k k])
    moreover have "sched_frame k ?k" by (simp add: sched_frame_def)
    ultimately show ?thesis by auto
  next
    case False
    define k' where "k' = (upd_tcb p (\<lambda>t. t\<lparr>CtxSwCtr := CtxSwCtr t + 1\<rparr>) ?k)\<lparr>OSTaskCtxSwCtr := OSTaskCtxSwCtr k + 1\<rparr>"
    have "request_switch k = Some k'" using False by (simp add: request_switch_def g u h k'_def upd_defs)
    moreover have "rdy_inv k' Q" by (rule rdy_inv_tcb [OF inv]) (auto simp: k'_def upd_defs)
    moreover have "sched_frame k k'" by (cases k) (simp add: sched_frame_def k'_def upd_defs)
    moreover have "OSTCBCurPtr k' = OSTCBCurPtr k" "OSPrioCur k' = OSPrioCur k" by (simp_all add: k'_def upd_defs)
    ultimately show ?thesis by blast
  qed
qed

lemma tasks_ok_sched:
  assumes ok: "tasks_ok A k Q W" and f: "sched_frame k k'" and q: "rdy_inv k' Q"
  shows "tasks_ok A k' Q W"
proof -
  note f = sched_frame_tcb [OF f] sched_frame_simps [OF f]
  have "wheel_inv k' W" by (rule wheel_inv_same [OF tasks_okD(2) [OF ok]]) (simp_all add: f)
  moreover have "state_ok A k' Q W x" for x
    using tasks_okD(4) [OF ok, of x] by (simp add: state_ok_def prio_ix_def f)
  ultimately show ?thesis using q tasks_okD(3) [OF ok] by (simp add: tasks_ok_def dist_def f)
qed

section \<open>What a creation does\<close>

definition fixed :: "os_kernel \<Rightarrow> (u8 \<times> u8 \<times> bool) \<times> (nat \<times> u8 \<times> u32) \<times> nat \<times> nat \<times> nat" where
  "fixed k = ((OSIntNestingCtr k, OSSchedLockNestingCtr k, OSRunning k), (OSTCBCurPtr k, OSPrioCur k, OSTickCtr k), roles k)"

text \<open>The stack pointer \<open>sp\<close> points to the frame of the task, at the aligned end of its stack \<open>s\<close>.\<close>

definition framed :: "u32 \<Rightarrow> task_args \<Rightarrow> u32 list \<Rightarrow> u32 \<Rightarrow> bool" where
  "framed ret a s sp \<longleftrightarrow> (\<exists>m. unat (a_size a) - 1 \<le> m \<and> m \<le> unat (a_size a) \<and> word_at (a_base a) m AND 7 = 0
     \<and> sp = word_at (a_base a) (m - 50) \<and> length s = unat (a_size a)
     \<and> take 50 (drop (m - 50) s) = rev (stk_frame ret (a_task a) (a_arg a) (a_base a + 4 * a_limit a)))"

definition created :: "u32 \<Rightarrow> nat \<Rightarrow> task_args \<Rightarrow> os_boot \<Rightarrow> os_boot \<Rightarrow> bool" where
  "created ret p a b b' \<longleftrightarrow> fixed (krn b') = fixed (krn b) \<and> tmrs (dyn b') = tmrs (dyn b) \<and> calls (dyn b') = calls (dyn b)
     \<and> (\<forall>x. x \<noteq> p \<longrightarrow> svc_of (tcb (krn b') x) = svc_of (tcb (krn b) x) \<and> prio_ix (krn b') x = prio_ix (krn b) x
          \<and> MsgQ (msgs (krn b')) x = MsgQ (msgs (krn b)) x \<and> StkPtr (tcb_stk b' x) = StkPtr (tcb_stk b x))
     \<and> prio_ix (krn b') p = unat (a_prio a) \<and> TaskState (tcb (krn b') p) = OS_TASK_STATE_RDY
     \<and> NbrEntriesSize (MsgQ (msgs (krn b')) p) = unat (a_q a) \<and> NbrEntries (MsgQ (msgs (krn b')) p) = 0
     \<and> (\<forall>y. y \<noteq> a_base a \<longrightarrow> stacks b' y = stacks b y) \<and> framed ret a (stacks b' (a_base a)) (StkPtr (tcb_stk b' p))"

text \<open>The queue of the new task is one more queue of the pool.\<close>

lemma msgs_inv_new:
  assumes "msgs_inv n N m"
  shows "msgs_inv (Suc n) N (OS_MsgQInit n cap (OS_MsgQInit n cap' m))"
proof -
  let ?m = "OS_MsgQInit n cap (OS_MsgQInit n cap' m)"
  obtain fr cs where o: "owned n N fr cs m" using assms by (auto simp: msgs_inv_def)
  have e: "cells ?m = cells m" "PoolNextPtr ?m = PoolNextPtr m" "NbrFree ?m = NbrFree m" "NbrUsed ?m = NbrUsed m"
    "\<And>i. i \<noteq> n \<Longrightarrow> MsgQ ?m i = MsgQ m i" "q_chain (cells m) (MsgQ ?m n) []"
    by (simp_all add: OS_MsgQInit_def q_chain_def)
  have "owned (Suc n) N fr (cs(n := [])) ?m"
    using o e by (auto simp: owned_def less_Suc_eq)
  then show ?thesis by (auto simp: msgs_inv_def)
qed

definition args_ok :: "os_boot \<Rightarrow> task_args \<Rightarrow> bool" where
  "args_ok b a \<longleftrightarrow> a_task a \<noteq> 0 \<and> a_base a \<noteq> 0 \<and> a_base a AND 3 = 0 \<and> 64 \<le> a_size a \<and> a_limit a < a_size a
     \<and> a_size a < 2 ^ 30 \<and> length (stacks b (a_base a)) = unat (a_size a) \<and> a_prio a < 32"

lemma DbgListAdd_simps [simp]:
  "dyn (OS_TaskDbgListAdd p b) = dyn b" "stacks (OS_TaskDbgListAdd p b) = stacks b"
  "StkPtr (tcb_stk (OS_TaskDbgListAdd p b) x) = StkPtr (tcb_stk b x)" "OSTaskQty (OS_TaskDbgListAdd p b) = OSTaskQty b"
  by (simp_all add: OS_TaskDbgListAdd_def Let_def upd_stk_def split: option.split)

lemma rdy_frame_fixed: "rdy_frame i k k' \<Longrightarrow> fixed k' = fixed k"
  by (simp add: fixed_def rdy_frame_simps roles_rdy)

lemma sched_frame_fixed:
  "sched_frame k k' \<Longrightarrow> OSTCBCurPtr k' = OSTCBCurPtr k \<Longrightarrow> OSPrioCur k' = OSPrioCur k \<Longrightarrow> fixed k' = fixed k"
  by (simp add: fixed_def sched_frame_simps roles_sched)

lemma create_task_runs:
  assumes a: "args_ok b a" and ok: "tasks_ok A (krn b) Q W" and p: "p \<notin> A" and m: "msgs_inv p N (msgs (krn b))"
  shows "\<exists>b'. create_task ret p a b = Some b' \<and> created ret p a b b' \<and> msgs_inv (Suc p) N (msgs (krn b'))
    \<and> tasks_ok (insert p A) (krn b') (Q(unat (a_prio a) := Q (unat (a_prio a)) @ [p])) W"
proof -
  let ?n = "unat (a_size a)" and ?base = "a_base a" and ?limit = "a_base a + 4 * a_limit a" and ?s = "stacks b (a_base a)"
  have n: "length ?s = ?n" "50 < ?n" "?n < 2 ^ 30"
    using a by (auto simp: args_ok_def word_le_nat_alt word_less_nat_alt)
  define s0 where "s0 = (if a_opt a AND OS_OPT_TASK_STK_CHK \<noteq> 0 \<and> a_opt a AND OS_OPT_TASK_STK_CLR \<noteq> 0
    then replicate ?n 0 else ?s)"
  have clear: "clear_loop ?n ?base ?base ?s = Some (replicate ?n 0)"
    using clear_loop_runs [of 0 ?n ?s ?base] n by (simp add: word_at_simps)
  have l0: "length s0 = ?n" using n by (simp add: s0_def)
  have base: "?base AND 3 = 0" using a by (simp add: args_ok_def)
  obtain j where j: "?n - 1 \<le> j" "j \<le> ?n" "word_at ?base j AND 7 = 0"
    "OSTaskStkInit ret (a_task a) (a_arg a) ?base ?limit (a_size a) s0
      = Some (word_at ?base (j - 50), take (j - 50) s0 @ rev (stk_frame ret (a_task a) (a_arg a) ?limit) @ drop j s0)"
    using OSTaskStkInit_runs [OF base l0 n(2,3)] by blast
  let ?s1 = "take (j - 50) s0 @ rev (stk_frame ret (a_task a) (a_arg a) ?limit) @ drop j s0"
  have fr: "framed ret a ?s1 (word_at ?base (j - 50))"
    using j(1-3) l0 n(2) unfolding framed_def by (intro exI [of _ j]) simp
  let ?b1 = "OS_TaskInitTCB p b"
  define b2 where "b2 = upd_stk p (\<lambda>e. e\<lparr>TaskEntryAddr := a_task a, TaskEntryArg := a_arg a, StkPtr := word_at ?base (j - 50),
    StkLimitPtr := ?limit, StkBasePtr := ?base, StkSize := a_size a, TcbOpt := a_opt a\<rparr>)
    (?b1\<lparr>stacks := (stacks ?b1)(?base := ?s1)\<rparr>)"
  define k2 where "k2 = create_tcb p a (krn b2)"
  have b2: "stacks b2 = (stacks b)(?base := ?s1)" "tmrs (dyn b2) = tmrs (dyn b)" "calls (dyn b2) = calls (dyn b)"
    "StkPtr (tcb_stk b2 x) = (if x = p then word_at ?base (j - 50) else StkPtr (tcb_stk b x))" for x
    by (simp_all add: b2_def OS_TaskInitTCB_def Let_def upd_stk_def set_krn_def)
  have k2: "\<And>x. x \<noteq> p \<Longrightarrow> tcb k2 x = tcb (krn b) x" "TickSpokePtr (tcb k2 p) = None" "Prio (tcb k2 p) = a_prio a"
    "TaskState (tcb k2 p) = OS_TASK_STATE_RDY" "OSRdyList k2 = OSRdyList (krn b)" "OSPrioTbl k2 = OSPrioTbl (krn b)"
    "OSCfg_TickWheel k2 = OSCfg_TickWheel (krn b)" "OSTickCtr k2 = OSTickCtr (krn b)" "fixed k2 = fixed (krn b)"
    "msgs k2 = OS_MsgQInit p (unat (a_q a)) (OS_MsgQInit p 0 (msgs (krn b)))"
    by (simp_all add: k2_def create_tcb_def b2_def OS_TaskInitTCB_def Let_def upd_stk_def set_krn_def upd_tcb_def fixed_def roles_def)
  have i: "unat (Prio (tcb k2 p)) = unat (a_prio a)" "unat (a_prio a) < 32"
    using a k2(3) by (simp_all add: args_ok_def word_less_nat_alt)
  have "tasks_ok A k2 Q W" by (rule tasks_ok_new [OF ok p k2(1,2,5-8)])
  from tasks_ok_insert [OF this p i k2(4)] obtain k3 where
    k3: "Option.bind (OS_PrioInsert (Prio (tcb k2 p)) k2) (OS_RdyListInsertTail p) = Some k3"
      "tasks_ok (insert p A) k3 (Q(unat (a_prio a) := Q (unat (a_prio a)) @ [p])) W" "rdy_frame (unat (a_prio a)) k2 k3"
    by blast
  let ?b3 = "OS_TaskDbgListAdd p (set_krn k3 b2)"
  let ?b' = "?b3\<lparr>OSTaskQty := OSTaskQty ?b3 + 1\<rparr>"
  have "stacks ?b1 = stacks b" by (simp add: OS_TaskInitTCB_def Let_def upd_stk_def set_krn_def)
  then have cl: "(if a_opt a AND OS_OPT_TASK_STK_CHK \<noteq> 0 \<and> a_opt a AND OS_OPT_TASK_STK_CLR \<noteq> 0
      then clear_loop ?n ?base ?base (stacks ?b1 ?base) else Some (stacks ?b1 ?base)) = Some s0"
    using clear by (simp add: s0_def)
  have "create_stack ret p a ?b1 = Some b2"
    unfolding create_stack_def Let_def b2_def cl bind.bind_lunit j(4) by simp
  moreover obtain kp where "OS_PrioInsert (Prio (tcb k2 p)) k2 = Some kp" "OS_RdyListInsertTail p kp = Some k3"
    using k3(1) by (auto simp: Option.bind_eq_Some_conv)
  ultimately have "create_task ret p a b = Some ?b'"
    by (simp add: create_task_def k2_def [symmetric])
  moreover have "created ret p a b ?b'"
  proof -
    have "fixed k3 = fixed (krn b)" using rdy_frame_fixed [OF k3(3)] k2(9) by simp
    moreover have "svc_of (tcb k3 x) = svc_of (tcb k2 x)" "prio_ix k3 x = prio_ix k2 x" for x
      using svc_frame_tcb [OF rdy_frame_svc [OF k3(3)]] prio_ix_frame [OF rdy_frame_svc [OF k3(3)]] by simp_all
    moreover have "TaskState (tcb k3 p) = OS_TASK_STATE_RDY" "prio_ix k2 p = unat (a_prio a)"
      using rdy_frame_tcb(1) [OF k3(3)] k2(3,4) by (simp_all add: prio_ix_def)
    moreover have "prio_ix k2 x = prio_ix (krn b) x" if "x \<noteq> p" for x using k2(1) [OF that] by (simp add: prio_ix_def)
    moreover have "msgs k3 = OS_MsgQInit p (unat (a_q a)) (OS_MsgQInit p 0 (msgs (krn b)))"
      using k2(10) rdy_frame_simps(7) [OF k3(3)] by simp
    ultimately show ?thesis using fr k2(1) b2 by (simp add: created_def set_krn_def OS_MsgQInit_def)
  qed
  moreover have "msgs_inv (Suc p) N (msgs k3)"
    using msgs_inv_new [OF m] k2(10) rdy_frame_simps(7) [OF k3(3)] by simp
  ultimately show ?thesis using k3(2) by (intro exI [of _ ?b']) (simp add: set_krn_def)
qed

section \<open>Creation while the kernel runs\<close>

lemma masked_keeps:
  assumes "tasks_ok A k Q W" and "q \<in> set (Q 31)"
  shows "\<exists>k'. OSSched_masked k = Some k' \<and> tasks_ok A k' Q W \<and> sched_frame k k' \<and> fixed k' = fixed k"
proof (cases "0 < OSIntNestingCtr k \<or> 0 < OSSchedLockNestingCtr k")
  case True
  then have "OSSched_masked k = Some k" by (auto simp: OSSched_masked_def word_gt_0)
  moreover have "sched_frame k k" by (simp add: sched_frame_def)
  ultimately show ?thesis using assms(1) by blast
next
  case False
  obtain r where "next_task Q = Some r" using next_task_exists [of q Q 31] assms(2) by auto
  from request_switch_runs [OF tasks_okD(1) [OF assms(1)] this] obtain k' where
    k': "request_switch k = Some k'" "rdy_inv k' Q" "sched_frame k k'" "OSTCBCurPtr k' = OSTCBCurPtr k" "OSPrioCur k' = OSPrioCur k"
    by blast
  then show ?thesis using False tasks_ok_sched [OF assms(1) k'(3,2)] sched_frame_fixed [OF k'(3-5)]
    by (auto simp: OSSched_masked_def word_gt_0)
qed

lemma fixedD:
  assumes "fixed k' = fixed k"
  shows "OSIntNestingCtr k' = OSIntNestingCtr k" "OSSchedLockNestingCtr k' = OSSchedLockNestingCtr k"
    "OSRunning k' = OSRunning k" "OSTCBCurPtr k' = OSTCBCurPtr k" "OSPrioCur k' = OSPrioCur k" "OSTickCtr k' = OSTickCtr k"
    "roles k' = roles k" "OSIdleTaskTCB k' = OSIdleTaskTCB k"
  using assms by (auto simp: fixed_def roles_def)

text \<open>The running kernel with one task more, before the scheduler is called.\<close>

lemma create_task_safe:
  assumes s: "kernel_safe A idle n N (krn b)" and a: "args_ok b a"
  shows "\<exists>b'. create_task ret n a b = Some b' \<and> created ret n a b b' \<and> kernel_safe (insert n A) idle (Suc n) N (krn b')"
proof -
  let ?k = "krn b" and ?i = "unat (a_prio a)"
  obtain Q W where inv: "tasks_ok A ?k Q W" "cur_ok ?k" "idle \<in> set (Q 31)"
    using run_kin [OF safe_run [OF s]] by (auto simp: kin_def kinv_iff)
  have n: "n \<notin> A" and c: "OSTCBCurPtr ?k \<in> A" "OSTCBCurPtr ?k \<noteq> n"
    using s safe_cur [OF s] by (auto simp: kernel_safe_def)
  obtain b' where b': "create_task ret n a b = Some b'" "created ret n a b b'" "msgs_inv (Suc n) N (msgs (krn b'))"
    "tasks_ok (insert n A) (krn b') (Q(?i := Q ?i @ [n])) W"
    using create_task_runs [OF a inv(1) n safe_msgs [OF s]] by blast
  have f: "fixed (krn b') = fixed ?k" using b'(2) by (simp add: created_def)
  note f = fixedD [OF f]
  have o: "svc_of (tcb (krn b') x) = svc_of (tcb ?k x)" "prio_ix (krn b') x = prio_ix ?k x" if "x \<noteq> n" for x
    using b'(2) that by (simp_all add: created_def)
  have "Prio (tcb (krn b') (OSTCBCurPtr ?k)) = Prio (tcb ?k (OSTCBCurPtr ?k))"
    using o(2) [OF c(2)] by (simp add: prio_ix_def word_unat_eq_iff)
  then have "cur_ok (krn b')" using inv(2) by (simp add: cur_ok_def f)
  then have "kinv (insert n A) idle (krn b') (Q(?i := Q ?i @ [n])) W" using b'(4) inv(3) by (simp add: kinv_iff)
  moreover have "TaskState (tcb (krn b') (OSTCBCurPtr ?k)) = OS_TASK_STATE_RDY"
    using svc_of_eqD(1) [OF o(1) [OF c(2)]] safe_run [OF s] by (simp add: run_def)
  ultimately have "run (insert n A) idle (krn b')" using c(1) by (auto simp: run_def kin_def f)
  moreover have "insert n A \<subseteq> {..<Suc n}" using s by (auto simp: kernel_safe_def)
  ultimately have "kernel_safe (insert n A) idle (Suc n) N (krn b')"
    using b'(3) s f(7) by (simp add: kernel_safe_def roles_def)
  then show ?thesis using b'(1,2) by blast
qed

text \<open>The scheduler at the end, masked or not, moves no task.\<close>

lemma masked_safe:
  assumes s: "kernel_safe A idle n N k"
  shows "\<exists>k'. OSSched_masked k = Some k' \<and> kernel_safe A idle n N k' \<and> same_tasks k k' \<and> fixed k' = fixed k"
proof -
  obtain Q W where inv: "tasks_ok A k Q W" "cur_ok k" "idle \<in> set (Q 31)"
    using run_kin [OF safe_run [OF s]] by (auto simp: kin_def kinv_iff)
  obtain k' where k': "OSSched_masked k = Some k'" "tasks_ok A k' Q W" "sched_frame k k'" "fixed k' = fixed k"
    using masked_keeps [OF inv(1,3)] by blast
  note t = sched_frame_tcb [OF k'(3)] sched_frame_simps [OF k'(3)] and f = fixedD [OF k'(4)]
  have "cur_ok k'" using inv(2) by (simp add: cur_ok_def f t)
  then have "kinv A idle k' Q W" using k'(2) inv(3) by (simp add: kinv_iff)
  then have "run A idle k'" using safe_run [OF s] by (auto simp: run_def kin_def f t)
  then have "kernel_safe A idle n N k'" using safe_keep [OF s] safe_msgs [OF s] f(7) t by simp
  moreover have "svc_of (tcb k' x) = svc_of (tcb k x)" for x unfolding svc_of_def t by simp
  then have "same_tasks k k'" by (simp add: same_tasks_def f t fun_eq_iff dist_def prio_ix_def)
  ultimately show ?thesis using k'(1,4) by blast
qed

lemma sched_safe:
  assumes s: "kernel_safe A idle n N k"
  shows "\<exists>k'. (if masked then OSSched_masked k else OSSched k) = Some k' \<and> kernel_safe A idle n N k' \<and> same_tasks k k'"
proof (cases masked)
  case True
  then show ?thesis using masked_safe [OF s] by auto
next
  case False
  obtain k' where k': "OSSched k = Some k'" "run A idle k'" "same_tasks k k'" using sched_run [OF safe_run [OF s]] by blast
  then have "kernel_safe A idle n N k'" using safe_keep [OF s] safe_msgs [OF s] by (simp add: same_tasks_def)
  then show ?thesis using False k'(1,3) by auto
qed

section \<open>Properties\<close>

text \<open>C11: On the running kernel, whether its caller has disabled interrupts or not, \<open>OSTaskCreate\<close> with
  legal arguments succeeds: it never writes outside the stack it is given, the stack pointer of the
  new task points to the frame its first context switch pops, the task is ready with its priority
  and an empty queue of the asked size, no other task and no other stack is disturbed, and the
  kernel stays consistent with one task more.\<close>

theorem task_created:
  assumes "kernel_safe A idle n N (krn b)" and "args_ok b a" and "OSIntNestingCtr (krn b) = 0" and "a_prio a \<noteq> 31"
  shows "\<exists>b'. OSTaskCreate masked ret (Some n) a b = Some (OS_ERR_NONE, b')
    \<and> kernel_safe (insert n A) idle (Suc n) N (krn b')
    \<and> framed ret a (stacks b' (a_base a)) (StkPtr (tcb_stk b' n)) \<and> (\<forall>y. y \<noteq> a_base a \<longrightarrow> stacks b' y = stacks b y)
    \<and> TaskState (tcb (krn b') n) = OS_TASK_STATE_RDY \<and> prio_ix (krn b') n = unat (a_prio a)
    \<and> NbrEntriesSize (MsgQ (msgs (krn b')) n) = unat (a_q a) \<and> NbrEntries (MsgQ (msgs (krn b')) n) = 0
    \<and> (\<forall>x. x \<noteq> n \<longrightarrow> svc_of (tcb (krn b') x) = svc_of (tcb (krn b) x))"
proof -
  obtain b1 where b1: "create_task ret n a b = Some b1" "created ret n a b b1" "kernel_safe (insert n A) idle (Suc n) N (krn b1)"
    using create_task_safe [OF assms(1,2)] by blast
  obtain k' where k': "(if masked then OSSched_masked (krn b1) else OSSched (krn b1)) = Some k'"
    "kernel_safe (insert n A) idle (Suc n) N k'" "same_tasks (krn b1) k'"
    using sched_safe [OF b1(3)] by blast
  let ?b' = "if OSRunning (krn b1) then set_krn k' b1 else b1"
  have r: "OSTaskCreate masked ret (Some n) a b = Some (OS_ERR_NONE, ?b')"
    using assms(2-4) b1(1) k'(1) by (auto simp: OSTaskCreate_def args_ok_def not_le not_less)
  have t: "svc_of (tcb (krn ?b') x) = svc_of (tcb (krn b1) x)" "prio_ix (krn ?b') x = prio_ix (krn b1) x"
    "msgs (krn ?b') = msgs (krn b1)" "stacks ?b' = stacks b1" "tcb_stk ?b' = tcb_stk b1" for x
    using k'(3) by (simp_all add: same_tasks_def set_krn_def)
  have "kernel_safe (insert n A) idle (Suc n) N (krn ?b')" using b1(3) k'(2) by (simp add: set_krn_def)
  then show ?thesis using r b1(2) t svc_of_eqD(1) [OF t(1)] by (intro exI [of _ ?b']) (simp add: created_def)
qed

theorem task_created_witness:
  "\<exists>b b' a. OSTaskCreate True 9 (Some 6) a b = Some (OS_ERR_NONE, b') \<and> a_size a = 128
    \<and> framed 9 a (stacks b' 0x20000000) (StkPtr (tcb_stk b' 6)) \<and> TaskState (tcb (krn b') 6) = OS_TASK_STATE_RDY"
proof -
  obtain k where k: "kernel_safe {0, 1} 0 6 100 k" "OSIntNestingCtr k = 0" by (rule example_kernel) blast
  let ?b = "\<lparr>dyn = \<lparr>kern = k, tmrs = blank_tmrs, calls = []\<rparr>,
    tcb_stk = (\<lambda>_. \<lparr>StkPtr = 0, StkLimitPtr = 0, StkBasePtr = 0, StkSize = 0, TaskEntryAddr = 0, TaskEntryArg = 0, TcbOpt = 0,
      TcbDbgPrevPtr = None, TcbDbgNextPtr = None\<rparr>), stacks = (\<lambda>_. replicate 128 7),
    OSTaskQty = 2, OSTaskDbgListPtr = None\<rparr>"
  let ?a = "\<lparr>a_task = 0x8000101, a_arg = 0, a_prio = 16, a_base = 0x20000000, a_limit = 12, a_size = 128, a_q = 10,
    a_quanta = 10, a_opt = 3\<rparr>"
  have "args_ok ?b ?a" by (simp add: args_ok_def)
  then show ?thesis using task_created [of "{0, 1}" 0 6 100 ?b ?a True 9] k by fastforce
qed

end
