(* ===== verification/Malloc.thy ===== *)
theory Malloc
  imports Prelude
begin

text \<open>
  The memory manager of MALLOC/malloc.c: three pools of 32-byte blocks, each with a table of
  16-bit entries that holds 0 for a free block and the length of the allocation for each of
  its blocks.  \<^const>\<open>None\<close> stands for an access outside an allocation table.  The interface
  the callers rely on is the locale \<open>region_store\<close> at the end of the theory.
\<close>

section \<open>State\<close>

datatype bank = SRAMIN | SRAMEX | SRAMCCM

text \<open>The structure \<open>mallco_dev\<close> and the byte-addressed memory the pools live in.\<close>

record mallco_dev =
  membase :: "bank \<Rightarrow> u32"
  memmap :: "bank \<Rightarrow> u16 list"
  memrdy :: "bank \<Rightarrow> bool"
  ram :: "u32 \<Rightarrow> u8"

primrec memsize :: "bank \<Rightarrow> u32" where
  "memsize SRAMIN = 90 * 1024" | "memsize SRAMEX = 200 * 1024" | "memsize SRAMCCM = 60 * 1024"

primrec memblksize :: "bank \<Rightarrow> u32" where
  "memblksize SRAMIN = 32" | "memblksize SRAMEX = 32" | "memblksize SRAMCCM = 32"

primrec memtblsize :: "bank \<Rightarrow> u32" where
  "memtblsize SRAMIN = 90 * 1024 div 32" | "memtblsize SRAMEX = 200 * 1024 div 32"
| "memtblsize SRAMCCM = 60 * 1024 div 32"

section \<open>Operations\<close>

primrec copy_loop :: "nat \<Rightarrow> u32 \<Rightarrow> u32 \<Rightarrow> (u32 \<Rightarrow> u8) \<Rightarrow> u32 \<Rightarrow> u8" where
  "copy_loop 0 xdes xsrc m = m"
| "copy_loop (Suc n) xdes xsrc m = copy_loop n (xdes + 1) (xsrc + 1) (m(xdes := m xsrc))"

definition mymemcpy :: "u32 \<Rightarrow> u32 \<Rightarrow> u32 \<Rightarrow> (u32 \<Rightarrow> u8) \<Rightarrow> u32 \<Rightarrow> u8" where
  "mymemcpy des src n m = copy_loop (unat n) des src m"

primrec set_loop :: "nat \<Rightarrow> u32 \<Rightarrow> u8 \<Rightarrow> (u32 \<Rightarrow> u8) \<Rightarrow> u32 \<Rightarrow> u8" where
  "set_loop 0 xs c m = m"
| "set_loop (Suc n) xs c m = set_loop n (xs + 1) c (m(xs := c))"

definition mymemset :: "u32 \<Rightarrow> u8 \<Rightarrow> u32 \<Rightarrow> (u32 \<Rightarrow> u8) \<Rightarrow> u32 \<Rightarrow> u8" where
  "mymemset s c count m = set_loop (unat count) s c m"

text \<open>The table has two bytes per entry; clearing all of them makes every entry 0.\<close>

definition mymem_init :: "bank \<Rightarrow> mallco_dev \<Rightarrow> mallco_dev" where
  "mymem_init memx d = d\<lparr>
     memmap := (memmap d)(memx := replicate (unat (memtblsize memx)) 0),
     ram := mymemset (membase d memx) 0 (memsize memx) (ram d),
     memrdy := (memrdy d)(memx := True)\<rparr>"

definition mem_perused :: "bank \<Rightarrow> mallco_dev \<Rightarrow> u8" where
  "mem_perused memx d =
     (let used = foldl (\<lambda>used i. if memmap d memx ! i \<noteq> 0 then used + 1 else used)
                   (0 :: u32) [0..<unat (memtblsize memx)]
      in ucast (used * 100 div memtblsize memx))"

text \<open>
  The search for \<open>nmemb\<close> consecutive free blocks runs from the top of the table down;
  \<open>cmemb\<close> counts the free blocks seen in a row.  The first argument is \<open>offset + 1\<close>.
\<close>

primrec search :: "nat \<Rightarrow> u16 \<Rightarrow> u16 \<Rightarrow> u16 list \<Rightarrow> nat option" where
  "search 0 nmemb cmemb tbl = None"
| "search (Suc offset) nmemb cmemb tbl =
     (let cmemb = (if tbl ! offset = 0 then cmemb + 1 else 0)
      in if cmemb = nmemb then Some offset else search offset nmemb cmemb tbl)"

definition blocks_needed :: "bank \<Rightarrow> u32 \<Rightarrow> u16" where
  "blocks_needed memx size' =
     (let nmemb = ucast (size' div memblksize memx)
      in if size' mod memblksize memx \<noteq> 0 then nmemb + 1 else nmemb)"

definition ready :: "bank \<Rightarrow> mallco_dev \<Rightarrow> mallco_dev" where
  "ready memx d = (if memrdy d memx then d else mymem_init memx d)"

definition mymem_malloc :: "bank \<Rightarrow> u32 \<Rightarrow> mallco_dev \<Rightarrow> (u32 \<times> mallco_dev) option" where
  "mymem_malloc memx size' d =
     (let d = ready memx d
      in if size' = 0 then Some (0xFFFFFFFF, d)
         else let nmemb = blocks_needed memx size'
              in case search (unat (memtblsize memx)) nmemb 0 (memmap d memx) of
                   None \<Rightarrow> Some (0xFFFFFFFF, d)
                 | Some offset \<Rightarrow>
                     (case poke (memmap d memx) offset (replicate (unat nmemb) nmemb) of
                        None \<Rightarrow> None
                      | Some t \<Rightarrow> Some (of_nat offset * memblksize memx,
                                       d\<lparr>memmap := (memmap d)(memx := t)\<rparr>)))"

definition mymem_free :: "bank \<Rightarrow> u32 \<Rightarrow> mallco_dev \<Rightarrow> (u8 \<times> mallco_dev) option" where
  "mymem_free memx offset d =
     (if \<not> memrdy d memx then Some (1, mymem_init memx d)
      else if offset < memsize memx then
        (let index = unat (offset div memblksize memx);
             nmemb = unat (memmap d memx ! index)
         in case poke (memmap d memx) index (replicate nmemb 0) of
              None \<Rightarrow> None
            | Some t \<Rightarrow> Some (0, d\<lparr>memmap := (memmap d)(memx := t)\<rparr>))
      else Some (2, d))"

definition myfree :: "bank \<Rightarrow> u32 \<Rightarrow> mallco_dev \<Rightarrow> mallco_dev option" where
  "myfree memx ptr d =
     (if ptr = 0 then Some d else map_option snd (mymem_free memx (ptr - membase d memx) d))"

definition mymalloc :: "bank \<Rightarrow> u32 \<Rightarrow> mallco_dev \<Rightarrow> (u32 \<times> mallco_dev) option" where
  "mymalloc memx size' d =
     (case mymem_malloc memx size' d of None \<Rightarrow> None
      | Some (offset, d) \<Rightarrow> if offset = 0xFFFFFFFF then Some (0, d)
                            else Some (membase d memx + offset, d))"

definition myrealloc :: "bank \<Rightarrow> u32 \<Rightarrow> u32 \<Rightarrow> mallco_dev \<Rightarrow> (u32 \<times> mallco_dev) option" where
  "myrealloc memx ptr size' d =
     (case mymem_malloc memx size' d of None \<Rightarrow> None
      | Some (offset, d) \<Rightarrow>
          if offset = 0xFFFFFFFF then Some (0, d)
          else let d = d\<lparr>ram := mymemcpy (membase d memx + offset) ptr size' (ram d)\<rparr>
               in map_option (\<lambda>e. (membase e memx + offset, e)) (myfree memx ptr d))"

section \<open>The search finds the highest fitting run\<close>

definition fits :: "u16 list \<Rightarrow> nat \<Rightarrow> nat \<Rightarrow> bool" where
  "fits tbl n k \<longleftrightarrow> k + n \<le> length tbl \<and> (\<forall>i \<in> {k..<k + n}. tbl ! i = 0)"

text \<open>A maximal run of \<open>c\<close> free blocks starts at \<open>k\<close>.\<close>

definition run_at :: "u16 list \<Rightarrow> nat \<Rightarrow> nat \<Rightarrow> bool" where
  "run_at tbl k c \<longleftrightarrow> k + c \<le> length tbl \<and> (\<forall>i \<in> {k..<k + c}. tbl ! i = 0)
     \<and> (k + c = length tbl \<or> tbl ! (k + c) \<noteq> 0)"

lemma run_at_next:
  assumes "run_at tbl (Suc k) c" and "k < length tbl"
  shows "run_at tbl k (if tbl ! k = 0 then Suc c else 0)"
proof -
  have "{k..<k + Suc c} = insert k {Suc k..<Suc k + c}" by auto
  then show ?thesis using assms by (auto simp: run_at_def)
qed

lemma run_at_short: "run_at tbl k c \<Longrightarrow> c < n \<Longrightarrow> \<not> fits tbl n k"
  by (auto simp: run_at_def fits_def)

lemma unat_succ: "c < n \<Longrightarrow> unat (c + 1) = Suc (unat c)" for c n :: u16
proof -
  assume "c < n"
  moreover have "unat n < 2 ^ 16" using unsigned_less [of n] by simp
  ultimately have "unat c + 1 < 2 ^ 16" by (simp add: word_less_nat_alt)
  then show ?thesis by (simp add: unat_word_ariths)
qed

lemma search_result:
  assumes "run_at tbl k (unat c)" and "c < n" and "\<forall>j \<ge> k. \<not> fits tbl (unat n) j" and "k \<le> length tbl"
  shows "case search k n c tbl of
      Some f \<Rightarrow> fits tbl (unat n) f \<and> (\<forall>j > f. \<not> fits tbl (unat n) j)
    | None \<Rightarrow> \<forall>j. \<not> fits tbl (unat n) j"
  using assms
proof (induction k arbitrary: c)
  case (Suc k)
  define c' where "c' = (if tbl ! k = 0 then c + 1 else 0)"
  have c': "unat c' = (if tbl ! k = 0 then Suc (unat c) else 0)"
    using Suc.prems(2) by (simp add: c'_def unat_succ)
  have run: "run_at tbl k (unat c')" using run_at_next [OF Suc.prems(1)] Suc.prems(4) c' by simp
  have above: "\<forall>j > k. \<not> fits tbl (unat n) j" using Suc.prems(3) by (simp add: Suc_le_eq)
  show ?case
  proof (cases "c' = n")
    case True
    then have "fits tbl (unat n) k" using run by (simp add: run_at_def fits_def)
    then show ?thesis using True above by (simp add: c'_def [symmetric])
  next
    case False
    have "unat c' \<noteq> unat n" using False by (metis unsigned_word_eqI)
    then have lt: "c' < n" using c' Suc.prems(2) by (auto simp: word_less_nat_alt split: if_splits)
    then have "\<not> fits tbl (unat n) k" using run_at_short [OF run] by (simp add: word_less_nat_alt)
    then have "\<forall>j \<ge> k. \<not> fits tbl (unat n) j" using above by (metis le_neq_implies_less)
    from Suc.IH [OF run lt this] Suc.prems(4) False show ?thesis
      by (simp add: c'_def [symmetric])
  qed
qed simp

section \<open>The table describes the live regions\<close>

text \<open>
  A region is a pair of a first block and a number of blocks.  \<open>describes tbl L\<close> says that
  \<open>tbl\<close> is the allocation table for exactly the regions of \<open>L\<close>, which do not overlap.
\<close>

definition blocks :: "nat \<times> nat \<Rightarrow> nat set" where
  "blocks r = {fst r..<fst r + snd r}"

definition disjoint_regions :: "(nat \<times> nat) set \<Rightarrow> bool" where
  "disjoint_regions L \<longleftrightarrow> (\<forall>r \<in> L. \<forall>q \<in> L. r \<noteq> q \<longrightarrow> blocks r \<inter> blocks q = {})"

definition region_ok :: "u16 list \<Rightarrow> nat \<times> nat \<Rightarrow> bool" where
  "region_ok tbl r \<longleftrightarrow> 0 < snd r \<and> snd r < 2 ^ 16 \<and> fst r + snd r \<le> length tbl
     \<and> (\<forall>i \<in> blocks r. tbl ! i = of_nat (snd r))"

definition describes :: "u16 list \<Rightarrow> (nat \<times> nat) set \<Rightarrow> bool" where
  "describes tbl L \<longleftrightarrow> (\<forall>r \<in> L. region_ok tbl r) \<and> disjoint_regions L
     \<and> (\<forall>i < length tbl. tbl ! i \<noteq> 0 \<longrightarrow> (\<exists>r \<in> L. i \<in> blocks r))"

lemma of_nat_block [simp]: "0 < n \<Longrightarrow> n < 2 ^ 16 \<Longrightarrow> (of_nat n :: u16) \<noteq> 0"
  by (metis less_numeral_extra(3) unat_0 unat_of_nat16)

lemma describes_used:
  assumes "describes tbl L" and "r \<in> L" and "i \<in> blocks r"
  shows "tbl ! i \<noteq> 0" and "i < length tbl"
  using assms by (auto simp: describes_def region_ok_def blocks_def)

lemma describes_fits_apart:
  assumes "describes tbl L" and "fits tbl n k" and "r \<in> L"
  shows "blocks r \<inter> blocks (k, n) = {}"
proof -
  have "i \<notin> blocks (k, n)" if "i \<in> blocks r" for i
    using describes_used(1) [OF assms(1,3) that] assms(2) by (auto simp: fits_def blocks_def)
  then show ?thesis by blast
qed

lemma describes_alloc:
  assumes d: "describes tbl L" and f: "fits tbl n k" and n: "0 < n" "n < 2 ^ 16"
    and t: "poke tbl k (replicate n (of_nat n)) = Some t"
  shows "describes t (insert (k, n) L)" and "(k, n) \<notin> L"
proof -
  have apart: "blocks r \<inter> blocks (k, n) = {}" if "r \<in> L" for r
    using describes_fits_apart [OF d f that] .
  have len: "length t = length tbl" using poke_length [OF t] .
  have nth: "t ! i = (if i \<in> blocks (k, n) then of_nat n else tbl ! i)" if "i < length tbl" for i
    using poke_nth [OF t that] that by (auto simp: blocks_def)
  have old: "region_ok t r" if r: "r \<in> L" for r
  proof -
    have "region_ok tbl r" using d r by (simp add: describes_def)
    moreover have "t ! i = tbl ! i" if "i \<in> blocks r" for i
      using apart [OF r] that nth [of i] describes_used(2) [OF d r that] by auto
    ultimately show ?thesis by (auto simp: region_ok_def len)
  qed
  have new: "region_ok t (k, n)"
    using n f nth by (auto simp: region_ok_def len fits_def blocks_def)
  have dis: "disjoint_regions (insert (k, n) L)"
    using d apart by (auto simp: describes_def disjoint_regions_def)
  have cover: "\<exists>r \<in> insert (k, n) L. i \<in> blocks r" if "i < length t" "t ! i \<noteq> 0" for i
    using d that nth [of i] by (cases "i \<in> blocks (k, n)") (auto simp: describes_def len)
  show "describes t (insert (k, n) L)"
    using old new dis cover unfolding describes_def by blast
  show "(k, n) \<notin> L" using apart [of "(k, n)"] n by (auto simp: blocks_def)
qed

lemma describes_free:
  assumes d: "describes tbl L" and r: "(k, n) \<in> L"
    and t: "poke tbl k (replicate n 0) = Some t"
  shows "describes t (L - {(k, n)})"
proof -
  have len: "length t = length tbl" using poke_length [OF t] .
  have nth: "t ! i = (if i \<in> blocks (k, n) then 0 else tbl ! i)" if "i < length tbl" for i
    using poke_nth [OF t that] that by (auto simp: blocks_def)
  have apart: "blocks q \<inter> blocks (k, n) = {}" if "q \<in> L - {(k, n)}" for q
    using d r that by (auto simp: describes_def disjoint_regions_def)
  have old: "region_ok t q" if q: "q \<in> L - {(k, n)}" for q
  proof -
    have "region_ok tbl q" using d q by (simp add: describes_def)
    moreover have "t ! i = tbl ! i" if "i \<in> blocks q" for i
      using apart [OF q] that nth [of i] describes_used(2) [OF d _ that] q by auto
    ultimately show ?thesis by (auto simp: region_ok_def len)
  qed
  have dis: "disjoint_regions (L - {(k, n)})"
    using d by (auto simp: describes_def disjoint_regions_def)
  have cover: "\<exists>q \<in> L - {(k, n)}. i \<in> blocks q" if "i < length t" "t ! i \<noteq> 0" for i
  proof -
    have "i \<notin> blocks (k, n)" "tbl ! i \<noteq> 0" using that nth [of i] by (auto simp: len split: if_splits)
    then show ?thesis using d that(1) len unfolding describes_def by (metis DiffI singletonD)
  qed
  show ?thesis using old dis cover unfolding describes_def by blast
qed

section \<open>The operations on a pool\<close>

definition pool_inv :: "bank \<Rightarrow> mallco_dev \<Rightarrow> (nat \<times> nat) set \<Rightarrow> bool" where
  "pool_inv b d L \<longleftrightarrow> memrdy d b \<and> length (memmap d b) = unat (memtblsize b) \<and> describes (memmap d b) L"

lemma memblksize_32 [simp]: "memblksize b = 32"
  by (cases b) simp_all

lemma bank_sizes: "unat (memsize b) = 32 * unat (memtblsize b)" "unat (memtblsize b) \<le> 6400"
  by (cases b; simp)+

lemma ready_inv [simp]: "pool_inv b d L \<Longrightarrow> ready b d = d"
  by (simp add: ready_def pool_inv_def)

lemma init_inv: "pool_inv b (mymem_init b d) {}"
  by (simp add: pool_inv_def mymem_init_def describes_def disjoint_regions_def)

lemma ceil_blocks: "(n + 31) div 32 = n div 32 + (if n mod 32 = 0 then 0 else 1)" for n :: nat
proof -
  have "(n mod 32 + 31) div 32 = (if n mod 32 = 0 then 0 else 1)"
    using mod_less_divisor [of 32 n] by (auto intro: div_nat_eqI)
  then show ?thesis using div_add1_eq [of n 31 32] by simp
qed

lemma blocks_needed_nat: "unat (blocks_needed b z) = (unat z + 31) div 32 mod 2 ^ 16"
proof -
  have q: "unat (z div 32) = unat z div 32" by (simp add: unat_div)
  have m: "unat (z mod 32) = unat z mod 32" by (simp add: unat_mod)
  have u: "unat (ucast (z div 32) :: u16) = unat z div 32 mod 2 ^ 16"
    by (simp add: unsigned_ucast_eq take_bit_eq_mod q)
  show ?thesis
  proof (cases "z mod 32 = 0")
    case True
    then have "unat z mod 32 = 0" using m by simp
    then have "(unat z + 31) div 32 = unat z div 32" by (simp add: ceil_blocks)
    then show ?thesis using u True by (simp add: blocks_needed_def)
  next
    case False
    then have "unat z mod 32 \<noteq> 0" using m by (metis unat_eq_zero)
    then have "(unat z + 31) div 32 = unat z div 32 + 1" by (simp add: ceil_blocks)
    then show ?thesis using u False
      by (simp add: blocks_needed_def unat_word_ariths mod_Suc_eq)
  qed
qed

text \<open>The search of a whole table.\<close>

lemma search_table:
  assumes "n \<noteq> 0"
  shows "case search (length tbl) n 0 tbl of
      Some f \<Rightarrow> fits tbl (unat n) f \<and> (\<forall>j > f. \<not> fits tbl (unat n) j)
    | None \<Rightarrow> \<forall>j. \<not> fits tbl (unat n) j"
proof (rule search_result)
  show "run_at tbl (length tbl) (unat (0 :: u16))" by (simp add: run_at_def)
  have "0 < unat n" using assms by (simp add: unat_gt_0)
  then show "\<forall>j \<ge> length tbl. \<not> fits tbl (unat n) j" by (simp add: fits_def)
  show "0 < n" using assms by (simp add: word_gt_0)
qed simp

definition region_blocks :: "u32 \<Rightarrow> nat" where
  "region_blocks z = (unat z + 31) div 32"

definition small_request :: "u32 \<Rightarrow> bool" where
  "small_request z \<longleftrightarrow> 0 < z \<and> unat z \<le> 65535 * 32"

lemma small_request_blocks:
  assumes "small_request z"
  shows "unat (blocks_needed b z) = region_blocks z" and "0 < region_blocks z"
    and "region_blocks z < 2 ^ 16" and "blocks_needed b z \<noteq> 0" and "z \<noteq> 0"
proof -
  have z: "0 < unat z" "unat z \<le> 65535 * 32"
    using assms by (simp_all add: small_request_def word_less_nat_alt)
  then show r: "0 < region_blocks z" "region_blocks z < 2 ^ 16" by (simp_all add: region_blocks_def)
  then show n: "unat (blocks_needed b z) = region_blocks z"
    using blocks_needed_nat [of b z] by (simp add: region_blocks_def)
  show "blocks_needed b z \<noteq> 0" using n r(1) by auto
  show "z \<noteq> 0" using z(1) by auto
qed

lemma malloc_result:
  assumes inv: "pool_inv b d L" and z: "small_request z"
  obtains (full) "mymem_malloc b z d = Some (0xFFFFFFFF, d)" and "\<forall>j. \<not> fits (memmap d b) (region_blocks z) j"
  | (found) k t where "fits (memmap d b) (region_blocks z) k"
      and "\<forall>j > k. \<not> fits (memmap d b) (region_blocks z) j"
      and "poke (memmap d b) k (replicate (region_blocks z) (of_nat (region_blocks z))) = Some t"
      and "mymem_malloc b z d = Some (of_nat k * 32, d\<lparr>memmap := (memmap d)(b := t)\<rparr>)"
proof -
  let ?n = "blocks_needed b z" and ?tbl = "memmap d b"
  have n: "unat ?n = region_blocks z" "?n \<noteq> 0" "z \<noteq> 0" using small_request_blocks [OF z] by simp_all
  have len: "unat (memtblsize b) = length ?tbl" using inv by (simp add: pool_inv_def)
  note search = search_table [OF n(2), of ?tbl, unfolded n(1)]
  show thesis
  proof (cases "search (length ?tbl) ?n 0 ?tbl")
    case None
    then show thesis using full search inv n(3) by (simp add: mymem_malloc_def len)
  next
    case (Some k)
    then have k: "fits ?tbl (region_blocks z) k" "\<forall>j > k. \<not> fits ?tbl (region_blocks z) j"
      using search by simp_all
    have "of_nat (region_blocks z) = ?n" using n(1) by (metis of_nat_unat ucast_id)
    moreover obtain t where t: "poke ?tbl k (replicate (region_blocks z) ?n) = Some t"
      using k(1) by (auto simp: fits_def poke_def)
    moreover have "mymem_malloc b z d = Some (of_nat k * 32, d\<lparr>memmap := (memmap d)(b := t)\<rparr>)"
      using inv n Some t by (simp add: mymem_malloc_def len)
    ultimately show thesis using found k by simp
  qed
qed

lemma unat_of_nat32: "n < 4294967296 \<Longrightarrow> unat (of_nat n :: u32) = n"
  by (simp add: unat_of_nat)

lemma offset_block:
  assumes "k < unat (memtblsize b)"
  shows "unat (of_nat k * 32 :: u32) = k * 32" and "(of_nat k * 32 :: u32) < memsize b"
    and "of_nat k * 32 \<noteq> (0xFFFFFFFF :: u32)" and "unat ((of_nat k * 32 :: u32) div 32) = k"
proof -
  have k: "k < 6400" using assms bank_sizes(2) [of b] by simp
  have "k * 32 < 4294967296" using k by linarith
  then have "unat (of_nat (k * 32) :: u32) = k * 32" by (rule unat_of_nat32)
  then show u: "unat (of_nat k * 32 :: u32) = k * 32" by (simp only: of_nat_mult of_nat_numeral)
  show "(of_nat k * 32 :: u32) < memsize b"
    using assms bank_sizes(1) [of b] by (simp only: word_less_nat_alt u)
  show "of_nat k * 32 \<noteq> (0xFFFFFFFF :: u32)"
  proof
    assume "of_nat k * 32 = (0xFFFFFFFF :: u32)"
    then have "k * 32 = unat (0xFFFFFFFF :: u32)" using u by (simp only:)
    then have "k * 32 = 4294967295" by simp
    then show False using k by linarith
  qed
  show "unat ((of_nat k * 32 :: u32) div 32) = k"
    by (simp only: unat_div u) simp
qed

lemma malloc_found_inv:
  assumes inv: "pool_inv b d L" and z: "small_request z" and f: "fits (memmap d b) (region_blocks z) k"
    and t: "poke (memmap d b) k (replicate (region_blocks z) (of_nat (region_blocks z))) = Some t"
  shows "pool_inv b (d\<lparr>memmap := (memmap d)(b := t)\<rparr>) (insert (k, region_blocks z) L)"
    and "k < unat (memtblsize b)"
proof -
  note n = small_request_blocks [OF z]
  have d: "describes (memmap d b) L" and len: "length (memmap d b) = unat (memtblsize b)"
    using inv by (simp_all add: pool_inv_def)
  show "pool_inv b (d\<lparr>memmap := (memmap d)(b := t)\<rparr>) (insert (k, region_blocks z) L)"
    using describes_alloc(1) [OF d f n(2,3) t] inv poke_length [OF t] by (simp add: pool_inv_def)
  show "k < unat (memtblsize b)" using f n(2) len by (simp add: fits_def)
qed

lemma free_result:
  assumes inv: "pool_inv b d L" and r: "(k, n) \<in> L"
  obtains t where "mymem_free b (of_nat k * 32) d = Some (0, d\<lparr>memmap := (memmap d)(b := t)\<rparr>)"
    and "poke (memmap d b) k (replicate n 0) = Some t"
    and "pool_inv b (d\<lparr>memmap := (memmap d)(b := t)\<rparr>) (L - {(k, n)})"
proof -
  have d: "describes (memmap d b) L" and len: "length (memmap d b) = unat (memtblsize b)"
    using inv by (simp_all add: pool_inv_def)
  then have ok: "region_ok (memmap d b) (k, n)" using r by (simp add: describes_def)
  then have n: "n < 2 ^ 16" and k: "k < unat (memtblsize b)" and "k \<in> blocks (k, n)"
    by (auto simp: region_ok_def blocks_def len)
  then have "memmap d b ! k = of_nat n" using ok by (simp add: region_ok_def)
  then have entry: "unat (memmap d b ! k) = n" using unat_of_nat16 [OF n] by simp
  obtain t where t: "poke (memmap d b) k (replicate n 0) = Some t"
    using ok by (auto simp: region_ok_def poke_def)
  have "mymem_free b (of_nat k * 32) d = Some (0, d\<lparr>memmap := (memmap d)(b := t)\<rparr>)"
    using inv offset_block [OF k] entry t by (simp add: mymem_free_def pool_inv_def)
  moreover have "pool_inv b (d\<lparr>memmap := (memmap d)(b := t)\<rparr>) (L - {(k, n)})"
    using describes_free [OF d r t] inv poke_length [OF t] by (simp add: pool_inv_def)
  ultimately show thesis using that t by blast
qed

section \<open>Interface: a store of disjoint regions\<close>

text \<open>
  What the users of the memory manager rely on.  A request of type \<open>'r\<close> needs \<open>need r\<close>
  blocks; \<open>alloc\<close> returns the first block of the new region, or \<^const>\<open>None\<close> as its result when
  the store is full.
\<close>

datatype 'r request = Get 'r | Put_back nat

text \<open>
  A run of a client that gives back only regions it holds: the second argument is the list of
  regions it holds, and \<open>Put_back i\<close> gives back the one at index \<open>i\<close> of it, if there is one.
\<close>

fun run_client :: "('r \<Rightarrow> nat) \<Rightarrow> ('r \<Rightarrow> 's \<Rightarrow> (nat option \<times> 's) option) \<Rightarrow> (nat \<Rightarrow> 's \<Rightarrow> 's option)
    \<Rightarrow> 'r request list \<Rightarrow> (nat \<times> nat) list \<Rightarrow> 's \<Rightarrow> ((nat \<times> nat) list \<times> 's) option" where
  "run_client need alloc release [] held s = Some (held, s)"
| "run_client need alloc release (Get r # cs) held s =
     (case alloc r s of None \<Rightarrow> None
      | Some (None, s') \<Rightarrow> run_client need alloc release cs held s'
      | Some (Some k, s') \<Rightarrow> run_client need alloc release cs ((k, need r) # held) s')"
| "run_client need alloc release (Put_back i # cs) held s =
     (if i < length held then
        (case release (fst (held ! i)) s of None \<Rightarrow> None
         | Some s' \<Rightarrow> run_client need alloc release cs (take i held @ drop (Suc i) held) s')
      else run_client need alloc release cs held s)"

locale region_store =
  fixes inv :: "'s \<Rightarrow> (nat \<times> nat) set \<Rightarrow> bool" and cap :: nat
    and need :: "'r \<Rightarrow> nat" and legal :: "'r \<Rightarrow> bool"
    and alloc :: "'r \<Rightarrow> 's \<Rightarrow> (nat option \<times> 's) option" and release :: "nat \<Rightarrow> 's \<Rightarrow> 's option"
  assumes inv_disjoint: "inv s L \<Longrightarrow> disjoint_regions L"
    and inv_bounds: "inv s L \<Longrightarrow> q \<in> L \<Longrightarrow> blocks q \<subseteq> {..<cap}"
    and alloc_law: "inv s L \<Longrightarrow> legal r \<Longrightarrow>
      (\<exists>s'. alloc r s = Some (None, s') \<and> inv s' L)
      \<or> (\<exists>k s'. alloc r s = Some (Some k, s') \<and> inv s' (insert (k, need r) L) \<and> (k, need r) \<notin> L)"
    and release_law: "inv s L \<Longrightarrow> (k, n) \<in> L \<Longrightarrow> \<exists>s'. release k s = Some s' \<and> inv s' (L - {(k, n)})"
begin

lemma run_client_inv:
  "inv s (set held) \<Longrightarrow> distinct held \<Longrightarrow> (\<And>r. Get r \<in> set cs \<Longrightarrow> legal r) \<Longrightarrow>
    \<exists>held' s'. run_client need alloc release cs held s = Some (held', s')
      \<and> inv s' (set held') \<and> distinct held'"
proof (induction cs arbitrary: held s)
  case (Cons c cs)
  have legal: "\<And>r. Get r \<in> set cs \<Longrightarrow> legal r" using Cons.prems(3) by simp
  show ?case
  proof (cases c)
    case (Get r)
    then have "legal r" using Cons.prems(3) by simp
    from alloc_law [OF Cons.prems(1) this] show ?thesis
    proof
      assume "\<exists>s'. alloc r s = Some (None, s') \<and> inv s' (set held)"
      then obtain s' where "alloc r s = Some (None, s')" "inv s' (set held)" by blast
      with Cons.IH [OF _ Cons.prems(2) legal] Get show ?thesis by simp
    next
      assume "\<exists>k s'. alloc r s = Some (Some k, s') \<and> inv s' (insert (k, need r) (set held))
        \<and> (k, need r) \<notin> set held"
      then obtain k s' where "alloc r s = Some (Some k, s')" "inv s' (set ((k, need r) # held))"
        "distinct ((k, need r) # held)" using Cons.prems(2) by auto
      with Cons.IH [OF _ _ legal] Get show ?thesis by simp
    qed
  next
    case (Put_back i)
    show ?thesis
    proof (cases "i < length held")
      case True
      let ?rest = "take i held @ drop (Suc i) held"
      have split: "held = take i held @ held ! i # drop (Suc i) held" using True by (rule id_take_nth_drop)
      then have "distinct (take i held @ held ! i # drop (Suc i) held)" using Cons.prems(2) by simp
      then have rest: "distinct ?rest" "held ! i \<notin> set ?rest" by auto
      have "set held = insert (held ! i) (set ?rest)" by (subst split) auto
      then have "set held - {held ! i} = set ?rest" using rest(2) by auto
      moreover obtain s' where "release (fst (held ! i)) s = Some s'" "inv s' (set held - {held ! i})"
        using release_law [OF Cons.prems(1), of "fst (held ! i)" "snd (held ! i)"] True by auto
      ultimately show ?thesis using Cons.IH [OF _ rest(1) legal] Put_back True by simp
    next
      case False
      then show ?thesis using Cons.IH [OF Cons.prems(1,2) legal] Put_back by simp
    qed
  qed
qed simp

lemma run_client_room:
  assumes "inv s (set held)" and "distinct held"
  shows "sum_list (map snd held) \<le> cap"
proof -
  have "sum_list (map snd held) = (\<Sum>r \<in> set held. card (blocks r))"
    using assms(2) by (simp add: sum_list_distinct_conv_sum_set blocks_def)
  also have "\<dots> = card (\<Union>r \<in> set held. blocks r)"
    using inv_disjoint [OF assms(1)]
    by (subst card_UN_disjoint) (auto simp: disjoint_regions_def blocks_def)
  also have "\<dots> \<le> card {..<cap}"
    using inv_bounds [OF assms(1)] by (intro card_mono) auto
  finally show ?thesis by simp
qed

end

text \<open>The pools provide the interface; a region is known by its first block.\<close>

definition pool_alloc :: "bank \<Rightarrow> u32 \<Rightarrow> mallco_dev \<Rightarrow> (nat option \<times> mallco_dev) option" where
  "pool_alloc b z d = (case mymem_malloc b z d of None \<Rightarrow> None
     | Some (offset, d') \<Rightarrow> Some (if offset = 0xFFFFFFFF then None else Some (unat (offset div 32)), d'))"

definition pool_free :: "bank \<Rightarrow> nat \<Rightarrow> mallco_dev \<Rightarrow> mallco_dev option" where
  "pool_free b k d = map_option snd (mymem_free b (of_nat k * 32) d)"

text \<open>A request of at most 65535 blocks: the empty one, which is refused, or a small one.\<close>

abbreviation (input) modest :: "u32 \<Rightarrow> bool" where
  "modest z \<equiv> unat z \<le> 65535 * 32"

lemma modest_cases: "modest z \<Longrightarrow> z = 0 \<or> small_request z"
  by (auto simp: small_request_def word_gt_0)

lemma malloc_empty: "pool_inv b d L \<Longrightarrow> mymem_malloc b 0 d = Some (0xFFFFFFFF, d)"
  by (simp add: mymem_malloc_def ready_def pool_inv_def)

lemma pool_alloc_law:
  assumes inv: "pool_inv b d L" and modest: "modest z"
  shows "(\<exists>d'. pool_alloc b z d = Some (None, d') \<and> pool_inv b d' L)
    \<or> (\<exists>k d'. pool_alloc b z d = Some (Some k, d') \<and> pool_inv b d' (insert (k, region_blocks z) L)
         \<and> (k, region_blocks z) \<notin> L)"
  using modest_cases [OF modest]
proof
  assume "z = 0"
  then show ?thesis using inv malloc_empty [OF inv] by (simp add: pool_alloc_def)
next
  assume z: "small_request z"
  show ?thesis using inv z
  proof (cases rule: malloc_result)
    case full
    then show ?thesis using inv by (simp add: pool_alloc_def)
  next
    case (found k t)
    note new = malloc_found_inv [OF inv z found(1,3)]
    have "describes (memmap d b) L" using inv by (simp add: pool_inv_def)
    then have "(k, region_blocks z) \<notin> L"
      using describes_alloc(2) found(1,3) small_request_blocks(2,3) [OF z] by blast
    moreover have "pool_alloc b z d = Some (Some k, d\<lparr>memmap := (memmap d)(b := t)\<rparr>)"
      using found(4) offset_block [OF new(2)] by (simp add: pool_alloc_def)
    ultimately show ?thesis using new(1) by blast
  qed
qed

interpretation pool: region_store "pool_inv b" "unat (memtblsize b)" region_blocks "\<lambda>z. modest z"
  "pool_alloc b" "pool_free b" for b
proof
  show "disjoint_regions L" if "pool_inv b d L" for d L
    using that by (simp add: pool_inv_def describes_def)
  show "blocks q \<subseteq> {..<unat (memtblsize b)}" if "pool_inv b d L" "q \<in> L" for d L q
    using that by (auto simp: pool_inv_def dest: describes_used(2))
  show "\<exists>d'. pool_free b k d = Some d' \<and> pool_inv b d' (L - {(k, n)})"
    if "pool_inv b d L" "(k, n) \<in> L" for d L k n
    using free_result [OF that] by (metis option.simps(9) pool_free_def snd_conv)
qed (rule pool_alloc_law)

lemma poke_back:
  assumes "poke tbl k (replicate n x) = Some t" and "fits tbl n k"
  shows "poke t k (replicate n 0) = Some tbl"
proof -
  have len: "length t = length tbl" using poke_length [OF assms(1)] .
  obtain u where u: "poke t k (replicate n 0) = Some u"
    using assms(2) by (auto simp: poke_def fits_def len)
  have "u = tbl"
  proof (rule nth_equalityI)
    show "length u = length tbl" using poke_length [OF u] len by simp
    fix i assume "i < length u"
    then have i: "i < length tbl" "i < length t" using poke_length [OF u] len by simp_all
    show "u ! i = tbl ! i"
      using poke_nth [OF u i(2)] poke_nth [OF assms(1) i(1)] assms(2) by (auto simp: fits_def)
  qed
  then show ?thesis using u by simp
qed

lemma search_zero:
  "unat c + k < 2 ^ 16 \<Longrightarrow> f < k \<Longrightarrow> tbl ! f \<noteq> 0 \<Longrightarrow> \<forall>j. f < j \<and> j < k \<longrightarrow> tbl ! j = 0 \<Longrightarrow>
    search k 0 c tbl = Some f"
proof (induction k arbitrary: c)
  case (Suc k)
  show ?case
  proof (cases "f = k")
    case True
    then show ?thesis using Suc.prems(3) by simp
  next
    case False
    then have f: "f < k" "tbl ! k = 0" using Suc.prems by simp_all
    have u: "unat (c + 1) = Suc (unat c)" using Suc.prems(1) by (simp add: unat_word_ariths)
    then have "c + 1 \<noteq> 0" by (metis nat.distinct(1) unat_0)
    then show ?thesis using Suc.IH [of "c + 1"] Suc.prems f u by simp
  qed
qed simp

lemma search_zero_free:
  "unat c + k < 2 ^ 16 \<Longrightarrow> \<forall>j < k. tbl ! j = 0 \<Longrightarrow> search k 0 c tbl = None"
proof (induction k arbitrary: c)
  case (Suc k)
  have u: "unat (c + 1) = Suc (unat c)" using Suc.prems(1) by (simp add: unat_word_ariths)
  then have "c + 1 \<noteq> 0" by (metis nat.distinct(1) unat_0)
  then show ?case using Suc.IH [of "c + 1"] Suc.prems u by simp
qed simp

lemma used_count:
  "n \<le> 6400 \<Longrightarrow> unat (foldl (\<lambda>used i. if P i then used + 1 else used) (0 :: u32) [0..<n])
     = card {i. i < n \<and> P i}"
proof (induction n)
  case (Suc n)
  let ?c = "foldl (\<lambda>used i. if P i then used + 1 else used) (0 :: u32) [0..<n]"
  have c: "unat ?c = card {i. i < n \<and> P i}" using Suc by simp
  have "card {i. i < n \<and> P i} \<le> card {..<n}" by (intro card_mono) auto
  then have b: "unat ?c \<le> n" using c by simp
  have "{i. i < Suc n \<and> P i} = (if P n then insert n {i. i < n \<and> P i} else {i. i < n \<and> P i})"
    by (auto simp: less_Suc_eq)
  moreover have "unat (?c + 1) = Suc (unat ?c)"
    using b Suc.prems by (simp add: unat_word_ariths)
  ultimately show ?case using c by simp
qed simp

lemma used_blocks:
  assumes "describes tbl L"
  shows "{i. i < length tbl \<and> tbl ! i \<noteq> 0} = (\<Union>r \<in> L. blocks r)"
  using assms describes_used [OF assms] by (auto simp: describes_def)

text \<open>Memory whose pools have not been set up.\<close>

definition blank_dev :: mallco_dev where
  "blank_dev = \<lparr>membase = (\<lambda>b. case b of SRAMIN \<Rightarrow> 0x20000000 | SRAMEX \<Rightarrow> 0x68000000 | SRAMCCM \<Rightarrow> 0x10000000),
     memmap = (\<lambda>_. []), memrdy = (\<lambda>_. False), ram = (\<lambda>_. 0)\<rparr>"

lemma init_malloc:
  assumes z: "small_request z" and "region_blocks z \<le> unat (memtblsize b)"
  obtains off d' where "mymem_malloc b z (mymem_init b d) = Some (off, d')" and "off \<noteq> 0xFFFFFFFF"
    and "pool_inv b d' {(unat (off div 32), region_blocks z)}"
  using init_inv z
proof (cases rule: malloc_result [of b "mymem_init b d" "{}" z])
  case full
  have "fits (memmap (mymem_init b d) b) (region_blocks z) 0"
    using assms(2) by (simp add: fits_def mymem_init_def)
  then show ?thesis using full(2) by blast
next
  case (found k t)
  note new = malloc_found_inv [OF init_inv z found(1,3)]
  show ?thesis by (rule that [OF found(4)]) (use offset_block [OF new(2)] new(1) in simp_all)
qed

lemma perused_result:
  assumes "pool_inv b d L"
  shows "unat (mem_perused b d) = 100 * card (\<Union>r \<in> L. blocks r) div unat (memtblsize b)"
    and "card (\<Union>r \<in> L. blocks r) \<le> unat (memtblsize b)"
proof -
  let ?N = "unat (memtblsize b)" and ?u = "card (\<Union>r \<in> L. blocks r)"
  define c where "c = foldl (\<lambda>used i. if memmap d b ! i \<noteq> 0 then used + 1 else used) (0 :: u32) [0..<?N]"
  have d: "describes (memmap d b) L" and len: "length (memmap d b) = ?N"
    using assms by (simp_all add: pool_inv_def)
  have c: "unat c = ?u"
    unfolding c_def by (subst used_count [OF bank_sizes(2)]) (simp add: used_blocks [OF d, symmetric] len)
  have "card {i. i < ?N \<and> memmap d b ! i \<noteq> 0} \<le> card {..<?N}" by (intro card_mono) auto
  then show u: "?u \<le> ?N" using used_blocks [OF d] len by simp
  then have "?u \<le> 6400" using bank_sizes(2) [of b] by simp
  then have "unat (c * 100) = 100 * ?u" by (simp add: unat_word_ariths c)
  then have q: "unat (c * 100 div memtblsize b) = 100 * ?u div ?N" by (simp add: unat_div)
  have "100 * ?u div ?N \<le> 100" using u by (metis div_le_mono div_mult_self1_is_m div_by_0 le0
    mult_le_mono2 neq0_conv mult.commute)
  then show "unat (mem_perused b d) = 100 * ?u div ?N"
    unfolding mem_perused_def Let_def c_def [symmetric]
    by (simp add: unsigned_ucast_eq take_bit_eq_mod q)
qed

section \<open>Properties\<close>

text \<open>C32: A request of at most 65535 blocks on a pool in use gets the highest free run of blocks that is
  long enough, which overlaps no live region and lies inside the pool, or fails, leaving the pool
  alone, exactly when there is no such run; the memory itself and the other pools are not touched.\<close>

theorem mymem_malloc_fresh:
  assumes "pool_inv b d L" and "small_request z"
  shows "case mymem_malloc b z d of None \<Rightarrow> False
    | Some (off, d') \<Rightarrow>
        if off = 0xFFFFFFFF then d' = d \<and> (\<forall>k. \<not> fits (memmap d b) (region_blocks z) k)
        else \<exists>k. off = of_nat k * 32 \<and> fits (memmap d b) (region_blocks z) k
          \<and> (\<forall>j > k. \<not> fits (memmap d b) (region_blocks z) j)
          \<and> (\<forall>r \<in> L. blocks r \<inter> blocks (k, region_blocks z) = {})
          \<and> pool_inv b d' (insert (k, region_blocks z) L) \<and> unat off + unat z \<le> unat (memsize b)
          \<and> ram d' = ram d \<and> (\<forall>b'. b' \<noteq> b \<longrightarrow> memmap d' b' = memmap d b')"
  using assms
proof (cases rule: malloc_result)
  case full
  then show ?thesis by simp
next
  case (found k t)
  note new = malloc_found_inv [OF assms found(1,3)]
  have d: "describes (memmap d b) L" and len: "length (memmap d b) = unat (memtblsize b)"
    using assms(1) by (simp_all add: pool_inv_def)
  have "unat z \<le> region_blocks z * 32" by (simp add: region_blocks_def)
  moreover have "k + region_blocks z \<le> unat (memtblsize b)" using found(1) len by (simp add: fits_def)
  ultimately have "unat (of_nat k * 32 :: u32) + unat z \<le> unat (memsize b)"
    unfolding offset_block(1) [OF new(2)] bank_sizes(1) by linarith
  then show ?thesis
    using found offset_block(3) [OF new(2)] new(1) describes_fits_apart [OF d found(1)]
    by (auto intro!: exI [of _ k])
qed

theorem mymem_malloc_fresh_witness:
  "case mymem_malloc SRAMIN 100 (mymem_init SRAMIN blank_dev) of None \<Rightarrow> False
   | Some (off, d') \<Rightarrow> (if off = 0xFFFFFFFF then d' = mymem_init SRAMIN blank_dev else unat off + 100 \<le> 92160)"
  using mymem_malloc_fresh [OF init_inv [of SRAMIN blank_dev], of 100]
  by (auto simp: small_request_def split: option.splits prod.splits if_splits)

text \<open>C33: Giving back an allocation that was asked for with at most 65535 blocks (2097120 bytes, ten times
  the largest pool) restores the memory manager exactly to the state before it.\<close>

theorem mymem_free_malloc:
  assumes "pool_inv b d L" and "unat z \<le> 65535 * 32"
    and "mymem_malloc b z d = Some (off, d')" and "off \<noteq> 0xFFFFFFFF"
  shows "mymem_free b off d' = Some (0, d)"
proof -
  have z: "small_request z"
    using modest_cases [OF assms(2)] malloc_empty [OF assms(1)] assms(3,4) by auto
  from assms(1) z show ?thesis
  proof (cases rule: malloc_result)
    case full
    then show ?thesis using assms(3,4) by simp
  next
    case (found k t)
    note new = malloc_found_inv [OF assms(1) z found(1,3)]
    have d': "off = of_nat k * 32" "d' = d\<lparr>memmap := (memmap d)(b := t)\<rparr>"
      using found(4) assms(3) by simp_all
    obtain t' where "mymem_free b (of_nat k * 32) d' = Some (0, d'\<lparr>memmap := (memmap d')(b := t')\<rparr>)"
      and "poke (memmap d' b) k (replicate (region_blocks z) 0) = Some t'"
      using free_result [OF new(1), of k "region_blocks z"] d'(2) by auto
    moreover have "t' = memmap d b" using calculation(2) poke_back [OF found(3,1)] d'(2) by simp
    ultimately show ?thesis using d' by simp
  qed
qed

theorem mymem_free_malloc_witness:
  "\<exists>off d'. mymem_malloc SRAMCCM 64 (mymem_init SRAMCCM blank_dev) = Some (off, d') \<and> off \<noteq> 0xFFFFFFFF
    \<and> mymem_free SRAMCCM off d' = Some (0, mymem_init SRAMCCM blank_dev)"
proof -
  have z: "small_request 64" "region_blocks 64 \<le> unat (memtblsize SRAMCCM)"
    by (simp_all add: small_request_def region_blocks_def)
  from init_malloc [OF this] obtain off d' where
    m: "mymem_malloc SRAMCCM 64 (mymem_init SRAMCCM blank_dev) = Some (off, d')" "off \<noteq> 0xFFFFFFFF" by blast
  then show ?thesis using mymem_free_malloc [OF init_inv _ m] by simp
qed

text \<open>C12: Clients that ask for at most 65535 blocks at a time (2097120 bytes, ten times the largest
  pool; larger requests wrap, see C34) and give back only regions they hold, in any order of requests
  and releases from start-up on, never make the manager write outside its table, hold regions that do not overlap
  and that the table describes exactly, and fit the pool.\<close>

theorem pool_clients_safe:
  assumes "\<And>z. Get z \<in> set cs \<Longrightarrow> unat z \<le> 65535 * 32"
  shows "\<exists>held d'. run_client region_blocks (pool_alloc b) (pool_free b) cs [] (mymem_init b d) = Some (held, d')
    \<and> describes (memmap d' b) (set held) \<and> distinct held \<and> disjoint_regions (set held)
    \<and> sum_list (map snd held) \<le> unat (memtblsize b)"
proof -
  have "pool_inv b (mymem_init b d) (set [])" by (simp add: init_inv)
  moreover have "distinct ([] :: (nat \<times> nat) list)" by simp
  ultimately obtain held d' where
    r: "run_client region_blocks (pool_alloc b) (pool_free b) cs [] (mymem_init b d) = Some (held, d')"
    and inv: "pool_inv b d' (set held)" "distinct held"
    using pool.run_client_inv assms by blast
  then show ?thesis
    using pool.run_client_room [OF inv] by (auto simp: pool_inv_def describes_def)
qed

theorem pool_clients_safe_witness:
  "\<exists>held d'. run_client region_blocks (pool_alloc SRAMEX) (pool_free SRAMEX)
      [Get 100, Get 5000, Put_back 1, Get 300, Put_back 7] [] (mymem_init SRAMEX blank_dev) = Some (held, d')
    \<and> disjoint_regions (set held)"
proof -
  let ?cs = "[Get 100, Get 5000, Put_back 1, Get 300, Put_back 7] :: u32 request list"
  have "unat z \<le> 65535 * 32" if "Get z \<in> set ?cs" for z
    using that by auto
  then show ?thesis using pool_clients_safe [of ?cs SRAMEX blank_dev] by blast
qed

text \<open>C34: The number of blocks is kept in 16 bits: a request whose number of blocks is a positive multiple of
  65536 is refused when nothing is allocated in the pool, but as soon as there is a live region it succeeds
  without reserving anything, and its address is that of the last block of the highest live region.\<close>

theorem mymem_malloc_wraps:
  assumes "pool_inv b d L" and "z \<noteq> 0" and "region_blocks z mod 2 ^ 16 = 0"
  shows "if L = {} then mymem_malloc b z d = Some (0xFFFFFFFF, d)
    else mymem_malloc b z d = Some (of_nat (Max (\<Union>r \<in> L. blocks r)) * 32, d)
      \<and> (of_nat (Max (\<Union>r \<in> L. blocks r)) * 32 :: u32) \<noteq> 0xFFFFFFFF"
proof -
  let ?tbl = "memmap d b"
  have d: "describes ?tbl L" and len: "length ?tbl = unat (memtblsize b)"
    using assms(1) by (simp_all add: pool_inv_def)
  define U where "U = (\<Union>r \<in> L. blocks r)"
  have U: "U = {i. i < length ?tbl \<and> ?tbl ! i \<noteq> 0}" using used_blocks [OF d] by (simp add: U_def)
  have "unat (blocks_needed b z) = 0" using blocks_needed_nat [of b z] assms(3) by (simp add: region_blocks_def)
  then have nb: "blocks_needed b z = 0" by (simp add: unat_eq_0)
  have small: "unat (0 :: u16) + length ?tbl < 2 ^ 16" using len bank_sizes(2) [of b] by simp
  have rdy: "ready b d = d" using assms(1) by (simp add: ready_def pool_inv_def)
  show ?thesis
  proof (cases "L = {}")
    case True
    then have "\<forall>j < length ?tbl. ?tbl ! j = 0" using U by (auto simp: U_def)
    from search_zero_free [OF small this] have "search (unat (memtblsize b)) 0 0 ?tbl = None" by (simp add: len)
    then show ?thesis using True assms(2) nb rdy by (simp add: mymem_malloc_def)
  next
    case False
    then obtain r where "r \<in> L" by blast
    then have "fst r \<in> blocks r" using d by (auto simp: describes_def region_ok_def blocks_def)
    then have "U \<noteq> {}" using \<open>r \<in> L\<close> by (auto simp: U_def)
    moreover have fin: "finite U" by (simp add: U)
    ultimately have "Max U \<in> U" by (rule Max_in [rotated])
    then have f: "Max U < length ?tbl" "?tbl ! Max U \<noteq> 0" by (simp_all add: U)
    have free: "\<forall>j. Max U < j \<and> j < length ?tbl \<longrightarrow> ?tbl ! j = 0"
      using Max_ge [OF fin] U by (metis (mono_tags, lifting) leD mem_Collect_eq)
    from search_zero [OF small f free] have "search (length ?tbl) 0 0 ?tbl = Some (Max U)" .
    then have "mymem_malloc b z d = Some (of_nat (Max U) * 32, d)"
      using rdy assms(2) nb len f(1) by (simp add: mymem_malloc_def poke_def)
    then show ?thesis using False offset_block(3) [of "Max U" b] f(1) len by (simp add: U_def)
  qed
qed

theorem mymem_malloc_wraps_witness:
  "mymem_malloc SRAMIN 0x200000 (mymem_init SRAMIN blank_dev) = Some (0xFFFFFFFF, mymem_init SRAMIN blank_dev)
    \<and> (\<exists>d r. pool_inv SRAMIN d {r} \<and> mymem_malloc SRAMIN 0x200000 d = Some (of_nat (Max (blocks r)) * 32, d))"
proof -
  have z: "small_request 64" "region_blocks 64 \<le> unat (memtblsize SRAMIN)"
    by (simp_all add: small_request_def region_blocks_def)
  from init_malloc [OF this, of blank_dev] obtain d' r where inv: "pool_inv SRAMIN d' {r}" by blast
  have "region_blocks 0x200000 mod 2 ^ 16 = 0" by (simp add: region_blocks_def)
  then show ?thesis
    using mymem_malloc_wraps [OF inv, of "0x200000"] mymem_malloc_wraps [OF init_inv, of "0x200000" SRAMIN blank_dev] inv
    by (auto simp del: split_paired_Ex)
qed

text \<open>The reported occupancy is the share of blocks in live regions, in percent, rounded down.\<close>

lemma mem_perused_exact:
  assumes "pool_inv b d L"
  shows "unat (mem_perused b d) = 100 * card (\<Union>r \<in> L. blocks r) div unat (memtblsize b)
    \<and> card (\<Union>r \<in> L. blocks r) \<le> unat (memtblsize b)"
  using perused_result [OF assms] by blast

end
