(* ===== verification/Iic.thy ===== *)
theory Iic
  imports Prelude
begin

text \<open>
  The two-wire bus driver of HARDWARE/IIC/myiic.c, bit by bit.  The state of the bus is its
  history: everything the driver did to the clock and data lines, the waits, and the levels
  it read back.  The devices on the bus are a parameter \<open>dev\<close>, the level of the data line
  they answer with as a function of that history.  An observer that knows only the lines
  recovers start and stop conditions and clocked bits from a history.
\<close>

section \<open>The lines\<close>

text \<open>
  \<open>IIC_SCL = b\<close>, \<open>IIC_SDA = b\<close> (the output latch), \<open>SDA_OUT()\<close> and \<open>SDA_IN()\<close>, the delays, and
  a level read with \<open>READ_SDA\<close>.
\<close>

datatype line = Scl bool | Sda bool | Sda_out | Sda_in | Wait_us nat | Wait_ms nat | Sampled bool

type_synonym bus = "line list"
type_synonym device = "bus \<Rightarrow> bool"

section \<open>The driver\<close>

definition IIC_Start :: "bus \<Rightarrow> bus" where
  "IIC_Start h = h @ [Sda_out, Sda True, Scl True, Wait_us 4, Sda False, Wait_us 4, Scl False]"

definition IIC_Stop :: "bus \<Rightarrow> bus" where
  "IIC_Stop h = h @ [Sda_out, Scl False, Sda False, Wait_us 4, Scl True, Sda True, Wait_us 4]"

text \<open>
  The loop of \<open>IIC_Wait_Ack\<close>; its 8-bit counter stays below 252.  The result is 1 (after a stop
  condition) when the data line was still high at the 251st look, else 0.
\<close>

function ack_loop :: "device \<Rightarrow> nat \<Rightarrow> bus \<Rightarrow> u8 \<times> bus" where
  "ack_loop dev ucErrTime h =
     (let v = dev h; h = h @ [Sampled v]
      in if v then
           (let ucErrTime = ucErrTime + 1
            in if 250 < ucErrTime then (1, IIC_Stop h) else ack_loop dev ucErrTime h)
         else (0, h @ [Scl False]))"
  by pat_completeness auto
termination
  by (relation "measure (\<lambda>(dev, e, h). 251 - e)") auto

declare ack_loop.simps [simp del]

definition IIC_Wait_Ack :: "device \<Rightarrow> bus \<Rightarrow> u8 \<times> bus" where
  "IIC_Wait_Ack dev h = ack_loop dev 0 (h @ [Sda_in, Sda True, Wait_us 1, Scl True, Wait_us 1])"

definition IIC_Ack :: "bus \<Rightarrow> bus" where
  "IIC_Ack h = h @ [Scl False, Sda_out, Sda False, Wait_us 2, Scl True, Wait_us 2, Scl False]"

definition IIC_NAck :: "bus \<Rightarrow> bus" where
  "IIC_NAck h = h @ [Scl False, Sda_out, Sda True, Wait_us 2, Scl True, Wait_us 2, Scl False]"

primrec send_bits :: "nat \<Rightarrow> u8 \<Rightarrow> bus \<Rightarrow> bus" where
  "send_bits 0 txd h = h"
| "send_bits (Suc t) txd h = send_bits t (push_bit 1 txd)
     (h @ [Sda (drop_bit 7 (txd AND 0x80) \<noteq> 0), Wait_us 2, Scl True, Wait_us 2, Scl False, Wait_us 2])"

definition IIC_Send_Byte :: "u8 \<Rightarrow> bus \<Rightarrow> bus" where
  "IIC_Send_Byte txd h = send_bits 8 txd (h @ [Sda_out, Scl False])"

primrec read_bits :: "device \<Rightarrow> nat \<Rightarrow> u8 \<Rightarrow> bus \<Rightarrow> u8 \<times> bus" where
  "read_bits dev 0 receive h = (receive, h)"
| "read_bits dev (Suc i) receive h =
     (let h = h @ [Scl False, Wait_us 2, Scl True];
          v = dev h;
          receive = (if v then push_bit 1 receive + 1 else push_bit 1 receive)
      in read_bits dev i receive (h @ [Sampled v, Wait_us 1]))"

definition IIC_Read_Byte :: "device \<Rightarrow> bool \<Rightarrow> bus \<Rightarrow> u8 \<times> bus" where
  "IIC_Read_Byte dev ack h =
     (let (receive, h) = read_bits dev 8 0 (h @ [Sda_in])
      in (receive, if \<not> ack then IIC_NAck h else IIC_Ack h))"

section \<open>The observer\<close>

text \<open>
  A start or stop condition is a change of the driven data line while the clock is high.  A bit
  is a clock pulse without one: \<open>Bit (Some b)\<close> if the driver held the data line at \<open>b\<close> when
  the clock rose, \<open>Bit None\<close> if it had released it.
\<close>

datatype sym = Start | Stop | Bit "bool option"

record obs =
  o_scl :: bool
  o_sda :: bool
  o_out :: bool
  o_clk :: "bool option option"
  o_syms :: "sym list"

fun see :: "line \<Rightarrow> obs \<Rightarrow> obs" where
  "see (Scl b) ob =
     (if b = o_scl ob then ob
      else if b then ob\<lparr>o_scl := True, o_clk := Some (if o_out ob then Some (o_sda ob) else None)\<rparr>
      else case o_clk ob of
             None \<Rightarrow> ob\<lparr>o_scl := False\<rparr>
           | Some c \<Rightarrow> ob\<lparr>o_scl := False, o_clk := None, o_syms := o_syms ob @ [Bit c]\<rparr>)"
| "see (Sda b) ob =
     (if o_scl ob \<and> o_out ob \<and> b \<noteq> o_sda ob
      then ob\<lparr>o_sda := b, o_clk := None, o_syms := o_syms ob @ [if b then Stop else Start]\<rparr>
      else ob\<lparr>o_sda := b\<rparr>)"
| "see Sda_out ob = ob\<lparr>o_out := True\<rparr>"
| "see Sda_in ob = ob\<lparr>o_out := False\<rparr>"
| "see (Wait_us n) ob = ob"
| "see (Wait_ms n) ob = ob"
| "see (Sampled v) ob = ob"

text \<open>After \<open>IIC_Init\<close> both lines are driven high.\<close>

definition obs_init :: obs where
  "obs_init = \<lparr>o_scl = True, o_sda = True, o_out = True, o_clk = None, o_syms = []\<rparr>"

definition observe :: "bus \<Rightarrow> obs" where
  "observe h = fold see h obs_init"

definition syms :: "bus \<Rightarrow> sym list" where
  "syms h = o_syms (observe h)"

lemma observe_Nil [simp]: "observe [] = obs_init"
  by (simp add: observe_def)

lemma observe_append: "observe (h @ g) = fold see g (observe h)"
  by (simp add: observe_def)

lemma syms_Nil [simp]: "syms [] = []"
  by (simp add: syms_def obs_init_def)

text \<open>The two resting points of the driver: the bus is free, or the clock is held low.\<close>

definition free :: "bus \<Rightarrow> bool" where
  "free h \<longleftrightarrow> o_scl (observe h) \<and> o_sda (observe h) \<and> o_out (observe h) \<and> o_clk (observe h) = None"

definition held :: "bus \<Rightarrow> bool" where
  "held h \<longleftrightarrow> \<not> o_scl (observe h) \<and> o_clk (observe h) = None"

definition resting :: "bus \<Rightarrow> bool" where
  "resting h \<longleftrightarrow> free h \<or> held h"

lemma free_Nil [simp]: "free []"
  by (simp add: free_def obs_init_def)

lemma resting_intros [simp]: "free h \<Longrightarrow> resting h" "held h \<Longrightarrow> resting h"
  by (simp_all add: resting_def)

section \<open>What the observer sees of each operation\<close>

lemma IIC_Start_seen:
  "resting h \<Longrightarrow> held (IIC_Start h)" "resting h \<Longrightarrow> syms (IIC_Start h) = syms h @ [Start]"
  by (auto simp: resting_def free_def held_def syms_def IIC_Start_def observe_append)

lemma IIC_Stop_seen:
  "resting h \<Longrightarrow> free (IIC_Stop h)" "resting h \<Longrightarrow> syms (IIC_Stop h) = syms h @ [Stop]"
  by (auto simp: resting_def free_def held_def syms_def IIC_Stop_def observe_append)

text \<open>The bits of a byte, most significant first.\<close>

definition byte_bits :: "u8 \<Rightarrow> bool list" where
  "byte_bits b = map (\<lambda>k. bit b (7 - k)) [0..<8]"

abbreviation (input) driven :: "bool list \<Rightarrow> sym list" where
  "driven bs \<equiv> map (\<lambda>b. Bit (Some b)) bs"

abbreviation (input) released :: "nat \<Rightarrow> sym list" where
  "released n \<equiv> replicate n (Bit None)"

lemma send_bits_seen:
  "n \<le> 8 \<Longrightarrow> held h \<Longrightarrow> o_out (observe h) \<Longrightarrow>
    held (send_bits n b h) \<and> o_out (observe (send_bits n b h))
    \<and> syms (send_bits n b h) = syms h @ driven (map (\<lambda>k. bit b (7 - k)) [0..<n])"
proof (induction n arbitrary: b h)
  case (Suc n)
  let ?g = "h @ [Sda (drop_bit 7 (b AND 0x80) \<noteq> 0), Wait_us 2, Scl True, Wait_us 2, Scl False, Wait_us 2]"
  have top: "drop_bit 7 b AND 1 \<noteq> 0 \<longleftrightarrow> bit b 7"
    using and_single_bit [of "drop_bit 7 b" 0] by (simp add: bit_simps)
  have g: "held ?g" "o_out (observe ?g)" "syms ?g = syms h @ [Bit (Some (bit b 7))]"
    using Suc.prems by (simp_all add: held_def syms_def observe_append top)
  have "map (\<lambda>k. bit (push_bit 1 b) (7 - k)) [0..<n] = map (\<lambda>k. bit b (7 - Suc k)) [0..<n]"
    using Suc.prems(1) by (intro map_cong refl) (auto simp only: bit_push_bit_iff, auto)
  moreover have "[0..<Suc n] = 0 # map Suc [0..<n]" by (simp add: map_Suc_upt upt_conv_Cons del: upt_Suc)
  ultimately show ?case using Suc.IH [OF _ g(1,2), of "push_bit 1 b"] Suc.prems(1) g(3)
    by (simp add: comp_def del: upt_Suc)
qed simp

lemma IIC_Send_Byte_seen:
  assumes "resting h"
  shows "held (IIC_Send_Byte b h)" and "syms (IIC_Send_Byte b h) = syms h @ driven (byte_bits b)"
proof -
  have "held (h @ [Sda_out, Scl False])" "o_out (observe (h @ [Sda_out, Scl False]))"
    "syms (h @ [Sda_out, Scl False]) = syms h"
    using assms by (auto simp: resting_def free_def held_def syms_def observe_append)
  with send_bits_seen [of 8 "h @ [Sda_out, Scl False]" b]
  show "held (IIC_Send_Byte b h)" "syms (IIC_Send_Byte b h) = syms h @ driven (byte_bits b)"
    by (simp_all add: IIC_Send_Byte_def byte_bits_def del: upt_Suc)
qed

text \<open>An acknowledged byte ends in a released bit; a refused one in a released bit and a stop.\<close>

definition ack_syms :: "u8 \<Rightarrow> sym list" where
  "ack_syms r = (if r = 0 then [Bit None] else [Bit None, Stop])"

definition waiting :: "bus \<Rightarrow> bool" where
  "waiting h \<longleftrightarrow> o_scl (observe h) \<and> o_sda (observe h) \<and> \<not> o_out (observe h) \<and> o_clk (observe h) = Some None"

lemma ack_loop_seen:
  "waiting h \<Longrightarrow> ack_loop dev e h = (r, g) \<Longrightarrow> e < 251 \<Longrightarrow>
    r \<in> {0, 1} \<and> (if r = 0 then held g else free g) \<and> syms g = syms h @ ack_syms r"
proof (induction dev e h rule: ack_loop.induct)
  case (1 dev e h)
  let ?s = "h @ [Sampled (dev h)]"
  have w: "waiting ?s" "syms ?s = syms h"
    using "1.prems"(1) by (simp_all add: waiting_def syms_def observe_append)
  show ?case
  proof (cases "dev h")
    case high: True
    show ?thesis
    proof (cases "250 < e + 1")
      case True
      then have "ack_loop dev e h = (1, IIC_Stop ?s)" using high by (subst ack_loop.simps) simp
      then show ?thesis using "1.prems"(1,2)
        by (auto simp: waiting_def free_def syms_def IIC_Stop_def observe_append ack_syms_def)
    next
      case False
      then have "ack_loop dev (e + 1) ?s = (r, g)"
        using "1.prems"(2) high by (subst (asm) ack_loop.simps) simp
      then show ?thesis using "1.IH" [OF refl refl _ refl _ _ _] high False w by simp
    qed
  next
    case False
    then have "ack_loop dev e h = (0, ?s @ [Scl False])" by (subst ack_loop.simps) simp
    then show ?thesis using "1.prems"(1,2)
      by (auto simp: waiting_def held_def syms_def observe_append ack_syms_def)
  qed
qed

lemma IIC_Wait_Ack_seen:
  assumes "held h" and "IIC_Wait_Ack dev h = (r, g)"
  shows "r \<in> {0, 1} \<and> (if r = 0 then held g else free g) \<and> syms g = syms h @ ack_syms r"
proof -
  let ?w = "h @ [Sda_in, Sda True, Wait_us 1, Scl True, Wait_us 1]"
  have "waiting ?w" "syms ?w = syms h"
    using assms(1) by (auto simp: waiting_def held_def syms_def observe_append)
  with ack_loop_seen [of ?w dev 0 r g] assms(2) show ?thesis by (simp add: IIC_Wait_Ack_def)
qed

text \<open>Reading: \<open>pend\<close> says whether the clock is high with a released bit on it.\<close>

definition reading :: "bool \<Rightarrow> bus \<Rightarrow> bool" where
  "reading pend h \<longleftrightarrow> \<not> o_out (observe h)
     \<and> (if pend then o_scl (observe h) \<and> o_clk (observe h) = Some None else o_clk (observe h) = None)"

lemma read_bits_seen:
  "reading pend h \<Longrightarrow> read_bits dev n v h = (r, g) \<Longrightarrow>
    reading (pend \<or> 0 < n) g \<and> syms g @ released (if 0 < n \<or> pend then 1 else 0)
      = syms h @ released ((if pend then 1 else 0) + n)"
proof (induction n arbitrary: v h pend)
  case (Suc n)
  let ?c = "h @ [Scl False, Wait_us 2, Scl True]"
  let ?g = "?c @ [Sampled (dev ?c), Wait_us 1]"
  have g: "reading True ?g" "syms ?g = syms h @ released (if pend then 1 else 0)"
    using Suc.prems(1) by (cases pend; auto simp: reading_def syms_def observe_append)+
  obtain v' where "read_bits dev n v' ?g = (r, g)" using Suc.prems(2) by (auto simp: Let_def)
  from Suc.IH [OF g(1) this] g(2) show ?case
    by (auto simp: replicate_append_same [symmetric] replicate_add [symmetric])
qed simp

lemma IIC_Read_Byte_seen:
  assumes "resting h" and "IIC_Read_Byte dev ack h = (r, g)"
  shows "held g \<and> syms g = syms h @ released 8 @ [Bit (Some (\<not> ack))]"
proof -
  have start: "reading False (h @ [Sda_in])" "syms (h @ [Sda_in]) = syms h"
    using assms(1) by (auto simp: reading_def resting_def free_def held_def syms_def observe_append)
  obtain k where k: "read_bits dev 8 0 (h @ [Sda_in]) = (r, k)" "g = (if ack then IIC_Ack k else IIC_NAck k)"
    using assms(2) by (auto simp: IIC_Read_Byte_def split: prod.splits if_splits)
  have read: "reading True k" "syms k @ [Bit None] = syms h @ released 8"
    using read_bits_seen [OF start(1) k(1)] start(2) by simp_all
  have "held (IIC_Ack k) \<and> syms (IIC_Ack k) = syms k @ [Bit None, Bit (Some False)]"
    "held (IIC_NAck k) \<and> syms (IIC_NAck k) = syms k @ [Bit None, Bit (Some True)]"
    using read(1) by (auto simp: reading_def held_def syms_def observe_append IIC_Ack_def IIC_NAck_def)
  then show ?thesis using k(2) read(2) by (cases ack) (simp_all add: append_eq_append_conv2 [symmetric])
qed

text \<open>A byte and the acknowledgement its receiver gives, the result thrown away.\<close>

definition put_byte :: "device \<Rightarrow> u8 \<Rightarrow> bus \<Rightarrow> bus" where
  "put_byte dev b h = snd (IIC_Wait_Ack dev (IIC_Send_Byte b h))"

definition byte_syms :: "u8 \<Rightarrow> u8 \<Rightarrow> sym list" where
  "byte_syms b r = driven (byte_bits b) @ ack_syms r"

lemma send_ack_seen:
  assumes "resting h" and "IIC_Wait_Ack dev (IIC_Send_Byte b h) = (r, g)"
  shows "r \<in> {0, 1}" and "resting g" and "syms g = syms h @ byte_syms b r"
  using IIC_Wait_Ack_seen [OF IIC_Send_Byte_seen(1) [OF assms(1)] assms(2)]
    IIC_Send_Byte_seen(2) [OF assms(1)]
  by (auto simp: byte_syms_def split: if_splits)

lemma put_byte_seen:
  assumes "resting h"
  obtains r where "r \<in> {0, 1}" and "resting (put_byte dev b h)"
    and "syms (put_byte dev b h) = syms h @ byte_syms b r"
proof -
  obtain r g where "IIC_Wait_Ack dev (IIC_Send_Byte b h) = (r, g)" by force
  with send_ack_seen [OF assms this] that show thesis by (simp add: put_byte_def)
qed

text \<open>The answers to the three bytes of a transfer.\<close>

definition answers :: "u8 \<times> u8 \<times> u8 \<Rightarrow> bool" where
  "answers R \<longleftrightarrow> (case R of (r1, r2, r3) \<Rightarrow> {r1, r2, r3} \<subseteq> {0, 1})"

lemma wait_seen [simp]: "free (h @ [Wait_ms n]) = free h" "syms (h @ [Wait_ms n]) = syms h"
  by (simp_all add: free_def syms_def observe_append)

end
