(* ===== verification/Eeprom.thy ===== *)
theory Eeprom
  imports Iic "HOL-Library.Monad_Syntax"
begin

text \<open>
  The EEPROM routines of HARDWARE/24CXX/24cxx.c on top of the bus driver, and the use the
  start-up code makes of them.  Buffers are lists; \<^const>\<open>None\<close> is a read past the end of a
  buffer or a shift by 32 bits or more.  Two families of routines coexist: \<open>AT24CXX_\<close>, which
  sends one address byte for the configured 24C04, and \<open>W24256_\<close>, which sends two.
\<close>

section \<open>The 24C04 routines\<close>

abbreviation (input) AT24C16 :: nat where "AT24C16 \<equiv> 2047"

definition EE_TYPE :: nat where
  "EE_TYPE = 511"

text \<open>The start of every transfer: device and memory address, for large and small devices.\<close>

definition put_address :: "device \<Rightarrow> u16 \<Rightarrow> bus \<Rightarrow> bus" where
  "put_address dev addr h =
     (let h = IIC_Start h;
          h = (if AT24C16 < EE_TYPE
               then put_byte dev (ucast (drop_bit 8 addr)) (put_byte dev 0xA0 h)
               else put_byte dev (ucast (0xA0 + push_bit 1 (addr div 256))) h)
      in put_byte dev (ucast (addr mod 256)) h)"

definition AT24CXX_ReadOneByte :: "device \<Rightarrow> u16 \<Rightarrow> bus \<Rightarrow> u8 \<times> bus" where
  "AT24CXX_ReadOneByte dev ReadAddr h =
     (let h = put_address dev ReadAddr h;
          h = put_byte dev 0xA1 (IIC_Start h);
          (temp, h) = IIC_Read_Byte dev False h
      in (temp, IIC_Stop h))"

definition AT24CXX_WriteOneByte :: "device \<Rightarrow> u16 \<Rightarrow> u8 \<Rightarrow> bus \<Rightarrow> bus" where
  "AT24CXX_WriteOneByte dev WriteAddr DataToWrite h =
     (let h = put_byte dev DataToWrite (put_address dev WriteAddr h)
      in IIC_Stop h @ [Wait_ms 10])"

primrec write_len_loop :: "device \<Rightarrow> u16 \<Rightarrow> u32 \<Rightarrow> nat list \<Rightarrow> bus \<Rightarrow> bus" where
  "write_len_loop dev addr data [] h = h"
| "write_len_loop dev addr data (t # ts) h = write_len_loop dev addr data ts
     (AT24CXX_WriteOneByte dev (addr + of_nat t) (ucast (drop_bit (8 * t) data AND 0xff)) h)"

definition AT24CXX_WriteLenByte :: "device \<Rightarrow> u16 \<Rightarrow> u32 \<Rightarrow> u8 \<Rightarrow> bus \<Rightarrow> bus option" where
  "AT24CXX_WriteLenByte dev WriteAddr DataToWrite Len h =
     (if 4 < Len then None else Some (write_len_loop dev WriteAddr DataToWrite [0..<unat Len] h))"

primrec read_len_loop :: "device \<Rightarrow> u16 \<Rightarrow> nat \<Rightarrow> nat list \<Rightarrow> u32 \<Rightarrow> bus \<Rightarrow> u32 \<times> bus" where
  "read_len_loop dev addr Len [] temp h = (temp, h)"
| "read_len_loop dev addr Len (t # ts) temp h =
     (let (d, h) = AT24CXX_ReadOneByte dev (addr + of_nat Len - of_nat t - 1) h
      in read_len_loop dev addr Len ts (push_bit 8 temp + ucast d) h)"

definition AT24CXX_ReadLenByte :: "device \<Rightarrow> u16 \<Rightarrow> u8 \<Rightarrow> bus \<Rightarrow> u32 \<times> bus" where
  "AT24CXX_ReadLenByte dev ReadAddr Len h = read_len_loop dev ReadAddr (unat Len) [0..<unat Len] 0 h"

definition AT24CXX_Check :: "device \<Rightarrow> bus \<Rightarrow> u8 \<times> bus" where
  "AT24CXX_Check dev h =
     (let (temp, h) = AT24CXX_ReadOneByte dev 255 h
      in if temp = 0x55 then (0, h)
         else let h = AT24CXX_WriteOneByte dev 255 0x55 h;
                  (temp, h) = AT24CXX_ReadOneByte dev 255 h
              in if temp = 0x55 then (0, h) else (1, h))"

primrec AT24CXX_Read :: "device \<Rightarrow> u16 \<Rightarrow> nat \<Rightarrow> bus \<Rightarrow> u8 list \<times> bus" where
  "AT24CXX_Read dev ReadAddr 0 h = ([], h)"
| "AT24CXX_Read dev ReadAddr (Suc n) h =
     (let (d, h) = AT24CXX_ReadOneByte dev ReadAddr h;
          (ds, h) = AT24CXX_Read dev (ReadAddr + 1) n h
      in (d # ds, h))"

primrec AT24CXX_Write :: "device \<Rightarrow> u16 \<Rightarrow> u8 list \<Rightarrow> nat \<Rightarrow> bus \<Rightarrow> bus option" where
  "AT24CXX_Write dev WriteAddr buf 0 h = Some h"
| "AT24CXX_Write dev WriteAddr buf (Suc n) h = (case buf of [] \<Rightarrow> None
     | d # ds \<Rightarrow> AT24CXX_Write dev (WriteAddr + 1) ds n (AT24CXX_WriteOneByte dev WriteAddr d h))"

section \<open>Writing a buffer page by page\<close>

abbreviation (input) I2C_PAGE_SIZE :: nat where "I2C_PAGE_SIZE \<equiv> 16"

text \<open>
  \<open>while (number_of_page--) { write a page; advance; }\<close> with an 8-bit page counter; the pointer
  into the buffer is the rest of the list.
\<close>

primrec page_writes :: "device \<Rightarrow> nat \<Rightarrow> u16 \<times> u8 list \<Rightarrow> bus \<Rightarrow> ((u16 \<times> u8 list) \<times> bus) option" where
  "page_writes dev 0 p h = Some (p, h)"
| "page_writes dev (Suc number_of_page) p h =
     Option.bind (AT24CXX_Write dev (fst p) (snd p) I2C_PAGE_SIZE h)
       (page_writes dev number_of_page (fst p + 16, drop I2C_PAGE_SIZE (snd p)))"

definition write_pages :: "device \<Rightarrow> u16 \<times> u8 list \<Rightarrow> u16 \<Rightarrow> bus \<Rightarrow> bus option" where
  "write_pages dev p number_of_byte h =
     (let number_of_page = (ucast (number_of_byte div 16) :: u8);
          number_of_single = (ucast (number_of_byte mod 16) :: u8)
      in Option.bind (page_writes dev (unat number_of_page) p h) (\<lambda>(q, h).
           if number_of_single \<noteq> 0 then AT24CXX_Write dev (fst q) (snd q) (unat number_of_single) h
           else Some h))"

definition eeprom_buffer_write :: "device \<Rightarrow> u8 list \<Rightarrow> u16 \<Rightarrow> u16 \<Rightarrow> bus \<Rightarrow> bus option" where
  "eeprom_buffer_write dev p_buffer write_address number_of_byte h =
     (let address = (ucast (write_address mod 16) :: u8); count = 16 - address
      in if address = 0 then write_pages dev (write_address, p_buffer) number_of_byte h
         else if number_of_byte < ucast count
         then AT24CXX_Write dev write_address p_buffer (unat number_of_byte) h
         else Option.bind (AT24CXX_Write dev write_address p_buffer (unat count) h)
                (write_pages dev (write_address + ucast count, drop (unat count) p_buffer)
                   (number_of_byte - ucast count)))"

section \<open>The M24256 routines\<close>

abbreviation (input) EEPROM_DEV_ADDR :: u8 where "EEPROM_DEV_ADDR \<equiv> 0xA0"
abbreviation (input) EEPROM_DEV_ADDR_Page :: u8 where "EEPROM_DEV_ADDR_Page \<equiv> 0xB0"

definition send_ack :: "device \<Rightarrow> u8 \<Rightarrow> bus \<Rightarrow> u8 \<times> bus" where
  "send_ack dev b h = IIC_Wait_Ack dev (IIC_Send_Byte b h)"

text \<open>Bytes sent in a row; the first refused one jumps to \<open>cmd_fail\<close>.\<close>

primrec send_all :: "device \<Rightarrow> u8 list \<Rightarrow> bus \<Rightarrow> bool \<times> bus" where
  "send_all dev [] h = (True, h)"
| "send_all dev (b # bs) h =
     (let (r, h) = send_ack dev b h in if r \<noteq> 0 then (False, h) else send_all dev bs h)"

definition W24256_Byte_Write :: "device \<Rightarrow> u16 \<Rightarrow> u8 \<Rightarrow> bus \<Rightarrow> u8 \<times> bus" where
  "W24256_Byte_Write dev address WriteData h =
     (let (ok, h) = send_all dev [EEPROM_DEV_ADDR, ucast (drop_bit 8 address), ucast (address AND 0x00ff),
                                  WriteData] (IIC_Start h)
      in (if ok then 1 else 0, IIC_Stop h))"

text \<open>Up to 1000 attempts to be acknowledged; the number left is the first argument.\<close>

primrec poll_ready :: "device \<Rightarrow> nat \<Rightarrow> bus \<Rightarrow> bool \<times> bus" where
  "poll_ready dev 0 h = (False, h)"
| "poll_ready dev (Suc m) h =
     (let (r, h) = send_ack dev EEPROM_DEV_ADDR (IIC_Start h)
      in if r = 0 then (True, h) else poll_ready dev m h)"

primrec page_loop :: "device \<Rightarrow> u8 list \<Rightarrow> bool \<Rightarrow> u16 \<Rightarrow> bus \<Rightarrow> bool \<times> bus" where
  "page_loop dev [] first usAddr h = (True, h)"
| "page_loop dev (b # bs) first usAddr h =
     (let (ok, h) = (if first \<or> usAddr AND 63 = 0
                     then (let (ok, h) = poll_ready dev 1000 h
                           in if ok then send_all dev [ucast (drop_bit 8 usAddr), ucast (usAddr AND 0x00ff)] h
                              else (False, h))
                     else (True, h))
      in if \<not> ok then (False, h)
         else let (r, h) = send_ack dev b h
              in if r \<noteq> 0 then (False, h) else page_loop dev bs False (usAddr + 1) h)"

definition W24256_Page_Write :: "device \<Rightarrow> u8 list \<Rightarrow> u16 \<Rightarrow> u16 \<Rightarrow> bus \<Rightarrow> (u8 \<times> bus) option" where
  "W24256_Page_Write dev WriteBuf Page Size' h =
     (if length WriteBuf < unat Size' then None
      else let (ok, h) = page_loop dev (take (unat Size') WriteBuf) True (Page * 0x0040) h
           in Some (if ok then 1 else 0, IIC_Stop h))"

text \<open>A byte whose refusal only adds a stop condition.\<close>

definition put_or_stop :: "device \<Rightarrow> u8 \<Rightarrow> bus \<Rightarrow> bus" where
  "put_or_stop dev b h = (let (r, h) = send_ack dev b h in if r \<noteq> 0 then IIC_Stop h else h)"

definition W24256_Byte_Read :: "device \<Rightarrow> u16 \<Rightarrow> bus \<Rightarrow> u8 \<times> bus" where
  "W24256_Byte_Read dev Address h =
     (let h = put_or_stop dev EEPROM_DEV_ADDR (IIC_Start h);
          h = put_or_stop dev (ucast (drop_bit 8 Address)) h;
          h = put_or_stop dev (ucast Address AND 0xff) h;
          h = put_or_stop dev (EEPROM_DEV_ADDR OR 0x01) (IIC_Start h);
          (ReadData, h) = IIC_Read_Byte dev False h
      in (ReadData, IIC_Stop (IIC_NAck h)))"

text \<open>Every byte is read with a negative acknowledge, followed by a second acknowledge clock.\<close>

primrec page_reads :: "device \<Rightarrow> nat \<Rightarrow> bus \<Rightarrow> u8 list \<times> bus" where
  "page_reads dev 0 h = ([], h)"
| "page_reads dev (Suc n) h =
     (let (d, h) = IIC_Read_Byte dev False h;
          (ds, h) = page_reads dev n (if n \<noteq> 0 then IIC_Ack h else IIC_NAck h)
      in (d # ds, h))"

definition W24256_Page_Read :: "device \<Rightarrow> u16 \<Rightarrow> u16 \<Rightarrow> bus \<Rightarrow> u8 \<times> u8 list \<times> bus" where
  "W24256_Page_Read dev Page Size' h =
     (let uAddress = Page * 0x0040;
          (ok, h) = send_all dev [EEPROM_DEV_ADDR_Page, ucast (drop_bit 8 uAddress), ucast uAddress AND 0xff]
                      (IIC_Start h)
      in if \<not> ok then (0, [], IIC_Stop h)
         else let (ok, h) = send_all dev [EEPROM_DEV_ADDR_Page OR 0x01] (IIC_Start h)
              in if \<not> ok then (0, [], IIC_Stop h)
                 else let (ds, h) = page_reads dev (unat Size') h in (1, ds, IIC_Stop h))"

primrec W24256_Write :: "device \<Rightarrow> u16 \<Rightarrow> u8 list \<Rightarrow> nat \<Rightarrow> bus \<Rightarrow> bus option" where
  "W24256_Write dev WriteAddr buf 0 h = Some h"
| "W24256_Write dev WriteAddr buf (Suc n) h = (case buf of [] \<Rightarrow> None
     | d # ds \<Rightarrow> W24256_Write dev (WriteAddr + 1) ds n (snd (W24256_Byte_Write dev WriteAddr d h)))"

primrec W24256_Read :: "device \<Rightarrow> u16 \<Rightarrow> nat \<Rightarrow> bus \<Rightarrow> u8 list \<times> bus" where
  "W24256_Read dev ReadAddr 0 h = ([], h)"
| "W24256_Read dev ReadAddr (Suc n) h =
     (let (d, h) = W24256_Byte_Read dev ReadAddr h;
          (ds, h) = W24256_Read dev (ReadAddr + 1) n h
      in (d # ds, h))"

definition eeprom_buffer_read :: "device \<Rightarrow> u8 \<Rightarrow> u16 \<Rightarrow> bus \<Rightarrow> u8 list \<times> bus" where
  "eeprom_buffer_read dev read_address number_of_byte h =
     W24256_Read dev (ucast read_address) (unat number_of_byte) h"

abbreviation (input) BUFFER_SIZE :: nat where "BUFFER_SIZE \<equiv> 128"

definition i2c_m24256_test :: "device \<Rightarrow> bus \<Rightarrow> (u8 \<times> bus) option" where
  "i2c_m24256_test dev h =
     (let i2c_buffer_write = map of_nat [0..<BUFFER_SIZE]
      in Option.bind (eeprom_buffer_write dev i2c_buffer_write 0 (of_nat BUFFER_SIZE) h) (\<lambda>h.
           let (i2c_buffer_read, h) = AT24CXX_Read dev 0 BUFFER_SIZE h
           in Some (if i2c_buffer_read \<noteq> i2c_buffer_write then 1 else 0, h)))"

section \<open>The stored parameters\<close>

record SYSTEM_FIXED =
  uDeviceId :: u8
  VSRSION :: "u8 list"

abbreviation (input) FIRST_START_FLAG :: u8 where "FIRST_START_FLAG \<equiv> 0xAA"

text \<open>\<open>strcpy\<close> of the version string, with its closing zero, into the array of twenty bytes.\<close>

definition version_string :: "u8 list" where
  "version_string = [0x32, 0x30, 0x32, 0x32, 0x30, 0x39, 0x30, 0x35, 0x5F, 0x48, 0x30, 0x31, 0x5F, 0x53, 0x30, 0x31]"

definition Variable_Eeprom :: "device \<Rightarrow> SYSTEM_FIXED \<Rightarrow> bus \<Rightarrow> (u8 \<times> SYSTEM_FIXED \<times> bus) option" where
  "Variable_Eeprom dev fixed h =
     (let (First_Start, h) = eeprom_buffer_read dev 0 1 h
      in if hd First_Start = FIRST_START_FLAG then
           (let (ds, h) = eeprom_buffer_read dev 1 21 h
            in Some (hd First_Start, \<lparr>uDeviceId = hd ds, VSRSION = tl ds\<rparr>, h))
         else do {
           h \<leftarrow> eeprom_buffer_write dev [FIRST_START_FLAG] 0 1 h;
           v \<leftarrow> poke (VSRSION fixed) 0 (version_string @ [0]);
           let fixed = \<lparr>uDeviceId = 0x01, VSRSION = v\<rparr>;
           h \<leftarrow> eeprom_buffer_write dev (uDeviceId fixed # VSRSION fixed) 1 21 h;
           Some (FIRST_START_FLAG, fixed, h @ [Wait_ms 10]) })"

section \<open>One byte on the wire\<close>

definition device_byte :: "u16 \<Rightarrow> u8" where
  "device_byte addr = ucast (0xA0 + push_bit 1 (addr div 256))"

text \<open>What writing one byte looks like, with the three answers of the device.\<close>

definition write_syms :: "u16 \<Rightarrow> u8 \<Rightarrow> u8 \<times> u8 \<times> u8 \<Rightarrow> sym list" where
  "write_syms a v R = (case R of (r1, r2, r3) \<Rightarrow>
     Start # byte_syms (device_byte a) r1 @ byte_syms (ucast (a mod 256)) r2 @ byte_syms v r3 @ [Stop])"

lemma small_device: "(AT24C16 < EE_TYPE) = False"
  by (simp add: EE_TYPE_def)

lemma put_address_seen:
  assumes "resting h"
  obtains r1 r2 where "{r1, r2} \<subseteq> {0, 1}" and "resting (put_address dev a h)"
    and "syms (put_address dev a h)
      = syms h @ Start # byte_syms (device_byte a) r1 @ byte_syms (ucast (a mod 256)) r2"
proof -
  let ?s = "IIC_Start h"
  have s: "resting ?s" "syms ?s = syms h @ [Start]" using IIC_Start_seen [OF assms] by simp_all
  obtain r1 where r1: "r1 \<in> {0, 1}" "resting (put_byte dev (device_byte a) ?s)"
    "syms (put_byte dev (device_byte a) ?s) = syms ?s @ byte_syms (device_byte a) r1"
    by (rule put_byte_seen [OF s(1)])
  obtain r2 where "r2 \<in> {0, 1}" "resting (put_byte dev (ucast (a mod 256)) (put_byte dev (device_byte a) ?s))"
    "syms (put_byte dev (ucast (a mod 256)) (put_byte dev (device_byte a) ?s))
      = syms (put_byte dev (device_byte a) ?s) @ byte_syms (ucast (a mod 256)) r2"
    by (rule put_byte_seen [OF r1(2)])
  then show thesis
    using that [of r1 r2] r1 s(2) by (simp add: put_address_def small_device device_byte_def Let_def)
qed

lemma WriteOneByte_seen:
  assumes "resting h"
  obtains R where "answers R" and "free (AT24CXX_WriteOneByte dev a v h)"
    and "syms (AT24CXX_WriteOneByte dev a v h) = syms h @ write_syms a v R"
proof -
  obtain r1 r2 where r: "{r1, r2} \<subseteq> {0, 1}" "resting (put_address dev a h)"
    "syms (put_address dev a h)
      = syms h @ Start # byte_syms (device_byte a) r1 @ byte_syms (ucast (a mod 256)) r2"
    by (rule put_address_seen [OF assms])
  obtain r3 where "r3 \<in> {0, 1}" "resting (put_byte dev v (put_address dev a h))"
    "syms (put_byte dev v (put_address dev a h)) = syms (put_address dev a h) @ byte_syms v r3"
    by (rule put_byte_seen [OF r(2)])
  then show thesis
    using that [of "(r1, r2, r3)"] r IIC_Stop_seen
    by (auto simp: AT24CXX_WriteOneByte_def answers_def write_syms_def)
qed

section \<open>Buffers\<close>

lemma Write_append:
  "AT24CXX_Write dev a buf (m + n) h
     = Option.bind (AT24CXX_Write dev a buf m h) (AT24CXX_Write dev (a + of_nat m) (drop m buf) n)"
  by (induction m arbitrary: a buf h) (auto simp: ac_simps split: list.split)

lemma page_writes_eq:
  "page_writes dev k (a, buf) h
     = map_option (\<lambda>g. ((a + of_nat (16 * k), drop (16 * k) buf), g)) (AT24CXX_Write dev a buf (16 * k) h)"
proof (induction k arbitrary: a buf h)
  case (Suc k)
  have "AT24CXX_Write dev a buf (16 * Suc k) h = Option.bind (AT24CXX_Write dev a buf 16 h)
      (AT24CXX_Write dev (a + 16) (drop 16 buf) (16 * k))"
    using Write_append [of dev a buf 16 "16 * k" h] by simp
  then show ?case using Suc
    by (cases "AT24CXX_Write dev a buf 16 h") (simp_all add: algebra_simps)
qed simp

text \<open>The bytes a page-wise write really writes: whole pages are counted modulo 256.\<close>

lemma write_pages_eq: "write_pages dev (a, buf) n h = AT24CXX_Write dev a buf (unat n mod 4096) h"
proof -
  have p: "unat (ucast (n div 16) :: u8) = unat n div 16 mod 256"
    by (simp add: unsigned_ucast_eq take_bit_eq_mod unat_div)
  have s: "unat (ucast (n mod 16) :: u8) = unat n mod 16"
    by (simp add: unsigned_ucast_eq take_bit_eq_mod unat_mod)
  have "unat n mod (16 * 256) = 16 * (unat n div 16 mod 256) + unat n mod 16" by (rule mod_mult2_eq)
  then have split: "unat n mod 4096 = 16 * (unat n div 16 mod 256) + unat n mod 16" by simp
  have z: "(ucast (n mod 16) :: u8) \<noteq> 0 \<longleftrightarrow> unat n mod 16 \<noteq> 0" using s by (metis unat_eq_0)
  show ?thesis
    unfolding split Write_append write_pages_def Let_def page_writes_eq p
    by (cases "AT24CXX_Write dev a buf (16 * (unat n div 16 mod 256)) h") (use s z in auto)
qed

definition written :: "u16 \<Rightarrow> u16 \<Rightarrow> nat" where
  "written a n = (let c = (16 - unat a mod 16) mod 16
     in if unat n < c then unat n else c + (unat n - c) mod 4096)"

lemma buffer_write_eq:
  "eeprom_buffer_write dev buf a n h = AT24CXX_Write dev a buf (written a n) h"
proof -
  define m where "m = unat a mod 16"
  have m: "m < 16" by (simp add: m_def)
  have ad: "unat (ucast (a mod 16) :: u8) = m"
    by (simp add: unsigned_ucast_eq take_bit_eq_mod unat_mod m_def)
  show ?thesis
  proof (cases "m = 0")
    case True
    then have "(ucast (a mod 16) :: u8) = 0" using ad by (simp add: unat_eq_0)
    then show ?thesis
      using True by (simp add: eeprom_buffer_write_def write_pages_eq written_def m_def [symmetric] Let_def)
  next
    case False
    let ?c = "16 - ucast (a mod 16) :: u8"
    have "ucast (a mod 16) \<le> (16 :: u8)" using m by (simp add: word_le_nat_alt ad)
    then have c: "unat ?c = 16 - m" by (simp add: unat_sub ad)
    then have cc: "unat (ucast ?c :: u16) = 16 - m" by (simp add: unsigned_ucast_eq take_bit_eq_mod)
    have nz: "(ucast (a mod 16) :: u8) \<noteq> 0" using ad False by auto
    have lt: "n < ucast ?c \<longleftrightarrow> unat n < 16 - m" by (simp add: word_less_nat_alt cc)
    have sub: "unat (n - ucast ?c) = unat n - (16 - m)" if "\<not> n < ucast ?c"
      using that by (simp add: unat_sub cc)
    have ofc: "of_nat (16 - m) = (ucast ?c :: u16)" using cc by (metis of_nat_unat ucast_id)
    have w: "written a n = (if unat n < 16 - m then unat n else (16 - m) + (unat n - (16 - m)) mod 4096)"
      using False m by (simp add: written_def m_def [symmetric] Let_def)
    show ?thesis
    proof (cases "n < ucast ?c")
      case True
      then show ?thesis using nz w lt by (simp add: eeprom_buffer_write_def Let_def)
    next
      case ge: False
      then have "eeprom_buffer_write dev buf a n h = Option.bind (AT24CXX_Write dev a buf (16 - m) h)
          (write_pages dev (a + ucast ?c, drop (16 - m) buf) (n - ucast ?c))"
        using nz c by (simp add: eeprom_buffer_write_def Let_def)
      moreover have "written a n = (16 - m) + (unat n - (16 - m)) mod 4096" using ge w lt by simp
      ultimately show ?thesis
        by (simp only: Write_append write_pages_eq [abs_def] sub [OF ge] ofc)
    qed
  qed
qed

lemma Write_seen:
  "resting h \<Longrightarrow> n \<le> length buf \<Longrightarrow> \<exists>g R. AT24CXX_Write dev a buf n h = Some g \<and> resting g
    \<and> (\<forall>k. answers (R k))
    \<and> syms g = syms h @ concat (map (\<lambda>k. write_syms (a + of_nat k) (buf ! k) (R k)) [0..<n])"
proof (induction n arbitrary: a buf h)
  case 0
  have "answers (0, 0, 0)" by (simp add: answers_def)
  with 0 show ?case by auto
next
  case (Suc n)
  obtain d ds where buf: "buf = d # ds" "n \<le> length ds" using Suc.prems(2) by (cases buf) auto
  obtain R0 where R0: "answers R0" "free (AT24CXX_WriteOneByte dev a d h)"
    "syms (AT24CXX_WriteOneByte dev a d h) = syms h @ write_syms a d R0"
    by (rule WriteOneByte_seen [OF Suc.prems(1)])
  from Suc.IH [OF resting_intros(1) [OF R0(2)] buf(2), of "a + 1"] obtain g R where
    g: "AT24CXX_Write dev (a + 1) ds n (AT24CXX_WriteOneByte dev a d h) = Some g" "resting g" "\<forall>k. answers (R k)"
      "syms g = syms (AT24CXX_WriteOneByte dev a d h)
        @ concat (map (\<lambda>k. write_syms (a + 1 + of_nat k) (ds ! k) (R k)) [0..<n])" by blast
  let ?R = "case_nat R0 R"
  have "[0..<Suc n] = 0 # map Suc [0..<n]" by (simp add: map_Suc_upt upt_conv_Cons del: upt_Suc)
  then have "concat (map (\<lambda>k. write_syms (a + of_nat k) (buf ! k) (?R k)) [0..<Suc n])
      = write_syms a d R0 @ concat (map (\<lambda>k. write_syms (a + 1 + of_nat k) (ds ! k) (R k)) [0..<n])"
    by (simp add: buf comp_def add.assoc del: upt_Suc)
  moreover have "\<forall>k. answers (?R k)" using R0(1) g(3) by (simp split: nat.split)
  ultimately show ?case using g R0(3) buf by (intro exI [of _ g] exI [of _ ?R]) simp
qed

section \<open>A device that acknowledges\<close>

definition obliging :: "device \<Rightarrow> bool" where
  "obliging dev \<longleftrightarrow> (\<forall>b h. fst (send_ack dev b h) = 0)"

lemma obliging_low [simp]: "obliging (\<lambda>_. False)"
  by (simp add: obliging_def send_ack_def IIC_Wait_Ack_def ack_loop.simps Let_def)

lemma obliging_send:
  assumes "obliging dev" and "resting h"
  shows "send_ack dev b h = (0, put_byte dev b h)" and "put_or_stop dev b h = put_byte dev b h"
    and "resting (put_byte dev b h)" and "syms (put_byte dev b h) = syms h @ byte_syms b 0"
proof -
  obtain g where g: "send_ack dev b h = (0, g)" using assms(1) by (metis obliging_def prod.collapse)
  then have p: "put_byte dev b h = g" by (simp add: put_byte_def send_ack_def)
  show "send_ack dev b h = (0, put_byte dev b h)" using g p by simp
  then show "put_or_stop dev b h = put_byte dev b h" by (simp add: put_or_stop_def)
  show "resting (put_byte dev b h)" "syms (put_byte dev b h) = syms h @ byte_syms b 0"
    using send_ack_seen [OF assms(2), of dev b 0 g] g p by (simp_all add: send_ack_def)
qed

text \<open>The two address bytes a device of more than 16 kbit takes after its own address.\<close>

definition two_byte_address :: "u16 \<Rightarrow> sym list" where
  "two_byte_address x = byte_syms 0xA0 0 @ byte_syms (hi8 x) 0 @ byte_syms (lo8 x) 0"

lemma Byte_Read_seen:
  assumes "obliging dev" and "resting h"
  shows "syms (snd (W24256_Byte_Read dev x h)) = syms h @ Start # two_byte_address x
    @ Start # byte_syms 0xA1 0 @ released 8 @ [Bit (Some True), Bit (Some True), Stop]"
proof -
  let ?h0 = "IIC_Start h" and ?lo = "ucast x AND 0xff :: u8"
  have "(0xff :: u8) = - 1" by simp
  then have bytes: "hi8 x = ucast (drop_bit 8 x)" "lo8 x = ?lo"
    by (simp_all only: hi8_def lo8_ucast and.right_neutral)
  let ?h1 = "put_byte dev 0xA0 ?h0"
  let ?h2 = "put_byte dev (ucast (drop_bit 8 x)) ?h1"
  let ?h3 = "put_byte dev ?lo ?h2"
  let ?h4 = "put_byte dev 0xA1 (IIC_Start ?h3)"
  have r0: "resting ?h0" "syms ?h0 = syms h @ [Start]" using IIC_Start_seen [OF assms(2)] by simp_all
  note s1 = obliging_send [OF assms(1) r0(1), of "0xA0"]
  note s2 = obliging_send [OF assms(1) s1(3), of "ucast (drop_bit 8 x)"]
  note s3 = obliging_send [OF assms(1) s2(3), of ?lo]
  have r3: "resting (IIC_Start ?h3)" "syms (IIC_Start ?h3) = syms ?h3 @ [Start]"
    using IIC_Start_seen [OF s3(3)] by simp_all
  note s4 = obliging_send [OF assms(1) r3(1), of "0xA1"]
  obtain v g where rd: "IIC_Read_Byte dev False ?h4 = (v, g)" by force
  have g: "held g" "syms g = syms ?h4 @ released 8 @ [Bit (Some True)]"
    using IIC_Read_Byte_seen [OF s4(3) rd] by simp_all
  have k: "held (IIC_NAck g)" "syms (IIC_NAck g) = syms g @ [Bit (Some True)]"
    using g(1) by (auto simp: held_def syms_def observe_append IIC_NAck_def)
  have "W24256_Byte_Read dev x h = (v, IIC_Stop (IIC_NAck g))"
    using rd by (simp add: W24256_Byte_Read_def s1(2) s2(2) s3(2) s4(2) Let_def)
  moreover have "syms (IIC_Stop (IIC_NAck g)) = syms (IIC_NAck g) @ [Stop]"
    using IIC_Stop_seen(2) [of "IIC_NAck g"] k(1) by simp
  ultimately show ?thesis
    using k(2) g(2) s4(4) r3(2) s3(4) s2(4) s1(4) r0(2) by (simp add: two_byte_address_def bytes)
qed

section \<open>Properties\<close>

text \<open>C35: Writing a buffer page by page is byte-wise writing, whatever the device answers: of the bytes
  up to the next page boundary and of the rest modulo 4096, since the page counter has eight bits.\<close>

theorem eeprom_buffer_write_equiv:
  "eeprom_buffer_write dev buf a n h = AT24CXX_Write dev a buf (written a n) h"
  by (rule buffer_write_eq)

text \<open>C36: On a free bus, and whatever the device answers, writing a buffer puts on the wire, between a
  start and a stop condition each, one transfer per byte with consecutive addresses, most
  significant bits first, and nothing else; the bus is at rest afterwards.\<close>

theorem eeprom_buffer_write_wire:
  assumes "resting h" and "written a n \<le> length buf"
  shows "\<exists>g R. eeprom_buffer_write dev buf a n h = Some g \<and> resting g \<and> (\<forall>k. answers (R k))
    \<and> syms g = syms h @ concat (map (\<lambda>k. write_syms (a + of_nat k) (buf ! k) (R k)) [0..<written a n])"
  unfolding buffer_write_eq by (rule Write_seen [OF assms])

theorem eeprom_buffer_write_wire_witness:
  "\<exists>g R. eeprom_buffer_write (\<lambda>_. False) [0xAA] 0 1 [] = Some g \<and> syms g = write_syms 0 0xAA R"
proof -
  have "written 0 1 \<le> length [0xAA :: u8]" "resting []" "written 0 1 = 1" by (simp_all add: written_def)
  with eeprom_buffer_write_wire [of "[]" 0 1 "[0xAA]" "\<lambda>_. False"]
  obtain g R where "eeprom_buffer_write (\<lambda>_. False) [0xAA] 0 1 [] = Some g" "syms g = write_syms 0 0xAA (R 0)"
    by auto
  then show ?thesis by blast
qed

text \<open>The two families of routines do not address the same cells: writing the value \<open>v\<close> at an
  address below 256 with the routines the start-up code writes with is, bit for bit, the address
  phase of the routines it reads with, for the address whose low byte is \<open>v\<close>, and no data follow.\<close>

lemma eeprom_addresses_disagree:
  assumes "obliging dev" and "resting h" and "a < 256"
  shows "syms (AT24CXX_WriteOneByte dev a v h) = syms h @ Start # two_byte_address (join16 (ucast a) v) @ [Stop]
    \<and> syms (snd (W24256_Byte_Read dev (join16 (ucast a) v) h)) =
        syms h @ Start # two_byte_address (join16 (ucast a) v)
        @ Start # byte_syms 0xA1 0 @ released 8 @ [Bit (Some True), Bit (Some True), Stop]"
proof -
  have "unat a < 256" using assms(3) by (simp add: word_less_nat_alt)
  then have "unat (a div 256) = 0" "unat (a mod 256) = unat a" by (simp_all add: unat_div unat_mod)
  then have "a div 256 = 0" "a mod 256 = a" by (metis unat_eq_0, metis unsigned_word_eqI)
  then have dev: "device_byte a = 0xA0" "a mod 256 = a" by (simp_all add: device_byte_def)
  let ?h0 = "IIC_Start h"
  have r0: "resting ?h0" "syms ?h0 = syms h @ [Start]" using IIC_Start_seen [OF assms(2)] by simp_all
  note s1 = obliging_send [OF assms(1) r0(1), of "0xA0"]
  note s2 = obliging_send [OF assms(1) s1(3), of "ucast a"]
  note s3 = obliging_send [OF assms(1) s2(3), of v]
  have "put_address dev a h = put_byte dev (ucast a) (put_byte dev 0xA0 ?h0)"
    using dev by (simp add: put_address_def small_device device_byte_def Let_def)
  then have "syms (AT24CXX_WriteOneByte dev a v h) = syms h @ Start # two_byte_address (join16 (ucast a) v) @ [Stop]"
    using IIC_Stop_seen(2) [OF s3(3)] s3(4) s2(4) s1(4) r0(2)
    by (simp add: AT24CXX_WriteOneByte_def two_byte_address_def)
  then show ?thesis using Byte_Read_seen [OF assms(1,2)] by blast
qed

end
