(* ===== verification/Rtc.thy ===== *)
theory Rtc
  imports Iic
begin

text \<open>
  The real-time clock of HARDWARE/bq32000/bq32000.c: register access over the bus, and the
  binary coded decimal fields of the clock registers.
\<close>

section \<open>Registers\<close>

abbreviation (input) BQ_SECONDS :: u8 where "BQ_SECONDS \<equiv> 0x00"
abbreviation (input) BQ_MINUTES :: u8 where "BQ_MINUTES \<equiv> 0x01"
abbreviation (input) BQ_CENT_HOURS :: u8 where "BQ_CENT_HOURS \<equiv> 0x02"
abbreviation (input) BQ_DAY :: u8 where "BQ_DAY \<equiv> 0x03"
abbreviation (input) BQ_DATE :: u8 where "BQ_DATE \<equiv> 0x04"
abbreviation (input) BQ_MONTH :: u8 where "BQ_MONTH \<equiv> 0x05"
abbreviation (input) BQ_YEARS :: u8 where "BQ_YEARS \<equiv> 0x06"
abbreviation (input) BQ_CFG2 :: u8 where "BQ_CFG2 \<equiv> 0x09"

record CSU_TIME =
  g_years :: u16
  g_month :: u8
  g_date :: u8
  g_hours :: u8
  g_minutes :: u8
  g_seconds :: u8

definition bq32000_ReadOneByte :: "device \<Rightarrow> u8 \<Rightarrow> bus \<Rightarrow> u8 \<times> bus" where
  "bq32000_ReadOneByte dev ReadAddr h =
     (let h = put_byte dev ReadAddr (put_byte dev 0xD0 (IIC_Start h));
          h = put_byte dev 0xD1 (IIC_Start h);
          (temp, h) = IIC_Read_Byte dev False h
      in (temp, IIC_Stop h))"

definition bq32000_WriteOneByte :: "device \<Rightarrow> u8 \<Rightarrow> u8 \<Rightarrow> bus \<Rightarrow> bus" where
  "bq32000_WriteOneByte dev WriteAddr DataToWrite h =
     (let h = put_byte dev DataToWrite (put_byte dev WriteAddr (put_byte dev 0xD0 (IIC_Start h)))
      in IIC_Stop h @ [Wait_ms 10])"

section \<open>Reading the clock\<close>

definition bq32000_ReadSeconds :: "device \<Rightarrow> bus \<Rightarrow> u8 \<times> bus" where
  "bq32000_ReadSeconds dev h =
     (let (temp, h) = bq32000_ReadOneByte dev BQ_SECONDS h;
          TenDigit = (drop_bit 4 temp AND 0x07) * 10; SingleDigit = temp AND 0x0F
      in (TenDigit + SingleDigit, h))"

definition bq32000_ReadMinutes :: "device \<Rightarrow> bus \<Rightarrow> u8 \<times> bus" where
  "bq32000_ReadMinutes dev h =
     (let (temp, h) = bq32000_ReadOneByte dev BQ_MINUTES h;
          TenDigit = (drop_bit 4 temp AND 0x07) * 10; SingleDigit = temp AND 0x0F
      in (TenDigit + SingleDigit, h))"

definition bq32000_ReadHours :: "device \<Rightarrow> bus \<Rightarrow> u8 \<times> bus" where
  "bq32000_ReadHours dev h =
     (let (temp, h) = bq32000_ReadOneByte dev BQ_CENT_HOURS h;
          TenDigit = (drop_bit 4 temp AND 0x03) * 10; SingleDigit = temp AND 0x0F
      in (TenDigit + SingleDigit, h))"

definition bq32000_ReadDay :: "device \<Rightarrow> bus \<Rightarrow> u8 \<times> bus" where
  "bq32000_ReadDay dev h =
     (let (temp, h) = bq32000_ReadOneByte dev BQ_DAY h; SingleDigit = temp AND 0x07
      in (SingleDigit, h))"

definition bq32000_ReadDate :: "device \<Rightarrow> bus \<Rightarrow> u8 \<times> bus" where
  "bq32000_ReadDate dev h =
     (let (temp, h) = bq32000_ReadOneByte dev BQ_DATE h;
          TenDigit = (drop_bit 4 temp AND 0x03) * 10; SingleDigit = temp AND 0x0F
      in (TenDigit + SingleDigit, h))"

definition bq32000_ReadMonth :: "device \<Rightarrow> bus \<Rightarrow> u8 \<times> bus" where
  "bq32000_ReadMonth dev h =
     (let (temp, h) = bq32000_ReadOneByte dev BQ_MONTH h;
          TenDigit = (drop_bit 4 temp AND 0x01) * 10; SingleDigit = temp AND 0x0F
      in (TenDigit + SingleDigit, h))"

definition bq32000_ReadYears :: "device \<Rightarrow> bus \<Rightarrow> u16 \<times> bus" where
  "bq32000_ReadYears dev h =
     (let (temp, h) = bq32000_ReadOneByte dev BQ_YEARS h;
          TenDigit = ucast (drop_bit 4 temp AND 0x0f) * 10; SingleDigit = temp AND 0x0F
      in (TenDigit + ucast SingleDigit, h))"

definition Get_CSU_time :: "device \<Rightarrow> bus \<Rightarrow> CSU_TIME \<times> bus" where
  "Get_CSU_time dev h =
     (let (y, h) = bq32000_ReadYears dev h;
          (mo, h) = bq32000_ReadMonth dev h;
          (d, h) = bq32000_ReadDate dev h;
          (hr, h) = bq32000_ReadHours dev h;
          (mi, h) = bq32000_ReadMinutes dev h;
          (sec, h) = bq32000_ReadSeconds dev h
      in (\<lparr>g_years = y, g_month = mo, g_date = d, g_hours = hr, g_minutes = mi, g_seconds = sec\<rparr>, h))"

section \<open>Setting the clock\<close>

definition bq32000_ConfigureSeconds :: "device \<Rightarrow> u8 \<Rightarrow> bus \<Rightarrow> bus" where
  "bq32000_ConfigureSeconds dev temp h =
     (let TenDigit = push_bit 4 (temp div 10); SingleDigit = temp mod 10
      in bq32000_WriteOneByte dev BQ_SECONDS (TenDigit OR SingleDigit) h)"

definition bq32000_ConfigureMinutes :: "device \<Rightarrow> u8 \<Rightarrow> bus \<Rightarrow> bus" where
  "bq32000_ConfigureMinutes dev temp h =
     (let TenDigit = push_bit 4 (temp div 10); SingleDigit = temp mod 10
      in bq32000_WriteOneByte dev BQ_MINUTES (TenDigit OR SingleDigit) h)"

definition bq32000_ConfigureHours :: "device \<Rightarrow> u8 \<Rightarrow> bus \<Rightarrow> bus" where
  "bq32000_ConfigureHours dev temp h =
     (let TenDigit = push_bit 4 (temp div 10); SingleDigit = temp mod 10
      in bq32000_WriteOneByte dev BQ_CENT_HOURS (TenDigit OR SingleDigit) h)"

definition bq32000_ConfigureDay :: "device \<Rightarrow> u8 \<Rightarrow> bus \<Rightarrow> bus" where
  "bq32000_ConfigureDay dev temp h = bq32000_WriteOneByte dev BQ_DAY temp h"

definition bq32000_ConfigureDate :: "device \<Rightarrow> u8 \<Rightarrow> bus \<Rightarrow> bus" where
  "bq32000_ConfigureDate dev temp h =
     (let TenDigit = push_bit 4 (temp div 10); SingleDigit = temp mod 10
      in bq32000_WriteOneByte dev BQ_DATE (TenDigit OR SingleDigit) h)"

definition bq32000_ConfigureMonth :: "device \<Rightarrow> u8 \<Rightarrow> bus \<Rightarrow> bus" where
  "bq32000_ConfigureMonth dev temp h =
     (let TenDigit = push_bit 4 (temp div 10); SingleDigit = temp mod 10
      in bq32000_WriteOneByte dev BQ_MONTH (TenDigit OR SingleDigit) h)"

text \<open>The year is a 16-bit value, but both digits are put into bytes.\<close>

definition bq32000_ConfigureYears :: "device \<Rightarrow> u16 \<Rightarrow> bus \<Rightarrow> bus" where
  "bq32000_ConfigureYears dev temp h =
     (let TenDigit = (ucast (push_bit 4 (temp div 10)) :: u8); SingleDigit = ucast (temp mod 10)
      in bq32000_WriteOneByte dev BQ_YEARS (TenDigit OR SingleDigit) h)"

definition Set_CSU_time :: "device \<Rightarrow> bus \<Rightarrow> bus" where
  "Set_CSU_time dev h = bq32000_WriteOneByte dev BQ_CFG2 0x0A h"

section \<open>Transfers on the wire\<close>

text \<open>Writing register \<open>reg\<close>, with the three answers of the device.\<close>

definition reg_write_syms :: "u8 \<Rightarrow> u8 \<Rightarrow> u8 \<times> u8 \<times> u8 \<Rightarrow> sym list" where
  "reg_write_syms reg v R = (case R of (r1, r2, r3) \<Rightarrow>
     Start # byte_syms 0xD0 r1 @ byte_syms reg r2 @ byte_syms v r3 @ [Stop])"

lemma bq32000_WriteOneByte_seen:
  assumes "resting h"
  obtains R where "answers R" and "resting (bq32000_WriteOneByte dev reg v h)"
    and "syms (bq32000_WriteOneByte dev reg v h) = syms h @ reg_write_syms reg v R"
proof -
  let ?s = "IIC_Start h"
  have s: "resting ?s" "syms ?s = syms h @ [Start]" using IIC_Start_seen [OF assms] by simp_all
  obtain r1 where r1: "r1 \<in> {0, 1}" "resting (put_byte dev 0xD0 ?s)"
    "syms (put_byte dev 0xD0 ?s) = syms ?s @ byte_syms 0xD0 r1"
    by (rule put_byte_seen [OF s(1)])
  obtain r2 where r2: "r2 \<in> {0, 1}" "resting (put_byte dev reg (put_byte dev 0xD0 ?s))"
    "syms (put_byte dev reg (put_byte dev 0xD0 ?s)) = syms (put_byte dev 0xD0 ?s) @ byte_syms reg r2"
    by (rule put_byte_seen [OF r1(2)])
  obtain r3 where "r3 \<in> {0, 1}" "resting (put_byte dev v (put_byte dev reg (put_byte dev 0xD0 ?s)))"
    "syms (put_byte dev v (put_byte dev reg (put_byte dev 0xD0 ?s)))
      = syms (put_byte dev reg (put_byte dev 0xD0 ?s)) @ byte_syms v r3"
    by (rule put_byte_seen [OF r2(2)])
  then show thesis
    using that [of "(r1, r2, r3)"] r1 r2 s(2) IIC_Stop_seen
    by (auto simp: bq32000_WriteOneByte_def answers_def reg_write_syms_def)
qed

section \<open>Binary coded decimals\<close>

definition bcd :: "u8 \<Rightarrow> u8" where
  "bcd t = push_bit 4 (t div 10) OR (t mod 10)"

definition unbcd :: "u8 \<Rightarrow> u8 \<Rightarrow> u8" where
  "unbcd m v = (drop_bit 4 v AND m) * 10 + (v AND 0x0F)"

lemma below_cases: "unat (t :: u8) < n \<Longrightarrow> \<forall>k \<in> set [0..<n]. P (of_nat k) \<Longrightarrow> P t"
  by (metis atLeastLessThan_iff atLeastLessThan_upt of_nat_unat ucast_id zero_le)

lemma unbcd_bcd:
  "unat t < 80 \<Longrightarrow> unbcd 0x07 (bcd t) = t" "unat t < 40 \<Longrightarrow> unbcd 0x03 (bcd t) = t"
  "unat t < 20 \<Longrightarrow> unbcd 0x01 (bcd t) = t" "unat t < 100 \<Longrightarrow> unbcd 0x0F (bcd t) = t"
  by (erule below_cases; code_simp)+

definition bcd_year :: "u16 \<Rightarrow> u8" where
  "bcd_year y = ucast (push_bit 4 (y div 10)) OR ucast (y mod 10)"

lemma year_below_cases: "unat (t :: u16) < n \<Longrightarrow> \<forall>k \<in> set [0..<n]. P (of_nat k) \<Longrightarrow> P t"
  by (metis atLeastLessThan_iff atLeastLessThan_upt of_nat_unat ucast_id zero_le)

lemma year_bcd: "unat y < 100 \<Longrightarrow>
    ucast (drop_bit 4 (bcd_year y) AND 0x0F) * 10 + ucast (bcd_year y AND 0x0F) = y"
  by (erule year_below_cases; code_simp)

section \<open>A chip that keeps its registers\<close>

text \<open>
  What the code relies on of the chip while its clock does not advance: \<open>mem h\<close> are the registers
  after the history \<open>h\<close> of the bus, a read gives the register and changes none, a write changes this
  register and no other.
\<close>

definition register_file :: "device \<Rightarrow> (bus \<Rightarrow> u8 \<Rightarrow> u8) \<Rightarrow> bool" where
  "register_file dev mem \<longleftrightarrow> (\<forall>h r v. resting h \<longrightarrow>
     fst (bq32000_ReadOneByte dev r h) = mem h r \<and> mem (snd (bq32000_ReadOneByte dev r h)) = mem h
     \<and> mem (bq32000_WriteOneByte dev r v h) = (mem h)(r := v))"

lemma bq32000_ReadOneByte_rests:
  assumes "resting h"
  shows "resting (snd (bq32000_ReadOneByte dev reg h))"
proof -
  have s: "resting (IIC_Start g)" if "resting g" for g using IIC_Start_seen [OF that] by simp
  have p: "resting (put_byte dev b g)" if "resting g" for b g using put_byte_seen [OF that] by metis
  have r: "resting (snd (IIC_Read_Byte dev False g))" if "resting g" for g
    using IIC_Read_Byte_seen [OF that] by (metis prod.collapse resting_intros(2))
  have "resting (IIC_Stop g)" if "resting g" for g using IIC_Stop_seen [OF that] by simp
  then show ?thesis using assms s p r by (simp add: bq32000_ReadOneByte_def case_prod_beta Let_def)
qed

text \<open>The time that is read, as a function of the registers.\<close>

definition time_of :: "(u8 \<Rightarrow> u8) \<Rightarrow> CSU_TIME" where
  "time_of m = \<lparr>g_years = ucast (drop_bit 4 (m BQ_YEARS) AND 0x0F) * 10 + ucast (m BQ_YEARS AND 0x0F),
     g_month = unbcd 0x01 (m BQ_MONTH), g_date = unbcd 0x03 (m BQ_DATE), g_hours = unbcd 0x03 (m BQ_CENT_HOURS),
     g_minutes = unbcd 0x07 (m BQ_MINUTES), g_seconds = unbcd 0x07 (m BQ_SECONDS)\<rparr>"

lemmas read_defs = bq32000_ReadSeconds_def bq32000_ReadMinutes_def bq32000_ReadHours_def
  bq32000_ReadDate_def bq32000_ReadMonth_def bq32000_ReadYears_def

lemmas configure_defs = bq32000_ConfigureSeconds_def bq32000_ConfigureMinutes_def
  bq32000_ConfigureHours_def bq32000_ConfigureDate_def bq32000_ConfigureMonth_def bq32000_ConfigureYears_def

lemma Get_CSU_time_result:
  assumes chip: "register_file dev mem" and rest: "resting h"
  shows "fst (Get_CSU_time dev h) = time_of (mem h)"
proof -
  define h1 where "h1 = snd (bq32000_ReadOneByte dev BQ_YEARS h)"
  define h2 where "h2 = snd (bq32000_ReadOneByte dev BQ_MONTH h1)"
  define h3 where "h3 = snd (bq32000_ReadOneByte dev BQ_DATE h2)"
  define h4 where "h4 = snd (bq32000_ReadOneByte dev BQ_CENT_HOURS h3)"
  define h5 where "h5 = snd (bq32000_ReadOneByte dev BQ_MINUTES h4)"
  note hs = h1_def h2_def h3_def h4_def h5_def
  have r: "resting h1" "resting h2" "resting h3" "resting h4" "resting h5"
    unfolding hs using rest by (simp_all add: bq32000_ReadOneByte_rests)
  have m: "mem (snd (bq32000_ReadOneByte dev r g)) = mem g" "fst (bq32000_ReadOneByte dev r g) = mem g r"
    if "resting g" for r g
    using chip that by (simp_all add: register_file_def)
  have e: "mem h1 = mem h" "mem h2 = mem h" "mem h3 = mem h" "mem h4 = mem h" "mem h5 = mem h"
    using m(1) [OF rest, of BQ_YEARS] m(1) [OF r(1), of BQ_MONTH] m(1) [OF r(2), of BQ_DATE]
      m(1) [OF r(3), of BQ_CENT_HOURS] m(1) [OF r(4), of BQ_MINUTES] by (simp_all add: hs)
  have "fst (bq32000_ReadOneByte dev BQ_YEARS h) = mem h BQ_YEARS" "fst (bq32000_ReadOneByte dev BQ_MONTH h1) = mem h BQ_MONTH"
    "fst (bq32000_ReadOneByte dev BQ_DATE h2) = mem h BQ_DATE" "fst (bq32000_ReadOneByte dev BQ_CENT_HOURS h3) = mem h BQ_CENT_HOURS"
    "fst (bq32000_ReadOneByte dev BQ_MINUTES h4) = mem h BQ_MINUTES" "fst (bq32000_ReadOneByte dev BQ_SECONDS h5) = mem h BQ_SECONDS"
    using m(2) [OF rest] m(2) [OF r(1)] m(2) [OF r(2)] m(2) [OF r(3)] m(2) [OF r(4)] m(2) [OF r(5)] e by simp_all
  then show ?thesis
    by (simp add: Get_CSU_time_def read_defs time_of_def unbcd_def case_prod_beta Let_def hs)
qed

lemma write_time:
  assumes "register_file dev mem" and "resting h"
  shows "fst (Get_CSU_time dev (bq32000_WriteOneByte dev r v h)) = time_of ((mem h)(r := v))"
proof -
  have "resting (bq32000_WriteOneByte dev r v h)"
    by (rule bq32000_WriteOneByte_seen [OF assms(2)])
  then show ?thesis using Get_CSU_time_result [OF assms(1)] assms by (simp add: register_file_def)
qed

section \<open>A concrete chip\<close>

text \<open>
  A chip that follows the symbols on the bus: after a start condition it takes its address, then a
  register number and bytes to store, or, addressed for reading, puts the bits of a register on the line.  It
  pulls the line low to acknowledge.  It serves to show that \<^const>\<open>register_file\<close> can hold.
\<close>

datatype chip_phase = Unaddressed | Address | Register | Store | Answer

record chip =
  cells :: "u8 \<Rightarrow> u8"
  pointer :: u8
  phase :: chip_phase
  got :: "bool list"
  sent :: nat

definition byte_of_bits :: "bool list \<Rightarrow> u8" where
  "byte_of_bits bs = horner_sum of_bool 2 (rev bs)"

fun chip_sym :: "sym \<Rightarrow> chip \<Rightarrow> chip" where
  "chip_sym Start c = c\<lparr>phase := Address, got := []\<rparr>"
| "chip_sym Stop c = c\<lparr>phase := Unaddressed, got := []\<rparr>"
| "chip_sym (Bit (Some b)) c =
     (if phase c = Answer then c\<lparr>phase := Unaddressed\<rparr> else c\<lparr>got := got c @ [b]\<rparr>)"
| "chip_sym (Bit None) c =
     (let v = byte_of_bits (got c); c' = c\<lparr>got := []\<rparr>
      in case phase c of
           Answer \<Rightarrow> c\<lparr>sent := Suc (sent c)\<rparr>
         | Address \<Rightarrow> if v = 0xD0 then c'\<lparr>phase := Register\<rparr>
                      else if v = 0xD1 then c'\<lparr>phase := Answer, sent := 0\<rparr> else c'\<lparr>phase := Unaddressed\<rparr>
         | Register \<Rightarrow> c'\<lparr>pointer := v, phase := Store\<rparr>
         | Store \<Rightarrow> c'\<lparr>cells := (cells c)(pointer c := v), pointer := pointer c + 1\<rparr>
         | Unaddressed \<Rightarrow> c')"

definition chip_init :: chip where
  "chip_init = \<lparr>cells = (\<lambda>_. 0), pointer = 0, phase = Unaddressed, got = [], sent = 0\<rparr>"

definition chip_of :: "bus \<Rightarrow> chip" where
  "chip_of h = fold chip_sym (syms h) chip_init"

definition chip_device :: device where
  "chip_device h = (let c = chip_of h in phase c = Answer \<and> bit (cells c (pointer c)) (7 - sent c))"

lemma chip_of_append: "syms g = syms h @ ss \<Longrightarrow> chip_of g = fold chip_sym ss (chip_of h)"
  by (simp add: chip_of_def)

lemma chip_driven: "phase c \<noteq> Answer \<Longrightarrow> fold chip_sym (driven bs) c = c\<lparr>got := got c @ bs\<rparr>"
  by (induction bs arbitrary: c) simp_all

lemma chip_released: "phase c = Answer \<Longrightarrow> fold chip_sym (released n) c = c\<lparr>sent := sent c + n\<rparr>"
  by (induction n arbitrary: c) simp_all

lemma byte_of_byte_bits: "byte_of_bits (byte_bits b) = b"
proof -
  have "rev (byte_bits b) = map (bit b) [0..<8]"
    by (simp add: byte_bits_def upt_rec numeral_eq_Suc)
  moreover have "horner_sum of_bool 2 (map (bit b) [0..<8]) = take_bit 8 b"
    by (rule horner_sum_bit_eq_take_bit)
  moreover have "take_bit 8 b = b" by (rule bit_word_eqI) (simp add: bit_take_bit_iff)
  ultimately show ?thesis by (simp add: byte_of_bits_def)
qed

text \<open>The chip acknowledges a byte when it is not being read, and processes it.\<close>

definition took_byte :: "u8 \<Rightarrow> chip \<Rightarrow> chip" where
  "took_byte b c = chip_sym (Bit None) (c\<lparr>got := byte_bits b\<rparr>)"

lemma chip_put_byte:
  assumes "resting h" and "phase (chip_of h) \<noteq> Answer" and "got (chip_of h) = []"
  shows "resting (put_byte chip_device b h)" and "chip_of (put_byte chip_device b h) = took_byte b (chip_of h)"
proof -
  let ?h = "IIC_Send_Byte b h" and ?c = "(chip_of h)\<lparr>got := byte_bits b\<rparr>"
  let ?w = "IIC_Send_Byte b h @ [Sda_in, Sda True, Wait_us 1, Scl True, Wait_us 1]"
  note sent = IIC_Send_Byte_seen [OF assms(1), of b]
  have "syms ?w = syms ?h"
    using sent(1) by (auto simp: held_def syms_def observe_append)
  then have w: "chip_of ?w = ?c"
    using chip_of_append [of ?w h "driven (byte_bits b)"] sent(2) chip_driven [OF assms(2)] assms(3) by simp
  then have "\<not> chip_device ?w" using assms(2) by (simp add: chip_device_def Let_def)
  then have ack: "IIC_Wait_Ack chip_device ?h = (0, ?w @ [Sampled False, Scl False])"
    by (simp add: IIC_Wait_Ack_def ack_loop.simps)
  then have g: "put_byte chip_device b h = ?w @ [Sampled False, Scl False]" by (simp add: put_byte_def)
  from send_ack_seen [OF assms(1) ack] show "resting (put_byte chip_device b h)"
    and "chip_of (put_byte chip_device b h) = took_byte b (chip_of h)"
    using chip_of_append [of "put_byte chip_device b h" h "driven (byte_bits b) @ [Bit None]"]
      chip_driven [OF assms(2), of "byte_bits b"] assms(3)
    by (simp_all add: g byte_syms_def ack_syms_def took_byte_def)
qed

lemma take_bit_top: "take_bit (Suc n) (a :: u8) = 2 ^ n * of_bool (bit a n) + take_bit n a"
proof -
  have "2 ^ n * of_bool (bit a n) + take_bit n a = push_bit n (of_bool (bit a n)) OR take_bit n a"
    unfolding push_bit_eq_mult mult.commute [of "2 ^ n"]
    by (rule disjunctive_add) (auto simp: bit_simps simp flip: push_bit_eq_mult)
  also have "\<dots> = take_bit (Suc n) a"
    by (rule bit_word_eqI) (auto simp: bit_simps less_Suc_eq)
  finally show ?thesis by simp
qed

lemma chip_read_bits:
  "reading pend h \<Longrightarrow> phase (chip_of h) = Answer \<Longrightarrow> n \<le> 8 \<Longrightarrow>
    sent (chip_of h) + (if pend then 1 else 0) = 8 - n \<Longrightarrow> V = cells (chip_of h) (pointer (chip_of h)) \<Longrightarrow>
    fst (read_bits chip_device n v h) = push_bit n v + take_bit n V"
proof (induction n arbitrary: v h pend)
  case (Suc n)
  let ?c = "h @ [Scl False, Wait_us 2, Scl True]"
  let ?g = "?c @ [Sampled (chip_device ?c), Wait_us 1]"
  have g: "reading True ?g" "syms ?g = syms h @ released (if pend then 1 else 0)"
    "syms ?c = syms h @ released (if pend then 1 else 0)"
    using Suc.prems(1) by (cases pend; auto simp: reading_def syms_def observe_append)+
  note c = chip_of_append [OF g(3), unfolded chip_released [OF Suc.prems(2)]]
    and gg = chip_of_append [OF g(2), unfolded chip_released [OF Suc.prems(2)]]
  have "7 - (8 - Suc n) = n" using Suc.prems(3) by simp
  then have level: "chip_device ?c = bit V n"
    using Suc.prems(2,4,5) by (simp add: chip_device_def c Let_def)
  let ?v = "if bit V n then push_bit 1 v + 1 else push_bit 1 v"
  have after: "phase (chip_of ?g) = Answer" "sent (chip_of ?g) + (if True then 1 else 0) = 8 - n"
    "V = cells (chip_of ?g) (pointer (chip_of ?g))"
    unfolding gg using Suc.prems(2-5) by simp_all
  have "fst (read_bits chip_device n ?v ?g) = push_bit n ?v + take_bit n V"
    using Suc.prems(3) by (intro Suc.IH [OF g(1) after(1) _ after(2,3)]) simp
  moreover have "push_bit n ?v = push_bit (Suc n) v + 2 ^ n * of_bool (bit V n)"
    by (simp add: push_bit_eq_mult distrib_left mult.commute)
  ultimately show ?case
    using level by (simp add: Let_def take_bit_top add.assoc)
qed simp

lemma chip_read_byte:
  assumes "resting h" and "phase (chip_of h) = Answer" and "sent (chip_of h) = 0"
  shows "fst (IIC_Read_Byte chip_device False h) = cells (chip_of h) (pointer (chip_of h))"
    and "resting (snd (IIC_Read_Byte chip_device False h))"
    and "cells (chip_of (snd (IIC_Read_Byte chip_device False h))) = cells (chip_of h)"
proof -
  obtain r g where rg: "IIC_Read_Byte chip_device False h = (r, g)" by force
  have start: "reading False (h @ [Sda_in])" "syms (h @ [Sda_in]) = syms h @ []"
    using assms(1) by (auto simp: reading_def resting_def free_def held_def syms_def observe_append)
  have s: "chip_of (h @ [Sda_in]) = chip_of h" using chip_of_append [OF start(2)] by simp
  let ?V = "cells (chip_of h) (pointer (chip_of h))"
  have "fst (read_bits chip_device 8 0 (h @ [Sda_in])) = push_bit 8 0 + take_bit 8 ?V"
    by (rule chip_read_bits [OF start(1)]) (simp_all add: s assms(2,3))
  moreover have "take_bit 8 ?V = ?V" by (rule bit_word_eqI) (simp add: bit_take_bit_iff)
  ultimately show "fst (IIC_Read_Byte chip_device False h) = ?V"
    by (simp add: IIC_Read_Byte_def case_prod_beta)
  have seen: "held g" "syms g = syms h @ released 8 @ [Bit (Some True)]"
    using IIC_Read_Byte_seen [OF assms(1) rg] by simp_all
  then show "resting (snd (IIC_Read_Byte chip_device False h))" by (simp add: rg)
  have "chip_of g = fold chip_sym (released 8 @ [Bit (Some True)]) (chip_of h)"
    by (rule chip_of_append [OF seen(2)])
  then show "cells (chip_of (snd (IIC_Read_Byte chip_device False h))) = cells (chip_of h)"
    using chip_released [OF assms(2), of 8] assms(2) by (simp only: rg snd_conv fold_append comp_apply) simp
qed

lemma chip_start:
  assumes "resting h"
  shows "resting (IIC_Start h)" and "chip_of (IIC_Start h) = (chip_of h)\<lparr>phase := Address, got := []\<rparr>"
  using IIC_Start_seen [OF assms] chip_of_append [of "IIC_Start h" h "[Start]"] by simp_all

lemma chip_stop:
  assumes "resting h"
  shows "resting (IIC_Stop h)" and "chip_of (IIC_Stop h) = (chip_of h)\<lparr>phase := Unaddressed, got := []\<rparr>"
  using IIC_Stop_seen [OF assms] chip_of_append [of "IIC_Stop h" h "[Stop]"] by simp_all

text \<open>The register number has been sent.\<close>

lemma chip_selects:
  assumes "resting h" and "g = put_byte chip_device r (put_byte chip_device 0xD0 (IIC_Start h))"
  shows "resting g" and "phase (chip_of g) = Store" and "pointer (chip_of g) = r" and "got (chip_of g) = []"
    and "cells (chip_of g) = cells (chip_of h)"
proof -
  note s = chip_start [OF assms(1)]
  let ?a = "put_byte chip_device 0xD0 (IIC_Start h)"
  have a: "resting ?a" "chip_of ?a = (chip_of h)\<lparr>phase := Register, got := []\<rparr>"
    using chip_put_byte [OF s(1), of "0xD0"] by (simp_all add: s(2) took_byte_def byte_of_byte_bits Let_def)
  have "resting g" "chip_of g = (chip_of h)\<lparr>phase := Store, got := [], pointer := r\<rparr>"
    unfolding assms(2) using chip_put_byte [OF a(1), of r]
    by (simp_all add: a(2) took_byte_def byte_of_byte_bits Let_def)
  then show "resting g" "phase (chip_of g) = Store" "pointer (chip_of g) = r" "got (chip_of g) = []"
    "cells (chip_of g) = cells (chip_of h)" by simp_all
qed

lemma chip_register_file: "register_file chip_device (\<lambda>h. cells (chip_of h))"
  unfolding register_file_def
proof (intro allI impI conjI)
  fix h r v assume rest: "resting h"
  define g where "g = put_byte chip_device r (put_byte chip_device 0xD0 (IIC_Start h))"
  note g = chip_selects [OF rest g_def]
  define u where "u = put_byte chip_device 0xD1 (IIC_Start g)"
  note s = chip_start [OF g(1)]
  have u: "resting u" "phase (chip_of u) = Answer" "sent (chip_of u) = 0" "pointer (chip_of u) = r"
    "cells (chip_of u) = cells (chip_of h)"
    unfolding u_def using chip_put_byte [OF s(1), of "0xD1"] g
    by (simp_all add: s(2) took_byte_def byte_of_byte_bits Let_def)
  note read = chip_read_byte [OF u(1-3)]
  have eq: "bq32000_ReadOneByte chip_device r h = (fst (IIC_Read_Byte chip_device False u),
      IIC_Stop (snd (IIC_Read_Byte chip_device False u)))"
    by (simp add: bq32000_ReadOneByte_def g_def u_def case_prod_beta Let_def)
  show "fst (bq32000_ReadOneByte chip_device r h) = cells (chip_of h) r"
    using read(1) by (simp add: eq u(4,5))
  show "cells (chip_of (snd (bq32000_ReadOneByte chip_device r h))) = cells (chip_of h)"
    using read(3) chip_stop(2) [OF read(2)] by (simp add: eq u(5))
  define d where "d = put_byte chip_device v g"
  have d: "resting d" "cells (chip_of d) = (cells (chip_of h))(r := v)"
    unfolding d_def using chip_put_byte [OF g(1), of v] g
    by (simp_all add: took_byte_def byte_of_byte_bits Let_def)
  have "chip_of (IIC_Stop d @ [Wait_ms 10]) = chip_of (IIC_Stop d)" by (simp add: chip_of_def)
  then show "cells (chip_of (bq32000_WriteOneByte chip_device r v h)) = (cells (chip_of h))(r := v)"
    using d(2) chip_stop(2) [OF d(1)] by (simp add: bq32000_WriteOneByte_def g_def [symmetric] d_def [symmetric] Let_def)
qed

section \<open>Properties\<close>

text \<open>C37: Setting and reading the clock fit together, on one chip that keeps its registers while its
  clock does not advance.  After each routine that sets a field, \<open>Get_CSU_time\<close> reads the time it would
  have read before, with this field alone replaced by the value set, as long as its tens fit the bits the
  read routine keeps (years below 100, months below 20, dates and hours below 40, minutes and seconds
  below 80).  \<open>Set_CSU_time\<close>, in which the calls of these routines are commented out, changes no field.\<close>

theorem clock_roundtrip:
  assumes "register_file dev mem" and "resting h" and "now_read = (\<lambda>g. fst (Get_CSU_time dev g))"
  shows "(unat y < 100 \<longrightarrow> now_read (bq32000_ConfigureYears dev y h) = (now_read h)\<lparr>g_years := y\<rparr>)
    \<and> (unat x < 20 \<longrightarrow> now_read (bq32000_ConfigureMonth dev x h) = (now_read h)\<lparr>g_month := x\<rparr>)
    \<and> (unat x < 40 \<longrightarrow> now_read (bq32000_ConfigureDate dev x h) = (now_read h)\<lparr>g_date := x\<rparr>)
    \<and> (unat x < 40 \<longrightarrow> now_read (bq32000_ConfigureHours dev x h) = (now_read h)\<lparr>g_hours := x\<rparr>)
    \<and> (unat x < 80 \<longrightarrow> now_read (bq32000_ConfigureMinutes dev x h) = (now_read h)\<lparr>g_minutes := x\<rparr>)
    \<and> (unat x < 80 \<longrightarrow> now_read (bq32000_ConfigureSeconds dev x h) = (now_read h)\<lparr>g_seconds := x\<rparr>)
    \<and> now_read (Set_CSU_time dev h) = now_read h"
proof -
  note w = write_time [OF assms(1,2)] and g = Get_CSU_time_result [OF assms(1,2)]
  note bcd = bcd_def [symmetric] bcd_year_def [symmetric]
  have "unat y < 100 \<longrightarrow> now_read (bq32000_ConfigureYears dev y h) = (now_read h)\<lparr>g_years := y\<rparr>"
    using year_bcd [of y] by (simp add: assms(3) configure_defs bcd w g time_of_def Let_def)
  moreover have "unat x < 20 \<longrightarrow> now_read (bq32000_ConfigureMonth dev x h) = (now_read h)\<lparr>g_month := x\<rparr>"
    by (simp add: assms(3) configure_defs bcd w g time_of_def unbcd_bcd Let_def)
  moreover have "unat x < 40 \<longrightarrow> now_read (bq32000_ConfigureDate dev x h) = (now_read h)\<lparr>g_date := x\<rparr>"
    "unat x < 40 \<longrightarrow> now_read (bq32000_ConfigureHours dev x h) = (now_read h)\<lparr>g_hours := x\<rparr>"
    by (simp_all add: assms(3) configure_defs bcd w g time_of_def unbcd_bcd Let_def)
  moreover have "unat x < 80 \<longrightarrow> now_read (bq32000_ConfigureMinutes dev x h) = (now_read h)\<lparr>g_minutes := x\<rparr>"
    "unat x < 80 \<longrightarrow> now_read (bq32000_ConfigureSeconds dev x h) = (now_read h)\<lparr>g_seconds := x\<rparr>"
    by (simp_all add: assms(3) configure_defs bcd w g time_of_def unbcd_bcd Let_def)
  moreover have "now_read (Set_CSU_time dev h) = now_read h"
    by (simp add: assms(3) Set_CSU_time_def w g time_of_def)
  ultimately show ?thesis by blast
qed

theorem clock_roundtrip_witness:
  "fst (Get_CSU_time chip_device (bq32000_ConfigureHours chip_device 23 [])) =
     \<lparr>g_years = 0, g_month = 0, g_date = 0, g_hours = 23, g_minutes = 0, g_seconds = 0\<rparr>"
proof -
  have r: "resting []" by simp
  have "fst (Get_CSU_time chip_device []) =
     \<lparr>g_years = 0, g_month = 0, g_date = 0, g_hours = 0, g_minutes = 0, g_seconds = 0\<rparr>"
    by (simp add: Get_CSU_time_result [OF chip_register_file r] time_of_def unbcd_def chip_of_def chip_init_def)
  then show ?thesis using clock_roundtrip [OF chip_register_file r refl, of 0 23] by simp
qed

end
