(* ===== verification/Spec2Isabelle.thy ===== *)
theory Spec2Isabelle
  imports Tasks Os_Create Malloc Eeprom Rtc
begin

text \<open>
  The firmware of the control unit (CSU) of a 30 kW induction-heating inverter, an STM32F407
  under uC/OS-III.  The CSU scans push buttons, temperature switches and contactors, talks to
  the power module (PTC) over CAN, and to a touch screen over RS-485.

  \<^bold>\<open>Parts and interaction.\<close>  USER/main.c holds the tasks.  The scan task runs \<open>read_io\<close>
  (HARDWARE/IO/io.c), which debounces the inputs, derives the alarm, fault and system state and
  moves the power command; it posts start and stop messages to the CAN task.  The screen task
  gets a message from the USART2 receive interrupt (HARDWARE/USART/usart.c), acknowledges it
  and posts the command to the CAN task; two software timers post the periodic queries.  The CAN
  task takes one message at a time, builds a packet (\<open>can2_data_packet\<close>), sends its frames
  (HARDWARE/CAN/can.c) and repeats a command until the CAN receive interrupt has stored the
  module's answer.  The tasks run under uC/OS-III (UCOSIII/uCOS-III/Source): they wait for
  messages and time, the system timer interrupt signals the tick task, which ends their delays,
  and the messages travel through the kernel's message queues.  The parameters live in an EEPROM and the time in a clock
  chip, both behind a two-wire bus driven by software (HARDWARE/IIC, 24CXX, bq32000).
  MALLOC/malloc.c manages the memory pools.

  \<^bold>\<open>Theories.\<close>
    \<^item> Prelude: 8, 16 and 32 bit words, checked block copies (\<open>poke\<close>, \<open>peek\<close>), shared lemmas.
    \<^item> Crc16: \<open>CRC16_XMODEM\<close> (can.c) and \<open>crc16_xmodem\<close> (crc16.h); linearity of the register,
      their equality, detection of bursts of bits.
    \<^item> Csu_State: the record \<open>csu\<close> of the global variables, the enumerations, and the parameter
      \<open>world\<close>: what interrupts and other tasks do during a delay (\<open>during\<close>), what the status
      register of the CAN controller shows at each read after each delay (\<open>tsr\<close>) and the input pins
      (\<open>pin_at\<close>) read.  Output is the list \<open>trace\<close> of events; \<open>emits\<close> picks the events of one task
      out of those the others add in its delays.
    \<^item> Can_Tx: packet builder and senders of can.c, \<open>CAN_Transmit\<close> and \<open>CAN_TransmitStatus\<close> of
      the peripheral library.  The builder is refined to an abstract packet, cut into segments.
    \<^item> Can_Rx: receive interrupts, reassembly (\<open>Can_ReadData\<close>) and analysis of messages.
    \<^item> Io_Scan: \<open>read_io\<close> and the indicator routines; samples, debouncing, priority of alarms
      (an order on \<open>ALARM_CODE\<close>), the power command as a transition system
      labelled with the buttons (\<open>power_step\<close>, \<open>react\<close>).
    \<^item> Screen: encoders, messages and receive interrupts of usart.c.
    \<^item> Control: \<open>poweron\<close>, \<open>poweroff\<close>, \<open>Set_ptcdata\<close> and one pass of each task's loop.
    \<^item> Tasks: the states the tasks, timers and interrupts reach from start-up (\<open>reach\<close>) and the
      invariant under which no pass reads a null pointer or leaves a buffer.
    \<^item> Os_Msg: os_msg.c on linked cells, refined to lists.  The locale \<open>bounded_fifo\<close> is what the
      users of a queue rely on; it is interpreted on the operations of the code as \<open>task_q\<close>.
    \<^item> Dll: doubly linked lists through \<open>NextPtr\<close> and \<open>PrevPtr\<close> fields, for the kernel's lists.
    \<^item> Os_Core: the record \<open>kernel\<close>, the priority bitmap (os_prio.c), the ready lists, the
      scheduler, interrupt entry and exit, the locking of the scheduler and the time slices
      (os_core.c), with the assembler they call.  The ready lists are refined to one list of tasks
      per priority.  The locale \<open>scheduler\<close> is what a caller relies on when it makes a task ready
      and calls the scheduler; it is interpreted as \<open>csu_sched\<close>.
    \<^item> Os_Tick, Os_Update: the wheel of delayed tasks (os_tick.c), sorted by remaining time, and
      the scan of one spoke at each tick.  Os_Inv: the lists after a scan.  Os_Time: os_time.c and
      SYSTEM/delay/delay.c.
    \<^item> Os_Task: waiting and posting, the message queue, the semaphore and the suspension of a task
      (os_task.c, with the routines of os_core.c below), the tick interrupt and the tick task.  A
      call that blocks ends with the switch to another task; its second half, which runs when the
      task is chosen again, is the definition \<open>..._resume\<close>.
    \<^item> Os_Service: each service keeps the invariant \<open>kernel_safe\<close> of the kernel and leaves the delays
      of other tasks alone (\<open>goes\<close>).  Os_Kernel: sequences of calls and interrupts (\<open>event\<close>,
      \<open>serve\<close>, \<open>perform\<close>).  The locale \<open>safe_calls\<close>, interpreted as \<open>csu_kernel\<close>, lifts the contracts
      of single events to sequences; a delay and a wait for a message are followed through them.
    \<^item> Os_Tmr: the wheel of software timers (os_tmr.c), ordered lists again.  Os_TmrTask: the services
      for timers and the timer task on the record \<open>os_sys\<close> (kernel, timers, calls made).  The
      functions a timer calls are a parameter there; the locale \<open>callbacks\<close> is what the task relies
      on, interpreted as \<open>csu_calls\<close> on the two functions of main.c.  Os_Timers: sequences of all
      calls (\<open>tmr_event\<close>), again through \<open>safe_calls\<close> (\<open>csu_timers\<close>), and one timer followed through
      them (\<open>timers_run\<close>).  Os_Create: \<open>OSTaskCreate\<close> with the frame the port builds on the new
      stack, on the record \<open>os_boot\<close> (kernel and timers, the stacks and the fields of the control
      blocks about them); a store outside the array of a stack is undefined there.
    \<^item> Malloc: malloc.c; the locale \<open>region_store\<close> is what the users of a pool rely on, interpreted
      on the operations of the code as \<open>pool\<close>.
    \<^item> Iic: myiic.c bit by bit over the history of the two lines, and an observer that reads start
      and stop conditions and bits off the lines; Eeprom and Rtc: the two chips' drivers on it.
      The clock chip is a parameter with the laws of a register file (\<open>register_file\<close>); a chip that
      follows the bus symbol by symbol (\<open>chip_device\<close>) shows that they can hold.

  \<^bold>\<open>Conventions.\<close>  A function of the code is a definition of the same name over the state.
  \<^const>\<open>None\<close> is undefined behaviour: an access outside a buffer or through a null pointer.
  A routine that sleeps applies \<open>during\<close>, so the theorems hold whatever runs meanwhile, within
  the conditions they name: \<open>sole_sender\<close> (the others may do anything but use the CAN bus, its transmit
  buffer and its identifier), \<open>free_mailbox\<close> (after every delay the controller has an empty mailbox;
  what it shows after a transmit request is open), \<open>scan_private\<close>, \<open>config_private\<close>, \<open>benign\<close>.  The
  stop command of the screen breaks \<open>sole_sender\<close> for a command of the CAN task and the other way round,
  since both tasks send from one buffer; the manifest records it.  \<open>idle_world\<close> is the concrete world of the
  examples, \<open>boot_kernel\<close>, \<open>two_tasks_run\<close>, \<open>example_kernel\<close> and \<open>example_system\<close> are concrete kernels.  The kernel
  runs its services with interrupts disabled or the scheduler locked, so a service is one step of
  the kernel model.

  \<^bold>\<open>Loops.\<close>  The retry loops of main.c are bounded by ten attempts (\<open>retry\<close>), the wait for the
  transmission of a frame by 0xFFF reads (\<open>can_wait\<close>), the wait for an acknowledge by 251 reads
  (\<open>ack_loop\<close>): these are total functions with the code's own bounds, no fuel is added.  The
  frame loop \<open>multi_loop\<close> counts in 8 bits against an arbitrary length and may not end; it is a
  partial function, proved to return for the lengths the packet builder produces.  The walks over
  a spoke of a wheel (\<open>tick_walk\<close>, \<open>tick_loop\<close>, \<open>tmr_walk\<close>, \<open>tmr_loop\<close>) and the wait of \<open>delay_us\<close>
  (\<open>us_loop\<close>) are partial functions too, proved to return on a well-formed wheel and for a timer that counts.

  \<^bold>\<open>Not modelled.\<close>  The register set-up of ports, timers, CAN controller and watchdog (constant
  writes); the log file (\<open>Write_TFCard\<close> formats a line and calls the vendored FatFs; the event
  \<open>LogWritten\<close> records it); \<open>plc_task\<close> and \<open>meter_task\<close>, whose loops discard what they receive;
  the start of the kernel, the deletion of tasks and the change of a priority, the
  kernel's shared objects (semaphores, mutexes, flags, queues, partitions) and its statistics.
  \<open>OSTimeSet\<close> is a definition but no event of Os_Kernel: it moves the clock past
  the tasks on the wheel.  A \<open>MATCH\<close> delay to a time in the past is excluded there (\<open>ahead\<close>); the
  manifest records it as a defect.  Also not modelled: the vendored libraries (FWLIB, FATFS, LWIP,
  uC-LIB, USMART) beyond the routines named above; wifi-config.c, compiled out of the start-up code, and the
  files that are not in the project (24CXX/M24256.c, HARDWARE/MALLOC).
\<close>

end
